(* ===== verification/GazerPrelude.thy ===== *)
theory GazerPrelude
  imports Main "HOL-Library.Signed_Division"
begin

text \<open>
  Shared vocabulary of the development: the result type of fallible C++ code, its sequencing
  operator, the machine integers of the sources (\<open>unsigned\<close> and \<open>long long\<close>) and the generic
  lemmas on results and lists that the component theories use.

  A C++ function that can hit a failed \<open>assert\<close>, an \<open>llvm_unreachable\<close>, a bad \<open>cast\<close>, a null
  dereference or undefined arithmetic returns a value of type \<open>'a res\<close>: \<open>Inl\<close> names the failure,
  \<open>Inr\<close> carries the returned value. Assertions are modelled as enabled.
\<close>

named_theorems res_simps "rewrite rules for results of fallible code"

datatype cpp_error =
    AssertFail        \<comment> \<open>a failed assert of the sources\<close>
  | Unreachable       \<comment> \<open>llvm_unreachable was reached\<close>
  | BadCast           \<comment> \<open>llvm::cast on a value of another class\<close>
  | NullDeref         \<comment> \<open>a dyn_cast result used without a null check\<close>
  | SignedOverflow    \<comment> \<open>signed 64-bit arithmetic out of range (undefined behaviour)\<close>
  | DivideByZero      \<comment> \<open>native division by zero (undefined behaviour)\<close>
  | LibraryAssert     \<comment> \<open>a precondition of an LLVM routine was violated\<close>
  | OutOfRange        \<comment> \<open>a vector access past its end\<close>
  | StackOverflow     \<comment> \<open>a recursion that does not end\<close>
  | Diverges          \<comment> \<open>a loop that does not end\<close>
  | IteratorInvalid   \<comment> \<open>a container is changed while it is iterated over\<close>

type_synonym 'a res = "cpp_error + 'a"

definition rbind :: "'a res \<Rightarrow> ('a \<Rightarrow> 'b res) \<Rightarrow> 'b res" where
  "rbind m f = (case m of Inl e \<Rightarrow> Inl e | Inr x \<Rightarrow> f x)"

definition check :: "bool \<Rightarrow> cpp_error \<Rightarrow> 'a res \<Rightarrow> 'a res" where
  "check b e m = (if b then m else Inl e)"

fun res_map :: "('a \<Rightarrow> 'b res) \<Rightarrow> 'a list \<Rightarrow> 'b list res" where
  "res_map f [] = Inr []"
| "res_map f (x # xs) = rbind (f x) (\<lambda>y. rbind (res_map f xs) (\<lambda>ys. Inr (y # ys)))"

fun for_each :: "('a \<Rightarrow> 's \<Rightarrow> 's res) \<Rightarrow> 'a list \<Rightarrow> 's \<Rightarrow> 's res" where
  "for_each f [] s = Inr s"
| "for_each f (x # xs) s = rbind (f x s) (for_each f xs)"

definition returned :: "'a res option \<Rightarrow> 'a res" where
  "returned r = (case r of None \<Rightarrow> Inl Diverges | Some x \<Rightarrow> x)"

definition of_lib :: "'a option \<Rightarrow> 'a res" where
  "of_lib r = (case r of None \<Rightarrow> Inl LibraryAssert | Some x \<Rightarrow> Inr x)"

text \<open>The arithmetic of the sources' \<open>unsigned\<close> (modulo \<open>2^32\<close>) and \<open>long long\<close> (undefined
  outside of the 64-bit signed range).\<close>

definition u32 :: "nat \<Rightarrow> nat" where
  "u32 n = n mod 2 ^ 32"

definition in_int64 :: "int \<Rightarrow> bool" where
  "in_int64 v \<longleftrightarrow> - (2 ^ 63) \<le> v \<and> v < 2 ^ 63"

definition i64 :: "int \<Rightarrow> int res" where
  "i64 v = (if in_int64 v then Inr v else Inl SignedOverflow)"

definition i64_div :: "int \<Rightarrow> int \<Rightarrow> int res" where
  "i64_div a b = (if b = 0 then Inl DivideByZero else i64 (a sdiv b))"

definition i64_rem :: "int \<Rightarrow> int \<Rightarrow> int res" where
  "i64_rem a b = (if b = 0 then Inl DivideByZero
     else rbind (i64 (a sdiv b)) (\<lambda>_. Inr (a smod b)))"

definition i64_abs :: "int \<Rightarrow> int res" where
  "i64_abs a = i64 \<bar>a\<bar>"

lemma rbind_Inr [simp, res_simps]: "rbind (Inr x) f = f x"
  by (simp add: rbind_def)

lemma rbind_Inl [simp, res_simps]: "rbind (Inl e) f = Inl e"
  by (simp add: rbind_def)

lemma rbind_eq_Inr [res_simps]: "rbind m f = Inr y \<longleftrightarrow> (\<exists>x. m = Inr x \<and> f x = Inr y)"
  by (cases m) auto

lemma rbind_eq_Inl [res_simps]:
  "rbind m f = Inl e \<longleftrightarrow> m = Inl e \<or> (\<exists>x. m = Inr x \<and> f x = Inl e)"
  by (cases m) auto

lemma check_True [simp, res_simps]: "check True e m = m"
  by (simp add: check_def)

lemma check_False [simp, res_simps]: "check False e m = Inl e"
  by (simp add: check_def)

lemma check_eq_Inr [res_simps]: "check b e m = Inr x \<longleftrightarrow> b \<and> m = Inr x"
  by (simp add: check_def)

lemma of_lib_eq_Inr [res_simps]: "of_lib r = Inr x \<longleftrightarrow> r = Some x"
  by (cases r) (auto simp: of_lib_def)

lemma of_lib_Some [simp]: "of_lib (Some x) = Inr x"
  by (simp add: of_lib_def)

lemma i64_eq_Inr [res_simps]: "i64 v = Inr w \<longleftrightarrow> w = v \<and> in_int64 v"
  by (auto simp: i64_def)

lemma res_map_eq_Inr [res_simps]:
  "res_map f xs = Inr ys \<longleftrightarrow> list_all2 (\<lambda>x y. f x = Inr y) xs ys"
  by (induction xs arbitrary: ys) (auto simp: rbind_eq_Inr list_all2_Cons1)

lemma res_map_append:
  "res_map f (xs @ ys) = rbind (res_map f xs) (\<lambda>us. rbind (res_map f ys) (\<lambda>vs. Inr (us @ vs)))"
proof (induction xs)
  case Nil
  show ?case by (cases "res_map f ys") auto
next
  case (Cons x xs)
  then show ?case
    by (cases "f x"; cases "res_map f xs"; cases "res_map f ys") auto
qed

lemma res_map_length: "res_map f xs = Inr ys \<Longrightarrow> length ys = length xs"
  by (auto simp: res_map_eq_Inr dest: list_all2_lengthD)

lemma res_map_cong [fundef_cong]:
  "xs = ys \<Longrightarrow> (\<And>x. x \<in> set ys \<Longrightarrow> f x = g x) \<Longrightarrow> res_map f xs = res_map g ys"
  by (induction ys arbitrary: xs) (auto simp: rbind_def split: sum.splits)

text \<open>Truncating division and remainder of the sources' native integers.\<close>

lemma smod_bounds:
  fixes a b :: int
  assumes "b \<noteq> 0"
  shows "\<bar>a smod b\<bar> < \<bar>b\<bar>"
proof -
  have "a smod b = sgn a * (\<bar>a\<bar> mod \<bar>b\<bar>)"
    by (simp add: signed_modulo_int_def)
  moreover have "\<bar>sgn a * (\<bar>a\<bar> mod \<bar>b\<bar>)\<bar> \<le> \<bar>a\<bar> mod \<bar>b\<bar>"
    using assms by (auto simp: abs_mult sgn_if)
  moreover have "\<bar>a\<bar> mod \<bar>b\<bar> < \<bar>b\<bar>"
    using assms by simp
  ultimately show ?thesis by linarith
qed

text \<open>An invariant of a loop over a list, with the state and the elements that are left.\<close>

lemma for_each_rule:
  assumes "for_each f xs s = Inr s'" and "P xs s"
    and "\<And>x ys s s'. P (x # ys) s \<Longrightarrow> f x s = Inr s' \<Longrightarrow> P ys s'"
  shows "P [] s'"
  using assms(1,2) by (induction xs arbitrary: s) (auto simp: rbind_eq_Inr dest: assms(3))

lemma for_each_total:
  assumes "P xs s" and "\<And>x ys s. P (x # ys) s \<Longrightarrow> \<exists>s'. f x s = Inr s' \<and> P ys s'"
  shows "\<exists>s'. for_each f xs s = Inr s' \<and> P [] s'"
  using assms(1)
proof (induction xs arbitrary: s)
  case (Cons x xs)
  from assms(2) [OF Cons.prems] obtain s1 where "f x s = Inr s1" "P xs s1" by blast
  with Cons.IH show ?case by auto
qed simp

lemma returned_Inr: "returned r = Inr x \<longleftrightarrow> r = Some (Inr x)"
  by (auto simp: returned_def split: option.splits)

end
