(* ===== verification/GazerTypes.thy ===== *)
theory GazerTypes
  imports GazerPrelude
begin

text \<open>
  The type system of the intermediate language: \<open>gazer::Type\<close> and its subclasses
  (\<^verbatim>\<open>include/gazer/Core/Type.h\<close>, \<^verbatim>\<open>src/Core/Type.cpp\<close>). There is a single \<open>GazerContext\<close>, so the
  comparison of contexts in \<open>Type::equals\<close> is always true and left out. A type is the data of its
  class, the storage of the context that makes types unique is structural equality of the data.
\<close>

datatype float_precision = Half | Single | Double | Quad

datatype gtype =
    BoolType
  | IntType
  | BvType nat
  | FloatType float_precision
  | RealType
  | ArrayType gtype gtype
  | TupleType "gtype list"
  | FunctionType gtype "gtype list"

text \<open>\<open>Type::TypeID\<close>, an enumeration compared by its numeric value.\<close>

fun getTypeID :: "gtype \<Rightarrow> nat" where
  "getTypeID BoolType = 0"
| "getTypeID IntType = 1"
| "getTypeID (BvType _) = 2"
| "getTypeID (FloatType _) = 3"
| "getTypeID RealType = 4"
| "getTypeID (ArrayType _ _) = 5"
| "getTypeID (TupleType _) = 6"
| "getTypeID (FunctionType _ _) = 7"

definition isPrimitiveType :: "gtype \<Rightarrow> bool" where
  "isPrimitiveType t \<longleftrightarrow> 0 \<le> getTypeID t \<and> getTypeID t \<le> 3"

definition isCompositeType :: "gtype \<Rightarrow> bool" where
  "isCompositeType t \<longleftrightarrow> 5 \<le> getTypeID t \<and> getTypeID t \<le> 7"

definition isBoolType :: "gtype \<Rightarrow> bool" where "isBoolType t \<longleftrightarrow> getTypeID t = 0"
definition isIntType :: "gtype \<Rightarrow> bool" where "isIntType t \<longleftrightarrow> getTypeID t = 1"
definition isBvType :: "gtype \<Rightarrow> bool" where "isBvType t \<longleftrightarrow> getTypeID t = 2"
definition isFloatType :: "gtype \<Rightarrow> bool" where "isFloatType t \<longleftrightarrow> getTypeID t = 3"
definition isRealType :: "gtype \<Rightarrow> bool" where "isRealType t \<longleftrightarrow> getTypeID t = 4"
definition isArrayType :: "gtype \<Rightarrow> bool" where "isArrayType t \<longleftrightarrow> getTypeID t = 5"
definition isTupleType :: "gtype \<Rightarrow> bool" where "isTupleType t \<longleftrightarrow> getTypeID t = 6"

definition isArithmeticType :: "gtype \<Rightarrow> bool" where
  "isArithmeticType t \<longleftrightarrow> isIntType t \<or> isRealType t"

text \<open>\<open>FloatType\<close>: the numeric value of the precision is the width, the component widths are
  tabulated.\<close>

fun getPrecisionWidth :: "float_precision \<Rightarrow> nat" where
  "getPrecisionWidth Half = 16"
| "getPrecisionWidth Single = 32"
| "getPrecisionWidth Double = 64"
| "getPrecisionWidth Quad = 128"

fun getExponentWidth :: "float_precision \<Rightarrow> nat" where
  "getExponentWidth Half = 5"
| "getExponentWidth Single = 8"
| "getExponentWidth Double = 11"
| "getExponentWidth Quad = 15"

fun getSignificandWidth :: "float_precision \<Rightarrow> nat" where
  "getSignificandWidth Half = 11"
| "getSignificandWidth Single = 24"
| "getSignificandWidth Double = 53"
| "getSignificandWidth Quad = 113"

text \<open>\<open>Type::equals\<close>. The final \<open>return true\<close> is reached for \<open>FunctionType\<close> too, whose result and
  parameter types are not compared.\<close>

fun type_equals :: "gtype \<Rightarrow> gtype \<Rightarrow> bool" where
  "type_equals (BvType w) (BvType v) = (w = v)"
| "type_equals (FloatType p) (FloatType q) = (p = q)"
| "type_equals (ArrayType i e) (ArrayType j f) = (type_equals i j \<and> type_equals e f)"
| "type_equals (TupleType ss) (TupleType ts) = list_all2 type_equals ss ts"
| "type_equals s t = (getTypeID s = getTypeID t)"

text \<open>The factories of the composite types, with their assertions.\<close>

definition ArrayType_Get :: "gtype \<Rightarrow> gtype \<Rightarrow> gtype" where
  "ArrayType_Get i e = ArrayType i e"

definition TupleType_Get :: "gtype list \<Rightarrow> gtype res" where
  "TupleType_Get ts = check (ts \<noteq> [] \<and> 2 \<le> length ts \<and> \<not> list_ex isTupleType ts) AssertFail
     (Inr (TupleType ts))"

text \<open>\<open>Type::getName\<close>; a function type falls out of the switch.\<close>

fun dec_digits :: "nat \<Rightarrow> string" where
  "dec_digits n = (if n < 10 then [char_of (48 + n)]
     else dec_digits (n div 10) @ [char_of (48 + n mod 10)])"

declare dec_digits.simps [simp del]

fun join_print :: "string list \<Rightarrow> string \<Rightarrow> string" where
  "join_print [] sep = ''''"
| "join_print [x] sep = x"
| "join_print (x # y # xs) sep = x @ sep @ join_print (y # xs) sep"

fun getName :: "gtype \<Rightarrow> string res" where
  "getName BoolType = Inr ''Bool''"
| "getName (BvType w) = Inr (''Bv'' @ dec_digits w)"
| "getName IntType = Inr ''Int''"
| "getName RealType = Inr ''Real''"
| "getName (FloatType p) = Inr (''Float'' @ dec_digits (getPrecisionWidth p))"
| "getName (ArrayType i e) = rbind (getName i) (\<lambda>si. rbind (getName e) (\<lambda>se.
     Inr (''['' @ si @ '' -> '' @ se @ '']'')))"
| "getName (TupleType ts) = rbind (res_map getName ts) (\<lambda>ss.
     Inr (''('' @ join_print ss '', '' @ '')''))"
| "getName (FunctionType r ps) = Inl Unreachable"

text \<open>Types without a function type inside, the only ones the rest of the program builds
  (the factory of \<open>FunctionType\<close> is private and never defined).\<close>

fun function_free :: "gtype \<Rightarrow> bool" where
  "function_free (ArrayType i e) = (function_free i \<and> function_free e)"
| "function_free (TupleType ts) = list_all function_free ts"
| "function_free (FunctionType r ps) = False"
| "function_free t = True"

lemma isBoolType_simp [simp]: "isBoolType t \<longleftrightarrow> t = BoolType"
  by (cases t) (auto simp: isBoolType_def)

lemma isIntType_simp [simp]: "isIntType t \<longleftrightarrow> t = IntType"
  by (cases t) (auto simp: isIntType_def)

lemma isRealType_simp [simp]: "isRealType t \<longleftrightarrow> t = RealType"
  by (cases t) (auto simp: isRealType_def)

lemma isBvType_simp [simp]: "isBvType t \<longleftrightarrow> (\<exists>w. t = BvType w)"
  by (cases t) (auto simp: isBvType_def)

lemma isFloatType_simp [simp]: "isFloatType t \<longleftrightarrow> (\<exists>p. t = FloatType p)"
  by (cases t) (auto simp: isFloatType_def)

lemma isArrayType_simp [simp]: "isArrayType t \<longleftrightarrow> (\<exists>i e. t = ArrayType i e)"
  by (cases t) (auto simp: isArrayType_def)

lemma isTupleType_simp [simp]: "isTupleType t \<longleftrightarrow> (\<exists>ts. t = TupleType ts)"
  by (cases t) (auto simp: isTupleType_def)

lemma type_equals_refl [simp]: "type_equals t t"
  by (induction t rule: gtype.induct) (auto simp: list.rel_refl_strong intro: list.rel_refl_strong)

lemma type_equals_list_sound:
  assumes "list_all2 type_equals ss ts" and "list_all function_free ss"
    and "\<And>s t. s \<in> set ss \<Longrightarrow> type_equals s t \<Longrightarrow> function_free s \<Longrightarrow> s = t"
  shows "ss = ts"
  using assms by (induction rule: list_all2_induct) auto

lemma type_equals_sound: "type_equals s t \<Longrightarrow> function_free s \<Longrightarrow> s = t"
proof (induction s arbitrary: t)
  case (TupleType ss)
  then obtain ts where t: "t = TupleType ts" and "list_all2 type_equals ss ts"
    by (cases t) auto
  moreover have "list_all function_free ss" using TupleType.prems by simp
  ultimately show ?case using TupleType.IH type_equals_list_sound by blast
next
  case (ArrayType i e)
  then show ?case by (cases t) auto
next
  case (BvType w)
  then show ?case by (cases t) auto
next
  case (FloatType p)
  then show ?case by (cases t) auto
qed (case_tac t, auto)+

text \<open>
  \<open>Type::equals\<close> decides equality of types: for every type the program can build (no function
  type inside), it returns true exactly when both are the same type.
\<close>

theorem type_equals_iff: "function_free s \<Longrightarrow> type_equals s t \<longleftrightarrow> s = t"
  using type_equals_sound by auto

theorem type_equals_iff_witness:
  "function_free (ArrayType (BvType 32) (TupleType [BoolType, IntType])) \<and>
   \<not> type_equals (ArrayType (BvType 32) (TupleType [BoolType, IntType]))
       (ArrayType (BvType 32) (TupleType [IntType, BoolType]))"
  using type_equals_iff [of "ArrayType (BvType 32) (TupleType [BoolType, IntType])"] by simp

text \<open>\<open>Type::equals\<close> identifies any two function types.\<close>

lemma type_equals_function_types: "type_equals (FunctionType r ps) (FunctionType r' ps')"
  by simp

end
