(* ===== verification/GazerLlvm.thy ===== *)
theory GazerLlvm
  imports GazerTypes
begin

text \<open>
  The LLVM support library as a parameter of the model. The sources compute on \<open>llvm::APInt\<close> and
  \<open>llvm::APFloat\<close>, whose code is not part of the repository. Their values are the data the
  documentation gives them (a width and a bit pattern); their routines are the fields of the
  record \<open>llvm_api\<close>, an argument of every definition that calls them. A routine that asserts a
  precondition returns an option, \<open>None\<close> for a violated one.

  The predicates \<open>..._laws\<close> state the documented behaviour the sources rely on; theorems take them
  as hypotheses. The record \<open>doc_llvm\<close> computes what the documentation says and satisfies
  them, it is used to evaluate concrete inputs.
\<close>

unbundle bit_operations_syntax

datatype apint = APInt (getBitWidth: nat) (apBits: nat)

datatype apfloat = APFloat (fpPrecision: float_precision) (fpBits: nat)

definition apint_ok :: "apint \<Rightarrow> bool" where
  "apint_ok a \<longleftrightarrow> 0 < getBitWidth a \<and> apBits a < 2 ^ getBitWidth a"

definition mk_ap :: "nat \<Rightarrow> int \<Rightarrow> apint" where
  "mk_ap w v = APInt w (nat (v mod 2 ^ w))"

definition uval :: "apint \<Rightarrow> int" where
  "uval a = int (apBits a)"

definition sval :: "apint \<Rightarrow> int" where
  "sval a = (if 2 * apBits a < 2 ^ getBitWidth a then int (apBits a)
             else int (apBits a) - 2 ^ getBitWidth a)"

record llvm_api =
  apAdd :: "apint \<Rightarrow> apint \<Rightarrow> apint"
  apSub :: "apint \<Rightarrow> apint \<Rightarrow> apint"
  apMul :: "apint \<Rightarrow> apint \<Rightarrow> apint"
  apUDiv :: "apint \<Rightarrow> apint \<Rightarrow> apint option"
  apSDiv :: "apint \<Rightarrow> apint \<Rightarrow> apint option"
  apURem :: "apint \<Rightarrow> apint \<Rightarrow> apint option"
  apSRem :: "apint \<Rightarrow> apint \<Rightarrow> apint option"
  apShl :: "apint \<Rightarrow> apint \<Rightarrow> apint"
  apLShr :: "apint \<Rightarrow> apint \<Rightarrow> apint"
  apAShr :: "apint \<Rightarrow> apint \<Rightarrow> apint"
  apShlN :: "apint \<Rightarrow> nat \<Rightarrow> apint option"
  apLShrN :: "apint \<Rightarrow> nat \<Rightarrow> apint option"
  apAShrN :: "apint \<Rightarrow> nat \<Rightarrow> apint option"
  apLimited :: "apint \<Rightarrow> nat"
  apAnd :: "apint \<Rightarrow> apint \<Rightarrow> apint"
  apOr :: "apint \<Rightarrow> apint \<Rightarrow> apint"
  apXor :: "apint \<Rightarrow> apint \<Rightarrow> apint"
  apZExt :: "apint \<Rightarrow> nat \<Rightarrow> apint option"
  apSExt :: "apint \<Rightarrow> nat \<Rightarrow> apint option"
  apExtract :: "apint \<Rightarrow> nat \<Rightarrow> nat \<Rightarrow> apint option"
  apEq :: "apint \<Rightarrow> apint \<Rightarrow> bool"
  apSlt :: "apint \<Rightarrow> apint \<Rightarrow> bool"
  apSle :: "apint \<Rightarrow> apint \<Rightarrow> bool"
  apSgt :: "apint \<Rightarrow> apint \<Rightarrow> bool"
  apSge :: "apint \<Rightarrow> apint \<Rightarrow> bool"
  apUlt :: "apint \<Rightarrow> apint \<Rightarrow> bool"
  apUle :: "apint \<Rightarrow> apint \<Rightarrow> bool"
  apUgt :: "apint \<Rightarrow> apint \<Rightarrow> bool"
  apUge :: "apint \<Rightarrow> apint \<Rightarrow> bool"
  apIsZero :: "apint \<Rightarrow> bool"
  apIsOne :: "apint \<Rightarrow> bool"
  apIsAllOnes :: "apint \<Rightarrow> bool"
  apOfNat :: "nat \<Rightarrow> nat \<Rightarrow> apint"
  fpIsNaN :: "apfloat \<Rightarrow> bool"
  fpIsInf :: "apfloat \<Rightarrow> bool"
  fpToBits :: "apfloat \<Rightarrow> apint"
  fpOfBits :: "float_precision \<Rightarrow> apint \<Rightarrow> apfloat option"

text \<open>Documented behaviour: modular arithmetic on operands of one width.\<close>

definition same_width :: "apint \<Rightarrow> apint \<Rightarrow> bool" where
  "same_width a b \<longleftrightarrow> apint_ok a \<and> apint_ok b \<and> getBitWidth a = getBitWidth b"

definition arith_laws :: "llvm_api \<Rightarrow> bool" where
  "arith_laws L \<longleftrightarrow> (\<forall>a b. same_width a b \<longrightarrow>
     apAdd L a b = mk_ap (getBitWidth a) (uval a + uval b) \<and>
     apSub L a b = mk_ap (getBitWidth a) (uval a - uval b) \<and>
     apMul L a b = mk_ap (getBitWidth a) (uval a * uval b))"

definition div_laws :: "llvm_api \<Rightarrow> bool" where
  "div_laws L \<longleftrightarrow> (\<forall>a b. same_width a b \<and> apBits b \<noteq> 0 \<longrightarrow>
     apUDiv L a b = Some (mk_ap (getBitWidth a) (uval a div uval b)) \<and>
     apURem L a b = Some (mk_ap (getBitWidth a) (uval a mod uval b)) \<and>
     apSDiv L a b = Some (mk_ap (getBitWidth a) (sval a sdiv sval b)) \<and>
     apSRem L a b = Some (mk_ap (getBitWidth a) (sval a smod sval b)))
   \<and> (\<forall>a b. apBits b = 0 \<longrightarrow>
     apUDiv L a b = None \<and> apURem L a b = None \<and> apSDiv L a b = None \<and> apSRem L a b = None)"

definition shift_laws :: "llvm_api \<Rightarrow> bool" where
  "shift_laws L \<longleftrightarrow> (\<forall>a b. same_width a b \<longrightarrow>
     apShl L a b = mk_ap (getBitWidth a) (uval a * 2 ^ min (apBits b) (getBitWidth a)) \<and>
     apLShr L a b = mk_ap (getBitWidth a) (uval a div 2 ^ min (apBits b) (getBitWidth a)) \<and>
     apAShr L a b = mk_ap (getBitWidth a) (sval a div 2 ^ min (apBits b) (getBitWidth a)))
   \<and> (\<forall>a n. apint_ok a \<and> n \<le> getBitWidth a \<longrightarrow>
     apShlN L a n = Some (mk_ap (getBitWidth a) (uval a * 2 ^ n)) \<and>
     apLShrN L a n = Some (mk_ap (getBitWidth a) (uval a div 2 ^ n)) \<and>
     apAShrN L a n = Some (mk_ap (getBitWidth a) (sval a div 2 ^ n)))
   \<and> (\<forall>a n. getBitWidth a < n \<longrightarrow>
     apShlN L a n = None \<and> apLShrN L a n = None \<and> apAShrN L a n = None)
   \<and> (\<forall>a. apLimited L a = min (apBits a) (2 ^ 64 - 1))"

definition bit_laws :: "llvm_api \<Rightarrow> bool" where
  "bit_laws L \<longleftrightarrow> (\<forall>a b. same_width a b \<longrightarrow>
     apAnd L a b = APInt (getBitWidth a) (apBits a AND apBits b) \<and>
     apOr L a b = APInt (getBitWidth a) (apBits a OR apBits b) \<and>
     apXor L a b = APInt (getBitWidth a) (apBits a XOR apBits b))"

definition cast_laws :: "llvm_api \<Rightarrow> bool" where
  "cast_laws L \<longleftrightarrow> (\<forall>a w. apint_ok a \<and> getBitWidth a < w \<longrightarrow>
     apZExt L a w = Some (mk_ap w (uval a)) \<and>
     apSExt L a w = Some (mk_ap w (sval a)))
   \<and> (\<forall>a n p. apint_ok a \<and> 0 < n \<and> p + n \<le> getBitWidth a \<longrightarrow>
     apExtract L a n p = Some (mk_ap n (uval a div 2 ^ p)))
   \<and> (\<forall>a w r. apZExt L a w = Some r \<or> apSExt L a w = Some r \<longrightarrow> getBitWidth r = w)
   \<and> (\<forall>a n p r. apExtract L a n p = Some r \<longrightarrow> getBitWidth r = n)
   \<and> (\<forall>w v. 0 < w \<longrightarrow> apOfNat L w v = mk_ap w (int v))"

definition test_laws :: "llvm_api \<Rightarrow> bool" where
  "test_laws L \<longleftrightarrow> (\<forall>a b. same_width a b \<longrightarrow>
     (apEq L a b \<longleftrightarrow> apBits a = apBits b) \<and>
     (apUlt L a b \<longleftrightarrow> uval a < uval b) \<and> (apUle L a b \<longleftrightarrow> uval a \<le> uval b) \<and>
     (apUgt L a b \<longleftrightarrow> uval a > uval b) \<and> (apUge L a b \<longleftrightarrow> uval a \<ge> uval b) \<and>
     (apSlt L a b \<longleftrightarrow> sval a < sval b) \<and> (apSle L a b \<longleftrightarrow> sval a \<le> sval b) \<and>
     (apSgt L a b \<longleftrightarrow> sval a > sval b) \<and> (apSge L a b \<longleftrightarrow> sval a \<ge> sval b))
   \<and> (\<forall>a. apint_ok a \<longrightarrow>
     (apIsZero L a \<longleftrightarrow> apBits a = 0) \<and> (apIsOne L a \<longleftrightarrow> apBits a = 1) \<and>
     (apIsAllOnes L a \<longleftrightarrow> apBits a = 2 ^ getBitWidth a - 1))"

definition fp_laws :: "llvm_api \<Rightarrow> bool" where
  "fp_laws L \<longleftrightarrow>
     (\<forall>f. fpToBits L f = APInt (getPrecisionWidth (fpPrecision f)) (fpBits f))
   \<and> (\<forall>p a. fpOfBits L p a =
       (if getBitWidth a = getPrecisionWidth p then Some (APFloat p (apBits a)) else None))"

definition llvm_laws :: "llvm_api \<Rightarrow> bool" where
  "llvm_laws L \<longleftrightarrow> arith_laws L \<and> div_laws L \<and> shift_laws L \<and> bit_laws L \<and> cast_laws L
     \<and> test_laws L \<and> fp_laws L"

text \<open>An instance that computes the documented results.\<close>

definition guarded :: "bool \<Rightarrow> 'a \<Rightarrow> 'a option" where
  "guarded b x = (if b then Some x else None)"

definition fp_exponent :: "apfloat \<Rightarrow> nat" where
  "fp_exponent f = (fpBits f div 2 ^ (getSignificandWidth (fpPrecision f) - 1))
     mod 2 ^ getExponentWidth (fpPrecision f)"

definition fp_fraction :: "apfloat \<Rightarrow> nat" where
  "fp_fraction f = fpBits f mod 2 ^ (getSignificandWidth (fpPrecision f) - 1)"

definition doc_llvm :: llvm_api where
  "doc_llvm = \<lparr>
    apAdd = (\<lambda>a b. mk_ap (getBitWidth a) (uval a + uval b)),
    apSub = (\<lambda>a b. mk_ap (getBitWidth a) (uval a - uval b)),
    apMul = (\<lambda>a b. mk_ap (getBitWidth a) (uval a * uval b)),
    apUDiv = (\<lambda>a b. guarded (apBits b \<noteq> 0) (mk_ap (getBitWidth a) (uval a div uval b))),
    apSDiv = (\<lambda>a b. guarded (apBits b \<noteq> 0) (mk_ap (getBitWidth a) (sval a sdiv sval b))),
    apURem = (\<lambda>a b. guarded (apBits b \<noteq> 0) (mk_ap (getBitWidth a) (uval a mod uval b))),
    apSRem = (\<lambda>a b. guarded (apBits b \<noteq> 0) (mk_ap (getBitWidth a) (sval a smod sval b))),
    apShl = (\<lambda>a b. mk_ap (getBitWidth a) (uval a * 2 ^ min (apBits b) (getBitWidth a))),
    apLShr = (\<lambda>a b. mk_ap (getBitWidth a) (uval a div 2 ^ min (apBits b) (getBitWidth a))),
    apAShr = (\<lambda>a b. mk_ap (getBitWidth a) (sval a div 2 ^ min (apBits b) (getBitWidth a))),
    apShlN = (\<lambda>a n. guarded (n \<le> getBitWidth a) (mk_ap (getBitWidth a) (uval a * 2 ^ n))),
    apLShrN = (\<lambda>a n. guarded (n \<le> getBitWidth a) (mk_ap (getBitWidth a) (uval a div 2 ^ n))),
    apAShrN = (\<lambda>a n. guarded (n \<le> getBitWidth a) (mk_ap (getBitWidth a) (sval a div 2 ^ n))),
    apLimited = (\<lambda>a. min (apBits a) (2 ^ 64 - 1)),
    apAnd = (\<lambda>a b. APInt (getBitWidth a) (apBits a AND apBits b)),
    apOr = (\<lambda>a b. APInt (getBitWidth a) (apBits a OR apBits b)),
    apXor = (\<lambda>a b. APInt (getBitWidth a) (apBits a XOR apBits b)),
    apZExt = (\<lambda>a w. guarded (getBitWidth a < w) (mk_ap w (uval a))),
    apSExt = (\<lambda>a w. guarded (getBitWidth a < w) (mk_ap w (sval a))),
    apExtract = (\<lambda>a n p. guarded (0 < n \<and> p + n \<le> getBitWidth a) (mk_ap n (uval a div 2 ^ p))),
    apEq = (\<lambda>a b. apBits a = apBits b),
    apSlt = (\<lambda>a b. sval a < sval b), apSle = (\<lambda>a b. sval a \<le> sval b),
    apSgt = (\<lambda>a b. sval a > sval b), apSge = (\<lambda>a b. sval a \<ge> sval b),
    apUlt = (\<lambda>a b. uval a < uval b), apUle = (\<lambda>a b. uval a \<le> uval b),
    apUgt = (\<lambda>a b. uval a > uval b), apUge = (\<lambda>a b. uval a \<ge> uval b),
    apIsZero = (\<lambda>a. apBits a = 0), apIsOne = (\<lambda>a. apBits a = 1),
    apIsAllOnes = (\<lambda>a. apBits a = 2 ^ getBitWidth a - 1),
    apOfNat = (\<lambda>w v. mk_ap w (int v)),
    fpIsNaN = (\<lambda>f. fp_exponent f = 2 ^ getExponentWidth (fpPrecision f) - 1 \<and> fp_fraction f \<noteq> 0),
    fpIsInf = (\<lambda>f. fp_exponent f = 2 ^ getExponentWidth (fpPrecision f) - 1 \<and> fp_fraction f = 0),
    fpToBits = (\<lambda>f. APInt (getPrecisionWidth (fpPrecision f)) (fpBits f)),
    fpOfBits = (\<lambda>p a. guarded (getBitWidth a = getPrecisionWidth p) (APFloat p (apBits a))) \<rparr>"

lemma getBitWidth_mk_ap [simp]: "getBitWidth (mk_ap w v) = w"
  by (simp add: mk_ap_def)

lemma apint_ok_mk_ap [simp]: "apint_ok (mk_ap w v) \<longleftrightarrow> 0 < w"
  by (auto simp: apint_ok_def mk_ap_def nat_less_iff)

lemma mk_ap_uval: "apint_ok a \<Longrightarrow> getBitWidth a = w \<Longrightarrow> mk_ap w (uval a) = a"
  by (cases a) (simp add: mk_ap_def uval_def apint_ok_def mod_less zmod_int [symmetric]
    flip: of_nat_power of_nat_mod)

lemma doc_llvm_laws: "llvm_laws doc_llvm"
  by (auto simp: llvm_laws_def arith_laws_def div_laws_def shift_laws_def bit_laws_def cast_laws_def
    test_laws_def fp_laws_def doc_llvm_def guarded_def)

text \<open>The routines of the instance, one at a time, for evaluation.\<close>

lemma doc_llvm_routines:
  "apAdd doc_llvm = (\<lambda>a b. mk_ap (getBitWidth a) (uval a + uval b))"
  "apSub doc_llvm = (\<lambda>a b. mk_ap (getBitWidth a) (uval a - uval b))"
  "apMul doc_llvm = (\<lambda>a b. mk_ap (getBitWidth a) (uval a * uval b))"
  "apUDiv doc_llvm = (\<lambda>a b. guarded (apBits b \<noteq> 0) (mk_ap (getBitWidth a) (uval a div uval b)))"
  "apSDiv doc_llvm = (\<lambda>a b. guarded (apBits b \<noteq> 0) (mk_ap (getBitWidth a) (sval a sdiv sval b)))"
  "apURem doc_llvm = (\<lambda>a b. guarded (apBits b \<noteq> 0) (mk_ap (getBitWidth a) (uval a mod uval b)))"
  "apSRem doc_llvm = (\<lambda>a b. guarded (apBits b \<noteq> 0) (mk_ap (getBitWidth a) (sval a smod sval b)))"
  "apShl doc_llvm = (\<lambda>a b. mk_ap (getBitWidth a) (uval a * 2 ^ min (apBits b) (getBitWidth a)))"
  "apLShr doc_llvm = (\<lambda>a b. mk_ap (getBitWidth a) (uval a div 2 ^ min (apBits b) (getBitWidth a)))"
  "apAShr doc_llvm = (\<lambda>a b. mk_ap (getBitWidth a) (sval a div 2 ^ min (apBits b) (getBitWidth a)))"
  "apShlN doc_llvm = (\<lambda>a n. guarded (n \<le> getBitWidth a) (mk_ap (getBitWidth a) (uval a * 2 ^ n)))"
  "apLShrN doc_llvm = (\<lambda>a n. guarded (n \<le> getBitWidth a) (mk_ap (getBitWidth a) (uval a div 2 ^ n)))"
  "apAShrN doc_llvm = (\<lambda>a n. guarded (n \<le> getBitWidth a) (mk_ap (getBitWidth a) (sval a div 2 ^ n)))"
  "apLimited doc_llvm = (\<lambda>a. min (apBits a) (2 ^ 64 - 1))"
  "apAnd doc_llvm = (\<lambda>a b. APInt (getBitWidth a) (apBits a AND apBits b))"
  "apOr doc_llvm = (\<lambda>a b. APInt (getBitWidth a) (apBits a OR apBits b))"
  "apXor doc_llvm = (\<lambda>a b. APInt (getBitWidth a) (apBits a XOR apBits b))"
  "apZExt doc_llvm = (\<lambda>a w. guarded (getBitWidth a < w) (mk_ap w (uval a)))"
  "apSExt doc_llvm = (\<lambda>a w. guarded (getBitWidth a < w) (mk_ap w (sval a)))"
  "apExtract doc_llvm = (\<lambda>a n p. guarded (0 < n \<and> p + n \<le> getBitWidth a) (mk_ap n (uval a div 2 ^ p)))"
  "apEq doc_llvm = (\<lambda>a b. apBits a = apBits b)"
  "apSlt doc_llvm = (\<lambda>a b. sval a < sval b)"
  "apSle doc_llvm = (\<lambda>a b. sval a \<le> sval b)"
  "apSgt doc_llvm = (\<lambda>a b. sval a > sval b)"
  "apSge doc_llvm = (\<lambda>a b. sval a \<ge> sval b)"
  "apUlt doc_llvm = (\<lambda>a b. uval a < uval b)"
  "apUle doc_llvm = (\<lambda>a b. uval a \<le> uval b)"
  "apUgt doc_llvm = (\<lambda>a b. uval a > uval b)"
  "apUge doc_llvm = (\<lambda>a b. uval a \<ge> uval b)"
  "apIsZero doc_llvm = (\<lambda>a. apBits a = 0)"
  "apIsOne doc_llvm = (\<lambda>a. apBits a = 1)"
  "apIsAllOnes doc_llvm = (\<lambda>a. apBits a = 2 ^ getBitWidth a - 1)"
  "apOfNat doc_llvm = (\<lambda>w v. mk_ap w (int v))"
  "fpIsNaN doc_llvm = (\<lambda>f. fp_exponent f = 2 ^ getExponentWidth (fpPrecision f) - 1 \<and> fp_fraction f \<noteq> 0)"
  "fpIsInf doc_llvm = (\<lambda>f. fp_exponent f = 2 ^ getExponentWidth (fpPrecision f) - 1 \<and> fp_fraction f = 0)"
  "fpToBits doc_llvm = (\<lambda>f. APInt (getPrecisionWidth (fpPrecision f)) (fpBits f))"
  "fpOfBits doc_llvm = (\<lambda>p a. guarded (getBitWidth a = getPrecisionWidth p) (APFloat p (apBits a)))"
  by (simp_all add: doc_llvm_def)

text \<open>The identities of constant folding.\<close>

lemma mk_ap_sval: "apint_ok a \<Longrightarrow> getBitWidth a = w \<Longrightarrow> mk_ap w (sval a) = a"
proof -
  assume ok: "apint_ok a" "getBitWidth a = w"
  have "(int (apBits a) - 2 ^ w) mod 2 ^ w = int (apBits a) mod 2 ^ w"
    by (metis minus_mod_self2)
  then have "mk_ap w (sval a) = mk_ap w (uval a)"
    using ok by (simp add: mk_ap_def sval_def uval_def)
  with ok show ?thesis by (simp add: mk_ap_uval)
qed

lemma same_width_D: "same_width a b \<Longrightarrow> apint_ok a" "same_width a b \<Longrightarrow> apint_ok b"
    "same_width a b \<Longrightarrow> getBitWidth b = getBitWidth a"
  by (simp_all add: same_width_def)

lemma nat_bit_bounds:
  fixes x y :: nat
  assumes "x < 2 ^ w" and "y < 2 ^ w"
  shows "x AND y < 2 ^ w" and "x OR y < 2 ^ w" and "x XOR y < 2 ^ w"
proof -
  have "take_bit w x = x" "take_bit w y = y"
    using assms by (simp_all add: take_bit_nat_eq_self)
  then have "take_bit w (x AND y) = x AND y" "take_bit w (x OR y) = x OR y"
      "take_bit w (x XOR y) = x XOR y"
    by (simp_all add: take_bit_and take_bit_or take_bit_xor)
  then show "x AND y < 2 ^ w" "x OR y < 2 ^ w" "x XOR y < 2 ^ w"
    by (metis take_bit_nat_eq_self_iff)+
qed

text \<open>The laws one routine at a time.\<close>

lemma llvm_arith:
  assumes "llvm_laws L" and "same_width a b"
  shows "apAdd L a b = mk_ap (getBitWidth a) (uval a + uval b)"
    "apSub L a b = mk_ap (getBitWidth a) (uval a - uval b)"
    "apMul L a b = mk_ap (getBitWidth a) (uval a * uval b)"
  using assms by (simp_all add: llvm_laws_def arith_laws_def)

lemma llvm_div:
  assumes "llvm_laws L" and "same_width a b" and "apBits b \<noteq> 0"
  shows "apUDiv L a b = Some (mk_ap (getBitWidth a) (uval a div uval b))"
    "apURem L a b = Some (mk_ap (getBitWidth a) (uval a mod uval b))"
    "apSDiv L a b = Some (mk_ap (getBitWidth a) (sval a sdiv sval b))"
    "apSRem L a b = Some (mk_ap (getBitWidth a) (sval a smod sval b))"
  using assms by (simp_all add: llvm_laws_def div_laws_def)

lemma llvm_div_zero:
  assumes "llvm_laws L" and "apBits b = 0"
  shows "apUDiv L a b = None" "apURem L a b = None" "apSDiv L a b = None" "apSRem L a b = None"
  using assms by (simp_all add: llvm_laws_def div_laws_def)

lemma llvm_shift:
  assumes "llvm_laws L" and "same_width a b"
  shows "apShl L a b = mk_ap (getBitWidth a) (uval a * 2 ^ min (apBits b) (getBitWidth a))"
    "apLShr L a b = mk_ap (getBitWidth a) (uval a div 2 ^ min (apBits b) (getBitWidth a))"
    "apAShr L a b = mk_ap (getBitWidth a) (sval a div 2 ^ min (apBits b) (getBitWidth a))"
  using assms by (simp_all add: llvm_laws_def shift_laws_def)

lemma llvm_shift_n:
  assumes "llvm_laws L" and "apint_ok a"
  shows "apShlN L a n = (if n \<le> getBitWidth a then Some (mk_ap (getBitWidth a) (uval a * 2 ^ n)) else None)"
    "apLShrN L a n = (if n \<le> getBitWidth a then Some (mk_ap (getBitWidth a) (uval a div 2 ^ n)) else None)"
    "apAShrN L a n = (if n \<le> getBitWidth a then Some (mk_ap (getBitWidth a) (sval a div 2 ^ n)) else None)"
  using assms by (auto simp: llvm_laws_def shift_laws_def not_le)

lemma llvm_limited: "llvm_laws L \<Longrightarrow> apLimited L a = min (apBits a) (2 ^ 64 - 1)"
  by (simp add: llvm_laws_def shift_laws_def)

lemma llvm_bits:
  assumes "llvm_laws L" and "same_width a b"
  shows "apAnd L a b = APInt (getBitWidth a) (apBits a AND apBits b)"
    "apOr L a b = APInt (getBitWidth a) (apBits a OR apBits b)"
    "apXor L a b = APInt (getBitWidth a) (apBits a XOR apBits b)"
proof -
  have "bit_laws L" using assms(1) by (simp add: llvm_laws_def)
  then show "apAnd L a b = APInt (getBitWidth a) (apBits a AND apBits b)"
    "apOr L a b = APInt (getBitWidth a) (apBits a OR apBits b)"
    "apXor L a b = APInt (getBitWidth a) (apBits a XOR apBits b)"
    using assms(2) unfolding bit_laws_def by blast+
qed

lemma llvm_ext:
  assumes "llvm_laws L" and "apint_ok a" and "getBitWidth a < w"
  shows "apZExt L a w = Some (mk_ap w (uval a))" "apSExt L a w = Some (mk_ap w (sval a))"
  using assms unfolding llvm_laws_def cast_laws_def by blast+

lemma llvm_extract:
  assumes "llvm_laws L" and "apint_ok a" and "0 < n" and "p + n \<le> getBitWidth a"
  shows "apExtract L a n p = Some (mk_ap n (uval a div 2 ^ p))"
  using assms unfolding llvm_laws_def cast_laws_def by blast

lemma llvm_fp:
  assumes "llvm_laws L"
  shows "fpToBits L f = APInt (getPrecisionWidth (fpPrecision f)) (fpBits f)"
    "fpOfBits L p a = (if getBitWidth a = getPrecisionWidth p then Some (APFloat p (apBits a)) else None)"
  using assms by (simp_all add: llvm_laws_def fp_laws_def)

lemma llvm_tests:
  assumes "llvm_laws L" and "apint_ok a"
  shows "apIsZero L a \<longleftrightarrow> apBits a = 0" "apIsOne L a \<longleftrightarrow> apBits a = 1"
    "apIsAllOnes L a \<longleftrightarrow> apBits a = 2 ^ getBitWidth a - 1"
  using assms by (simp_all add: llvm_laws_def test_laws_def)

lemma llvm_eq: "llvm_laws L \<Longrightarrow> same_width a b \<Longrightarrow> apEq L a b \<longleftrightarrow> a = b"
  by (cases a; cases b) (simp add: llvm_laws_def test_laws_def same_width_def)

lemma bit_ops_ok:
  assumes "llvm_laws L" and "same_width a b"
  shows "apint_ok (apAnd L a b)" "apint_ok (apOr L a b)" "apint_ok (apXor L a b)"
    "getBitWidth (apAnd L a b) = getBitWidth a" "getBitWidth (apOr L a b) = getBitWidth a"
    "getBitWidth (apXor L a b) = getBitWidth a"
proof -
  have "apBits a < 2 ^ getBitWidth a" "apBits b < 2 ^ getBitWidth a" "0 < getBitWidth a"
    using assms(2) by (auto simp: same_width_def apint_ok_def)
  then show "apint_ok (apAnd L a b)" "apint_ok (apOr L a b)" "apint_ok (apXor L a b)"
    "getBitWidth (apAnd L a b) = getBitWidth a" "getBitWidth (apOr L a b) = getBitWidth a"
    "getBitWidth (apXor L a b) = getBitWidth a"
    by (simp_all add: llvm_bits [OF assms] apint_ok_def nat_bit_bounds)
qed

end
