(* ===== verification/GazerExpr.thy ===== *)
theory GazerExpr
  imports GazerLlvm
begin

text \<open>
  Expressions: the kinds of \<^verbatim>\<open>include/gazer/Core/Expr/ExprKind.def\<close>, the class hierarchy of
  \<^verbatim>\<open>include/gazer/Core/Expr.h\<close>, \<^verbatim>\<open>ExprTypes.h\<close> and \<^verbatim>\<open>LiteralExpr.h\<close>, the variables of \<^verbatim>\<open>Decl.h\<close>
  and the factories \<open>Create\<close> and \<open>Get\<close> of \<^verbatim>\<open>src/Core/Expr.cpp\<close> and \<^verbatim>\<open>LiteralExpr.cpp\<close> with
  their assertions.

  An expression is a tree. The context stores every expression once, so the pointer comparisons of
  the sources are equality of trees. A node of class \<open>NonNullaryExpr\<close> carries its kind, its type,
  its operands and the fields of its subclass (\<open>subclass_data\<close>). The typing relation
  \<open>well_typed\<close> is the specification the factories are checked against.
\<close>

datatype (plugins only: size code) expr_kind =
    Undef | LiteralK | VarRef | NotK | ZExt | SExt
  | Extract | Add | Sub | Mul | Div | Mod
  | Rem | BvSDiv | BvUDiv | BvSRem | BvURem | Shl
  | LShr | AShr | BvAnd | BvOr | BvXor | BvConcat
  | And | Or | Imply | Eq | NotEq | Lt
  | LtEq | Gt | GtEq | BvSLt | BvSLtEq | BvSGt
  | BvSGtEq | BvULt | BvULtEq | BvUGt | BvUGtEq | FIsNan
  | FIsInf | FCast | SignedToFp | UnsignedToFp | FpToSigned | FpToUnsigned
  | FpToBv | BvToFp | FAdd | FSub | FMul | FDiv
  | FEq | FGt | FGtEq | FLt | FLtEq | Select
  | ArrayRead | ArrayWrite | TupleSelect | TupleConstruct

primrec kind_index :: "expr_kind \<Rightarrow> nat" where
  "kind_index Undef = 0"
| "kind_index LiteralK = 1"
| "kind_index VarRef = 2"
| "kind_index NotK = 3"
| "kind_index ZExt = 4"
| "kind_index SExt = 5"
| "kind_index Extract = 6"
| "kind_index Add = 7"
| "kind_index Sub = 8"
| "kind_index Mul = 9"
| "kind_index Div = 10"
| "kind_index Mod = 11"
| "kind_index Rem = 12"
| "kind_index BvSDiv = 13"
| "kind_index BvUDiv = 14"
| "kind_index BvSRem = 15"
| "kind_index BvURem = 16"
| "kind_index Shl = 17"
| "kind_index LShr = 18"
| "kind_index AShr = 19"
| "kind_index BvAnd = 20"
| "kind_index BvOr = 21"
| "kind_index BvXor = 22"
| "kind_index BvConcat = 23"
| "kind_index And = 24"
| "kind_index Or = 25"
| "kind_index Imply = 26"
| "kind_index Eq = 27"
| "kind_index NotEq = 28"
| "kind_index Lt = 29"
| "kind_index LtEq = 30"
| "kind_index Gt = 31"
| "kind_index GtEq = 32"
| "kind_index BvSLt = 33"
| "kind_index BvSLtEq = 34"
| "kind_index BvSGt = 35"
| "kind_index BvSGtEq = 36"
| "kind_index BvULt = 37"
| "kind_index BvULtEq = 38"
| "kind_index BvUGt = 39"
| "kind_index BvUGtEq = 40"
| "kind_index FIsNan = 41"
| "kind_index FIsInf = 42"
| "kind_index FCast = 43"
| "kind_index SignedToFp = 44"
| "kind_index UnsignedToFp = 45"
| "kind_index FpToSigned = 46"
| "kind_index FpToUnsigned = 47"
| "kind_index FpToBv = 48"
| "kind_index BvToFp = 49"
| "kind_index FAdd = 50"
| "kind_index FSub = 51"
| "kind_index FMul = 52"
| "kind_index FDiv = 53"
| "kind_index FEq = 54"
| "kind_index FGt = 55"
| "kind_index FGtEq = 56"
| "kind_index FLt = 57"
| "kind_index FLtEq = 58"
| "kind_index Select = 59"
| "kind_index ArrayRead = 60"
| "kind_index ArrayWrite = 61"
| "kind_index TupleSelect = 62"
| "kind_index TupleConstruct = 63"

text \<open>The kind ranges of \<open>Expr\<close>, as numeric comparisons.\<close>

definition isNullary :: "expr_kind \<Rightarrow> bool" where
  "isNullary k \<longleftrightarrow> kind_index k < kind_index NotK"

definition isUnary :: "expr_kind \<Rightarrow> bool" where
  "isUnary k \<longleftrightarrow> (kind_index NotK \<le> kind_index k \<and> kind_index k \<le> kind_index Extract)
     \<or> (kind_index FIsNan \<le> kind_index k \<and> kind_index k \<le> kind_index FpToBv)"

definition isArithmetic :: "expr_kind \<Rightarrow> bool" where
  "isArithmetic k \<longleftrightarrow> kind_index Add \<le> kind_index k \<and> kind_index k \<le> kind_index BvConcat"

definition isLogic :: "expr_kind \<Rightarrow> bool" where
  "isLogic k \<longleftrightarrow> kind_index And \<le> kind_index k \<and> kind_index k \<le> kind_index Imply"

definition isBitLogic :: "expr_kind \<Rightarrow> bool" where
  "isBitLogic k \<longleftrightarrow> kind_index Shl \<le> kind_index k \<and> kind_index k \<le> kind_index BvConcat"

definition isCompare :: "expr_kind \<Rightarrow> bool" where
  "isCompare k \<longleftrightarrow> kind_index Eq \<le> kind_index k \<and> kind_index k \<le> kind_index BvUGtEq"

definition isFloatingPoint :: "expr_kind \<Rightarrow> bool" where
  "isFloatingPoint k \<longleftrightarrow> kind_index FIsNan \<le> kind_index k \<and> kind_index k \<le> kind_index FLtEq"

definition isFpArithmetic :: "expr_kind \<Rightarrow> bool" where
  "isFpArithmetic k \<longleftrightarrow> kind_index FAdd \<le> kind_index k \<and> kind_index k \<le> kind_index FDiv"

definition isFpCompare :: "expr_kind \<Rightarrow> bool" where
  "isFpCompare k \<longleftrightarrow> kind_index FEq \<le> kind_index k \<and> kind_index k \<le> kind_index FLtEq"

definition is_arithmetic_only :: "expr_kind \<Rightarrow> bool" where
  "is_arithmetic_only k \<longleftrightarrow> k = Div"

definition is_bv_only :: "expr_kind \<Rightarrow> bool" where
  "is_bv_only k \<longleftrightarrow> kind_index BvSDiv \<le> kind_index k \<and> kind_index k \<le> kind_index BvXor"

definition is_bv_only_compare :: "expr_kind \<Rightarrow> bool" where
  "is_bv_only_compare k \<longleftrightarrow> kind_index BvSLt \<le> kind_index k \<and> kind_index k \<le> kind_index BvUGtEq"

definition is_bv_to_fp :: "expr_kind \<Rightarrow> bool" where
  "is_bv_to_fp k \<longleftrightarrow> k = UnsignedToFp \<or> k = SignedToFp"

definition is_fp_to_bv :: "expr_kind \<Rightarrow> bool" where
  "is_fp_to_bv k \<longleftrightarrow> k = FpToUnsigned \<or> k = FpToSigned"

definition isCommutative :: "expr_kind \<Rightarrow> bool" where
  "isCommutative k \<longleftrightarrow> k \<in> {Add, Mul, BvAnd, BvOr, BvXor, Eq, NotEq, FAdd, FMul}"

definition isAssociative :: "expr_kind \<Rightarrow> bool" where
  "isAssociative k \<longleftrightarrow> k \<in> {Add, Mul, BvAnd, BvOr, BvXor}"

text \<open>\<open>expr_kind_prime\<close>: the table of hash seeds, indexed by the kind.\<close>

definition ExprKindPrimes :: "nat list" where
  "ExprKindPrimes = [472127, 167159, 682183, 616243, 644431, 978647, 788959, 200891,
    938939, 537679, 757711, 132697, 195203, 511193, 286249, 178481,
    956057, 614531, 360233, 621913, 758041, 718559, 930991, 686201,
    465977, 765007, 388727, 730819, 134353, 819583, 314953, 848633,
    290623, 241291, 579499, 384287, 125287, 920273, 485833, 326449,
    972683, 485167, 882599, 535727, 383651, 159833, 796001, 218479,
    163993, 622561, 938881, 692467, 851971, 478427, 653969, 650329,
    645187, 830827, 431729, 497663, 392351, 715237, 111323, 359641]"

definition expr_kind_prime :: "expr_kind \<Rightarrow> nat" where
  "expr_kind_prime k = ExprKindPrimes ! kind_index k"

text \<open>Literals, variables, expressions.\<close>

datatype literal =
    BoolLiteral bool
  | IntLiteral int
  | RealLiteral int int
  | BvLiteral apint
  | FloatLiteral apfloat
  | ArrayLiteral gtype gtype "(literal \<times> literal) list" literal

datatype variable = Variable (var_name: string) (var_type: gtype)

datatype rounding_mode =
  rmNearestTiesToEven | rmTowardPositive | rmTowardNegative | rmTowardZero | rmNearestTiesToAway

datatype subclass_data =
    NoData
  | ExtractData nat nat
  | RoundingData rounding_mode
  | IndexData nat

datatype expr =
    UndefExpr gtype
  | LiteralExpr literal
  | VarRefExpr variable
  | NonNullaryExpr expr_kind gtype "expr list" subclass_data

fun lit_type :: "literal \<Rightarrow> gtype" where
  "lit_type (BoolLiteral _) = BoolType"
| "lit_type (IntLiteral _) = IntType"
| "lit_type (RealLiteral _ _) = RealType"
| "lit_type (BvLiteral a) = BvType (getBitWidth a)"
| "lit_type (FloatLiteral f) = FloatType (fpPrecision f)"
| "lit_type (ArrayLiteral i e _ _) = ArrayType i e"

fun getKind :: "expr \<Rightarrow> expr_kind" where
  "getKind (UndefExpr _) = Undef"
| "getKind (LiteralExpr _) = LiteralK"
| "getKind (VarRefExpr _) = VarRef"
| "getKind (NonNullaryExpr k _ _ _) = k"

fun getType :: "expr \<Rightarrow> gtype" where
  "getType (UndefExpr t) = t"
| "getType (LiteralExpr l) = lit_type l"
| "getType (VarRefExpr v) = var_type v"
| "getType (NonNullaryExpr _ t _ _) = t"

fun operands :: "expr \<Rightarrow> expr list" where
  "operands (NonNullaryExpr _ _ ops _) = ops"
| "operands _ = []"

definition isUndef :: "expr \<Rightarrow> bool" where
  "isUndef e \<longleftrightarrow> getKind e = Undef"

abbreviation True_lit :: expr where "True_lit \<equiv> LiteralExpr (BoolLiteral True)"
abbreviation False_lit :: expr where "False_lit \<equiv> LiteralExpr (BoolLiteral False)"
abbreviation IntLit :: "int \<Rightarrow> expr" where "IntLit v \<equiv> LiteralExpr (IntLiteral v)"
abbreviation BvLit :: "apint \<Rightarrow> expr" where "BvLit a \<equiv> LiteralExpr (BvLiteral a)"
abbreviation node :: "expr_kind \<Rightarrow> gtype \<Rightarrow> expr list \<Rightarrow> expr" where
  "node k t ops \<equiv> NonNullaryExpr k t ops NoData"

text \<open>Factories of literals.\<close>

definition BvLiteralExpr_Get :: "gtype \<Rightarrow> apint \<Rightarrow> literal res" where
  "BvLiteralExpr_Get t a = (case t of
     BvType w \<Rightarrow> check (w = getBitWidth a) AssertFail (Inr (BvLiteral a))
   | _ \<Rightarrow> Inl BadCast)"

definition FloatLiteralExpr_Get :: "gtype \<Rightarrow> apfloat \<Rightarrow> literal res" where
  "FloatLiteralExpr_Get t f = (case t of
     FloatType p \<Rightarrow> check (getPrecisionWidth (fpPrecision f) = getPrecisionWidth p) AssertFail
       (Inr (FloatLiteral f))
   | _ \<Rightarrow> Inl BadCast)"

definition ArrayLiteralExpr_Get ::
  "gtype \<Rightarrow> (literal \<times> literal) list \<Rightarrow> literal \<Rightarrow> literal res" where
  "ArrayLiteralExpr_Get t values elze = (case t of
     ArrayType i e \<Rightarrow>
       check (list_all (\<lambda>(k, v). type_equals (lit_type k) i \<and> type_equals (lit_type v) e) values)
         AssertFail
       (check (type_equals (lit_type elze) e) AssertFail (Inr (ArrayLiteral i e values elze)))
   | _ \<Rightarrow> Inl BadCast)"

text \<open>\<open>ArrayLiteralExpr::Builder::addValue\<close> assigns into a map keyed by the index literal.\<close>

fun addValue :: "(literal \<times> literal) list \<Rightarrow> literal \<Rightarrow> literal \<Rightarrow> (literal \<times> literal) list" where
  "addValue [] k v = [(k, v)]"
| "addValue ((k', v') # m) k v = (if k' = k then (k, v) # m else (k', v') # addValue m k v)"

fun ArrayLiteral_getValue :: "literal \<Rightarrow> literal \<Rightarrow> literal res" where
  "ArrayLiteral_getValue (ArrayLiteral i e m d) key =
     check (type_equals (lit_type key) i) AssertFail
       (case map_of m key of None \<Rightarrow> Inr d | Some v \<Rightarrow> Inr v)"
| "ArrayLiteral_getValue _ key = Inl BadCast"

text \<open>Factories of non-nullary expressions.\<close>

definition NotExpr_Create :: "expr \<Rightarrow> expr res" where
  "NotExpr_Create e = check (isBoolType (getType e)) AssertFail (Inr (node NotK BoolType [e]))"

definition ExtCastExpr_Create :: "expr_kind \<Rightarrow> expr \<Rightarrow> gtype \<Rightarrow> expr res" where
  "ExtCastExpr_Create k e t = (case (getType e, t) of
     (BvType w, BvType v) \<Rightarrow> check (v > w) AssertFail (Inr (node k (BvType v) [e]))
   | _ \<Rightarrow> Inl AssertFail)"

definition ExtractExpr_Create :: "expr \<Rightarrow> nat \<Rightarrow> nat \<Rightarrow> expr res" where
  "ExtractExpr_Create e offset width = (case getType e of
     BvType w \<Rightarrow> check (width > 0) AssertFail (check (w \<ge> u32 (width + offset)) AssertFail
       (Inr (NonNullaryExpr Extract (BvType width) [e] (ExtractData offset width))))
   | _ \<Rightarrow> Inl AssertFail)"

definition ArithmeticExpr_Create :: "expr_kind \<Rightarrow> expr \<Rightarrow> expr \<Rightarrow> expr res" where
  "ArithmeticExpr_Create k l r =
     check (type_equals (getType l) (getType r)) AssertFail
     (check (if is_bv_only k then isBvType (getType l)
             else if is_arithmetic_only k then isArithmeticType (getType l)
             else isBvType (getType l) \<or> isIntType (getType l) \<or> isRealType (getType l)) AssertFail
     (Inr (node k (getType l) [l, r])))"

definition BvConcatExpr_Create :: "expr \<Rightarrow> expr \<Rightarrow> expr res" where
  "BvConcatExpr_Create l r = (case (getType l, getType r) of
     (BvType w, BvType v) \<Rightarrow> Inr (node BvConcat (BvType (u32 (w + v))) [l, r])
   | _ \<Rightarrow> Inl AssertFail)"

definition CompareExpr_Create :: "expr_kind \<Rightarrow> expr \<Rightarrow> expr \<Rightarrow> expr res" where
  "CompareExpr_Create k l r =
     check (type_equals (getType l) (getType r)) AssertFail
     (check (is_bv_only_compare k \<longrightarrow> isBvType (getType l)) AssertFail
     (Inr (node k BoolType [l, r])))"

definition MultiaryLogicExpr_Create :: "expr_kind \<Rightarrow> expr list \<Rightarrow> expr res" where
  "MultiaryLogicExpr_Create k ops =
     check (list_all (\<lambda>e. isBoolType (getType e)) ops) AssertFail
     (check (ops \<noteq> []) AssertFail (Inr (node k BoolType ops)))"

definition BinaryLogicExpr_Create :: "expr_kind \<Rightarrow> expr \<Rightarrow> expr \<Rightarrow> expr res" where
  "BinaryLogicExpr_Create k l r =
     check (isBoolType (getType l)) AssertFail
     (check (isBoolType (getType r)) AssertFail (Inr (node k (getType l) [l, r])))"

definition FpQueryExpr_Create :: "expr_kind \<Rightarrow> expr \<Rightarrow> expr res" where
  "FpQueryExpr_Create k e = check (isFloatType (getType e)) AssertFail (Inr (node k BoolType [e]))"

definition BvFpCastExpr_Create ::
  "expr_kind \<Rightarrow> expr \<Rightarrow> gtype \<Rightarrow> rounding_mode \<Rightarrow> expr res" where
  "BvFpCastExpr_Create k e t rm =
     check (\<not> type_equals (getType e) t) AssertFail
     (check (if is_bv_to_fp k then isBvType (getType e) \<and> isFloatType t
             else if is_fp_to_bv k then isFloatType (getType e) \<and> isBvType t
             else k = FCast \<longrightarrow> isFloatType (getType e) \<and> isFloatType t
               \<and> \<not> type_equals (getType e) t) AssertFail
     (Inr (NonNullaryExpr k t [e] (RoundingData rm))))"

definition BitCastExpr_Create :: "expr_kind \<Rightarrow> expr \<Rightarrow> gtype \<Rightarrow> expr res" where
  "BitCastExpr_Create k e t =
     check (\<not> type_equals (getType e) t) AssertFail
     (check (if k = FpToBv then isFloatType (getType e) \<and> isBvType t
             else k = BvToFp \<longrightarrow> isBvType (getType e) \<and> isFloatType t) AssertFail
     (Inr (node k t [e])))"

definition FpArithmeticExpr_Create ::
  "expr_kind \<Rightarrow> expr \<Rightarrow> expr \<Rightarrow> rounding_mode \<Rightarrow> expr res" where
  "FpArithmeticExpr_Create k l r rm =
     check (isFloatType (getType l)) AssertFail
     (check (type_equals (getType l) (getType r)) AssertFail
     (Inr (NonNullaryExpr k (getType l) [l, r] (RoundingData rm))))"

definition FpCompareExpr_Create :: "expr_kind \<Rightarrow> expr \<Rightarrow> expr \<Rightarrow> expr res" where
  "FpCompareExpr_Create k l r =
     check (isFloatType (getType l)) AssertFail
     (check (isFloatType (getType r)) AssertFail (Inr (node k BoolType [l, r])))"

definition SelectExpr_Create :: "expr \<Rightarrow> expr \<Rightarrow> expr \<Rightarrow> expr res" where
  "SelectExpr_Create c t e =
     check (type_equals (getType t) (getType e)) AssertFail
     (check (isBoolType (getType c)) AssertFail (Inr (node Select (getType t) [c, t, e])))"

definition ArrayReadExpr_Create :: "expr \<Rightarrow> expr \<Rightarrow> expr res" where
  "ArrayReadExpr_Create a i = (case getType a of
     ArrayType it et \<Rightarrow> check (type_equals it (getType i)) AssertFail
       (Inr (node ArrayRead et [a, i]))
   | _ \<Rightarrow> Inl AssertFail)"

definition ArrayWriteExpr_Create :: "expr \<Rightarrow> expr \<Rightarrow> expr \<Rightarrow> expr res" where
  "ArrayWriteExpr_Create a i v = (case getType a of
     ArrayType it et \<Rightarrow> check (type_equals it (getType i)) AssertFail
       (Inr (node ArrayWrite (ArrayType it et) [a, i, v]))
   | _ \<Rightarrow> Inl AssertFail)"

definition TupleSelectExpr_Create :: "expr \<Rightarrow> nat \<Rightarrow> expr res" where
  "TupleSelectExpr_Create e i = (case getType e of
     TupleType ts \<Rightarrow> check (length ts > i) AssertFail
       (Inr (NonNullaryExpr TupleSelect (ts ! i) [e] (IndexData i)))
   | _ \<Rightarrow> Inl AssertFail)"

definition TupleConstructExpr_Create :: "gtype \<Rightarrow> expr list \<Rightarrow> expr res" where
  "TupleConstructExpr_Create t ops = (case t of
     TupleType ts \<Rightarrow> check (length ops = length ts) AssertFail
       (check (ops \<noteq> []) AssertFail (Inr (node TupleConstruct t ops)))
   | _ \<Rightarrow> Inl BadCast)"

text \<open>A variable assignment asserts that the value has the type of the variable.\<close>

datatype variable_assignment = VarAssign (va_variable: variable) (va_value: expr)

definition VariableAssignment_Create :: "variable \<Rightarrow> expr \<Rightarrow> variable_assignment res" where
  "VariableAssignment_Create v e =
     check (type_equals (var_type v) (getType e)) AssertFail (Inr (VarAssign v e))"

end
