(* ===== verification/GazerTyping.thy ===== *)
theory GazerTyping
  imports GazerExpr
begin

text \<open>
  The typing discipline of expressions. \<open>well_typed\<close> states, one rule per class of expression, when
  an expression is well typed; \<open>built\<close> is what the factories of \<open>GazerExpr\<close> can produce. The two
  agree, so the assertions of \<^verbatim>\<open>src/Core/Expr.cpp\<close> are a type checker. Two conditions are
  obligations of the caller that no assertion checks (the element type of an array write, the
  member types of a tuple); widths stay below \<open>2^32\<close>, so \<open>unsigned\<close> sums do not wrap.
\<close>

fun lit_ok :: "literal \<Rightarrow> bool" where
  "lit_ok (BoolLiteral _) = True"
| "lit_ok (IntLiteral v) = in_int64 v"
| "lit_ok (RealLiteral n d) = (d \<noteq> 0)"
| "lit_ok (BvLiteral a) = apint_ok a"
| "lit_ok (FloatLiteral f) = (fpBits f < 2 ^ getPrecisionWidth (fpPrecision f))"
| "lit_ok (ArrayLiteral i e m d) = (function_free i \<and> function_free e \<and>
     list_all (\<lambda>(k, v). lit_ok k \<and> lit_ok v \<and> lit_type k = i \<and> lit_type v = e) m \<and>
     lit_ok d \<and> lit_type d = e)"

definition arith_kinds :: "expr_kind set" where
  "arith_kinds = {Add, Sub, Mul, Mod, Rem}"

definition bv_kinds :: "expr_kind set" where
  "bv_kinds = {BvSDiv, BvUDiv, BvSRem, BvURem, Shl, LShr, AShr, BvAnd, BvOr, BvXor}"

definition compare_kinds :: "expr_kind set" where
  "compare_kinds = {Eq, NotEq, Lt, LtEq, Gt, GtEq}"

definition bv_compare_kinds :: "expr_kind set" where
  "bv_compare_kinds = {BvSLt, BvSLtEq, BvSGt, BvSGtEq, BvULt, BvULtEq, BvUGt, BvUGtEq}"

lemmas kind_sets = arith_kinds_def bv_kinds_def compare_kinds_def bv_compare_kinds_def

inductive well_typed :: "expr \<Rightarrow> bool" where
  wt_undef: "function_free t \<Longrightarrow> well_typed (UndefExpr t)"
| wt_lit: "lit_ok l \<Longrightarrow> well_typed (LiteralExpr l)"
| wt_var: "function_free (var_type v) \<Longrightarrow> well_typed (VarRefExpr v)"
| wt_not: "well_typed e \<Longrightarrow> getType e = BoolType \<Longrightarrow> well_typed (node NotK BoolType [e])"
| wt_ext: "well_typed e \<Longrightarrow> getType e = BvType w \<Longrightarrow> w < v \<Longrightarrow> k \<in> {ZExt, SExt} \<Longrightarrow>
    well_typed (node k (BvType v) [e])"
| wt_extract: "well_typed e \<Longrightarrow> getType e = BvType w \<Longrightarrow> 0 < n \<Longrightarrow> p + n \<le> w \<Longrightarrow> p + n < 2 ^ 32 \<Longrightarrow>
    well_typed (NonNullaryExpr Extract (BvType n) [e] (ExtractData p n))"
| wt_arith: "well_typed l \<Longrightarrow> well_typed r \<Longrightarrow> getType l = t \<Longrightarrow> getType r = t \<Longrightarrow>
    isBvType t \<or> isIntType t \<or> isRealType t \<Longrightarrow> k \<in> arith_kinds \<Longrightarrow>
    well_typed (node k t [l, r])"
| wt_div: "well_typed l \<Longrightarrow> well_typed r \<Longrightarrow> getType l = t \<Longrightarrow> getType r = t \<Longrightarrow>
    t = IntType \<or> t = RealType \<Longrightarrow> well_typed (node Div t [l, r])"
| wt_bv: "well_typed l \<Longrightarrow> well_typed r \<Longrightarrow> getType l = BvType w \<Longrightarrow> getType r = BvType w \<Longrightarrow>
    k \<in> bv_kinds \<Longrightarrow> well_typed (node k (BvType w) [l, r])"
| wt_concat: "well_typed l \<Longrightarrow> well_typed r \<Longrightarrow> getType l = BvType w \<Longrightarrow> getType r = BvType v \<Longrightarrow>
    w + v < 2 ^ 32 \<Longrightarrow> well_typed (node BvConcat (BvType (w + v)) [l, r])"
| wt_compare: "well_typed l \<Longrightarrow> well_typed r \<Longrightarrow> getType l = getType r \<Longrightarrow> k \<in> compare_kinds \<Longrightarrow>
    well_typed (node k BoolType [l, r])"
| wt_bv_compare: "well_typed l \<Longrightarrow> well_typed r \<Longrightarrow> getType l = BvType w \<Longrightarrow> getType r = BvType w \<Longrightarrow>
    k \<in> bv_compare_kinds \<Longrightarrow> well_typed (node k BoolType [l, r])"
| wt_logic: "\<forall>e \<in> set ops. well_typed e \<and> getType e = BoolType \<Longrightarrow> ops \<noteq> [] \<Longrightarrow> k \<in> {And, Or} \<Longrightarrow>
    well_typed (node k BoolType ops)"
| wt_imply: "well_typed l \<Longrightarrow> well_typed r \<Longrightarrow> getType l = BoolType \<Longrightarrow> getType r = BoolType \<Longrightarrow>
    well_typed (node Imply BoolType [l, r])"
| wt_fp_query: "well_typed e \<Longrightarrow> getType e = FloatType p \<Longrightarrow> k \<in> {FIsNan, FIsInf} \<Longrightarrow>
    well_typed (node k BoolType [e])"
| wt_bv_to_fp: "well_typed e \<Longrightarrow> getType e = BvType w \<Longrightarrow> k \<in> {SignedToFp, UnsignedToFp} \<Longrightarrow>
    well_typed (NonNullaryExpr k (FloatType p) [e] (RoundingData rm))"
| wt_fp_to_bv: "well_typed e \<Longrightarrow> getType e = FloatType p \<Longrightarrow> k \<in> {FpToSigned, FpToUnsigned} \<Longrightarrow>
    well_typed (NonNullaryExpr k (BvType w) [e] (RoundingData rm))"
| wt_fcast: "well_typed e \<Longrightarrow> getType e = FloatType p \<Longrightarrow> p \<noteq> q \<Longrightarrow>
    well_typed (NonNullaryExpr FCast (FloatType q) [e] (RoundingData rm))"
| wt_fp_bits: "well_typed e \<Longrightarrow> getType e = FloatType p \<Longrightarrow>
    well_typed (node FpToBv (BvType w) [e])"
| wt_bits_fp: "well_typed e \<Longrightarrow> getType e = BvType w \<Longrightarrow>
    well_typed (node BvToFp (FloatType p) [e])"
| wt_fp_arith: "well_typed l \<Longrightarrow> well_typed r \<Longrightarrow> getType l = FloatType p \<Longrightarrow>
    getType r = FloatType p \<Longrightarrow> k \<in> {FAdd, FSub, FMul, FDiv} \<Longrightarrow>
    well_typed (NonNullaryExpr k (FloatType p) [l, r] (RoundingData rm))"
| wt_fp_compare: "well_typed l \<Longrightarrow> well_typed r \<Longrightarrow> getType l = FloatType p \<Longrightarrow>
    getType r = FloatType q \<Longrightarrow> k \<in> {FEq, FGt, FGtEq, FLt, FLtEq} \<Longrightarrow>
    well_typed (node k BoolType [l, r])"
| wt_select: "well_typed c \<Longrightarrow> well_typed t \<Longrightarrow> well_typed e \<Longrightarrow> getType c = BoolType \<Longrightarrow>
    getType t = ty \<Longrightarrow> getType e = ty \<Longrightarrow> well_typed (node Select ty [c, t, e])"
| wt_read: "well_typed a \<Longrightarrow> well_typed i \<Longrightarrow> getType a = ArrayType it et \<Longrightarrow> getType i = it \<Longrightarrow>
    well_typed (node ArrayRead et [a, i])"
| wt_write: "well_typed a \<Longrightarrow> well_typed i \<Longrightarrow> well_typed v \<Longrightarrow> getType a = ArrayType it et \<Longrightarrow>
    getType i = it \<Longrightarrow> getType v = et \<Longrightarrow> well_typed (node ArrayWrite (ArrayType it et) [a, i, v])"
| wt_tuple_select: "well_typed e \<Longrightarrow> getType e = TupleType ts \<Longrightarrow> i < length ts \<Longrightarrow>
    well_typed (NonNullaryExpr TupleSelect (ts ! i) [e] (IndexData i))"
| wt_tuple: "\<forall>e \<in> set ops. well_typed e \<Longrightarrow> map getType ops = ts \<Longrightarrow> ops \<noteq> [] \<Longrightarrow>
    well_typed (node TupleConstruct (TupleType ts) ops)"

inductive_simps wt_leaf_simps [simp]:
  "well_typed (UndefExpr t)" "well_typed (LiteralExpr l)" "well_typed (VarRefExpr v)"

text \<open>What the factories produce. The kinds are the ones each class template is instantiated with.\<close>

inductive built :: "expr \<Rightarrow> bool" where
  b_undef: "function_free t \<Longrightarrow> built (UndefExpr t)"
| b_lit: "lit_ok l \<Longrightarrow> built (LiteralExpr l)"
| b_var: "function_free (var_type v) \<Longrightarrow> built (VarRefExpr v)"
| b_not: "built e \<Longrightarrow> NotExpr_Create e = Inr x \<Longrightarrow> built x"
| b_ext: "built e \<Longrightarrow> k \<in> {ZExt, SExt} \<Longrightarrow> ExtCastExpr_Create k e t = Inr x \<Longrightarrow> built x"
| b_extract: "built e \<Longrightarrow> p + n < 2 ^ 32 \<Longrightarrow> ExtractExpr_Create e p n = Inr x \<Longrightarrow> built x"
| b_arith: "built l \<Longrightarrow> built r \<Longrightarrow> k \<in> arith_kinds \<union> bv_kinds \<union> {Div} \<Longrightarrow>
    ArithmeticExpr_Create k l r = Inr x \<Longrightarrow> built x"
| b_concat: "built l \<Longrightarrow> built r \<Longrightarrow> getType l = BvType w \<Longrightarrow> getType r = BvType v \<Longrightarrow>
    w + v < 2 ^ 32 \<Longrightarrow> BvConcatExpr_Create l r = Inr x \<Longrightarrow> built x"
| b_compare: "built l \<Longrightarrow> built r \<Longrightarrow> k \<in> compare_kinds \<union> bv_compare_kinds \<Longrightarrow>
    CompareExpr_Create k l r = Inr x \<Longrightarrow> built x"
| b_logic: "\<forall>e \<in> set ops. built e \<Longrightarrow> k \<in> {And, Or} \<Longrightarrow>
    MultiaryLogicExpr_Create k ops = Inr x \<Longrightarrow> built x"
| b_imply: "built l \<Longrightarrow> built r \<Longrightarrow> BinaryLogicExpr_Create Imply l r = Inr x \<Longrightarrow> built x"
| b_fp_query: "built e \<Longrightarrow> k \<in> {FIsNan, FIsInf} \<Longrightarrow> FpQueryExpr_Create k e = Inr x \<Longrightarrow> built x"
| b_fp_cast: "built e \<Longrightarrow> k \<in> {FCast, SignedToFp, UnsignedToFp, FpToSigned, FpToUnsigned} \<Longrightarrow>
    BvFpCastExpr_Create k e t rm = Inr x \<Longrightarrow> built x"
| b_bitcast: "built e \<Longrightarrow> k \<in> {FpToBv, BvToFp} \<Longrightarrow> BitCastExpr_Create k e t = Inr x \<Longrightarrow> built x"
| b_fp_arith: "built l \<Longrightarrow> built r \<Longrightarrow> k \<in> {FAdd, FSub, FMul, FDiv} \<Longrightarrow>
    FpArithmeticExpr_Create k l r rm = Inr x \<Longrightarrow> built x"
| b_fp_compare: "built l \<Longrightarrow> built r \<Longrightarrow> k \<in> {FEq, FGt, FGtEq, FLt, FLtEq} \<Longrightarrow>
    FpCompareExpr_Create k l r = Inr x \<Longrightarrow> built x"
| b_select: "built c \<Longrightarrow> built t \<Longrightarrow> built e \<Longrightarrow> SelectExpr_Create c t e = Inr x \<Longrightarrow> built x"
| b_read: "built a \<Longrightarrow> built i \<Longrightarrow> ArrayReadExpr_Create a i = Inr x \<Longrightarrow> built x"
| b_write: "built a \<Longrightarrow> built i \<Longrightarrow> built v \<Longrightarrow> getType a = ArrayType it (getType v) \<Longrightarrow>
    ArrayWriteExpr_Create a i v = Inr x \<Longrightarrow> built x"
| b_tuple_select: "built e \<Longrightarrow> TupleSelectExpr_Create e n = Inr x \<Longrightarrow> built x"
| b_tuple: "\<forall>e \<in> set ops. built e \<Longrightarrow> TupleConstructExpr_Create (TupleType (map getType ops)) ops = Inr x \<Longrightarrow>
    built x"

lemma is_bv_only_iff: "is_bv_only k \<longleftrightarrow> k \<in> bv_kinds"
  by (cases k) (simp_all add: is_bv_only_def bv_kinds_def)

lemma is_bv_only_compare_iff: "is_bv_only_compare k \<longleftrightarrow> k \<in> bv_compare_kinds"
  by (cases k) (simp_all add: is_bv_only_compare_def bv_compare_kinds_def)

lemma lit_ok_function_free: "lit_ok l \<Longrightarrow> function_free (lit_type l)"
  by (cases l) auto

lemma well_typed_function_free: "well_typed e \<Longrightarrow> function_free (getType e)"
  by (induction rule: well_typed.induct) (auto simp: lit_ok_function_free list_all_iff list_all_length)

lemma u32_id: "n < 2 ^ 32 \<Longrightarrow> u32 n = n"
  by (simp add: u32_def)

lemmas create_defs = NotExpr_Create_def ExtCastExpr_Create_def ExtractExpr_Create_def
  ArithmeticExpr_Create_def BvConcatExpr_Create_def CompareExpr_Create_def
  MultiaryLogicExpr_Create_def BinaryLogicExpr_Create_def FpQueryExpr_Create_def
  BvFpCastExpr_Create_def BitCastExpr_Create_def FpArithmeticExpr_Create_def
  FpCompareExpr_Create_def SelectExpr_Create_def ArrayReadExpr_Create_def
  ArrayWriteExpr_Create_def TupleSelectExpr_Create_def TupleConstructExpr_Create_def

lemma wt_type_equals: "well_typed e \<Longrightarrow> type_equals (getType e) t \<longleftrightarrow> getType e = t"
  using type_equals_sound well_typed_function_free by auto

lemma wt_array_index_equals:
  "well_typed a \<Longrightarrow> getType a = ArrayType it et \<Longrightarrow> type_equals it t \<longleftrightarrow> it = t"
  using type_equals_sound well_typed_function_free by fastforce

text \<open>Each factory applied to well-typed operands yields a well-typed expression.\<close>

lemma built_well_typed: "built e \<Longrightarrow> well_typed e"
proof (induction rule: built.induct)
  case (b_ext e k t x)
  then show ?case
    by (auto simp: create_defs check_eq_Inr intro: wt_ext split: gtype.splits)
next
  case (b_extract e p n x)
  then show ?case
    by (auto simp: create_defs check_eq_Inr u32_id add.commute intro!: wt_extract split: gtype.splits)
next
  case (b_arith l r k x)
  then have eq: "getType l = getType r" and x: "x = node k (getType r) [l, r]"
    by (auto simp: create_defs check_eq_Inr wt_type_equals)
  from b_arith.hyps(3) consider "k \<in> bv_kinds" | "k = Div" | "k \<in> arith_kinds" "\<not> is_bv_only k" "k \<noteq> Div"
    by (auto simp: is_bv_only_iff kind_sets)
  then show ?case
  proof cases
    case 1
    with b_arith eq obtain w where "getType r = BvType w"
      by (auto simp: create_defs check_eq_Inr is_bv_only_iff)
    with 1 b_arith eq x show ?thesis by (auto intro: wt_bv)
  next
    case 2
    with b_arith eq x show ?thesis
      by (auto simp: create_defs check_eq_Inr is_bv_only_iff is_arithmetic_only_def
          isArithmeticType_def kind_sets intro: wt_div)
  next
    case 3
    with b_arith eq have "isBvType (getType r) \<or> isIntType (getType r) \<or> isRealType (getType r)"
      by (simp add: create_defs check_eq_Inr is_arithmetic_only_def)
    with 3 b_arith eq x show ?thesis by (auto intro!: wt_arith)
  qed
next
  case (b_compare l r k x)
  then show ?case
    by (auto simp: create_defs check_eq_Inr wt_type_equals is_bv_only_compare_iff
        intro: wt_compare wt_bv_compare)
next
  case (b_fp_cast e k t rm x)
  then show ?case
    by (auto simp: create_defs check_eq_Inr is_bv_to_fp_def is_fp_to_bv_def
        intro: wt_bv_to_fp wt_fp_to_bv wt_fcast split: if_splits)
next
  case (b_bitcast e k t x)
  then show ?case
    by (auto simp: create_defs check_eq_Inr intro: wt_fp_bits wt_bits_fp split: if_splits)
next
  case (b_concat l r w v x)
  then show ?case by (auto simp: create_defs u32_id intro: wt_concat)
next
  case (b_fp_arith l r k rm x)
  then show ?case by (auto simp: create_defs check_eq_Inr wt_type_equals intro: wt_fp_arith)
next
  case (b_fp_compare l r k x)
  then show ?case by (auto simp: create_defs check_eq_Inr intro: wt_fp_compare)
next
  case (b_select c t e x)
  then show ?case by (auto simp: create_defs check_eq_Inr wt_type_equals intro: wt_select)
next
  case (b_read a i x)
  then show ?case
    by (auto simp: create_defs check_eq_Inr wt_array_index_equals intro: wt_read split: gtype.splits)
next
  case (b_write a i v it x)
  then show ?case
    by (auto simp: create_defs check_eq_Inr wt_array_index_equals intro: wt_write split: gtype.splits)
next
  case (b_tuple_select e n x)
  then show ?case
    by (auto simp: create_defs check_eq_Inr intro: wt_tuple_select split: gtype.splits)
next
  case (b_tuple ops x)
  then show ?case by (auto simp: create_defs check_eq_Inr intro: wt_tuple)
next
  case (b_logic ops k x)
  then show ?case by (auto simp: create_defs check_eq_Inr list_all_iff intro!: wt_logic)
qed (auto simp: create_defs check_eq_Inr intro: wt_not wt_imply wt_fp_query)

lemma well_typed_built: "well_typed e \<Longrightarrow> built e"
proof (induction rule: well_typed.induct)
  case (wt_undef t)
  then show ?case by (rule b_undef)
next
  case (wt_lit l)
  then show ?case by (rule b_lit)
next
  case (wt_var v)
  then show ?case by (rule b_var)
next
  case (wt_not e)
  then show ?case by - (rule b_not [of e], auto simp: create_defs)
next
  case (wt_ext e w v k)
  then show ?case by - (rule b_ext [of e k "BvType v"], auto simp: create_defs)
next
  case (wt_extract e w n p)
  then show ?case
    by - (rule b_extract [of e p n], auto simp: create_defs u32_id add.commute)
next
  case (wt_arith l r t k)
  then show ?case
    by - (rule b_arith [of l r k], auto simp: create_defs is_bv_only_iff is_arithmetic_only_def kind_sets isArithmeticType_def)
next
  case (wt_div l r t)
  then show ?case
    by - (rule b_arith [of l r Div], auto simp: create_defs is_bv_only_iff is_arithmetic_only_def kind_sets isArithmeticType_def)
next
  case (wt_bv l r w k)
  then show ?case
    by - (rule b_arith [of l r k], auto simp: create_defs is_bv_only_iff)
next
  case (wt_concat l r w v)
  then show ?case by - (rule b_concat [of l r w v], auto simp: create_defs u32_id)
next
  case (wt_compare l r k)
  then show ?case
    by - (rule b_compare [of l r k], auto simp: create_defs is_bv_only_compare_iff kind_sets)
next
  case (wt_bv_compare l r w k)
  then show ?case
    by - (rule b_compare [of l r k], auto simp: create_defs is_bv_only_compare_iff)
next
  case (wt_logic ops k)
  then show ?case by - (rule b_logic [of ops k], auto simp: create_defs list_all_iff check_def)
next
  case (wt_imply l r)
  then show ?case by - (rule b_imply [of l r], auto simp: create_defs)
next
  case (wt_fp_query e p k)
  then show ?case by - (rule b_fp_query [of e k], auto simp: create_defs)
next
  case (wt_bv_to_fp e w k p rm)
  then show ?case
    by - (rule b_fp_cast [of e k "FloatType p" rm], auto simp: create_defs is_bv_to_fp_def)
next
  case (wt_fp_to_bv e p k w rm)
  then show ?case
    by - (rule b_fp_cast [of e k "BvType w" rm], auto simp: create_defs is_bv_to_fp_def is_fp_to_bv_def)
next
  case (wt_fcast e p q rm)
  then show ?case
    by - (rule b_fp_cast [of e FCast "FloatType q" rm], auto simp: create_defs is_bv_to_fp_def is_fp_to_bv_def)
next
  case (wt_fp_bits e p w)
  then show ?case by - (rule b_bitcast [of e FpToBv "BvType w"], auto simp: create_defs)
next
  case (wt_bits_fp e w p)
  then show ?case by - (rule b_bitcast [of e BvToFp "FloatType p"], auto simp: create_defs)
next
  case (wt_fp_arith l r p k rm)
  then show ?case by - (rule b_fp_arith [of l r k rm], auto simp: create_defs)
next
  case (wt_fp_compare l r p q k)
  then show ?case by - (rule b_fp_compare [of l r k], auto simp: create_defs)
next
  case (wt_select c t e ty)
  then show ?case by - (rule b_select [of c t e], auto simp: create_defs)
next
  case (wt_read a i it et)
  then show ?case by - (rule b_read [of a i], auto simp: create_defs)
next
  case (wt_write a i v it et)
  then show ?case by - (rule b_write [of a i v it], auto simp: create_defs)
next
  case (wt_tuple_select e ts i)
  then show ?case by - (rule b_tuple_select [of e i], auto simp: create_defs)
next
  case (wt_tuple ops ts)
  then show ?case by - (rule b_tuple [of ops], auto simp: create_defs check_def)
qed

text \<open>
  C12: what callers can build from well-formed literals, and variables and undefs of types without function types, with the \<open>Create\<close> functions is exactly the set of well-typed
  expressions, if they meet four obligations that no assertion checks: the value of an array write has the element type of the
  array, a tuple is created with the type of its members, and the sums of the offset and width of an extraction, and of
  the widths of a concatenation, are below \<open>2^32\<close>, so that the \<open>unsigned\<close> sums of the factories do not wrap around. Under these obligations the
  assertions are a type checker that is sound and complete.
\<close>

theorem factories_type_check: "built e \<longleftrightarrow> well_typed e"
  using built_well_typed well_typed_built by blast

text \<open>The conjunction of a variable with its negation can be built; the negation of an integer literal cannot.\<close>

theorem factories_type_check_witness:
  "built (node And BoolType [VarRefExpr (Variable ''p'' BoolType), node NotK BoolType [VarRefExpr (Variable ''p'' BoolType)]])
   \<and> \<not> built (node NotK BoolType [LiteralExpr (IntLiteral 1)])"
proof -
  have "well_typed (node And BoolType [VarRefExpr (Variable ''p'' BoolType), node NotK BoolType [VarRefExpr (Variable ''p'' BoolType)]])"
    by (intro wt_logic) (auto intro: wt_not)
  moreover have "\<not> well_typed (node NotK BoolType [LiteralExpr (IntLiteral 1)])"
    by (auto elim: well_typed.cases simp: kind_sets)
  ultimately show ?thesis by (simp only: factories_type_check simp_thms)
qed

text \<open>\<open>expr_kind_prime\<close> gives every kind a seed of its own.\<close>

definition all_kinds :: "expr_kind list" where
  "all_kinds = [Undef, LiteralK, VarRef, NotK, ZExt, SExt, Extract, Add,
    Sub, Mul, Div, Mod, Rem, BvSDiv, BvUDiv, BvSRem,
    BvURem, Shl, LShr, AShr, BvAnd, BvOr, BvXor, BvConcat,
    And, Or, Imply, Eq, NotEq, Lt, LtEq, Gt,
    GtEq, BvSLt, BvSLtEq, BvSGt, BvSGtEq, BvULt, BvULtEq, BvUGt,
    BvUGtEq, FIsNan, FIsInf, FCast, SignedToFp, UnsignedToFp, FpToSigned, FpToUnsigned,
    FpToBv, BvToFp, FAdd, FSub, FMul, FDiv, FEq, FGt,
    FGtEq, FLt, FLtEq, Select, ArrayRead, ArrayWrite, TupleSelect, TupleConstruct]"

lemma all_kinds_nth: "all_kinds ! kind_index k = k"
  by (cases k) (simp_all add: all_kinds_def)

lemma kind_index_inj: "kind_index k = kind_index k' \<Longrightarrow> k = k'"
  using all_kinds_nth by metis

lemma kind_index_bound: "kind_index k < 64"
  by (cases k) simp_all

text \<open>
  The hash seed table has an entry for every kind and no two kinds share a seed, as the
  comment on the table says.
\<close>

theorem expr_kind_prime_inj: "inj expr_kind_prime"
proof (rule injI)
  fix k k' assume "expr_kind_prime k = expr_kind_prime k'"
  moreover have "length ExprKindPrimes = 64" "distinct ExprKindPrimes"
    by (simp_all add: ExprKindPrimes_def)
  ultimately have "kind_index k = kind_index k'"
    by (simp add: expr_kind_prime_def nth_eq_iff_index_eq kind_index_bound)
  then show "k = k'" by (rule kind_index_inj)
qed

end
