(* ===== verification/GazerBuilder.thy ===== *)
theory GazerBuilder
  imports GazerTyping
begin

text \<open>
  The expression builders: the interface \<^verbatim>\<open>include/gazer/Core/Expr/ExprBuilder.h\<close> with the plain
  implementation (every method calls the factory of its class), the derived methods of
  \<^verbatim>\<open>src/Core/Expr/ExprBuilder.cpp\<close>, and the constant-folding implementation
  \<^verbatim>\<open>src/Core/Expr/FoldingExprBuilder.cpp\<close> with the patterns of \<^verbatim>\<open>Matcher.h\<close> it uses.

  The virtual methods are the fields of the record \<open>expr_builder\<close>; the families of methods that
  differ only in the kind of the node (arithmetic, comparisons, casts) are one field that takes the
  kind. \<open>plain_builder\<close> and \<open>folding_builder\<close> are the two classes. The methods that call other
  virtual methods take the record as an argument, as dynamic dispatch does.
\<close>

record expr_builder =
  bNot :: "expr \<Rightarrow> expr res"
  bExt :: "expr_kind \<Rightarrow> expr \<Rightarrow> gtype \<Rightarrow> expr res"
  bExtract :: "expr \<Rightarrow> nat \<Rightarrow> nat \<Rightarrow> expr res"
  bArithmetic :: "expr_kind \<Rightarrow> expr \<Rightarrow> expr \<Rightarrow> expr res"
  bBvConcat :: "expr \<Rightarrow> expr \<Rightarrow> expr res"
  bAnd :: "expr list \<Rightarrow> expr res"
  bOr :: "expr list \<Rightarrow> expr res"
  bImply :: "expr \<Rightarrow> expr \<Rightarrow> expr res"
  bCompare :: "expr_kind \<Rightarrow> expr \<Rightarrow> expr \<Rightarrow> expr res"
  bFpQuery :: "expr_kind \<Rightarrow> expr \<Rightarrow> expr res"
  bFpCast :: "expr_kind \<Rightarrow> expr \<Rightarrow> gtype \<Rightarrow> rounding_mode \<Rightarrow> expr res"
  bBitCast :: "expr_kind \<Rightarrow> expr \<Rightarrow> gtype \<Rightarrow> expr res"
  bFpArithmetic :: "expr_kind \<Rightarrow> expr \<Rightarrow> expr \<Rightarrow> rounding_mode \<Rightarrow> expr res"
  bFpCompare :: "expr_kind \<Rightarrow> expr \<Rightarrow> expr \<Rightarrow> expr res"
  bSelect :: "expr \<Rightarrow> expr \<Rightarrow> expr \<Rightarrow> expr res"
  bWrite :: "expr \<Rightarrow> expr \<Rightarrow> expr \<Rightarrow> expr res"
  bRead :: "expr \<Rightarrow> expr \<Rightarrow> expr res"
  bTupSel :: "expr \<Rightarrow> nat \<Rightarrow> expr res"
  bTupleConstruct :: "gtype \<Rightarrow> expr list \<Rightarrow> expr res"

text \<open>The class \<open>ExprBuilder\<close>. \<open>NotEq\<close> negates \<open>Eq\<close>; every other comparison is created as it is.\<close>

definition plain_NotEq :: "expr \<Rightarrow> expr \<Rightarrow> expr res" where
  "plain_NotEq l r = rbind (CompareExpr_Create Eq l r) NotExpr_Create"

definition plain_Compare :: "expr_kind \<Rightarrow> expr \<Rightarrow> expr \<Rightarrow> expr res" where
  "plain_Compare k l r = (if k = NotEq then plain_NotEq l r else CompareExpr_Create k l r)"

definition plain_builder :: expr_builder where
  "plain_builder = \<lparr>
     bNot = NotExpr_Create, bExt = ExtCastExpr_Create, bExtract = ExtractExpr_Create,
     bArithmetic = ArithmeticExpr_Create, bBvConcat = BvConcatExpr_Create,
     bAnd = MultiaryLogicExpr_Create And, bOr = MultiaryLogicExpr_Create Or,
     bImply = BinaryLogicExpr_Create Imply, bCompare = plain_Compare,
     bFpQuery = FpQueryExpr_Create, bFpCast = BvFpCastExpr_Create, bBitCast = BitCastExpr_Create,
     bFpArithmetic = FpArithmeticExpr_Create, bFpCompare = FpCompareExpr_Create,
     bSelect = SelectExpr_Create, bWrite = ArrayWriteExpr_Create, bRead = ArrayReadExpr_Create,
     bTupSel = TupleSelectExpr_Create, bTupleConstruct = TupleConstructExpr_Create \<rparr>"

text \<open>The non-virtual methods.\<close>

definition builder_BvLit :: "llvm_api \<Rightarrow> nat \<Rightarrow> nat \<Rightarrow> expr res" where
  "builder_BvLit L v bits = rbind (BvLiteralExpr_Get (BvType bits) (apOfNat L bits v)) (\<lambda>l. Inr (LiteralExpr l))"

definition BoolLit :: "bool \<Rightarrow> expr" where
  "BoolLit b = (if b then True_lit else False_lit)"

definition Xor :: "expr_builder \<Rightarrow> expr \<Rightarrow> expr \<Rightarrow> expr res" where
  "Xor B l r = check (isBoolType (getType l) \<and> isBoolType (getType r)) AssertFail (bCompare B NotEq l r)"

definition Trunc :: "expr_builder \<Rightarrow> expr \<Rightarrow> nat \<Rightarrow> expr res" where
  "Trunc B e w = bExtract B e 0 w"

definition BvResize :: "expr_builder \<Rightarrow> expr \<Rightarrow> nat \<Rightarrow> expr res" where
  "BvResize B e w = (case getType e of
     BvType width \<Rightarrow> (if width < w then bExt B ZExt e (BvType w)
       else if width > w then Trunc B e w else Inr e)
   | _ \<Rightarrow> Inl AssertFail)"

definition builder_Tuple :: "expr_builder \<Rightarrow> expr list \<Rightarrow> expr res" where
  "builder_Tuple B es = rbind (TupleType_Get (map getType es)) (\<lambda>t. bTupleConstruct B t es)"

definition TupleInsert :: "expr_builder \<Rightarrow> expr \<Rightarrow> expr \<Rightarrow> nat \<Rightarrow> expr res" where
  "TupleInsert B tuple v i = (case getType tuple of
     TupleType ts \<Rightarrow> check (i \<le> length ts) AssertFail
       (check (i < length ts) OutOfRange
       (check (type_equals (ts ! i) (getType v)) AssertFail
       (rbind (if getKind tuple = TupleConstruct then Inr (operands tuple)
               else res_map (bTupSel B tuple) [0..<length ts])
         (\<lambda>ms. check (i < length ms) OutOfRange (bTupleConstruct B (TupleType ts) (ms[i := v]))))))
   | _ \<Rightarrow> Inl AssertFail)"

text \<open>The patterns the folding builder matches against.\<close>

fun dyn_Bool :: "expr \<Rightarrow> bool option" where
  "dyn_Bool (LiteralExpr (BoolLiteral b)) = Some b"
| "dyn_Bool _ = None"

fun dyn_Int :: "expr \<Rightarrow> int option" where
  "dyn_Int (LiteralExpr (IntLiteral v)) = Some v"
| "dyn_Int _ = None"

fun dyn_Bv :: "expr \<Rightarrow> apint option" where
  "dyn_Bv (LiteralExpr (BvLiteral a)) = Some a"
| "dyn_Bv _ = None"

fun dyn_Float :: "expr \<Rightarrow> apfloat option" where
  "dyn_Float (LiteralExpr (FloatLiteral f)) = Some f"
| "dyn_Float _ = None"

fun isLiteral :: "expr \<Rightarrow> bool" where
  "isLiteral (LiteralExpr _) = True"
| "isLiteral _ = False"

definition binary_match :: "expr_kind \<Rightarrow> expr \<Rightarrow> (expr \<times> expr) option" where
  "binary_match k e = (if getKind e \<noteq> k then None
     else (case operands e of [a, b] \<Rightarrow> Some (a, b) | _ \<Rightarrow> None))"

definition m_Not :: "expr \<Rightarrow> expr option" where
  "m_Not e = (if getKind e \<noteq> NotK then None else (case operands e of a # _ \<Rightarrow> Some a | [] \<Rightarrow> None))"

definition m_Select :: "expr \<Rightarrow> (expr \<times> expr \<times> expr) option" where
  "m_Select e = (if getKind e \<noteq> Select then None
     else (case operands e of [c, t, f] \<Rightarrow> Some (c, t, f) | _ \<Rightarrow> None))"

text \<open>\<open>m_Or(m_Not(m_Expr(x)), m_Expr(y))\<close> and \<open>m_Add(m_Int(c), m_Expr(x))\<close> try both orders,
  \<open>m_Sub(m_Expr(x), m_Int(c))\<close> only one.\<close>

definition m_Or_Not :: "expr \<Rightarrow> (expr \<times> expr) option" where
  "m_Or_Not e = (case binary_match Or e of None \<Rightarrow> None
   | Some (a, b) \<Rightarrow> (case m_Not a of Some x \<Rightarrow> Some (x, b)
     | None \<Rightarrow> (case m_Not b of Some x \<Rightarrow> Some (x, a) | None \<Rightarrow> None)))"

definition m_Add_Int :: "expr \<Rightarrow> (int \<times> expr) option" where
  "m_Add_Int e = (case binary_match Add e of None \<Rightarrow> None
   | Some (a, b) \<Rightarrow> (case dyn_Int a of Some c \<Rightarrow> Some (c, b)
     | None \<Rightarrow> (case dyn_Int b of Some c \<Rightarrow> Some (c, a) | None \<Rightarrow> None)))"

definition m_Sub_Int :: "expr \<Rightarrow> (expr \<times> int) option" where
  "m_Sub_Int e = (case binary_match Sub e of None \<Rightarrow> None
   | Some (a, b) \<Rightarrow> (case dyn_Int b of Some c \<Rightarrow> Some (a, c) | None \<Rightarrow> None))"

text \<open>\<open>m_Select(m_Expr(c), m_Literal(l1), m_Literal(l2))\<close>.\<close>

definition m_Select_Literals :: "expr \<Rightarrow> (expr \<times> expr \<times> expr) option" where
  "m_Select_Literals e = (case m_Select e of None \<Rightarrow> None
   | Some (c, l1, l2) \<Rightarrow> (if isLiteral l1 \<and> isLiteral l2 then Some (c, l1, l2) else None))"

text \<open>\<open>FoldingExprBuilder\<close>: the logic connectives. \<open>newOps\<close> of the loops is \<open>None\<close> once an operand
  decides the result.\<close>

fun And_newOps :: "expr list \<Rightarrow> expr list option" where
  "And_newOps [] = Some []"
| "And_newOps (x # xs) = (case dyn_Bool x of
     Some b \<Rightarrow> (if b then And_newOps xs else None)
   | None \<Rightarrow> map_option (\<lambda>ns. (if getKind x = And then operands x else [x]) @ ns) (And_newOps xs))"

definition fold_And :: "expr list \<Rightarrow> expr res" where
  "fold_And xs = (case And_newOps xs of None \<Rightarrow> Inr False_lit
   | Some newOps \<Rightarrow> (case newOps of [] \<Rightarrow> Inr True_lit | [x] \<Rightarrow> Inr x
     | _ \<Rightarrow> MultiaryLogicExpr_Create And newOps))"

fun Or_newOps :: "expr list \<Rightarrow> expr list option" where
  "Or_newOps [] = Some []"
| "Or_newOps (x # xs) = (case dyn_Bool x of
     Some b \<Rightarrow> (if b then None else Or_newOps xs)
   | None \<Rightarrow> map_option (\<lambda>ns. (if getKind x = Or then operands x else [x]) @ ns) (Or_newOps xs))"

definition fold_Or :: "expr list \<Rightarrow> expr res" where
  "fold_Or xs = (case Or_newOps xs of None \<Rightarrow> Inr True_lit
   | Some newOps \<Rightarrow> (case newOps of [] \<Rightarrow> Inr False_lit | [x] \<Rightarrow> Inr x
     | _ \<Rightarrow> MultiaryLogicExpr_Create Or newOps))"

lemma m_Or_Not_size: "m_Or_Not e = Some (x, y) \<Longrightarrow> size y < size e"
  by (cases e) (auto simp: m_Or_Not_def binary_match_def split: if_splits list.splits option.splits)

function fold_Not :: "expr \<Rightarrow> expr res" where
  "fold_Not e = (case dyn_Bool e of
     Some b \<Rightarrow> Inr (LiteralExpr (BoolLiteral (\<not> b)))
   | None \<Rightarrow> (case m_Or_Not e of
       Some (x, y) \<Rightarrow> rbind (fold_Not y) (\<lambda>ny. fold_And [x, ny])
     | None \<Rightarrow> NotExpr_Create e))"
  by auto
termination by (relation "measure size") (auto simp: m_Or_Not_size)

declare fold_Not.simps [simp del]

definition fold_Imply :: "expr \<Rightarrow> expr \<Rightarrow> expr res" where
  "fold_Imply l r = (case dyn_Bool l of
     Some b \<Rightarrow> Inr (if b then r else True_lit)
   | None \<Rightarrow> (case dyn_Bool r of
       Some b \<Rightarrow> (if b then Inr True_lit else fold_Not l)
     | None \<Rightarrow> BinaryLogicExpr_Create Imply l r))"

text \<open>Casts.\<close>

definition fold_Ext :: "llvm_api \<Rightarrow> expr_kind \<Rightarrow> expr \<Rightarrow> gtype \<Rightarrow> expr res" where
  "fold_Ext L k e t = (case dyn_Bv e of
     Some a \<Rightarrow> (case t of
       BvType w \<Rightarrow> rbind (of_lib (if k = ZExt then apZExt L a w else apSExt L a w)) (\<lambda>x.
         rbind (BvLiteralExpr_Get t x) (\<lambda>l. Inr (LiteralExpr l)))
     | _ \<Rightarrow> Inl BadCast)
   | None \<Rightarrow> ExtCastExpr_Create k e t)"

definition fold_Extract :: "llvm_api \<Rightarrow> expr \<Rightarrow> nat \<Rightarrow> nat \<Rightarrow> expr res" where
  "fold_Extract L e offset width = (case dyn_Bv e of
     Some a \<Rightarrow> rbind (of_lib (apExtract L a width offset)) (\<lambda>x.
       rbind (BvLiteralExpr_Get (BvType width) x) (\<lambda>l. Inr (LiteralExpr l)))
   | None \<Rightarrow> (if isUndef e then Inr (UndefExpr (BvType width)) else ExtractExpr_Create e offset width))"

definition fold_BvConcat :: "llvm_api \<Rightarrow> expr \<Rightarrow> expr \<Rightarrow> expr res" where
  "fold_BvConcat L l r = (case (getType l, getType r) of
     (BvType wl, BvType wr) \<Rightarrow> (let width = u32 (wl + wr) in
       (case (dyn_Bv l, dyn_Bv r) of
          (Some a, Some b) \<Rightarrow> rbind (of_lib (apZExt L a width)) (\<lambda>a1.
            rbind (of_lib (apShlN L a1 wr)) (\<lambda>a2. rbind (of_lib (apZExt L b width)) (\<lambda>b1.
              Inr (BvLit (apOr L a2 b1)))))
        | _ \<Rightarrow> (if isUndef l \<and> isUndef r then Inr (UndefExpr (BvType width))
               else BvConcatExpr_Create l r)))
   | _ \<Rightarrow> Inl BadCast)"

text \<open>\<open>foldBinaryExpr\<close>: the rules for a literal on the right, the rules for two literals, and the
  retry with swapped operands, whose recursion is bounded by the fuel. A null result is \<open>None\<close>.\<close>

definition fold_right_Int :: "expr_kind \<Rightarrow> expr \<Rightarrow> expr \<Rightarrow> int \<Rightarrow> expr option" where
  "fold_right_Int k left right v = (case k of
     Add \<Rightarrow> (if v = 0 then Some left else None)
   | Sub \<Rightarrow> (if v = 0 then Some left else None)
   | Mul \<Rightarrow> (if v = 0 then Some right else if v = 1 then Some left else None)
   | Div \<Rightarrow> (if v = 1 then Some left else None)
   | Mod \<Rightarrow> (if v = 1 then Some (IntLit 0) else None)
   | Rem \<Rightarrow> (if v = 1 then Some (IntLit 0) else None)
   | _ \<Rightarrow> None)"

definition fold_right_Bv :: "llvm_api \<Rightarrow> expr_kind \<Rightarrow> expr \<Rightarrow> expr \<Rightarrow> apint \<Rightarrow> expr option" where
  "fold_right_Bv L k left right a = (case k of
     Add \<Rightarrow> (if apIsZero L a then Some left else None)
   | Sub \<Rightarrow> (if apIsZero L a then Some left else None)
   | Mul \<Rightarrow> (if apIsZero L a then Some right else if apIsOne L a then Some left else None)
   | BvUDiv \<Rightarrow> (if apIsOne L a then Some left else None)
   | BvSDiv \<Rightarrow> (if apIsOne L a then Some left else None)
   | BvURem \<Rightarrow> (if apIsOne L a then Some (BvLit (apOfNat L (getBitWidth a) 0)) else None)
   | BvSRem \<Rightarrow> (if apIsOne L a then Some (BvLit (apOfNat L (getBitWidth a) 0)) else None)
   | BvAnd \<Rightarrow> (if apIsZero L a then Some right else if apIsAllOnes L a then Some left else None)
   | BvOr \<Rightarrow> (if apIsZero L a then Some left else if apIsAllOnes L a then Some right
       else if apIsZero L a then Some left else None)
   | BvXor \<Rightarrow> (if apIsZero L a then Some left else None)
   | _ \<Rightarrow> None)"

definition fold_lits_Int :: "expr_kind \<Rightarrow> int \<Rightarrow> int \<Rightarrow> expr option res" where
  "fold_lits_Int k l r = (case k of
     Add \<Rightarrow> rbind (i64 (l + r)) (\<lambda>v. Inr (Some (IntLit v)))
   | Sub \<Rightarrow> rbind (i64 (l - r)) (\<lambda>v. Inr (Some (IntLit v)))
   | Mul \<Rightarrow> rbind (i64 (l * r)) (\<lambda>v. Inr (Some (IntLit v)))
   | Div \<Rightarrow> rbind (i64_div l r) (\<lambda>v. Inr (Some (IntLit v)))
   | _ \<Rightarrow> Inr None)"

definition fold_bv_arith :: "llvm_api \<Rightarrow> expr_kind \<Rightarrow> apint \<Rightarrow> apint \<Rightarrow> apint res" where
  "fold_bv_arith L k l r = (case k of
     Add \<Rightarrow> Inr (apAdd L l r)
   | Sub \<Rightarrow> Inr (apSub L l r)
   | Mul \<Rightarrow> Inr (apMul L l r)
   | BvUDiv \<Rightarrow> of_lib (apUDiv L l r)
   | BvSDiv \<Rightarrow> of_lib (apSDiv L l r)
   | BvURem \<Rightarrow> of_lib (apURem L l r)
   | BvSRem \<Rightarrow> of_lib (apSRem L l r)
   | BvAnd \<Rightarrow> Inr (apAnd L l r)
   | BvOr \<Rightarrow> Inr (apOr L l r)
   | BvXor \<Rightarrow> Inr (apXor L l r)
   | Shl \<Rightarrow> Inr (apShl L l r)
   | LShr \<Rightarrow> Inr (apLShr L l r)
   | AShr \<Rightarrow> Inr (apAShr L l r)
   | _ \<Rightarrow> Inl Unreachable)"

definition zero_left_kinds :: "expr_kind set" where
  "zero_left_kinds = {BvSDiv, BvUDiv, BvSRem, BvURem, LShr, AShr, Shl}"

definition fold_lits :: "llvm_api \<Rightarrow> expr_kind \<Rightarrow> expr \<Rightarrow> expr \<Rightarrow> expr option res" where
  "fold_lits L k left right = (case dyn_Int left of
     Some l \<Rightarrow> (case dyn_Int right of Some r \<Rightarrow> fold_lits_Int k l r | None \<Rightarrow> Inr None)
   | None \<Rightarrow> (case dyn_Bv left of
       Some l \<Rightarrow> (case dyn_Bv right of
           Some r \<Rightarrow> rbind (fold_bv_arith L k l r) (\<lambda>x. Inr (Some (BvLit x)))
         | None \<Rightarrow> Inr (if k \<in> zero_left_kinds \<and> apIsZero L l then Some left else None))
     | None \<Rightarrow> Inr None))"

fun foldBinaryExpr :: "nat \<Rightarrow> llvm_api \<Rightarrow> expr_kind \<Rightarrow> expr \<Rightarrow> expr \<Rightarrow> expr option res" where
  "foldBinaryExpr 0 L k left right = Inl StackOverflow"
| "foldBinaryExpr (Suc n) L k left right = (case dyn_Int right of
     Some v \<Rightarrow> (case fold_right_Int k left right v of Some e \<Rightarrow> Inr (Some e)
       | None \<Rightarrow> fold_lits L k left right)
   | None \<Rightarrow> (case dyn_Bv right of
       Some a \<Rightarrow> (case fold_right_Bv L k left right a of Some e \<Rightarrow> Inr (Some e)
         | None \<Rightarrow> fold_lits L k left right)
     | None \<Rightarrow> (if isLiteral left \<and> isCommutative k then foldBinaryExpr n L k right left
         else fold_lits L k left right)))"

definition fold_Arithmetic :: "llvm_api \<Rightarrow> expr_kind \<Rightarrow> expr \<Rightarrow> expr \<Rightarrow> expr res" where
  "fold_Arithmetic L k left right = (if k \<in> {Div, Mod, Rem} then ArithmeticExpr_Create k left right
     else rbind (foldBinaryExpr 3 L k left right) (\<lambda>folded. (case folded of
       Some e \<Rightarrow> Inr e | None \<Rightarrow> ArithmeticExpr_Create k left right)))"

text \<open>Comparisons. \<open>foldBinaryCompare\<close> swaps its operands once when only the left one is a
  Boolean literal.\<close>

definition compare_Bool :: "expr_kind \<Rightarrow> expr \<Rightarrow> bool \<Rightarrow> expr option res" where
  "compare_Bool k x b = (case k of
     Eq \<Rightarrow> (if b then Inr (Some x) else rbind (fold_Not x) (\<lambda>n. Inr (Some n)))
   | NotEq \<Rightarrow> (if b then rbind (fold_Not x) (\<lambda>n. Inr (Some n)) else Inr (Some x))
   | _ \<Rightarrow> Inr None)"

definition compare_Bv_lits :: "llvm_api \<Rightarrow> expr_kind \<Rightarrow> apint \<Rightarrow> apint \<Rightarrow> bool res" where
  "compare_Bv_lits L k l r = (case k of
     BvSLt \<Rightarrow> Inr (apSlt L l r)
   | BvSLtEq \<Rightarrow> Inr (apSle L l r)
   | BvSGt \<Rightarrow> Inr (apSgt L l r)
   | BvSGtEq \<Rightarrow> Inr (apSge L l r)
   | BvULt \<Rightarrow> Inr (apUlt L l r)
   | BvULtEq \<Rightarrow> Inr (apUle L l r)
   | BvUGt \<Rightarrow> Inr (apUgt L l r)
   | BvUGtEq \<Rightarrow> Inr (apUge L l r)
   | Eq \<Rightarrow> Inr (apEq L l r)
   | NotEq \<Rightarrow> Inr (\<not> apEq L l r)
   | _ \<Rightarrow> Inl Unreachable)"

definition compare_Int_lits :: "expr_kind \<Rightarrow> int \<Rightarrow> int \<Rightarrow> bool res" where
  "compare_Int_lits k l r = (case k of
     Eq \<Rightarrow> Inr (l = r)
   | NotEq \<Rightarrow> Inr (l \<noteq> r)
   | Lt \<Rightarrow> Inr (l < r)
   | LtEq \<Rightarrow> Inr (l \<le> r)
   | Gt \<Rightarrow> Inr (l > r)
   | GtEq \<Rightarrow> Inr (l \<ge> r)
   | _ \<Rightarrow> Inl Unreachable)"

definition compare_lits :: "llvm_api \<Rightarrow> expr_kind \<Rightarrow> expr \<Rightarrow> expr \<Rightarrow> expr option res" where
  "compare_lits L k left right = (case (dyn_Bv left, dyn_Bv right) of
     (Some l, Some r) \<Rightarrow> rbind (compare_Bv_lits L k l r) (\<lambda>b. Inr (Some (BoolLit b)))
   | _ \<Rightarrow> (case (dyn_Int left, dyn_Int right) of
       (Some l, Some r) \<Rightarrow> rbind (compare_Int_lits k l r) (\<lambda>b. Inr (Some (BoolLit b)))
     | _ \<Rightarrow> Inr None))"

definition foldBinaryCompare_right ::
  "llvm_api \<Rightarrow> expr_kind \<Rightarrow> expr \<Rightarrow> expr \<Rightarrow> bool \<Rightarrow> expr option res" where
  "foldBinaryCompare_right L k left right b = rbind (compare_Bool k left b) (\<lambda>folded.
     (case folded of Some e \<Rightarrow> Inr (Some e) | None \<Rightarrow> compare_lits L k left right))"

definition foldBinaryCompare :: "llvm_api \<Rightarrow> expr_kind \<Rightarrow> expr \<Rightarrow> expr \<Rightarrow> expr option res" where
  "foldBinaryCompare L k left right = (case dyn_Bool right of
     Some b \<Rightarrow> foldBinaryCompare_right L k left right b
   | None \<Rightarrow> (case dyn_Bool left of
       Some b \<Rightarrow> foldBinaryCompare_right L k right left b
     | None \<Rightarrow> compare_lits L k left right))"

text \<open>\<open>Eq\<close>. The pattern \<open>m_Specific(l1)\<close> of the first rule binds a temporary made from the null
  \<open>l1\<close>, which equals no expression; when the second rule is tried, \<open>l2\<close> holds the literal that the
  last successful match of the first rule bound.\<close>

definition Eq_select_match :: "expr \<Rightarrow> expr \<Rightarrow> expr option" where
  "Eq_select_match left right = (case m_Select_Literals left of
     Some (c, l1, l2) \<Rightarrow> (case m_Select_Literals right of
         Some _ \<Rightarrow> None
       | None \<Rightarrow> (if right = l2 then Some c else None))
   | None \<Rightarrow> (case m_Select_Literals right of
         Some (c, l1, l2) \<Rightarrow> (if left = l2 then Some c else None)
       | None \<Rightarrow> None))"

definition fold_Eq :: "llvm_api \<Rightarrow> expr \<Rightarrow> expr \<Rightarrow> expr res" where
  "fold_Eq L left right =
    (if left = right then Inr True_lit
     else if isLiteral left \<and> isLiteral right then Inr False_lit
     else rbind (foldBinaryCompare L Eq left right) (\<lambda>folded. (case folded of
       Some e \<Rightarrow> Inr e
     | None \<Rightarrow> (case Eq_select_match left right of
         Some c \<Rightarrow> fold_Not c
       | None \<Rightarrow> CompareExpr_Create Eq left right))))"

definition simplifyLtEq :: "expr \<Rightarrow> expr \<Rightarrow> expr res" where
  "simplifyLtEq left right = (case (case dyn_Int right of Some c2 \<Rightarrow> Some (c2, left)
       | None \<Rightarrow> (case dyn_Int left of Some c2 \<Rightarrow> Some (c2, right) | None \<Rightarrow> None)) of
     None \<Rightarrow> CompareExpr_Create LtEq left right
   | Some (c2, other) \<Rightarrow>
       (let create = (\<lambda>x v. if other = left then CompareExpr_Create LtEq x (IntLit v)
                             else CompareExpr_Create LtEq (IntLit v) x) in
       (case m_Add_Int other of
          Some (c1, x) \<Rightarrow> rbind (i64 (c2 - c1)) (create x)
        | None \<Rightarrow> (case m_Sub_Int other of
            Some (x, c1) \<Rightarrow> rbind (i64 (c2 + c1)) (create x)
          | None \<Rightarrow> CompareExpr_Create LtEq left right))))"

definition fold_LtEq :: "llvm_api \<Rightarrow> expr \<Rightarrow> expr \<Rightarrow> expr res" where
  "fold_LtEq L left right = rbind (foldBinaryCompare L LtEq left right) (\<lambda>folded. (case folded of
     Some e \<Rightarrow> Inr e | None \<Rightarrow> simplifyLtEq left right))"

definition fold_Gt :: "llvm_api \<Rightarrow> expr \<Rightarrow> expr \<Rightarrow> expr res" where
  "fold_Gt L left right = rbind (foldBinaryCompare L Gt left right) (\<lambda>folded. (case folded of
     Some e \<Rightarrow> Inr e
   | None \<Rightarrow> (case dyn_Int left of
       Some c \<Rightarrow> rbind (i64 (c - 1)) (\<lambda>v. CompareExpr_Create LtEq right (IntLit v))
     | None \<Rightarrow> rbind (fold_LtEq L left right) fold_Not)))"

definition fold_Compare :: "llvm_api \<Rightarrow> expr_kind \<Rightarrow> expr \<Rightarrow> expr \<Rightarrow> expr res" where
  "fold_Compare L k left right =
    (if k = Eq then fold_Eq L left right
     else if k = NotEq then rbind (fold_Eq L left right) fold_Not
     else if k = Lt then rbind (fold_LtEq L right left) fold_Not
     else if k = LtEq then fold_LtEq L left right
     else if k = Gt then fold_Gt L left right
     else if k = GtEq then fold_LtEq L right left
     else CompareExpr_Create k left right)"

text \<open>Floating-point queries, selection and arrays.\<close>

definition fold_FpQuery :: "llvm_api \<Rightarrow> expr_kind \<Rightarrow> expr \<Rightarrow> expr res" where
  "fold_FpQuery L k e = (case dyn_Float e of
     Some f \<Rightarrow> Inr (BoolLit (if k = FIsNan then fpIsNaN L f else fpIsInf L f))
   | None \<Rightarrow> FpQueryExpr_Create k e)"

text \<open>The rules of \<open>Select\<close> that look inside its operands, tried in order once the literal cases
  are done.\<close>

definition select_rules :: "expr \<Rightarrow> expr \<Rightarrow> expr \<Rightarrow> expr res" where
  "select_rules c t f = (case m_Not c of Some c1 \<Rightarrow> SelectExpr_Create c1 f t
   | None \<Rightarrow> (case (m_Select t, m_Select f) of
       (st, sf) \<Rightarrow>
        (if st \<noteq> None \<and> fst (the st) = c then SelectExpr_Create c (fst (snd (the st))) f
         else if sf \<noteq> None \<and> fst (the sf) = c then SelectExpr_Create c t (snd (snd (the sf)))
         else if st \<noteq> None \<and> fst (snd (the st)) = f then
           rbind (fold_Not (fst (the st))) (\<lambda>n. rbind (fold_And [c, n]) (\<lambda>a.
             SelectExpr_Create a (fst (snd (the st))) (snd (snd (the st)))))
         else if st \<noteq> None \<and> snd (snd (the st)) = f then
           rbind (MultiaryLogicExpr_Create And [c, fst (the st)]) (\<lambda>a.
             SelectExpr_Create a (fst (snd (the st))) (snd (snd (the st))))
         else if sf \<noteq> None \<and> fst (snd (the sf)) = t then
           rbind (MultiaryLogicExpr_Create Or [c, fst (the sf)]) (\<lambda>a.
             SelectExpr_Create a t (snd (snd (the sf))))
         else SelectExpr_Create c t f)))"

definition fold_Select :: "expr \<Rightarrow> expr \<Rightarrow> expr \<Rightarrow> expr res" where
  "fold_Select c t f = (case dyn_Bool c of
     Some b \<Rightarrow> Inr (if b then t else f)
   | None \<Rightarrow>
      (if t = f then Inr t
       else if f = False_lit then fold_And [c, t]
       else if f = True_lit then rbind (fold_Not c) (\<lambda>n. fold_Or [n, t])
       else if t = True_lit then fold_Or [c, f]
       else if t = False_lit then rbind (fold_Not c) (\<lambda>n. fold_And [n, f])
       else select_rules c t f))"

fun fold_Write :: "expr \<Rightarrow> expr \<Rightarrow> expr \<Rightarrow> expr res" where
  "fold_Write (LiteralExpr (ArrayLiteral i e m d)) index v =
     (if m = [] \<and> LiteralExpr d = v then Inr (LiteralExpr (ArrayLiteral i e m d))
      else ArrayWriteExpr_Create (LiteralExpr (ArrayLiteral i e m d)) index v)"
| "fold_Write a index v = ArrayWriteExpr_Create a index v"

fun fold_Read :: "expr \<Rightarrow> expr \<Rightarrow> expr res" where
  "fold_Read (LiteralExpr (ArrayLiteral i e m d)) index =
     (if m = [] then Inr (LiteralExpr d) else ArrayReadExpr_Create (LiteralExpr (ArrayLiteral i e m d)) index)"
| "fold_Read a index = ArrayReadExpr_Create a index"

definition folding_builder :: "llvm_api \<Rightarrow> expr_builder" where
  "folding_builder L = plain_builder\<lparr>
     bNot := fold_Not, bExt := fold_Ext L, bExtract := fold_Extract L,
     bArithmetic := fold_Arithmetic L, bBvConcat := fold_BvConcat L,
     bAnd := fold_And, bOr := fold_Or, bImply := fold_Imply, bCompare := fold_Compare L,
     bFpQuery := fold_FpQuery L, bSelect := fold_Select,
     bWrite := fold_Write, bRead := fold_Read \<rparr>"

end
