(* ===== verification/GazerWalker.thy ===== *)
theory GazerWalker
  imports GazerExpr
begin

text \<open>
  \<open>ExprWalker\<close> (\<^verbatim>\<open>include/gazer/Core/Expr/ExprWalker.h\<close>): the non-recursive post-order traversal every
  expression visitor of the program runs on. The linked list of frames from \<open>mTop\<close> along \<open>mParent\<close>
  is a list, the top frame first. The methods a derived class overrides are the fields of the
  record \<open>walker\<close>; the state they update (a cache, say) is the type variable \<open>'s\<close>.

  \<open>walk_rec\<close> is the recursive traversal the walker replaces. The locale \<open>walker_contract\<close> states what a
  derived class with a state promises; the explicit-stack loop then ends with a value that has the
  promised property. For a class whose visits do not depend on the state, \<open>walker_client\<close>, this is the
  value of the recursive traversal.
\<close>

record ('r, 's) walker =
  w_default :: 'r
  w_shouldSkip :: "'s \<Rightarrow> expr \<Rightarrow> 'r option"
  w_handleResult :: "'s \<Rightarrow> expr \<Rightarrow> 'r \<Rightarrow> 's"
  w_doVisit :: "'s \<Rightarrow> expr \<Rightarrow> 'r list \<Rightarrow> ('r \<times> 's) res"

record 'r frame =
  mExpr :: expr
  mIndex :: nat
  mState :: nat
  mVisitedOps :: "'r list"

definition isNullaryExpr :: "expr \<Rightarrow> bool" where
  "isNullaryExpr e = isNullary (getKind e)"

definition createFrame :: "'r \<Rightarrow> expr \<Rightarrow> nat \<Rightarrow> 'r frame" where
  "createFrame d e idx = \<lparr>mExpr = e, mIndex = idx, mState = 0,
     mVisitedOps = replicate (if isNullaryExpr e then 0 else length (operands e)) d\<rparr>"

definition isFinished :: "'r frame \<Rightarrow> bool" where
  "isFinished f \<longleftrightarrow> isNullaryExpr (mExpr f) \<or> length (operands (mExpr f)) = mState f"

definition getOperand :: "'r list \<Rightarrow> nat \<Rightarrow> 'r res" where
  "getOperand vs i = check (i < length vs) AssertFail (Inr (vs ! i))"

text \<open>The value of a finished or skipped frame, and its delivery to the parent.\<close>

definition frame_value :: "('r, 's) walker \<Rightarrow> 'r frame \<Rightarrow> 's \<Rightarrow> ('r \<times> 's) res" where
  "frame_value W cur s = (case w_shouldSkip W s (mExpr cur) of
     Some r \<Rightarrow> Inr (r, s)
   | None \<Rightarrow> rbind (w_doVisit W s (mExpr cur) (mVisitedOps cur))
       (\<lambda>(r, s'). Inr (r, w_handleResult W s' (mExpr cur) r)))"

definition deliver :: "nat \<Rightarrow> 'r \<Rightarrow> 'r frame list \<Rightarrow> 's \<Rightarrow> (('r frame list \<times> 's) + ('r \<times> 's)) res" where
  "deliver idx ret rest s = (case rest of
     [] \<Rightarrow> Inr (Inr (ret, s))
   | parent # rest' \<Rightarrow> check (idx < length (mVisitedOps parent)) OutOfRange
       (Inr (Inl (parent\<lparr>mVisitedOps := (mVisitedOps parent)[idx := ret]\<rparr> # rest', s))))"

text \<open>One iteration of the loop of \<open>ExprWalker::walk\<close>.\<close>

fun walk_step :: "('r, 's) walker \<Rightarrow> 'r frame list \<Rightarrow> 's \<Rightarrow>
    (('r frame list \<times> 's) + ('r \<times> 's)) res" where
  "walk_step W [] s = Inl Unreachable"
| "walk_step W (cur # rest) s =
     (if isFinished cur \<or> w_shouldSkip W s (mExpr cur) \<noteq> None then
        rbind (frame_value W cur s) (\<lambda>(ret, s'). deliver (mIndex cur) ret rest s')
      else check (mState cur < length (operands (mExpr cur))) OutOfRange
        (Inr (Inl (createFrame (w_default W) (operands (mExpr cur) ! mState cur) (mState cur)
           # cur\<lparr>mState := Suc (mState cur)\<rparr> # rest, s))))"

partial_function (option) walk_loop ::
    "('r, 's) walker \<Rightarrow> 'r frame list \<Rightarrow> 's \<Rightarrow> ('r \<times> 's) res option" where
  "walk_loop W st s = (case walk_step W st s of
     Inl e \<Rightarrow> Some (Inl e)
   | Inr next \<Rightarrow> (case next of Inr r \<Rightarrow> Some (Inr r) | Inl c \<Rightarrow> walk_loop W (fst c) (snd c)))"

definition walk :: "('r, 's) walker \<Rightarrow> expr \<Rightarrow> 's \<Rightarrow> ('r \<times> 's) res option" where
  "walk W e s = walk_loop W [createFrame (w_default W) e 0] s"

text \<open>The recursive post-order traversal: operands from left to right, then the node.\<close>

fun walk_rec :: "(expr \<Rightarrow> 'r list \<Rightarrow> 'r res) \<Rightarrow> expr \<Rightarrow> 'r res" where
  "walk_rec vis (NonNullaryExpr k t ops d) =
     rbind (res_map (walk_rec vis) ops) (\<lambda>vs. vis (NonNullaryExpr k t ops d) vs)"
| "walk_rec vis e = vis e []"

text \<open>Trees as the factories build them: a non-nullary node has a non-nullary kind.\<close>

fun kinds_ok :: "expr \<Rightarrow> bool" where
  "kinds_ok (NonNullaryExpr k t ops d) = (\<not> isNullary k \<and> list_all kinds_ok ops)"
| "kinds_ok e = True"

lemma isNullary_leaf [simp]: "isNullary Undef" "isNullary LiteralK" "isNullary VarRef"
  by (simp_all add: isNullary_def)

lemma walk_loop_step:
  "walk_step W st s = Inr (Inl (st', s')) \<Longrightarrow> walk_loop W st s = walk_loop W st' s'"
  by (subst walk_loop.simps) simp

lemma walk_loop_error: "walk_step W st s = Inl e \<Longrightarrow> walk_loop W st s = Some (Inl e)"
  by (subst walk_loop.simps) simp

text \<open>What remains to be done once the top frame has its value.\<close>

definition resume :: "('r, 's) walker \<Rightarrow> nat \<Rightarrow> 'r res \<Rightarrow> 'r frame list \<Rightarrow> 's \<Rightarrow> ('r \<times> 's) res option" where
  "resume W idx v rest s = (case v of Inl e \<Rightarrow> Some (Inl e)
     | Inr r \<Rightarrow> (case rest of [] \<Rightarrow> Some (Inr (r, s))
       | p # rest' \<Rightarrow> walk_loop W (p\<lparr>mVisitedOps := (mVisitedOps p)[idx := r]\<rparr> # rest') s))"

definition fits :: "nat \<Rightarrow> 'r frame list \<Rightarrow> bool" where
  "fits idx rest = (case rest of [] \<Rightarrow> True | p # _ \<Rightarrow> idx < length (mVisitedOps p))"

text \<open>
  The interface between the walker and a derived class. \<open>ok e v\<close> is what the class promises of the value or failure \<open>v\<close>
  of an expression: it holds of a skipped value, of what a visit makes of such values of the operands, and of the
  failure of an operand. \<open>ready\<close> are the expressions the class is used on, and \<open>inv\<close> is its invariant.
\<close>

locale walker_contract =
  fixes W :: "('r, 's) walker" and ok :: "expr \<Rightarrow> 'r res \<Rightarrow> bool" and inv :: "'s \<Rightarrow> bool" and ready :: "expr \<Rightarrow> bool"
  assumes ready_kinds: "ready e \<Longrightarrow> kinds_ok e"
    and ready_operand: "ready e \<Longrightarrow> x \<in> set (operands e) \<Longrightarrow> ready x"
    and skip: "inv s \<Longrightarrow> ready e \<Longrightarrow> w_shouldSkip W s e = Some r \<Longrightarrow> ok e (Inr r)"
    and visit: "inv s \<Longrightarrow> ready e \<Longrightarrow> list_all2 (\<lambda>x r. ok x (Inr r)) (operands e) vs \<Longrightarrow>
      (case w_doVisit W s e vs of Inl err \<Rightarrow> ok e (Inl err) | Inr (r, s') \<Rightarrow> ok e (Inr r) \<and> inv s')"
    and handle: "inv s \<Longrightarrow> ready e \<Longrightarrow> ok e (Inr r) \<Longrightarrow> inv (w_handleResult W s e r)"
    and failure: "ready e \<Longrightarrow> i < length (operands e) \<Longrightarrow> list_all2 (\<lambda>x r. ok x (Inr r)) (take i (operands e)) vs \<Longrightarrow>
      ok (operands e ! i) (Inl err) \<Longrightarrow> ok e (Inl err)"
begin

abbreviation values_of :: "expr list \<Rightarrow> 'r list \<Rightarrow> bool" where
  "values_of \<equiv> list_all2 (\<lambda>x r. ok x (Inr r))"

definition returns :: "expr \<Rightarrow> nat \<Rightarrow> 'r frame list \<Rightarrow> ('r \<times> 's) res option \<Rightarrow> bool" where
  "returns e idx rest out \<longleftrightarrow> (\<exists>v s'. ok e v \<and> (v \<in> range Inr \<longrightarrow> inv s') \<and> out = resume W idx v rest s')"

lemma finish:
  assumes "inv s" and "ready (mExpr cur)" and "isFinished cur \<or> w_shouldSkip W s (mExpr cur) \<noteq> None"
    and "isFinished cur \<Longrightarrow> values_of (operands (mExpr cur)) (mVisitedOps cur)"
    and "fits (mIndex cur) rest"
  shows "returns (mExpr cur) (mIndex cur) rest (walk_loop W (cur # rest) s)"
proof -
  let ?e = "mExpr cur"
  have "case frame_value W cur s of Inl err \<Rightarrow> ok ?e (Inl err) | Inr (r, s') \<Rightarrow> ok ?e (Inr r) \<and> inv s'"
  proof (cases "w_shouldSkip W s ?e")
    case None
    with assms(3,4) have "values_of (operands ?e) (mVisitedOps cur)" by simp
    from visit [OF assms(1,2) this] show ?thesis
      using handle [OF _ assms(2)] None by (auto simp: frame_value_def split: sum.splits)
  next
    case (Some r)
    with skip [OF assms(1,2)] assms(1) show ?thesis by (simp add: frame_value_def)
  qed
  moreover have "walk_loop W (cur # rest) s = (case frame_value W cur s of
      Inl err \<Rightarrow> resume W (mIndex cur) (Inl err) rest s | Inr (r, s') \<Rightarrow> resume W (mIndex cur) (Inr r) rest s')"
    using assms(3,5)
    by (subst walk_loop.simps) (auto simp: resume_def deliver_def fits_def split: sum.splits list.splits)
  ultimately show ?thesis
    using assms(1) unfolding returns_def by (auto split: sum.splits prod.splits)
qed

lemma operand_loop:
  assumes IH: "\<And>x s idx rest. x \<in> set ops \<Longrightarrow> inv s \<Longrightarrow> fits idx rest \<Longrightarrow>
      returns x idx rest (walk_loop W (createFrame (w_default W) x idx # rest) s)"
    and e: "e = NonNullaryExpr k t ops d" "ready e"
    and vs: "values_of (take i ops) vs" "i \<le> length ops"
    and len: "length us = length ops - i" and s: "inv s" and fits: "fits idx rest"
  shows "returns e idx rest (walk_loop W (\<lparr>mExpr = e, mIndex = idx, mState = i, mVisitedOps = vs @ us\<rparr> # rest) s)"
  using vs len s
proof (induction "length ops - i" arbitrary: i vs us s)
  case 0
  let ?cur = "\<lparr>mExpr = e, mIndex = idx, mState = i, mVisitedOps = vs @ us\<rparr>"
  from 0 e have "isFinished ?cur" "us = []" "values_of (operands e) vs" by (auto simp: isFinished_def)
  then show ?case using finish [of s ?cur rest] 0 fits e(2) by simp
next
  case (Suc n)
  let ?cur = "\<lparr>mExpr = e, mIndex = idx, mState = i, mVisitedOps = vs @ us\<rparr>"
  let ?cur' = "\<lparr>mExpr = e, mIndex = idx, mState = Suc i, mVisitedOps = vs @ us\<rparr>"
  let ?x = "ops ! i"
  from Suc have i: "i < length ops" by simp
  have lvs: "length vs = i" using Suc.prems(1,2) by (auto dest: list_all2_lengthD)
  obtain u us' where us: "us = u # us'" using Suc.prems(3) i by (cases us) auto
  have unfinished: "\<not> isFinished ?cur"
    using i e ready_kinds [OF e(2)] by (simp add: isFinished_def isNullaryExpr_def)
  show ?case
  proof (cases "w_shouldSkip W s e = None")
    case False
    then show ?thesis using finish [of s ?cur rest] Suc.prems fits e(2) unfinished by simp
  next
    case True
    have "walk_loop W (?cur # rest) s = walk_loop W (createFrame (w_default W) ?x i # ?cur' # rest) s"
      using True i e unfinished by (intro walk_loop_step) simp
    moreover have "fits i (?cur' # rest)" using lvs us by (simp add: fits_def)
    ultimately obtain v s1 where v: "ok ?x v" "v \<in> range Inr \<longrightarrow> inv s1"
      "walk_loop W (?cur # rest) s = resume W i v (?cur' # rest) s1"
      using IH [of ?x s i "?cur' # rest"] i Suc.prems(4) by (auto simp: returns_def)
    show ?thesis
    proof (cases v)
      case (Inl err)
      then have "ok e (Inl err)" using failure [OF e(2), of i vs err] v(1) Suc.prems(1) i by (simp add: e(1))
      then show ?thesis using v(3) Inl unfolding returns_def
        by (intro exI [of _ "Inl err"] exI [of _ s1]) (auto simp: resume_def)
    next
      case (Inr r)
      have "values_of (take (Suc i) ops) (vs @ [r])"
        using Suc.prems(1) v(1) Inr i by (simp add: take_Suc_conv_app_nth list_all2_appendI)
      then have "returns e idx rest (walk_loop W
          (\<lparr>mExpr = e, mIndex = idx, mState = Suc i, mVisitedOps = (vs @ [r]) @ us'\<rparr> # rest) s1)"
        using Suc.hyps(2) Suc.prems(3) i us v(2) Inr by (intro Suc.hyps(1)) auto
      then show ?thesis using v(3) Inr lvs us by (simp add: resume_def list_update_append)
    qed
  qed
qed

lemma leaf:
  assumes "operands e = []" "isNullaryExpr e" "ready e" "inv s" "fits idx rest"
  shows "returns e idx rest (walk_loop W (createFrame (w_default W) e idx # rest) s)"
  using finish [of s "createFrame (w_default W) e idx" rest] assms
  by (simp add: createFrame_def isFinished_def)

lemma walk_loop_returns:
  "ready e \<Longrightarrow> inv s \<Longrightarrow> fits idx rest \<Longrightarrow> returns e idx rest (walk_loop W (createFrame (w_default W) e idx # rest) s)"
proof (induction e arbitrary: s idx rest)
  case (NonNullaryExpr k t ops d)
  let ?e = "NonNullaryExpr k t ops d"
  have "\<not> isNullary k" using ready_kinds [OF NonNullaryExpr.prems(1)] by simp
  then have "createFrame (w_default W) ?e idx = \<lparr>mExpr = ?e, mIndex = idx, mState = 0,
      mVisitedOps = [] @ replicate (length ops) (w_default W)\<rparr>"
    by (simp add: createFrame_def isNullaryExpr_def)
  moreover have "ready x" if "x \<in> set ops" for x using ready_operand [OF NonNullaryExpr.prems(1)] that by simp
  ultimately show ?case
    using operand_loop [of ops ?e k t d 0 "[]" "replicate (length ops) (w_default W)" s idx rest] NonNullaryExpr by auto
qed (simp_all add: leaf isNullaryExpr_def)

lemma walk_returns:
  assumes "ready e" and "inv s"
  shows "\<exists>v s'. ok e v \<and> (v \<in> range Inr \<longrightarrow> inv s') \<and>
    walk W e s = Some (case v of Inl err \<Rightarrow> Inl err | Inr r \<Rightarrow> Inr (r, s'))"
  using walk_loop_returns [OF assms, of 0 "[]"]
  by (fastforce simp: walk_def fits_def resume_def returns_def split: sum.splits)

end

text \<open>
  A class whose visits do not depend on its state: they are given by \<open>vis\<close>, and a skip returns the value
  of the recursive traversal. The walker then computes the recursive traversal, failures included.
\<close>

locale walker_client =
  fixes W :: "('r, 's) walker" and vis :: "expr \<Rightarrow> 'r list \<Rightarrow> 'r res" and inv :: "'s \<Rightarrow> bool"
  assumes pure_visit: "inv s \<Longrightarrow> w_doVisit W s e vs = rbind (vis e vs) (\<lambda>r. Inr (r, s))"
    and pure_skip: "inv s \<Longrightarrow> w_shouldSkip W s e = Some r \<Longrightarrow> walk_rec vis e = Inr r"
    and pure_handle: "inv s \<Longrightarrow> walk_rec vis e = Inr r \<Longrightarrow> inv (w_handleResult W s e r)"
begin

lemma rec_of_values:
  assumes "list_all2 (\<lambda>x r. walk_rec vis x = Inr r) (operands e) vs"
  shows "walk_rec vis e = vis e vs"
proof -
  have "res_map (walk_rec vis) (operands e) = Inr vs" using assms by (simp add: res_map_eq_Inr)
  then show ?thesis by (cases e) auto
qed

lemma rec_failure:
  assumes "i < length (operands e)" and "list_all2 (\<lambda>x r. walk_rec vis x = Inr r) (take i (operands e)) vs"
    and "walk_rec vis (operands e ! i) = Inl err"
  shows "walk_rec vis e = Inl err"
proof -
  have "res_map (walk_rec vis) (take i (operands e)) = Inr vs" using assms(2) by (simp add: res_map_eq_Inr)
  then have "res_map (walk_rec vis) (operands e) = Inl err"
    using res_map_append [of "walk_rec vis" "take i (operands e)" "operands e ! i # drop (Suc i) (operands e)"] assms(3)
    by (simp add: id_take_nth_drop [OF assms(1), symmetric])
  then show ?thesis by (cases e) auto
qed

end

sublocale walker_client \<subseteq> walker_contract W "\<lambda>e v. walk_rec vis e = v" inv kinds_ok
proof (unfold_locales, goal_cases)
  case (2 e x)
  then show ?case by (cases e) (auto simp: list_all_iff)
next
  case (4 s e vs)
  have "walk_rec vis e = vis e vs" using 4(3) by (rule rec_of_values)
  then show ?case using 4(1) by (cases "vis e vs") (simp_all add: pure_visit)
next
  case (6 e i vs err)
  from 6(2-4) show ?case by (rule rec_failure)
qed (blast intro: pure_skip pure_handle)+

context walker_client
begin

lemma walk_correct:
  assumes "kinds_ok e" and "inv s"
  shows "\<exists>s'. inv s' \<and> walk W e s =
    Some (case walk_rec vis e of Inl err \<Rightarrow> Inl err | Inr r \<Rightarrow> Inr (r, s'))"
proof -
  obtain s' where "walk_rec vis e \<in> range Inr \<longrightarrow> inv s'"
    "walk W e s = Some (case walk_rec vis e of Inl err \<Rightarrow> Inl err | Inr r \<Rightarrow> Inr (r, s'))"
    using walk_returns [OF assms] by metis
  then show ?thesis using assms(2) by (cases "walk_rec vis e") auto
qed

end

end
