(* ===== verification/GazerEval.thy ===== *)
theory GazerEval
  imports GazerWalker GazerTyping
begin

text \<open>
  Valuations (\<^verbatim>\<open>include/gazer/Core/Valuation.h\<close>) and the evaluator
  (\<^verbatim>\<open>src/Core/Expr/ExprEvaluator.cpp\<close>): one definition per \<open>visit\<close> method, the dispatch of
  \<open>ExprWalker::doVisit\<close>, and \<open>evaluate\<close>, which runs them on the walker. Evaluation yields an atomic
  expression, an undef or a literal.

  The evaluator is the reference semantics of the development: \<open>eval\<close> is its recursive form, proved
  equal to the walker run.
\<close>

type_synonym valuation = "variable \<rightharpoonup> literal"

datatype atomic = AUndef gtype | ALit literal

fun atomic_type :: "atomic \<Rightarrow> gtype" where
  "atomic_type (AUndef t) = t"
| "atomic_type (ALit l) = lit_type l"

fun atomic_isUndef :: "atomic \<Rightarrow> bool" where
  "atomic_isUndef (AUndef _) = True"
| "atomic_isUndef (ALit _) = False"

definition Valuation_put :: "valuation \<Rightarrow> variable \<Rightarrow> literal \<Rightarrow> valuation res" where
  "Valuation_put \<sigma> v l = check (type_equals (var_type v) (lit_type l)) AssertFail (Inr (\<sigma>(v \<mapsto> l)))"

definition getVariableValue :: "valuation \<Rightarrow> variable \<Rightarrow> atomic" where
  "getVariableValue \<sigma> v = (case \<sigma> v of None \<Rightarrow> AUndef (var_type v) | Some l \<Rightarrow> ALit l)"

text \<open>Casts of atomic values: \<open>llvm::cast\<close> asserts, \<open>llvm::dyn_cast\<close> yields a null pointer that the
  callers dereference.\<close>

fun cast_Bv :: "cpp_error \<Rightarrow> atomic \<Rightarrow> apint res" where
  "cast_Bv err (ALit (BvLiteral a)) = Inr a"
| "cast_Bv err _ = Inl err"

fun cast_Int :: "atomic \<Rightarrow> int res" where
  "cast_Int (ALit (IntLiteral v)) = Inr v"
| "cast_Int _ = Inl BadCast"

fun cast_Bool :: "atomic \<Rightarrow> bool res" where
  "cast_Bool (ALit (BoolLiteral b)) = Inr b"
| "cast_Bool _ = Inl BadCast"

fun cast_Float :: "atomic \<Rightarrow> apfloat res" where
  "cast_Float (ALit (FloatLiteral f)) = Inr f"
| "cast_Float _ = Inl BadCast"

fun cast_Real :: "atomic \<Rightarrow> (int \<times> int) res" where
  "cast_Real (ALit (RealLiteral n d)) = Inr (n, d)"
| "cast_Real _ = Inl BadCast"

abbreviation bool_atom :: "bool \<Rightarrow> atomic res" where "bool_atom b \<equiv> Inr (ALit (BoolLiteral b))"

definition bv_atom :: "gtype \<Rightarrow> apint \<Rightarrow> atomic res" where
  "bv_atom t a = rbind (BvLiteralExpr_Get t a) (\<lambda>l. Inr (ALit l))"

fun bv_width :: "gtype \<Rightarrow> nat res" where
  "bv_width (BvType w) = Inr w"
| "bv_width _ = Inl BadCast"

definition visitZExt :: "llvm_api \<Rightarrow> gtype \<Rightarrow> atomic list \<Rightarrow> atomic res" where
  "visitZExt L t vs = rbind (getOperand vs 0) (\<lambda>v. rbind (bv_width t) (\<lambda>w.
     rbind (cast_Bv NullDeref v) (\<lambda>a. rbind (of_lib (apZExt L a w)) (bv_atom t))))"

definition visitSExt :: "llvm_api \<Rightarrow> gtype \<Rightarrow> atomic list \<Rightarrow> atomic res" where
  "visitSExt L t vs = rbind (getOperand vs 0) (\<lambda>v. rbind (bv_width t) (\<lambda>w.
     rbind (cast_Bv NullDeref v) (\<lambda>a. rbind (of_lib (apSExt L a w)) (bv_atom t))))"

definition visitBvConcat :: "llvm_api \<Rightarrow> gtype \<Rightarrow> atomic list \<Rightarrow> atomic res" where
  "visitBvConcat L t vs = rbind (getOperand vs 0) (\<lambda>left. rbind (getOperand vs 1) (\<lambda>right.
     if atomic_isUndef left \<or> atomic_isUndef right then Inr (AUndef t)
     else rbind (cast_Bv BadCast left) (\<lambda>l. rbind (cast_Bv BadCast right) (\<lambda>r.
       let size = u32 (getBitWidth l + getBitWidth r) in
       rbind (of_lib (apZExt L l size)) (\<lambda>l1.
       rbind (of_lib (apShlN L l1 (getBitWidth r))) (\<lambda>l2.
       rbind (of_lib (apZExt L r size)) (\<lambda>r1.
         bv_atom (BvType size) (apOr L l2 r1))))))))"

definition visitExtract :: "llvm_api \<Rightarrow> gtype \<Rightarrow> subclass_data \<Rightarrow> atomic list \<Rightarrow> atomic res" where
  "visitExtract L t d vs = rbind (getOperand vs 0) (\<lambda>v. rbind (bv_width t) (\<lambda>w.
     rbind (cast_Bv NullDeref v) (\<lambda>a. (case d of
       ExtractData offset width \<Rightarrow> rbind (of_lib (apExtract L a w offset)) (bv_atom t)
     | _ \<Rightarrow> Inl BadCast))))"

text \<open>\<open>EvalBinaryArithmetic\<close>: its two switches, and the routine.\<close>

definition eval_bv_arith :: "llvm_api \<Rightarrow> expr_kind \<Rightarrow> apint \<Rightarrow> apint \<Rightarrow> apint res" where
  "eval_bv_arith L k l r = (case k of
     Add \<Rightarrow> Inr (apAdd L l r)
   | Sub \<Rightarrow> Inr (apSub L l r)
   | Mul \<Rightarrow> Inr (apMul L l r)
   | BvSDiv \<Rightarrow> of_lib (apSDiv L l r)
   | BvUDiv \<Rightarrow> of_lib (apUDiv L l r)
   | BvSRem \<Rightarrow> of_lib (apSRem L l r)
   | BvURem \<Rightarrow> of_lib (apURem L l r)
   | Shl \<Rightarrow> Inr (apShl L l r)
   | LShr \<Rightarrow> of_lib (apLShrN L l (u32 (apLimited L r)))
   | AShr \<Rightarrow> of_lib (apAShrN L l (u32 (apLimited L r)))
   | BvAnd \<Rightarrow> Inr (apAnd L l r)
   | BvOr \<Rightarrow> Inr (apOr L l r)
   | BvXor \<Rightarrow> Inr (apXor L l r)
   | _ \<Rightarrow> Inl Unreachable)"

definition eval_int_mod :: "int \<Rightarrow> int \<Rightarrow> int res" where
  "eval_int_mod l r = rbind (i64_rem l r) (\<lambda>result.
     if result < 0 then rbind (i64_abs r) (\<lambda>a. i64 (result + a)) else Inr result)"

definition eval_int_arith :: "expr_kind \<Rightarrow> int \<Rightarrow> int \<Rightarrow> int res" where
  "eval_int_arith k l r = (case k of
     Add \<Rightarrow> i64 (l + r)
   | Sub \<Rightarrow> i64 (l - r)
   | Mul \<Rightarrow> i64 (l * r)
   | Div \<Rightarrow> i64_div l r
   | Mod \<Rightarrow> eval_int_mod l r
   | Rem \<Rightarrow> i64_rem l r
   | _ \<Rightarrow> Inl Unreachable)"

definition EvalBinaryArithmetic :: "llvm_api \<Rightarrow> expr_kind \<Rightarrow> atomic \<Rightarrow> atomic \<Rightarrow> atomic res" where
  "EvalBinaryArithmetic L k lhs rhs =
     check (type_equals (atomic_type lhs) (atomic_type rhs)) AssertFail
     (if atomic_isUndef lhs \<or> atomic_isUndef rhs then Inr (AUndef (atomic_type lhs))
      else if isBvType (atomic_type lhs) then
        rbind (cast_Bv BadCast lhs) (\<lambda>l. rbind (cast_Bv BadCast rhs) (\<lambda>r.
          rbind (eval_bv_arith L k l r) (bv_atom (atomic_type lhs))))
      else if isIntType (atomic_type lhs) then
        rbind (cast_Int lhs) (\<lambda>l. rbind (cast_Int rhs) (\<lambda>r.
          rbind (eval_int_arith k l r) (\<lambda>v. Inr (ALit (IntLiteral v)))))
      else Inl Unreachable)"

definition visitBinaryArithmetic :: "llvm_api \<Rightarrow> expr_kind \<Rightarrow> atomic list \<Rightarrow> atomic res" where
  "visitBinaryArithmetic L k vs = rbind (getOperand vs 0) (\<lambda>l. rbind (getOperand vs 1) (\<lambda>r.
     EvalBinaryArithmetic L k l r))"

text \<open>Logic. The loops over the operands carry the flag \<open>isUndef\<close>; the \<open>cast\<close> comes before the
  flag is consulted.\<close>

definition visitNot :: "atomic list \<Rightarrow> atomic res" where
  "visitNot vs = rbind (getOperand vs 0) (\<lambda>v. rbind (cast_Bool v) (\<lambda>b. bool_atom (\<not> b)))"

fun visitAnd_loop :: "bool \<Rightarrow> atomic list \<Rightarrow> atomic res" where
  "visitAnd_loop isU [] = (if isU then Inr (AUndef BoolType) else bool_atom True)"
| "visitAnd_loop isU (v # vs) = rbind (cast_Bool v) (\<lambda>b.
     if \<not> b then bool_atom False else visitAnd_loop (isU \<or> atomic_isUndef v) vs)"

definition visitAnd :: "atomic list \<Rightarrow> atomic res" where
  "visitAnd vs = visitAnd_loop False vs"

fun visitOr_loop :: "bool \<Rightarrow> atomic list \<Rightarrow> atomic res" where
  "visitOr_loop isU [] = (if isU then Inr (AUndef BoolType) else bool_atom False)"
| "visitOr_loop isU (v # vs) = rbind (cast_Bool v) (\<lambda>b.
     if b then bool_atom True else visitOr_loop (isU \<or> atomic_isUndef v) vs)"

definition visitOr :: "atomic list \<Rightarrow> atomic res" where
  "visitOr vs = visitOr_loop False vs"

definition visitImply :: "atomic list \<Rightarrow> atomic res" where
  "visitImply vs = rbind (getOperand vs 0) (\<lambda>left. rbind (getOperand vs 1) (\<lambda>right.
     if atomic_isUndef left then
       (if right = ALit (BoolLiteral True) then bool_atom True else Inr left)
     else if atomic_isUndef right then
       (if left = ALit (BoolLiteral False) then bool_atom True else Inr right)
     else rbind (cast_Bool left) (\<lambda>l. rbind (cast_Bool right) (\<lambda>r. bool_atom (\<not> l \<or> r)))))"

text \<open>Comparisons.\<close>

definition EvalBvCompare :: "llvm_api \<Rightarrow> expr_kind \<Rightarrow> apint \<Rightarrow> apint \<Rightarrow> atomic res" where
  "EvalBvCompare L k l r = (case k of
     Eq \<Rightarrow> bool_atom (apEq L l r)
   | NotEq \<Rightarrow> bool_atom (\<not> apEq L l r)
   | BvSLt \<Rightarrow> bool_atom (apSlt L l r)
   | BvSLtEq \<Rightarrow> bool_atom (apSle L l r)
   | BvSGt \<Rightarrow> bool_atom (apSgt L l r)
   | BvSGtEq \<Rightarrow> bool_atom (apSge L l r)
   | BvULt \<Rightarrow> bool_atom (apUlt L l r)
   | BvULtEq \<Rightarrow> bool_atom (apUle L l r)
   | BvUGt \<Rightarrow> bool_atom (apUgt L l r)
   | BvUGtEq \<Rightarrow> bool_atom (apUge L l r)
   | _ \<Rightarrow> Inl Unreachable)"

definition EvalIntCompare :: "expr_kind \<Rightarrow> int \<Rightarrow> int \<Rightarrow> atomic res" where
  "EvalIntCompare k l r = (case k of
     Eq \<Rightarrow> bool_atom (l = r)
   | NotEq \<Rightarrow> bool_atom (l \<noteq> r)
   | Lt \<Rightarrow> bool_atom (l < r)
   | LtEq \<Rightarrow> bool_atom (l \<le> r)
   | Gt \<Rightarrow> bool_atom (l > r)
   | GtEq \<Rightarrow> bool_atom (l \<ge> r)
   | _ \<Rightarrow> Inl Unreachable)"

definition EvalBinaryCompare :: "llvm_api \<Rightarrow> expr_kind \<Rightarrow> atomic \<Rightarrow> atomic \<Rightarrow> atomic res" where
  "EvalBinaryCompare L k left right =
     check (type_equals (atomic_type left) (atomic_type right)) AssertFail
     (check (\<not> isFloatType (atomic_type left)) AssertFail
     (if atomic_isUndef left \<or> atomic_isUndef right then Inr (AUndef BoolType)
      else (case atomic_type left of
        BvType _ \<Rightarrow> rbind (cast_Bv BadCast left) (\<lambda>l. rbind (cast_Bv BadCast right) (\<lambda>r.
          EvalBvCompare L k l r))
      | BoolType \<Rightarrow> check (k = Eq \<or> k = NotEq) AssertFail
          (rbind (cast_Bool left) (\<lambda>l. rbind (cast_Bool right) (\<lambda>r. bool_atom (l = r))))
      | IntType \<Rightarrow> rbind (cast_Int left) (\<lambda>l. rbind (cast_Int right) (\<lambda>r.
          EvalIntCompare k l r))
      | _ \<Rightarrow> Inl Unreachable)))"

definition visitBinaryCompare :: "llvm_api \<Rightarrow> expr_kind \<Rightarrow> atomic list \<Rightarrow> atomic res" where
  "visitBinaryCompare L k vs = rbind (getOperand vs 0) (\<lambda>l. rbind (getOperand vs 1) (\<lambda>r.
     EvalBinaryCompare L k l r))"

text \<open>Floating-point queries and bit casts.\<close>

definition visitFIsNan :: "llvm_api \<Rightarrow> atomic list \<Rightarrow> atomic res" where
  "visitFIsNan L vs = rbind (getOperand vs 0) (\<lambda>v. rbind (cast_Float v) (\<lambda>f. bool_atom (fpIsNaN L f)))"

definition visitFIsInf :: "llvm_api \<Rightarrow> atomic list \<Rightarrow> atomic res" where
  "visitFIsInf L vs = rbind (getOperand vs 0) (\<lambda>v. rbind (cast_Float v) (\<lambda>f. bool_atom (fpIsInf L f)))"

definition visitFpToBv :: "llvm_api \<Rightarrow> gtype \<Rightarrow> atomic list \<Rightarrow> atomic res" where
  "visitFpToBv L t vs = rbind (getOperand vs 0) (\<lambda>v. rbind (cast_Float v) (\<lambda>f.
     bv_atom t (fpToBits L f)))"

definition visitBvToFp :: "llvm_api \<Rightarrow> gtype \<Rightarrow> atomic list \<Rightarrow> atomic res" where
  "visitBvToFp L t vs = rbind (getOperand vs 0) (\<lambda>v. rbind (cast_Bv BadCast v) (\<lambda>a. (case t of
     FloatType p \<Rightarrow> rbind (of_lib (fpOfBits L p a)) (\<lambda>f.
       rbind (FloatLiteralExpr_Get t f) (\<lambda>l. Inr (ALit l)))
   | _ \<Rightarrow> Inl BadCast)))"

text \<open>\<open>EvalSelect\<close> casts only the operand it selects, and builds a literal of the type of \<open>then\<close>.\<close>

definition EvalSelect :: "bool \<Rightarrow> atomic \<Rightarrow> atomic \<Rightarrow> atomic res" where
  "EvalSelect c t e = (let x = (if c then t else e) in (case atomic_type t of
     BoolType \<Rightarrow> rbind (cast_Bool x) (\<lambda>b. bool_atom b)
   | BvType w \<Rightarrow> rbind (cast_Bv BadCast x) (\<lambda>a. bv_atom (BvType w) a)
   | IntType \<Rightarrow> rbind (cast_Int x) (\<lambda>v. Inr (ALit (IntLiteral v)))
   | FloatType p \<Rightarrow> rbind (cast_Float x) (\<lambda>f.
       rbind (FloatLiteralExpr_Get (FloatType p) f) (\<lambda>l. Inr (ALit l)))
   | RealType \<Rightarrow> rbind (cast_Real x) (\<lambda>(n, d). Inr (ALit (RealLiteral n d)))
   | _ \<Rightarrow> Inl BadCast))"

definition visitSelect :: "gtype \<Rightarrow> atomic list \<Rightarrow> atomic res" where
  "visitSelect ty vs = rbind (getOperand vs 0) (\<lambda>v. rbind (cast_Bool v) (\<lambda>c.
     rbind (getOperand vs 1) (\<lambda>t. rbind (getOperand vs 2) (\<lambda>e.
       check (getTypeID ty \<le> 4) Unreachable (EvalSelect c t e)))))"

definition visitArrayRead :: "gtype \<Rightarrow> atomic list \<Rightarrow> atomic res" where
  "visitArrayRead ty vs = rbind (getOperand vs 0) (\<lambda>array.
     if atomic_isUndef array then Inr (AUndef ty)
     else (case array of ALit (ArrayLiteral i e m d) \<Rightarrow>
         rbind (getOperand vs 1) (\<lambda>index. (case index of
           AUndef _ \<Rightarrow> Inr (ALit d)
         | ALit key \<Rightarrow> rbind (ArrayLiteral_getValue (ArrayLiteral i e m d) key) (\<lambda>v. Inr (ALit v))))
       | _ \<Rightarrow> Inl BadCast))"

text \<open>\<open>doVisit\<close>: the dispatch on the kind. The kinds without an overriding method end in
  \<open>ExprEvaluatorBase::visitExpr\<close>.\<close>

definition eval_node :: "llvm_api \<Rightarrow> expr_kind \<Rightarrow> gtype \<Rightarrow> subclass_data \<Rightarrow> atomic list \<Rightarrow> atomic res" where
  "eval_node L k t d vs = (case k of
     NotK \<Rightarrow> visitNot vs
   | ZExt \<Rightarrow> visitZExt L t vs
   | SExt \<Rightarrow> visitSExt L t vs
   | Extract \<Rightarrow> visitExtract L t d vs
   | BvConcat \<Rightarrow> visitBvConcat L t vs
   | And \<Rightarrow> visitAnd vs
   | Or \<Rightarrow> visitOr vs
   | Imply \<Rightarrow> visitImply vs
   | FIsNan \<Rightarrow> visitFIsNan L vs
   | FIsInf \<Rightarrow> visitFIsInf L vs
   | FpToBv \<Rightarrow> visitFpToBv L t vs
   | BvToFp \<Rightarrow> visitBvToFp L t vs
   | Select \<Rightarrow> visitSelect t vs
   | ArrayRead \<Rightarrow> visitArrayRead t vs
   | _ \<Rightarrow> (if isArithmetic k then visitBinaryArithmetic L k vs
           else if isCompare k then visitBinaryCompare L k vs
           else Inl Unreachable))"

fun eval_visit :: "llvm_api \<Rightarrow> valuation \<Rightarrow> expr \<Rightarrow> atomic list \<Rightarrow> atomic res" where
  "eval_visit L \<sigma> (UndefExpr t) vs = Inr (AUndef t)"
| "eval_visit L \<sigma> (LiteralExpr l) vs = Inr (ALit l)"
| "eval_visit L \<sigma> (VarRefExpr v) vs = Inr (getVariableValue \<sigma> v)"
| "eval_visit L \<sigma> (NonNullaryExpr k t ops d) vs = eval_node L k t d vs"

definition evaluator :: "llvm_api \<Rightarrow> valuation \<Rightarrow> (atomic, unit) walker" where
  "evaluator L \<sigma> = \<lparr>w_default = AUndef BoolType, w_shouldSkip = (\<lambda>_ _. None),
     w_handleResult = (\<lambda>s _ _. s), w_doVisit = (\<lambda>s e vs. rbind (eval_visit L \<sigma> e vs) (\<lambda>r. Inr (r, s)))\<rparr>"

definition evaluate :: "llvm_api \<Rightarrow> valuation \<Rightarrow> expr \<Rightarrow> atomic res option" where
  "evaluate L \<sigma> e = map_option (\<lambda>r. rbind r (\<lambda>p. Inr (fst p))) (walk (evaluator L \<sigma>) e ())"

definition eval :: "llvm_api \<Rightarrow> valuation \<Rightarrow> expr \<Rightarrow> atomic res" where
  "eval L \<sigma> e = walk_rec (eval_visit L \<sigma>) e"

interpretation ev: walker_client "evaluator L \<sigma>" "eval_visit L \<sigma>" "\<lambda>_. True"
  for L \<sigma>
  by unfold_locales (simp_all add: evaluator_def)

lemma built_kinds_ok: "well_typed e \<Longrightarrow> kinds_ok e"
  by (induction rule: well_typed.induct) (auto simp: isNullary_def kind_sets list_all_iff)

lemma eval_simps [simp]:
  "eval L \<sigma> (UndefExpr t) = Inr (AUndef t)"
  "eval L \<sigma> (LiteralExpr l) = Inr (ALit l)"
  "eval L \<sigma> (VarRefExpr v) = Inr (getVariableValue \<sigma> v)"
  by (simp_all add: eval_def)

lemma eval_NonNullary:
  "eval L \<sigma> (NonNullaryExpr k t ops d) = rbind (res_map (eval L \<sigma>) ops) (eval_node L k t d)"
  by (cases "res_map (eval L \<sigma>) ops") (auto simp: eval_def [abs_def])

text \<open>
  C11: the evaluator's explicit-stack traversal terminates on every well-typed expression and returns
  exactly what recursive post-order evaluation computes, results and failures alike.
\<close>

theorem evaluate_eq_eval: "well_typed e \<Longrightarrow> evaluate L \<sigma> e = Some (eval L \<sigma> e)"
  using ev.walk_correct [OF built_kinds_ok, where e = e and s = "()" and L = L and \<sigma> = \<sigma>]
  by (cases "walk_rec (eval_visit L \<sigma>) e") (auto simp: evaluate_def eval_def)

text \<open>
  A walk of the evaluator on the three-operand conjunction of a literal and two variables,
  evaluated through the stack of frames.
\<close>

theorem evaluate_eq_eval_witness:
  "evaluate doc_llvm [Variable ''b'' BoolType \<mapsto> BoolLiteral False]
     (node And BoolType [True_lit, VarRefExpr (Variable ''b'' BoolType),
        VarRefExpr (Variable ''u'' BoolType)]) = Some (Inr (ALit (BoolLiteral False)))"
proof -
  have wt: "well_typed (node And BoolType [True_lit, VarRefExpr (Variable ''b'' BoolType),
      VarRefExpr (Variable ''u'' BoolType)])"
    by (intro wt_logic) auto
  show ?thesis
    using evaluate_eq_eval [OF wt, of doc_llvm "[Variable ''b'' BoolType \<mapsto> BoolLiteral False]"]
    by (simp add: eval_NonNullary eval_node_def visitAnd_def getVariableValue_def)
qed

end
