(* ===== verification/GazerRewrite.thy ===== *)
theory GazerRewrite
  imports GazerBuilder GazerEval
begin

text \<open>
  Expression rewriting (\<^verbatim>\<open>include/gazer/Core/Expr/ExprRewrite.h\<close>, \<^verbatim>\<open>src/Core/Expr/ExprRewrite.cpp\<close>):
  \<open>ExprRewrite\<close> rebuilds an expression bottom-up on the walker with the methods of a builder,
  \<open>VariableExprRewrite\<close> replaces variables on the way. \<open>ExprDepth\<close> of \<^verbatim>\<open>ExprUtils.cpp\<close> is here too.

  The specification is \<open>subst\<close>, the substitution of a tree; evaluating a substituted expression is
  evaluating the original one in the valuation that the substitution describes.
\<close>

definition op_at :: "expr list \<Rightarrow> nat \<Rightarrow> expr res" where
  "op_at ops i = check (i < length ops) OutOfRange (Inr (ops ! i))"

definition ops1 :: "expr list \<Rightarrow> (expr \<Rightarrow> expr res) \<Rightarrow> expr res" where
  "ops1 ops f = rbind (op_at ops 0) f"

definition ops2 :: "expr list \<Rightarrow> (expr \<Rightarrow> expr \<Rightarrow> expr res) \<Rightarrow> expr res" where
  "ops2 ops f = rbind (op_at ops 0) (\<lambda>x. rbind (op_at ops 1) (f x))"

definition ops3 :: "expr list \<Rightarrow> (expr \<Rightarrow> expr \<Rightarrow> expr \<Rightarrow> expr res) \<Rightarrow> expr res" where
  "ops3 ops f = rbind (op_at ops 0) (\<lambda>x. rbind (op_at ops 1) (\<lambda>y. rbind (op_at ops 2) (f x y)))"

text \<open>\<open>ExprRewriteBase::rewriteNonNullary\<close>: the builder method of the kind. The kinds \<open>TupleSelect\<close> and
  \<open>TupleConstruct\<close> have no case.\<close>

definition rewriteNonNullary ::
  "expr_builder \<Rightarrow> expr_kind \<Rightarrow> gtype \<Rightarrow> subclass_data \<Rightarrow> expr list \<Rightarrow> expr res" where
  "rewriteNonNullary B k t d ops =
    (if k = NotK then ops1 ops (bNot B)
     else if k \<in> {ZExt, SExt} then check (isBvType t) BadCast (ops1 ops (\<lambda>x. bExt B k x t))
     else if k = Extract then (case (d, t) of
         (ExtractData offset _, BvType w) \<Rightarrow> ops1 ops (\<lambda>x. bExtract B x offset w)
       | _ \<Rightarrow> Inl BadCast)
     else if k = BvConcat then ops2 ops (bBvConcat B)
     else if isArithmetic k then ops2 ops (bArithmetic B k)
     else if k = And then bAnd B ops
     else if k = Or then bOr B ops
     else if k = Imply then ops2 ops (bImply B)
     else if isCompare k then ops2 ops (bCompare B k)
     else if k \<in> {FIsNan, FIsInf} then ops1 ops (bFpQuery B k)
     else if k \<in> {FCast, SignedToFp, UnsignedToFp, FpToSigned, FpToUnsigned} then (case d of
         RoundingData rm \<Rightarrow> check (if k \<in> {FpToSigned, FpToUnsigned} then isBvType t else isFloatType t) BadCast
           (ops1 ops (\<lambda>x. bFpCast B k x t rm))
       | _ \<Rightarrow> Inl BadCast)
     else if k = FpToBv then check (isBvType t) BadCast (ops1 ops (\<lambda>x. bBitCast B k x t))
     else if k = BvToFp then check (isFloatType t) BadCast (ops1 ops (\<lambda>x. bBitCast B k x t))
     else if isFpArithmetic k then (case d of
         RoundingData rm \<Rightarrow> ops2 ops (\<lambda>x y. bFpArithmetic B k x y rm)
       | _ \<Rightarrow> Inl BadCast)
     else if isFpCompare k then ops2 ops (bFpCompare B k)
     else if k = Select then ops3 ops (bSelect B)
     else if k = ArrayRead then ops2 ops (bRead B)
     else if k = ArrayWrite then ops3 ops (bWrite B)
     else Inl Unreachable)"

text \<open>\<open>VariableExprRewrite\<close>: the map holds the expression set for a variable.\<close>

type_synonym rewrite_map = "variable \<rightharpoonup> expr"

definition visitVarRef :: "rewrite_map \<Rightarrow> variable \<Rightarrow> expr" where
  "visitVarRef m v = (case m v of Some e \<Rightarrow> e | None \<Rightarrow> VarRefExpr v)"

fun rewrite_visit :: "expr_builder \<Rightarrow> rewrite_map \<Rightarrow> expr \<Rightarrow> expr list \<Rightarrow> expr res" where
  "rewrite_visit B m (VarRefExpr v) vs = Inr (visitVarRef m v)"
| "rewrite_visit B m (NonNullaryExpr k t ops d) vs = rewriteNonNullary B k t d vs"
| "rewrite_visit B m e vs = Inr e"

definition VariableExprRewrite :: "expr_builder \<Rightarrow> rewrite_map \<Rightarrow> (expr, unit) walker" where
  "VariableExprRewrite B m = \<lparr>w_default = UndefExpr BoolType, w_shouldSkip = (\<lambda>_ _. None),
     w_handleResult = (\<lambda>s _ _. s), w_doVisit = (\<lambda>s e vs. rbind (rewrite_visit B m e vs) (\<lambda>r. Inr (r, s)))\<rparr>"

definition rewrite :: "expr_builder \<Rightarrow> rewrite_map \<Rightarrow> expr \<Rightarrow> expr res option" where
  "rewrite B m e = map_option (\<lambda>r. rbind r (\<lambda>p. Inr (fst p))) (walk (VariableExprRewrite B m) e ())"

fun ExprDepth :: "expr \<Rightarrow> nat" where
  "ExprDepth (NonNullaryExpr k t ops d) = 1 + fold max (map ExprDepth ops) 0"
| "ExprDepth e = 1"

text \<open>The specification.\<close>

fun subst :: "rewrite_map \<Rightarrow> expr \<Rightarrow> expr" where
  "subst m (VarRefExpr v) = (case m v of Some e \<Rightarrow> e | None \<Rightarrow> VarRefExpr v)"
| "subst m (NonNullaryExpr k t ops d) = NonNullaryExpr k t (map (subst m) ops) d"
| "subst m e = e"

fun vars :: "expr \<Rightarrow> variable set" where
  "vars (VarRefExpr v) = {v}"
| "vars (NonNullaryExpr k t ops d) = (\<Union>e \<in> set ops. vars e)"
| "vars e = {}"

text \<open>The nodes the builder's methods recreate as they are.\<close>

fun rewritable :: "expr \<Rightarrow> bool" where
  "rewritable (NonNullaryExpr k t ops d) =
     (k \<notin> {NotEq, TupleSelect, TupleConstruct} \<and> list_all rewritable ops)"
| "rewritable e = True"

definition typed_map :: "rewrite_map \<Rightarrow> bool" where
  "typed_map m \<longleftrightarrow> (\<forall>v e. m v = Some e \<longrightarrow> well_typed e \<and> getType e = var_type v)"

lemma well_typed_operands: "well_typed (NonNullaryExpr k t ops d) \<Longrightarrow> \<forall>x \<in> set ops. well_typed x"
  by (cases rule: well_typed.cases) auto

lemma ops_simps [simp]:
  "ops1 [x] f = f x" "ops2 [x, y] g = g x y" "ops3 [x, y, z] h = h x y z"
  by (simp_all add: ops1_def ops2_def ops3_def op_at_def)

interpretation rw: walker_client "VariableExprRewrite B m" "rewrite_visit B m" "\<lambda>_. True"
  for B m
  by unfold_locales (simp_all add: VariableExprRewrite_def)

text \<open>The typing rules look at the operands only through their types.\<close>

lemma well_typed_same_types:
  assumes "well_typed (NonNullaryExpr k t ops d)" and "map getType qs = map getType ops"
    and "\<forall>q \<in> set qs. well_typed q"
  shows "well_typed (NonNullaryExpr k t qs d)"
  using assms(1)
proof (cases rule: well_typed.cases)
  case (wt_logic)
  have "getType ` set qs = getType ` set ops" using assms(2) by (metis list.set_map)
  then have "\<forall>q \<in> set qs. getType q = BoolType" using wt_logic by fastforce
  moreover have "qs \<noteq> []" using assms(2) wt_logic by auto
  ultimately show ?thesis using assms(3) wt_logic by (auto intro: well_typed.wt_logic)
next
  case (wt_tuple ts)
  then show ?thesis using assms(2,3) by (auto intro!: well_typed.wt_tuple)
qed (use assms(2,3) in \<open>auto simp: Cons_eq_map_conv map_eq_Cons_conv intro: well_typed.intros\<close>)

lemma arith_kind_facts: "k \<in> arith_kinds \<Longrightarrow> isArithmetic k \<and> k \<notin> {NotK, ZExt, SExt, Extract, BvConcat, Div}
    \<and> \<not> is_bv_only k"
  by (auto simp: arith_kinds_def isArithmetic_def is_bv_only_def)

lemma bv_kind_facts: "k \<in> bv_kinds \<Longrightarrow> isArithmetic k \<and> k \<notin> {NotK, ZExt, SExt, Extract, BvConcat} \<and> is_bv_only k"
  by (auto simp: bv_kinds_def isArithmetic_def is_bv_only_def)

lemma compare_kind_facts: "k \<in> compare_kinds \<union> bv_compare_kinds \<Longrightarrow>
    isCompare k \<and> \<not> isArithmetic k \<and> k \<notin> {NotK, ZExt, SExt, Extract, BvConcat, And, Or, Imply}
    \<and> (k \<in> compare_kinds \<longrightarrow> k \<notin> bv_compare_kinds)"
  by (auto simp: kind_sets isArithmetic_def isCompare_def)

text \<open>The dispatch, one kind at a time.\<close>

lemma rewrite_kinds:
  "rewriteNonNullary B NotK t d ops = ops1 ops (bNot B)"
  "rewriteNonNullary B BvConcat t d ops = ops2 ops (bBvConcat B)"
  "rewriteNonNullary B And t d ops = bAnd B ops"
  "rewriteNonNullary B Or t d ops = bOr B ops"
  "rewriteNonNullary B Imply t d ops = ops2 ops (bImply B)"
  "rewriteNonNullary B Select t d ops = ops3 ops (bSelect B)"
  "rewriteNonNullary B ArrayRead t d ops = ops2 ops (bRead B)"
  "rewriteNonNullary B ArrayWrite t d ops = ops3 ops (bWrite B)"
  "rewriteNonNullary B Div t d ops = ops2 ops (bArithmetic B Div)"
  "rewriteNonNullary B ZExt t d ops = check (isBvType t) BadCast (ops1 ops (\<lambda>x. bExt B ZExt x t))"
  "rewriteNonNullary B SExt t d ops = check (isBvType t) BadCast (ops1 ops (\<lambda>x. bExt B SExt x t))"
  "rewriteNonNullary B FIsNan t d ops = ops1 ops (bFpQuery B FIsNan)"
  "rewriteNonNullary B FIsInf t d ops = ops1 ops (bFpQuery B FIsInf)"
  "rewriteNonNullary B FpToBv t d ops = check (isBvType t) BadCast (ops1 ops (\<lambda>x. bBitCast B FpToBv x t))"
  "rewriteNonNullary B BvToFp t d ops = check (isFloatType t) BadCast (ops1 ops (\<lambda>x. bBitCast B BvToFp x t))"
  "rewriteNonNullary B FEq t d ops = ops2 ops (bFpCompare B FEq)"
  "rewriteNonNullary B FGt t d ops = ops2 ops (bFpCompare B FGt)"
  "rewriteNonNullary B FGtEq t d ops = ops2 ops (bFpCompare B FGtEq)"
  "rewriteNonNullary B FLt t d ops = ops2 ops (bFpCompare B FLt)"
  "rewriteNonNullary B FLtEq t d ops = ops2 ops (bFpCompare B FLtEq)"
  "rewriteNonNullary B FAdd t (RoundingData rm) ops = ops2 ops (\<lambda>x y. bFpArithmetic B FAdd x y rm)"
  "rewriteNonNullary B FSub t (RoundingData rm) ops = ops2 ops (\<lambda>x y. bFpArithmetic B FSub x y rm)"
  "rewriteNonNullary B FMul t (RoundingData rm) ops = ops2 ops (\<lambda>x y. bFpArithmetic B FMul x y rm)"
  "rewriteNonNullary B FDiv t (RoundingData rm) ops = ops2 ops (\<lambda>x y. bFpArithmetic B FDiv x y rm)"
  "rewriteNonNullary B FCast t (RoundingData rm) ops = check (isFloatType t) BadCast (ops1 ops (\<lambda>x. bFpCast B FCast x t rm))"
  "rewriteNonNullary B SignedToFp t (RoundingData rm) ops = check (isFloatType t) BadCast (ops1 ops (\<lambda>x. bFpCast B SignedToFp x t rm))"
  "rewriteNonNullary B UnsignedToFp t (RoundingData rm) ops = check (isFloatType t) BadCast (ops1 ops (\<lambda>x. bFpCast B UnsignedToFp x t rm))"
  "rewriteNonNullary B FpToSigned t (RoundingData rm) ops = check (isBvType t) BadCast (ops1 ops (\<lambda>x. bFpCast B FpToSigned x t rm))"
  "rewriteNonNullary B FpToUnsigned t (RoundingData rm) ops = check (isBvType t) BadCast (ops1 ops (\<lambda>x. bFpCast B FpToUnsigned x t rm))"
  "rewriteNonNullary B Extract (BvType w) (ExtractData p n) ops = ops1 ops (\<lambda>x. bExtract B x p w)"
  by (simp_all add: rewriteNonNullary_def isArithmetic_def isCompare_def isFpArithmetic_def isFpCompare_def)

text \<open>On a well-typed node the plain builder creates the node itself.\<close>

lemma rewriteNonNullary_plain:
  assumes "well_typed (NonNullaryExpr k t ops d)" and "k \<notin> {NotEq, TupleSelect, TupleConstruct}"
  shows "rewriteNonNullary plain_builder k t d ops = Inr (NonNullaryExpr k t ops d)"
  using assms
proof (cases rule: well_typed.cases)
  case (wt_arith l r)
  with arith_kind_facts [of k] show ?thesis
    by (simp add: rewriteNonNullary_def plain_builder_def ArithmeticExpr_Create_def is_arithmetic_only_def)
next
  case (wt_bv l r w)
  with bv_kind_facts [of k] show ?thesis
    by (simp add: rewriteNonNullary_def plain_builder_def ArithmeticExpr_Create_def)
next
  case (wt_compare l r)
  with compare_kind_facts [of k] assms(2) show ?thesis
    by (simp add: rewriteNonNullary_def plain_builder_def plain_Compare_def CompareExpr_Create_def is_bv_only_compare_iff)
next
  case (wt_bv_compare l r w)
  with compare_kind_facts [of k] assms(2) show ?thesis
    by (simp add: rewriteNonNullary_def plain_builder_def plain_Compare_def CompareExpr_Create_def)
next
  case (wt_logic)
  then show ?thesis
    by (auto simp: rewrite_kinds plain_builder_def MultiaryLogicExpr_Create_def list_all_iff check_def)
next
  case (wt_extract e w n p)
  then show ?thesis
    by (simp add: rewrite_kinds plain_builder_def ExtractExpr_Create_def u32_id add.commute [of n p])
next
  case (wt_ext e w v)
  then show ?thesis by (auto simp: rewrite_kinds plain_builder_def ExtCastExpr_Create_def)
next
  case (wt_div l r)
  then show ?thesis
    by (auto simp: rewrite_kinds plain_builder_def ArithmeticExpr_Create_def
        is_bv_only_def is_arithmetic_only_def isArithmeticType_def)
next
  case (wt_concat l r w v)
  then show ?thesis
    by (simp add: rewrite_kinds plain_builder_def BvConcatExpr_Create_def u32_id)
next
  case (wt_bv_to_fp e w p rm)
  then show ?thesis
    by (auto simp: rewrite_kinds plain_builder_def BvFpCastExpr_Create_def is_bv_to_fp_def)
next
  case (wt_fp_to_bv e p w rm)
  then show ?thesis
    by (auto simp: rewrite_kinds plain_builder_def BvFpCastExpr_Create_def is_bv_to_fp_def
        is_fp_to_bv_def)
next
  case (wt_fcast e p q rm)
  then show ?thesis
    by (auto simp: rewrite_kinds plain_builder_def BvFpCastExpr_Create_def is_bv_to_fp_def
        is_fp_to_bv_def)
next
  case (wt_fp_arith l r p rm)
  then show ?thesis
    by (auto simp: rewrite_kinds plain_builder_def FpArithmeticExpr_Create_def)
next
  case (wt_fp_compare l r p q)
  then show ?thesis
    by (auto simp: rewrite_kinds plain_builder_def FpCompareExpr_Create_def)
qed (auto simp: rewrite_kinds plain_builder_def NotExpr_Create_def BinaryLogicExpr_Create_def
    FpQueryExpr_Create_def BitCastExpr_Create_def SelectExpr_Create_def ArrayReadExpr_Create_def
    ArrayWriteExpr_Create_def)

lemma subst_typed: "well_typed e \<Longrightarrow> typed_map m \<Longrightarrow> well_typed (subst m e) \<and> getType (subst m e) = getType e"
proof (induction e)
  case (NonNullaryExpr k t ops d)
  have "\<forall>x \<in> set ops. well_typed x" using well_typed_operands [OF NonNullaryExpr.prems(1)] by simp
  with NonNullaryExpr have "map getType (map (subst m) ops) = map getType ops"
      "\<forall>q \<in> set (map (subst m) ops). well_typed q" by auto
  from well_typed_same_types [OF NonNullaryExpr.prems(1) this] show ?case by simp
qed (auto simp: typed_map_def split: option.splits)

lemma rewrite_rec: "well_typed e \<Longrightarrow> typed_map m \<Longrightarrow> rewritable e \<Longrightarrow>
    walk_rec (rewrite_visit plain_builder m) e = Inr (subst m e)"
proof (induction e)
  case (NonNullaryExpr k t ops d)
  have ops: "\<forall>x \<in> set ops. well_typed x \<and> rewritable x"
    using well_typed_operands [OF NonNullaryExpr.prems(1)] NonNullaryExpr.prems(3) by (simp add: list_all_iff)
  then have "res_map (walk_rec (rewrite_visit plain_builder m)) ops = Inr (map (subst m) ops)"
    using NonNullaryExpr by (simp add: res_map_eq_Inr list_all2_map2 list_all2_same)
  moreover have "well_typed (NonNullaryExpr k t (map (subst m) ops) d)"
    using subst_typed [OF NonNullaryExpr.prems(1,2)] by simp
  ultimately show ?case using NonNullaryExpr.prems(3) by (simp add: rewriteNonNullary_plain)
qed (auto simp: visitVarRef_def)

lemma eval_subst:
  assumes "\<forall>v \<in> vars e. eval L \<sigma> (subst m (VarRefExpr v)) = Inr (getVariableValue \<sigma>' v)"
  shows "eval L \<sigma> (subst m e) = eval L \<sigma>' e"
  using assms
proof (induction e)
  case (NonNullaryExpr k t ops d)
  then have "\<forall>x \<in> set ops. eval L \<sigma> (subst m x) = eval L \<sigma>' x" by simp
  then have "res_map (eval L \<sigma>) (map (subst m) ops) = res_map (eval L \<sigma>') ops"
    by (induction ops) simp_all
  then show ?case by (simp add: eval_NonNullary)
qed auto

text \<open>What the clients of the rewriter rely on: it returns, and keeps the type.\<close>

locale rewriter =
  fixes B :: expr_builder and image :: "rewrite_map \<Rightarrow> expr \<Rightarrow> expr"
  assumes rewrite_image: "well_typed e \<Longrightarrow> typed_map m \<Longrightarrow> rewritable e \<Longrightarrow> returned (rewrite B m e) = Inr (image m e)"
    and image_type: "well_typed e \<Longrightarrow> typed_map m \<Longrightarrow> rewritable e \<Longrightarrow> getType (image m e) = getType e"

lemma rewrite_plain:
  assumes "well_typed e" and "typed_map m" and "rewritable e"
  shows "rewrite plain_builder m e = Some (Inr (subst m e))"
  using rw.walk_correct [OF built_kinds_ok [OF assms(1)], where s = "()" and B = plain_builder and m = m]
    rewrite_rec [OF assms] by (simp add: rewrite_def)

interpretation plain_rewriter: rewriter plain_builder subst
  by unfold_locales (simp_all add: returned_Inr rewrite_plain subst_typed)

text \<open>
  C16: rewriting variables is substitution: with the plain builder, a type-preserving map and an
  well-typed expression without tuple nodes and without \<open>NotEq\<close> nodes, which the builder turns into a negated \<open>Eq\<close>,
  the explicit-stack rewriter terminates without failure and returns the substituted tree, which is
  well typed, of the same type, and evaluates like the original expression in the valuation that
  gives every variable the value of its replacement.
\<close>

theorem rewrite_is_substitution:
  assumes "well_typed e" and "typed_map m" and "rewritable e"
  shows "rewrite plain_builder m e = Some (Inr (subst m e)) \<and> well_typed (subst m e)
    \<and> getType (subst m e) = getType e
    \<and> ((\<forall>v \<in> vars e. eval L \<sigma> (subst m (VarRefExpr v)) = Inr (getVariableValue \<sigma>' v)) \<longrightarrow>
        eval L \<sigma> (subst m e) = eval L \<sigma>' e)"
  using rewrite_plain [OF assms] subst_typed [OF assms(1,2)] eval_subst [of e L \<sigma> m \<sigma>'] by auto

text \<open>Replacing \<open>x\<close> by \<open>y + 1\<close> in \<open>x * 2\<close>.\<close>

theorem rewrite_is_substitution_witness:
  "rewrite plain_builder
     [Variable ''x'' IntType \<mapsto> node Add IntType [VarRefExpr (Variable ''y'' IntType), IntLit 1]]
     (node Mul IntType [VarRefExpr (Variable ''x'' IntType), IntLit 2])
   = Some (Inr (node Mul IntType
       [node Add IntType [VarRefExpr (Variable ''y'' IntType), IntLit 1], IntLit 2]))"
proof -
  let ?r = "node Add IntType [VarRefExpr (Variable ''y'' IntType), IntLit 1]"
  let ?e = "node Mul IntType [VarRefExpr (Variable ''x'' IntType), IntLit 2]"
  have "well_typed ?r" by (intro wt_arith) (auto simp: arith_kinds_def in_int64_def)
  then have "typed_map [Variable ''x'' IntType \<mapsto> ?r]" by (simp add: typed_map_def)
  moreover have "well_typed ?e" by (intro wt_arith) (auto simp: arith_kinds_def in_int64_def)
  moreover have "rewritable ?e" by simp
  ultimately show ?thesis
    using rewrite_is_substitution [of ?e "[Variable ''x'' IntType \<mapsto> ?r]" doc_llvm Map.empty Map.empty]
    by simp
qed

text \<open>Tuples are not rewritten: the switch over the kinds has no case for them.\<close>

lemma rewrite_tuple_unreachable:
  "rewriteNonNullary B TupleSelect t d ops = Inl Unreachable"
  "rewriteNonNullary B TupleConstruct t d ops = Inl Unreachable"
  by (simp_all add: rewriteNonNullary_def isArithmetic_def isCompare_def isFpArithmetic_def isFpCompare_def)

end
