(* ===== verification/GazerGraph.thy ===== *)
theory GazerGraph
  imports GazerPrelude
begin

text \<open>
  \<open>Graph\<close>, \<open>GraphNode\<close> and \<open>GraphEdge\<close> (\<^verbatim>\<open>include/gazer/ADT/Graph.h\<close>): nodes and edges are objects that
  point at each other. A pointer is a natural number; the vectors a node owns and the end points an
  edge stores are maps from pointers, so that the code's separate updates of them are separate
  here too. A cleared pointer is \<open>None\<close>.

  \<open>graph_ok\<close> is the consistency of the two views of an edge. Every operation keeps it and none of
  them follows a null pointer in a consistent graph; the closed form of \<open>disconnectNode\<close> says what
  becomes of every edge.
\<close>

record graph =
  mNodes :: "nat list"
  mEdges :: "nat list"
  mIncoming :: "nat \<Rightarrow> nat list"
  mOutgoing :: "nat \<Rightarrow> nat list"
  mSource :: "nat \<Rightarrow> nat option"
  mTarget :: "nat \<Rightarrow> nat option"

definition removeIncoming :: "nat \<Rightarrow> nat \<Rightarrow> 'a graph_scheme \<Rightarrow> 'a graph_scheme" where
  "removeIncoming n e g = g\<lparr>mIncoming := (mIncoming g)(n := removeAll e (mIncoming g n))\<rparr>"

definition removeOutgoing :: "nat \<Rightarrow> nat \<Rightarrow> 'a graph_scheme \<Rightarrow> 'a graph_scheme" where
  "removeOutgoing n e g = g\<lparr>mOutgoing := (mOutgoing g)(n := removeAll e (mOutgoing g n))\<rparr>"

definition createNode :: "nat \<Rightarrow> 'a graph_scheme \<Rightarrow> 'a graph_scheme" where
  "createNode n g = g\<lparr>mNodes := mNodes g @ [n], mIncoming := (mIncoming g)(n := []),
     mOutgoing := (mOutgoing g)(n := [])\<rparr>"

definition createEdge :: "nat \<Rightarrow> nat \<Rightarrow> nat \<Rightarrow> 'a graph_scheme \<Rightarrow> 'a graph_scheme" where
  "createEdge e s t g = (let g1 = g\<lparr>mEdges := mEdges g @ [e], mSource := (mSource g)(e := Some s),
       mTarget := (mTarget g)(e := Some t)\<rparr>;
     g2 = g1\<lparr>mOutgoing := (mOutgoing g1)(s := mOutgoing g1 s @ [e])\<rparr>
     in g2\<lparr>mIncoming := (mIncoming g2)(t := mIncoming g2 t @ [e])\<rparr>)"

text \<open>The two loops of \<open>disconnectNode\<close>. Dereferencing a cleared end point is an error.\<close>

fun disconnect_incoming :: "nat list \<Rightarrow> 'a graph_scheme \<Rightarrow> 'a graph_scheme res" where
  "disconnect_incoming [] g = Inr g"
| "disconnect_incoming (e # es) g =
     (let g1 = g\<lparr>mTarget := (mTarget g)(e := None)\<rparr> in
      case mSource g1 e of None \<Rightarrow> Inl NullDeref
      | Some s \<Rightarrow> disconnect_incoming es (removeOutgoing s e g1))"

fun disconnect_outgoing :: "nat list \<Rightarrow> 'a graph_scheme \<Rightarrow> 'a graph_scheme res" where
  "disconnect_outgoing [] g = Inr g"
| "disconnect_outgoing (e # es) g =
     (let g1 = g\<lparr>mSource := (mSource g)(e := None)\<rparr> in
      case mTarget g1 e of None \<Rightarrow> Inl NullDeref
      | Some t \<Rightarrow> disconnect_outgoing es (removeIncoming t e g1))"

definition disconnectNode :: "nat \<Rightarrow> 'a graph_scheme \<Rightarrow> 'a graph_scheme res" where
  "disconnectNode n g = rbind (disconnect_incoming (mIncoming g n) g) (\<lambda>g1.
     rbind (disconnect_outgoing (mOutgoing g1 n) g1) (\<lambda>g2.
       Inr (g2\<lparr>mIncoming := (mIncoming g2)(n := []), mOutgoing := (mOutgoing g2)(n := [])\<rparr>)))"

definition disconnectEdge :: "nat \<Rightarrow> 'a graph_scheme \<Rightarrow> 'a graph_scheme res" where
  "disconnectEdge e g = (case mSource g e of None \<Rightarrow> Inl NullDeref
   | Some s \<Rightarrow> (let g1 = removeOutgoing s e g in
       (case mTarget g1 e of None \<Rightarrow> Inl NullDeref
        | Some t \<Rightarrow> (let g2 = removeIncoming t e g1 in
            Inr (g2\<lparr>mSource := (mSource g2)(e := None), mTarget := (mTarget g2)(e := None)\<rparr>)))))"

definition clearDisconnectedElements :: "'a graph_scheme \<Rightarrow> 'a graph_scheme" where
  "clearDisconnectedElements g = g\<lparr>
     mNodes := filter (\<lambda>n. \<not> (mIncoming g n = [] \<and> mOutgoing g n = [])) (mNodes g),
     mEdges := filter (\<lambda>e. \<not> (mSource g e = None \<or> mTarget g e = None)) (mEdges g)\<rparr>"

text \<open>The invariant: the vectors of the nodes list exactly the edges that are still connected.\<close>

definition live :: "'a graph_scheme \<Rightarrow> nat \<Rightarrow> bool" where
  "live g e \<longleftrightarrow> e \<in> set (mEdges g) \<and> mSource g e \<noteq> None \<and> mTarget g e \<noteq> None"

definition graph_ok :: "'a graph_scheme \<Rightarrow> bool" where
  "graph_ok g \<longleftrightarrow> distinct (mNodes g) \<and> distinct (mEdges g)
     \<and> (\<forall>n. distinct (mIncoming g n) \<and> distinct (mOutgoing g n))
     \<and> (\<forall>n. set (mOutgoing g n) = {e. live g e \<and> mSource g e = Some n})
     \<and> (\<forall>n. set (mIncoming g n) = {e. live g e \<and> mTarget g e = Some n})
     \<and> (\<forall>e n. live g e \<longrightarrow> mSource g e = Some n \<or> mTarget g e = Some n \<longrightarrow> n \<in> set (mNodes g))"

lemma graph_okD:
  assumes "graph_ok g"
  shows "distinct (mNodes g)" "distinct (mEdges g)" "distinct (mIncoming g n)" "distinct (mOutgoing g n)"
    "set (mOutgoing g n) = {e. live g e \<and> mSource g e = Some n}"
    "set (mIncoming g n) = {e. live g e \<and> mTarget g e = Some n}"
    "live g e \<Longrightarrow> mSource g e = Some n \<Longrightarrow> n \<in> set (mNodes g)"
    "live g e \<Longrightarrow> mTarget g e = Some n \<Longrightarrow> n \<in> set (mNodes g)"
  using assms by (auto simp: graph_ok_def)

lemma createNode_ok: "graph_ok g \<Longrightarrow> n \<notin> set (mNodes g) \<Longrightarrow> graph_ok (createNode n g)"
  by (auto simp: graph_ok_def createNode_def live_def)

lemma createEdge_ok:
  assumes "graph_ok g" and "e \<notin> set (mEdges g)" and "s \<in> set (mNodes g)" and "t \<in> set (mNodes g)"
  shows "graph_ok (createEdge e s t g)"
proof -
  have live: "live (createEdge e s t g) x \<longleftrightarrow> live g x \<or> x = e" for x
    using assms(2) by (auto simp: live_def createEdge_def Let_def)
  show ?thesis
    using assms unfolding graph_ok_def live
    by (auto simp: createEdge_def Let_def live_def)
qed

lemma disconnect_incoming_closed:
  assumes "distinct es" and "\<forall>e \<in> set es. mSource g e \<noteq> None"
  shows "disconnect_incoming es g = Inr (g\<lparr>
    mTarget := (\<lambda>e. if e \<in> set es then None else mTarget g e),
    mOutgoing := (\<lambda>u. filter (\<lambda>e. \<not> (e \<in> set es \<and> mSource g e = Some u)) (mOutgoing g u))\<rparr>)"
  using assms
proof (induction es arbitrary: g)
  case (Cons e es)
  obtain s where s: "mSource g e = Some s" using Cons.prems by auto
  let ?g = "removeOutgoing s e (g\<lparr>mTarget := (mTarget g)(e := None)\<rparr>)"
  have "disconnect_incoming es ?g = Inr (?g\<lparr>
      mTarget := (\<lambda>x. if x \<in> set es then None else mTarget ?g x),
      mOutgoing := (\<lambda>u. filter (\<lambda>x. \<not> (x \<in> set es \<and> mSource ?g x = Some u)) (mOutgoing ?g u))\<rparr>)"
    using Cons.prems by (intro Cons.IH) (auto simp: removeOutgoing_def)
  moreover have "filter (\<lambda>x. \<not> (x \<in> set es \<and> mSource ?g x = Some u)) (mOutgoing ?g u) =
      filter (\<lambda>x. \<not> (x \<in> set (e # es) \<and> mSource g x = Some u)) (mOutgoing g u)" for u
    using s by (cases "u = s")
      (auto simp: removeOutgoing_def removeAll_filter_not_eq intro!: filter_cong)
  ultimately show ?case
    using s by (auto simp: removeOutgoing_def fun_eq_iff)
qed auto

lemma disconnect_outgoing_closed:
  assumes "distinct es" and "\<forall>e \<in> set es. mTarget g e \<noteq> None"
  shows "disconnect_outgoing es g = Inr (g\<lparr>
    mSource := (\<lambda>e. if e \<in> set es then None else mSource g e),
    mIncoming := (\<lambda>u. filter (\<lambda>e. \<not> (e \<in> set es \<and> mTarget g e = Some u)) (mIncoming g u))\<rparr>)"
  using assms
proof (induction es arbitrary: g)
  case (Cons e es)
  obtain s where s: "mTarget g e = Some s" using Cons.prems by auto
  let ?g = "removeIncoming s e (g\<lparr>mSource := (mSource g)(e := None)\<rparr>)"
  have "disconnect_outgoing es ?g = Inr (?g\<lparr>
      mSource := (\<lambda>x. if x \<in> set es then None else mSource ?g x),
      mIncoming := (\<lambda>u. filter (\<lambda>x. \<not> (x \<in> set es \<and> mTarget ?g x = Some u)) (mIncoming ?g u))\<rparr>)"
    using Cons.prems by (intro Cons.IH) (auto simp: removeIncoming_def)
  moreover have "filter (\<lambda>x. \<not> (x \<in> set es \<and> mTarget ?g x = Some u)) (mIncoming ?g u) =
      filter (\<lambda>x. \<not> (x \<in> set (e # es) \<and> mTarget g x = Some u)) (mIncoming g u)" for u
    using s by (cases "u = s")
      (auto simp: removeIncoming_def removeAll_filter_not_eq intro!: filter_cong)
  ultimately show ?case
    using s by (auto simp: removeIncoming_def fun_eq_iff)
qed auto

text \<open>What \<open>disconnectNode\<close> does to a consistent graph: it never follows a null pointer, although an
  edge of the node loses an end point before its other one is read; a self loop is removed by the
  first loop, so that only the target end of it is cleared.\<close>

definition disconnected :: "nat \<Rightarrow> 'a graph_scheme \<Rightarrow> 'a graph_scheme" where
  "disconnected n g = g\<lparr>
     mIncoming := (\<lambda>u. if u = n then [] else filter (\<lambda>e. mSource g e \<noteq> Some n) (mIncoming g u)),
     mOutgoing := (\<lambda>u. if u = n then [] else filter (\<lambda>e. mTarget g e \<noteq> Some n) (mOutgoing g u)),
     mSource := (\<lambda>e. if live g e \<and> mSource g e = Some n \<and> mTarget g e \<noteq> Some n then None else mSource g e),
     mTarget := (\<lambda>e. if live g e \<and> mTarget g e = Some n then None else mTarget g e)\<rparr>"

lemma disconnectNode_closed:
  assumes "graph_ok g"
  shows "disconnectNode n g = Inr (disconnected n g)"
proof -
  note ok = graph_okD [OF assms]
  let ?in = "mIncoming g n"
  let ?g1 = "g\<lparr>mTarget := (\<lambda>e. if e \<in> set ?in then None else mTarget g e),
    mOutgoing := (\<lambda>u. filter (\<lambda>e. \<not> (e \<in> set ?in \<and> mSource g e = Some u)) (mOutgoing g u))\<rparr>"
  have 1: "disconnect_incoming ?in g = Inr ?g1"
    by (rule disconnect_incoming_closed) (auto simp: ok live_def)
  have 2: "disconnect_outgoing (mOutgoing ?g1 n) ?g1 = Inr (?g1\<lparr>
      mSource := (\<lambda>e. if e \<in> set (mOutgoing ?g1 n) then None else mSource ?g1 e),
      mIncoming := (\<lambda>u. filter (\<lambda>e. \<not> (e \<in> set (mOutgoing ?g1 n) \<and> mTarget ?g1 e = Some u))
                          (mIncoming ?g1 u))\<rparr>)"
    by (rule disconnect_outgoing_closed) (auto simp: ok live_def)
  show ?thesis
    unfolding disconnectNode_def 1 rbind_Inr 2 disconnected_def sum.inject
    by (rule graph.equality) (auto simp: ok live_def fun_eq_iff intro!: filter_cong)
qed

lemma live_disconnected:
  "live (disconnected n g) e \<longleftrightarrow> live g e \<and> mSource g e \<noteq> Some n \<and> mTarget g e \<noteq> Some n"
  by (auto simp: live_def disconnected_def split: if_splits)

lemma ends_disconnected:
  "live (disconnected n g) e \<Longrightarrow>
     mSource (disconnected n g) e = mSource g e \<and> mTarget (disconnected n g) e = mTarget g e"
  by (auto simp: live_def disconnected_def split: if_splits)

lemma disconnected_ok:
  assumes "graph_ok g"
  shows "graph_ok (disconnected n g)"
proof -
  note ok = graph_okD [OF assms]
  have "mNodes (disconnected n g) = mNodes g" "mEdges (disconnected n g) = mEdges g"
    by (auto simp: disconnected_def)
  moreover have "set (mOutgoing (disconnected n g) u) =
      {e. live (disconnected n g) e \<and> mSource (disconnected n g) e = Some u}" for u
    unfolding live_disconnected by (auto simp: disconnected_def ok split: if_splits)
  moreover have "set (mIncoming (disconnected n g) u) =
      {e. live (disconnected n g) e \<and> mTarget (disconnected n g) e = Some u}" for u
    unfolding live_disconnected by (auto simp: disconnected_def ok split: if_splits)
  moreover have "distinct (mIncoming (disconnected n g) u)" "distinct (mOutgoing (disconnected n g) u)" for u
    by (auto simp: disconnected_def ok)
  moreover have "u \<in> set (mNodes g)"
    if "live (disconnected n g) e" "mSource (disconnected n g) e = Some u \<or> mTarget (disconnected n g) e = Some u"
    for e u
    using that ends_disconnected [OF that(1)] ok(7,8) by (auto simp: live_disconnected)
  ultimately show ?thesis
    by (auto simp: graph_ok_def ok)
qed

lemma live_clear [simp]: "live (clearDisconnectedElements g) e = live g e"
  by (auto simp: live_def clearDisconnectedElements_def)

lemma clearDisconnectedElements_ok:
  assumes "graph_ok g"
  shows "graph_ok (clearDisconnectedElements g)"
proof -
  note ok = graph_okD [OF assms]
  have "n \<in> set (mNodes (clearDisconnectedElements g))"
    if "live g e" "mSource g e = Some n \<or> mTarget g e = Some n" for e n
    using that ok by (fastforce simp: clearDisconnectedElements_def dest: arg_cong [of _ _ set])
  then show ?thesis
    using assms unfolding graph_ok_def live_clear by (simp add: clearDisconnectedElements_def)
qed

lemma disconnectEdge_closed:
  assumes "graph_ok g" and "live g e"
  shows "\<exists>g'. disconnectEdge e g = Inr g' \<and> graph_ok g' \<and> (\<forall>x. live g' x \<longleftrightarrow> live g x \<and> x \<noteq> e)
    \<and> (\<forall>x. x \<noteq> e \<longrightarrow> mSource g' x = mSource g x \<and> mTarget g' x = mTarget g x)"
proof -
  note ok = graph_okD [OF assms(1)]
  obtain s t where st: "mSource g e = Some s" "mTarget g e = Some t"
    using assms(2) by (auto simp: live_def)
  let ?g = "(removeIncoming t e (removeOutgoing s e g))\<lparr>mSource := (mSource g)(e := None), mTarget := (mTarget g)(e := None)\<rparr>"
  have eq: "disconnectEdge e g = Inr ?g"
    by (simp add: disconnectEdge_def st removeIncoming_def removeOutgoing_def Let_def)
  have live: "live ?g x \<longleftrightarrow> live g x \<and> x \<noteq> e" for x
    by (auto simp: live_def removeIncoming_def removeOutgoing_def)
  have "graph_ok ?g"
    unfolding graph_ok_def live using ok st
    by (auto simp: removeIncoming_def removeOutgoing_def distinct_removeAll split: if_splits)
  then show ?thesis using eq live by auto
qed

text \<open>A loop that disconnects the nodes of a list which satisfy a predicate.\<close>

fun disconnectNodes :: "(nat \<Rightarrow> bool) \<Rightarrow> nat list \<Rightarrow> 'a graph_scheme \<Rightarrow> 'a graph_scheme res" where
  "disconnectNodes P [] g = Inr g"
| "disconnectNodes P (n # ns) g =
     (if P n then rbind (disconnectNode n g) (disconnectNodes P ns) else disconnectNodes P ns g)"

lemma disconnectNodes_closed:
  assumes "graph_ok g"
  shows "\<exists>g'. disconnectNodes P ns g = Inr g' \<and> graph_ok g' \<and> mNodes g' = mNodes g \<and> mEdges g' = mEdges g
    \<and> graph.more g' = graph.more g
    \<and> (\<forall>e. live g' e \<longleftrightarrow> live g e \<and> (\<forall>n \<in> set ns. P n \<longrightarrow> mSource g e \<noteq> Some n \<and> mTarget g e \<noteq> Some n))
    \<and> (\<forall>e. live g' e \<longrightarrow> mSource g' e = mSource g e \<and> mTarget g' e = mTarget g e)"
  using assms
proof (induction ns arbitrary: g)
  case (Cons n ns)
  show ?case
  proof (cases "P n")
    case True
    obtain g' where g': "disconnectNodes P ns (disconnected n g) = Inr g'" "graph_ok g'"
      "mNodes g' = mNodes (disconnected n g)" "mEdges g' = mEdges (disconnected n g)"
      "graph.more g' = graph.more (disconnected n g)"
      "\<forall>e. live g' e \<longleftrightarrow> live (disconnected n g) e \<and> (\<forall>m \<in> set ns. P m \<longrightarrow>
         mSource (disconnected n g) e \<noteq> Some m \<and> mTarget (disconnected n g) e \<noteq> Some m)"
      "\<forall>e. live g' e \<longrightarrow> mSource g' e = mSource (disconnected n g) e \<and> mTarget g' e = mTarget (disconnected n g) e"
      using Cons.IH [OF disconnected_ok [OF Cons.prems, of n]] by blast
    have more: "mNodes (disconnected n g) = mNodes g" "mEdges (disconnected n g) = mEdges g"
      "graph.more (disconnected n g) = graph.more g" by (auto simp: disconnected_def)
    have "live g' e \<longleftrightarrow> live g e \<and> (\<forall>m \<in> set (n # ns). P m \<longrightarrow> mSource g e \<noteq> Some m \<and> mTarget g e \<noteq> Some m)" for e
      using g'(6) ends_disconnected [of n g e] True by (auto simp: live_disconnected)
    moreover have "mSource g' e = mSource g e \<and> mTarget g' e = mTarget g e" if "live g' e" for e
      using that g'(6,7) ends_disconnected [of n g e] by auto
    ultimately show ?thesis
      using True g'(1-5) by (simp add: disconnectNode_closed [OF Cons.prems] more)
  qed (use Cons in \<open>auto split: if_splits\<close>)
qed auto

end
