(* ===== verification/GazerContext.thy ===== *)
theory GazerContext
  imports GazerExpr "HOL-Library.While_Combinator"
begin

text \<open>
  The variable table of \<open>GazerContext\<close> (\<^verbatim>\<open>src/Core/GazerContext.cpp\<close>): the context owns the variables
  and finds them by name. A variable is the pair of its name and type, so that two entries of the
  table are the same object exactly when they are the same variable.

  The lemmas on decimal numbers give what the name generators of the clients rely on: two different
  counters never print the same suffix.
\<close>

type_synonym variable_table = "string \<rightharpoonup> variable"

definition getVariable :: "variable_table \<Rightarrow> string \<Rightarrow> variable option" where
  "getVariable tbl n = tbl n"

definition createVariable :: "variable_table \<Rightarrow> string \<Rightarrow> gtype \<Rightarrow> (variable \<times> variable_table) res" where
  "createVariable tbl n t = check (tbl n = None) AssertFail (Inr (Variable n t, tbl(n \<mapsto> Variable n t)))"

definition removeVariable :: "variable_table \<Rightarrow> variable \<Rightarrow> variable_table res" where
  "removeVariable tbl v = check (tbl (var_name v) \<noteq> None) AssertFail (Inr (tbl(var_name v := None)))"

text \<open>Every entry is stored under its own name, and the table is finite.\<close>

definition table_ok :: "variable_table \<Rightarrow> bool" where
  "table_ok tbl \<longleftrightarrow> finite (dom tbl) \<and> (\<forall>n v. tbl n = Some v \<longrightarrow> var_name v = n)"

lemma createVariable_ok:
  "createVariable tbl n t = Inr (v, tbl') \<Longrightarrow> table_ok tbl \<Longrightarrow>
     table_ok tbl' \<and> tbl \<subseteq>\<^sub>m tbl' \<and> v = Variable n t \<and> getVariable tbl' n = Some v \<and> v \<notin> ran tbl"
  by (auto simp: createVariable_def table_ok_def getVariable_def check_def map_le_def ran_def
      split: if_splits) force

lemma removeVariable_ok:
  "removeVariable tbl v = Inr tbl' \<Longrightarrow> table_ok tbl \<Longrightarrow> table_ok tbl' \<and> getVariable tbl' (var_name v) = None"
  by (auto simp: removeVariable_def table_ok_def getVariable_def check_def split: if_splits)

lemma create_remove:
  "createVariable tbl n t = Inr (v, tbl') \<Longrightarrow> removeVariable tbl' v = Inr tbl"
  by (auto simp: removeVariable_def createVariable_def check_def fun_upd_idem split: if_splits)

text \<open>Decimal numbers are unambiguous.\<close>

fun digits_value :: "string \<Rightarrow> nat" where
  "digits_value s = foldl (\<lambda>n c. 10 * n + (of_char c - 48)) 0 s"

lemma digit_value: "n < 10 \<Longrightarrow> (of_char (char_of (48 + n) :: char) :: nat) = 48 + n"
  by (simp add: of_char_of)

lemma digits_value_dec: "digits_value (dec_digits n) = n"
proof (induction n rule: less_induct)
  case (less n)
  show ?case
  proof (cases "n < 10")
    case True
    then show ?thesis by (subst dec_digits.simps) (simp add: digit_value)
  next
    case False
    have "digits_value (dec_digits n) = 10 * digits_value (dec_digits (n div 10)) + n mod 10"
      using False by (subst dec_digits.simps) (simp add: digit_value)
    then show ?thesis using less [of "n div 10"] False by simp
  qed
qed

lemma dec_digits_inj [simp]: "dec_digits a = dec_digits b \<longleftrightarrow> a = b"
  by (metis digits_value_dec)

text \<open>The name generator of the automata: the base name first, then the base name with a counter
  of type \<open>unsigned\<close>, until the name is unused.\<close>

definition suffixed :: "string \<Rightarrow> nat \<Rightarrow> string" where
  "suffixed base k = base @ ''_'' @ dec_digits k"

lemma suffixed_inj [simp]: "suffixed b k = suffixed b k' \<longleftrightarrow> k = k'"
  by (simp add: suffixed_def)

definition freshName :: "variable_table \<Rightarrow> string \<Rightarrow> nat \<Rightarrow> (string \<times> nat) option" where
  "freshName tbl base tmp = while_option (\<lambda>(n, k). getVariable tbl n \<noteq> None)
     (\<lambda>(n, k). (suffixed base k, u32 (Suc k))) (base, tmp)"

lemma freshName_iterate:
  "((\<lambda>(n, k). (suffixed base k, u32 (Suc k))) ^^ Suc i) (base, u32 tmp) =
     (suffixed base (u32 (tmp + i)), u32 (tmp + Suc i))"
  by (induction i) (auto simp: u32_def mod_Suc_eq)

lemma u32_shift_inj: "inj_on (\<lambda>i. u32 (tmp + i)) {..< 2 ^ 32}"
proof (rule inj_onI)
  fix i j :: nat
  assume ij: "i \<in> {..< 2 ^ 32}" "j \<in> {..< 2 ^ 32}" "u32 (tmp + i) = u32 (tmp + j)"
  then have "i mod 2 ^ 32 = j mod 2 ^ 32"
    unfolding u32_def nat_mod_eq_iff by auto
  then show "i = j" using ij by simp
qed

lemma fresh_counter_exists:
  assumes "finite (dom tbl)" and "card (dom tbl) < 2 ^ 32"
  shows "\<exists>i. tbl (suffixed base (u32 (tmp + i))) = None"
proof (rule ccontr)
  assume "\<nexists>i. tbl (suffixed base (u32 (tmp + i))) = None"
  then have "(\<lambda>i. suffixed base (u32 (tmp + i))) ` {..< 2 ^ 32 :: nat} \<subseteq> dom tbl" by auto
  moreover have "inj_on (\<lambda>i. suffixed base (u32 (tmp + i))) {..< 2 ^ 32 :: nat}"
    using u32_shift_inj [of tmp] by (auto simp: inj_on_def)
  ultimately have "card {..< 2 ^ 32 :: nat} \<le> card (dom tbl)"
    using assms(1) by (metis card_image card_mono)
  with assms(2) show False by simp
qed

text \<open>The generator returns, although its counter wraps: a table of less than \<open>2^32\<close> variables leaves a
  name free.\<close>

lemma freshName_total:
  assumes "finite (dom tbl)" and "card (dom tbl) < 2 ^ 32" and "tmp < 2 ^ 32"
  shows "\<exists>n k. freshName tbl base tmp = Some (n, k) \<and> getVariable tbl n = None \<and> k < 2 ^ 32
    \<and> (n = base \<or> (\<exists>j. n = suffixed base j))"
proof -
  let ?b = "\<lambda>(n, k :: nat). getVariable tbl n \<noteq> None"
  let ?c = "\<lambda>(n :: string, k). (suffixed base k, u32 (Suc k))"
  have tmp: "u32 tmp = tmp" using assms(3) by (simp add: u32_def)
  obtain i where "tbl (suffixed base (u32 (tmp + i))) = None"
    using fresh_counter_exists [OF assms(1,2)] by blast
  then have "\<not> ?b ((?c ^^ Suc i) (base, tmp))"
    using freshName_iterate [of i base tmp] tmp by (simp add: getVariable_def)
  then have "\<exists>k. \<not> ?b ((?c ^^ k) (base, tmp))" by (rule exI)
  then obtain t where t: "freshName tbl base tmp = Some t"
    unfolding freshName_def while_option_def by (simp only: if_True)
  then have free: "\<not> ?b t" unfolding freshName_def by (rule while_option_stop)
  have "snd t < 2 ^ 32 \<and> (fst t = base \<or> (\<exists>j. fst t = suffixed base j))"
    using t unfolding freshName_def
    by (rule while_option_rule [rotated, where P = "\<lambda>t. snd t < 2 ^ 32 \<and> (fst t = base \<or> (\<exists>j. fst t = suffixed base j))"])
      (use assms(3) in \<open>auto simp: u32_def\<close>)
  with t free show ?thesis by (cases t) auto
qed

end
