(* ===== verification/GazerCfa.thy ===== *)
theory GazerCfa
  imports GazerGraph GazerContext
begin

text \<open>
  Control flow automata (\<^verbatim>\<open>include/gazer/Automaton/Cfa.h\<close>, \<^verbatim>\<open>src/Automaton/Cfa.cpp\<close>). An automaton is the
  graph of its locations and transitions, extended with the data of the locations and transitions,
  its variables and its bookkeeping tables. The addresses that \<open>new\<close> returns are arguments of the
  creating operations. The shared variable table of the context is passed and returned.

  \<open>cfa_ok\<close> is the invariant of the building operations; \<open>cfa_step\<close> is one call of any of them. The
  last group is \<open>removeUnreachableLocations\<close> and the automata system.
\<close>

datatype location_kind = State | Error

datatype transition =
    AssignTransition (mGuard: expr) (mAssignments: "variable_assignment list")
  | CallTransition (mGuard: expr) (mCallee: nat) (mInputArgs: "variable_assignment list")
      (mOutputArgs: "variable_assignment list")

record cfa = graph +
  mName :: string
  mID :: "nat \<Rightarrow> nat"
  mKind :: "nat \<Rightarrow> location_kind"
  mTransition :: "nat \<Rightarrow> transition"
  mErrorLocations :: "nat list"
  mErrorFieldExprs :: "nat \<rightharpoonup> expr"
  mInputs :: "variable list"
  mOutputs :: "variable list"
  mLocals :: "variable list"
  mEntry :: nat
  mExit :: nat
  mSymbolNames :: "variable \<rightharpoonup> string"
  mLocationNumbers :: "nat \<rightharpoonup> nat"
  mLocationIdx :: nat
  mTmp :: nat

definition isError :: "cfa \<Rightarrow> nat \<Rightarrow> bool" where
  "isError c l \<longleftrightarrow> mKind c l = Error"

definition isAssign :: "transition \<Rightarrow> bool" where
  "isAssign t = (case t of AssignTransition _ _ \<Rightarrow> True | CallTransition _ _ _ _ \<Rightarrow> False)"

definition isCall :: "transition \<Rightarrow> bool" where
  "isCall t = (case t of AssignTransition _ _ \<Rightarrow> False | CallTransition _ _ _ _ \<Rightarrow> True)"

text \<open>Locations.\<close>

definition createLocation :: "nat \<Rightarrow> cfa \<Rightarrow> cfa" where
  "createLocation l c = (let i = mLocationIdx c; c1 = createNode l (c\<lparr>mLocationIdx := u32 (Suc i)\<rparr>)
     in c1\<lparr>mID := (mID c1)(l := i), mKind := (mKind c1)(l := State),
           mLocationNumbers := (mLocationNumbers c1)(i \<mapsto> l)\<rparr>)"

definition createErrorLocation :: "nat \<Rightarrow> cfa \<Rightarrow> cfa" where
  "createErrorLocation l c = (let i = mLocationIdx c; c1 = createNode l (c\<lparr>mLocationIdx := u32 (Suc i)\<rparr>)
     in c1\<lparr>mID := (mID c1)(l := i), mKind := (mKind c1)(l := Error),
           mErrorLocations := mErrorLocations c1 @ [l],
           mLocationNumbers := (mLocationNumbers c1)(i \<mapsto> l)\<rparr>)"

definition empty_cfa :: "string \<Rightarrow> cfa" where
  "empty_cfa n = \<lparr>mNodes = [], mEdges = [], mIncoming = (\<lambda>_. []), mOutgoing = (\<lambda>_. []),
     mSource = (\<lambda>_. None), mTarget = (\<lambda>_. None), mName = n, mID = (\<lambda>_. 0), mKind = (\<lambda>_. State),
     mTransition = (\<lambda>_. AssignTransition True_lit []), mErrorLocations = [], mErrorFieldExprs = Map.empty,
     mInputs = [], mOutputs = [], mLocals = [], mEntry = 0, mExit = 0, mSymbolNames = Map.empty,
     mLocationNumbers = Map.empty, mLocationIdx = 0, mTmp = 0\<rparr>"

definition Cfa_new :: "string \<Rightarrow> nat \<Rightarrow> nat \<Rightarrow> cfa" where
  "Cfa_new n entry exit =
     (createLocation exit (createLocation entry (empty_cfa n)))\<lparr>mEntry := entry, mExit := exit\<rparr>"

definition findLocationById :: "cfa \<Rightarrow> nat \<Rightarrow> nat option" where
  "findLocationById c i = mLocationNumbers c i"

text \<open>Transitions; the guard of a transition is an expression of the type \<open>Bool\<close>.\<close>

definition addTransition :: "nat \<Rightarrow> nat \<Rightarrow> nat \<Rightarrow> transition \<Rightarrow> cfa \<Rightarrow> cfa" where
  "addTransition e s t tr c = (let c1 = createEdge e s t c in c1\<lparr>mTransition := (mTransition c1)(e := tr)\<rparr>)"

definition createAssignTransition ::
    "nat \<Rightarrow> nat \<Rightarrow> nat \<Rightarrow> expr option \<Rightarrow> variable_assignment list \<Rightarrow> cfa \<Rightarrow> cfa res" where
  "createAssignTransition e s t guard assigns c =
     (let g = (case guard of None \<Rightarrow> True_lit | Some g \<Rightarrow> g) in
      check (isBoolType (getType g)) AssertFail (Inr (addTransition e s t (AssignTransition g assigns) c)))"

text \<open>The called automaton is given by its address and its current state, whose arity the
  constructor compares with the arguments.\<close>

definition createCallTransition ::
    "nat \<Rightarrow> nat \<Rightarrow> nat \<Rightarrow> expr \<Rightarrow> nat \<Rightarrow> cfa \<Rightarrow> variable_assignment list \<Rightarrow> variable_assignment list \<Rightarrow> cfa \<Rightarrow> cfa res"
  where
  "createCallTransition e s t g callee callee_cfa ins outs c =
     check (isBoolType (getType g)) AssertFail
       (check (length (mInputs callee_cfa) = length ins \<and> length (mOutputs callee_cfa) = length outs) AssertFail
         (Inr (addTransition e s t (CallTransition g callee ins outs) c)))"

definition getInputArgument :: "transition \<Rightarrow> variable \<Rightarrow> variable_assignment option" where
  "getInputArgument tr v = find (\<lambda>a. va_variable a = v) (mInputArgs tr)"

definition getOutputArgument :: "transition \<Rightarrow> variable \<Rightarrow> variable_assignment option" where
  "getOutputArgument tr v = find (\<lambda>a. va_value a = VarRefExpr v) (mOutputArgs tr)"

text \<open>Error codes.\<close>

definition addErrorCode :: "nat \<Rightarrow> expr \<Rightarrow> cfa \<Rightarrow> cfa res" where
  "addErrorCode l x c = check (isError c l) AssertFail
     (Inr (c\<lparr>mErrorFieldExprs := (mErrorFieldExprs c)(l \<mapsto> x)\<rparr>))"

definition getErrorFieldExpr :: "cfa \<Rightarrow> nat \<Rightarrow> expr res" where
  "getErrorFieldExpr c l = check (isError c l) AssertFail
     (case mErrorFieldExprs c l of None \<Rightarrow> Inl AssertFail | Some x \<Rightarrow> Inr x)"

text \<open>Member variables. The result is \<open>None\<close> if the loop that looks for a name does not end.\<close>

definition createMemberVariable ::
    "string \<Rightarrow> gtype \<Rightarrow> cfa \<Rightarrow> variable_table \<Rightarrow> (variable \<times> cfa \<times> variable_table) res option" where
  "createMemberVariable n t c tbl = map_option (\<lambda>(newName, tmp).
     rbind (createVariable tbl newName t) (\<lambda>(v, tbl').
       Inr (v, c\<lparr>mTmp := tmp, mSymbolNames := (mSymbolNames c)(v \<mapsto> n)\<rparr>, tbl')))
     (freshName tbl (mName c @ ''/'' @ n) (mTmp c))"

definition createInput ::
    "string \<Rightarrow> gtype \<Rightarrow> cfa \<Rightarrow> variable_table \<Rightarrow> (variable \<times> cfa \<times> variable_table) res option" where
  "createInput n t c tbl = map_option (\<lambda>r. rbind r (\<lambda>(v, c', tbl').
     Inr (v, c'\<lparr>mInputs := mInputs c' @ [v]\<rparr>, tbl'))) (createMemberVariable n t c tbl)"

definition createLocal ::
    "string \<Rightarrow> gtype \<Rightarrow> cfa \<Rightarrow> variable_table \<Rightarrow> (variable \<times> cfa \<times> variable_table) res option" where
  "createLocal n t c tbl = map_option (\<lambda>r. rbind r (\<lambda>(v, c', tbl').
     Inr (v, c'\<lparr>mLocals := mLocals c' @ [v]\<rparr>, tbl'))) (createMemberVariable n t c tbl)"

definition addOutput :: "variable \<Rightarrow> cfa \<Rightarrow> cfa" where
  "addOutput v c = c\<lparr>mOutputs := mOutputs c @ [v]\<rparr>"

definition isOutput :: "cfa \<Rightarrow> variable \<Rightarrow> bool" where
  "isOutput c v \<longleftrightarrow> v \<in> set (mOutputs c)"

definition removeLocalsIf :: "(variable \<Rightarrow> bool) \<Rightarrow> cfa \<Rightarrow> cfa" where
  "removeLocalsIf p c = c\<lparr>mLocals := filter (\<lambda>v. \<not> p v) (mLocals c)\<rparr>"

fun index_of :: "variable \<Rightarrow> variable list \<Rightarrow> nat res" where
  "index_of v [] = Inl AssertFail"
| "index_of v (x # xs) = (if x = v then Inr 0 else rbind (index_of v xs) (\<lambda>i. Inr (Suc i)))"

definition getInputNumber :: "cfa \<Rightarrow> variable \<Rightarrow> nat res" where
  "getInputNumber c v = index_of v (mInputs c)"

definition getOutputNumber :: "cfa \<Rightarrow> variable \<Rightarrow> nat res" where
  "getOutputNumber c v = index_of v (mOutputs c)"

definition findVariableByName :: "cfa \<Rightarrow> variable_table \<Rightarrow> variable list \<Rightarrow> string \<Rightarrow> variable option" where
  "findVariableByName c tbl vec n = (case getVariable tbl (mName c @ ''/'' @ n) of
     None \<Rightarrow> None | Some v \<Rightarrow> if v \<in> set vec then Some v else None)"

definition findInputByName :: "cfa \<Rightarrow> variable_table \<Rightarrow> string \<Rightarrow> variable option" where
  "findInputByName c tbl n = findVariableByName c tbl (mInputs c) n"

definition findLocalByName :: "cfa \<Rightarrow> variable_table \<Rightarrow> string \<Rightarrow> variable option" where
  "findLocalByName c tbl n = findVariableByName c tbl (mLocals c) n"

definition findOutputByName :: "cfa \<Rightarrow> variable_table \<Rightarrow> string \<Rightarrow> variable option" where
  "findOutputByName c tbl n = findVariableByName c tbl (mOutputs c) n"

text \<open>Removal of the locations which the depth-first iterator over the graph did not visit.
  \<open>visited\<close> is the set that the iterator fills.\<close>

definition removeUnreachableLocations :: "(nat \<Rightarrow> bool) \<Rightarrow> cfa \<Rightarrow> cfa res" where
  "removeUnreachableLocations visited c =
     rbind (disconnectNodes (\<lambda>l. \<not> visited l) (mNodes c) c) (\<lambda>c'. Inr (clearDisconnectedElements c'))"


section \<open>The invariant of the building operations\<close>

definition locations_ok :: "cfa \<Rightarrow> bool" where
  "locations_ok c \<longleftrightarrow> mEntry c \<in> set (mNodes c) \<and> mExit c \<in> set (mNodes c)
     \<and> (\<forall>l \<in> set (mNodes c). mID c l < mLocationIdx c)
     \<and> (\<forall>i l. mLocationNumbers c i = Some l \<longleftrightarrow> l \<in> set (mNodes c) \<and> mID c l = i)
     \<and> mLocationIdx c < 2 ^ 32"

definition errors_ok :: "cfa \<Rightarrow> bool" where
  "errors_ok c \<longleftrightarrow> distinct (mErrorLocations c)
     \<and> set (mErrorLocations c) = {l \<in> set (mNodes c). isError c l}
     \<and> dom (mErrorFieldExprs c) \<subseteq> set (mErrorLocations c)"

definition guards_ok :: "cfa \<Rightarrow> bool" where
  "guards_ok c \<longleftrightarrow> (\<forall>e. live c e \<longrightarrow> getType (mGuard (mTransition c e)) = BoolType)"

definition variables_ok :: "cfa \<Rightarrow> variable_table \<Rightarrow> bool" where
  "variables_ok c tbl \<longleftrightarrow> table_ok tbl \<and> distinct (mInputs c @ mLocals c)
     \<and> set (mInputs c @ mLocals c) \<subseteq> dom (mSymbolNames c) \<and> dom (mSymbolNames c) \<subseteq> ran tbl"

definition cfa_ok :: "cfa \<Rightarrow> variable_table \<Rightarrow> bool" where
  "cfa_ok c tbl \<longleftrightarrow> graph_ok c \<and> locations_ok c \<and> errors_ok c \<and> guards_ok c \<and> variables_ok c tbl"

lemmas cfa_ok_defs = cfa_ok_def locations_ok_def errors_ok_def guards_ok_def variables_ok_def

inductive cfa_step :: "cfa \<times> variable_table \<Rightarrow> cfa \<times> variable_table \<Rightarrow> bool" where
  location: "l \<notin> set (mNodes c) \<Longrightarrow> Suc (mLocationIdx c) < 2 ^ 32 \<Longrightarrow> cfa_step (c, tbl) (createLocation l c, tbl)"
| error_location: "l \<notin> set (mNodes c) \<Longrightarrow> Suc (mLocationIdx c) < 2 ^ 32 \<Longrightarrow>
    cfa_step (c, tbl) (createErrorLocation l c, tbl)"
| assign: "e \<notin> set (mEdges c) \<Longrightarrow> s \<in> set (mNodes c) \<Longrightarrow> t \<in> set (mNodes c) \<Longrightarrow>
    createAssignTransition e s t g as c = Inr c' \<Longrightarrow> cfa_step (c, tbl) (c', tbl)"
| call: "e \<notin> set (mEdges c) \<Longrightarrow> s \<in> set (mNodes c) \<Longrightarrow> t \<in> set (mNodes c) \<Longrightarrow>
    createCallTransition e s t guard callee callee_cfa ins outs c = Inr c' \<Longrightarrow> cfa_step (c, tbl) (c', tbl)"
| error_code: "l \<in> set (mNodes c) \<Longrightarrow> addErrorCode l x c = Inr c' \<Longrightarrow> cfa_step (c, tbl) (c', tbl)"
| input: "createInput n ty c tbl = Some (Inr (v, c', tbl')) \<Longrightarrow> cfa_step (c, tbl) (c', tbl')"
| local: "createLocal n ty c tbl = Some (Inr (v, c', tbl')) \<Longrightarrow> cfa_step (c, tbl) (c', tbl')"
| output_var: "cfa_step (c, tbl) (addOutput v c, tbl)"
| locals_if: "cfa_step (c, tbl) (removeLocalsIf p c, tbl)"
| others: "table_ok tbl' \<Longrightarrow> tbl \<subseteq>\<^sub>m tbl' \<Longrightarrow> cfa_step (c, tbl) (c, tbl')"

inductive cfa_built :: "cfa \<times> variable_table \<Rightarrow> bool" where
  new: "entry \<noteq> exit \<Longrightarrow> table_ok tbl \<Longrightarrow> cfa_built (Cfa_new n entry exit, tbl)"
| step: "cfa_built ct \<Longrightarrow> cfa_step ct ct' \<Longrightarrow> cfa_built ct'"

lemma createNode_simps [simp]:
  "mNodes (createNode l c) = mNodes c @ [l]" "mEdges (createNode l c) = mEdges c"
  "mSource (createNode l c) = mSource c" "mTarget (createNode l c) = mTarget c"
  "graph.more (createNode l c) = graph.more c"
  by (auto simp: createNode_def)

lemma live_createNode [simp]: "live (createNode l c) e = live c e"
  by (simp add: live_def)

text \<open>The operations on the graph part leave the other fields alone.\<close>

lemma createNode_cfa [simp]:
  fixes c :: cfa
  shows "mName (createNode l c) = mName c" "mID (createNode l c) = mID c" "mKind (createNode l c) = mKind c"
    "mTransition (createNode l c) = mTransition c" "mErrorLocations (createNode l c) = mErrorLocations c"
    "mErrorFieldExprs (createNode l c) = mErrorFieldExprs c" "mInputs (createNode l c) = mInputs c"
    "mOutputs (createNode l c) = mOutputs c" "mLocals (createNode l c) = mLocals c"
    "mEntry (createNode l c) = mEntry c" "mExit (createNode l c) = mExit c"
    "mSymbolNames (createNode l c) = mSymbolNames c" "mLocationNumbers (createNode l c) = mLocationNumbers c"
    "mLocationIdx (createNode l c) = mLocationIdx c" "mTmp (createNode l c) = mTmp c"
  by (simp_all add: createNode_def)

text \<open>The fields outside of the graph do not matter for its consistency.\<close>

lemma live_frame [simp]:
  fixes c :: cfa
  shows
    "live (c\<lparr>mErrorFieldExprs := x0\<rparr>) e = live c e"
    "live (c\<lparr>mInputs := x1\<rparr>) e = live c e"
    "live (c\<lparr>mOutputs := x2\<rparr>) e = live c e"
    "live (c\<lparr>mLocals := x3\<rparr>) e = live c e"
    "live (c\<lparr>mSymbolNames := x4\<rparr>) e = live c e"
    "live (c\<lparr>mTmp := x5\<rparr>) e = live c e"
  by (simp_all add: live_def)

lemma graph_ok_frame [simp]:
  fixes c :: cfa
  shows
    "graph_ok (c\<lparr>mErrorFieldExprs := x0\<rparr>) = graph_ok c"
    "graph_ok (c\<lparr>mInputs := x1\<rparr>) = graph_ok c"
    "graph_ok (c\<lparr>mOutputs := x2\<rparr>) = graph_ok c"
    "graph_ok (c\<lparr>mLocals := x3\<rparr>) = graph_ok c"
    "graph_ok (c\<lparr>mSymbolNames := x4\<rparr>) = graph_ok c"
    "graph_ok (c\<lparr>mTmp := x5\<rparr>) = graph_ok c"
  by (simp_all add: graph_ok_def)

lemma locations_ok_frame [simp]:
  "locations_ok (c\<lparr>mErrorFieldExprs := x0\<rparr>) = locations_ok c"
  "locations_ok (c\<lparr>mInputs := x1\<rparr>) = locations_ok c"
  "locations_ok (c\<lparr>mOutputs := x2\<rparr>) = locations_ok c"
  "locations_ok (c\<lparr>mLocals := x3\<rparr>) = locations_ok c"
  "locations_ok (c\<lparr>mSymbolNames := x4\<rparr>) = locations_ok c"
  "locations_ok (c\<lparr>mTmp := x5\<rparr>) = locations_ok c"
  by (simp_all add: locations_ok_def)

lemma guards_ok_frame [simp]:
  "guards_ok (c\<lparr>mErrorFieldExprs := x0\<rparr>) = guards_ok c"
  "guards_ok (c\<lparr>mInputs := x1\<rparr>) = guards_ok c"
  "guards_ok (c\<lparr>mOutputs := x2\<rparr>) = guards_ok c"
  "guards_ok (c\<lparr>mLocals := x3\<rparr>) = guards_ok c"
  "guards_ok (c\<lparr>mSymbolNames := x4\<rparr>) = guards_ok c"
  "guards_ok (c\<lparr>mTmp := x5\<rparr>) = guards_ok c"
  by (simp_all add: guards_ok_def)

lemma errors_ok_frame [simp]:
  "errors_ok (c\<lparr>mInputs := x1\<rparr>) = errors_ok c"
  "errors_ok (c\<lparr>mOutputs := x2\<rparr>) = errors_ok c"
  "errors_ok (c\<lparr>mLocals := x3\<rparr>) = errors_ok c"
  "errors_ok (c\<lparr>mSymbolNames := x4\<rparr>) = errors_ok c"
  "errors_ok (c\<lparr>mTmp := x5\<rparr>) = errors_ok c"
  by (simp_all add: errors_ok_def isError_def)

lemma createLocation_graph_ok:
  fixes c :: cfa
  assumes "graph_ok c" and "l \<notin> set (mNodes c)"
  shows "graph_ok (createLocation l c)" "graph_ok (createErrorLocation l c)"
  using createNode_ok [OF assms]
  by (auto simp: createLocation_def createErrorLocation_def Let_def createNode_def graph_ok_def live_def)

lemma live_location [simp]: "live (createLocation l c) e = live c e" "live (createErrorLocation l c) e = live c e"
  by (auto simp: live_def createLocation_def createErrorLocation_def Let_def)

lemma createLocation_ok:
  assumes ok: "cfa_ok c tbl" and "l \<notin> set (mNodes c)" and "Suc (mLocationIdx c) < 2 ^ 32"
  shows "cfa_ok (createLocation l c) tbl" "cfa_ok (createErrorLocation l c) tbl"
proof -
  have "graph_ok (createLocation l c)" "graph_ok (createErrorLocation l c)"
    using assms createLocation_graph_ok by (auto simp: cfa_ok_def)
  moreover have "locations_ok (createLocation l c)" "locations_ok (createErrorLocation l c)"
    using assms unfolding cfa_ok_def locations_ok_def
    by (auto simp: createLocation_def createErrorLocation_def Let_def u32_def)
  moreover have "errors_ok (createLocation l c)" "errors_ok (createErrorLocation l c)"
    using assms unfolding cfa_ok_def errors_ok_def
    by (auto simp: createLocation_def createErrorLocation_def Let_def isError_def)
  moreover have "guards_ok (createLocation l c)" "guards_ok (createErrorLocation l c)"
    using assms unfolding cfa_ok_def guards_ok_def live_location
    by (auto simp: createLocation_def createErrorLocation_def Let_def)
  moreover have "variables_ok (createLocation l c) tbl" "variables_ok (createErrorLocation l c) tbl"
    using assms unfolding cfa_ok_def variables_ok_def
    by (auto simp: createLocation_def createErrorLocation_def Let_def)
  ultimately show "cfa_ok (createLocation l c) tbl" "cfa_ok (createErrorLocation l c) tbl"
    by (simp_all add: cfa_ok_def)
qed

lemma addTransition_ok:
  assumes "cfa_ok c tbl" and "e \<notin> set (mEdges c)" and "s \<in> set (mNodes c)" and "t \<in> set (mNodes c)"
    and "getType (mGuard tr) = BoolType"
  shows "cfa_ok (addTransition e s t tr c) tbl"
proof -
  have "graph_ok (createEdge e s t c)" using assms createEdge_ok by (auto simp: cfa_ok_def)
  then have "graph_ok (addTransition e s t tr c)"
    by (simp add: graph_ok_def live_def addTransition_def Let_def)
  moreover have "live (addTransition e s t tr c) x \<longleftrightarrow> live c x \<or> x = e" for x
    using assms(2) by (auto simp: live_def addTransition_def createEdge_def Let_def)
  moreover have "live c x \<Longrightarrow> x \<noteq> e" for x using assms(2) by (auto simp: live_def)
  ultimately show ?thesis
    using assms unfolding cfa_ok_def guards_ok_def
    by (auto simp: addTransition_def createEdge_def Let_def locations_ok_def errors_ok_def variables_ok_def isError_def)
qed

lemma isBoolType_iff: "isBoolType t \<longleftrightarrow> t = BoolType"
  by (cases t) (auto simp: isBoolType_def)

lemma createMemberVariable_Some:
  assumes "createMemberVariable n t c tbl = Some (Inr (v, c', tbl'))" and "table_ok tbl"
  shows "table_ok tbl' \<and> tbl \<subseteq>\<^sub>m tbl' \<and> v \<notin> ran tbl \<and> v \<in> ran tbl' \<and> var_type v = t
    \<and> (\<exists>tmp. c' = c\<lparr>mTmp := tmp, mSymbolNames := (mSymbolNames c)(v \<mapsto> n)\<rparr>)"
proof -
  obtain newName tmp where "createVariable tbl newName t = Inr (v, tbl')"
    "c' = c\<lparr>mTmp := tmp, mSymbolNames := (mSymbolNames c)(v \<mapsto> n)\<rparr>"
    using assms(1) by (auto simp: createMemberVariable_def rbind_eq_Inr)
  with createVariable_ok [OF this(1) assms(2)] show ?thesis
    by (auto simp: getVariable_def ran_def)
qed

lemma ran_map_le: "m \<subseteq>\<^sub>m m' \<Longrightarrow> ran m \<subseteq> ran m'"
  by (auto simp: ran_def map_le_def dom_def) metis

lemma cfa_ok_variables:
  assumes "cfa_ok c tbl"
    and "variables_ok (c\<lparr>mTmp := tmp, mSymbolNames := names, mInputs := ins, mLocals := locs, mOutputs := outs\<rparr>) tbl'"
  shows "cfa_ok (c\<lparr>mTmp := tmp, mSymbolNames := names, mInputs := ins, mLocals := locs, mOutputs := outs\<rparr>) tbl'"
  using assms by (simp add: cfa_ok_def)

lemma new_variable_ok:
  assumes "createMemberVariable n t c tbl = Some (Inr (v, c', tbl'))" and "cfa_ok c tbl"
  shows "cfa_ok (c'\<lparr>mInputs := mInputs c' @ [v]\<rparr>) tbl'" "cfa_ok (c'\<lparr>mLocals := mLocals c' @ [v]\<rparr>) tbl'"
proof -
  have "table_ok tbl" using assms(2) by (simp add: cfa_ok_def variables_ok_def)
  from createMemberVariable_Some [OF assms(1) this] obtain tmp where
    v: "table_ok tbl'" "tbl \<subseteq>\<^sub>m tbl'" "v \<notin> ran tbl" "v \<in> ran tbl'"
    and c': "c' = c\<lparr>mTmp := tmp, mSymbolNames := (mSymbolNames c)(v \<mapsto> n)\<rparr>" by blast
  have old: "set (mInputs c @ mLocals c) \<subseteq> dom (mSymbolNames c)" "dom (mSymbolNames c) \<subseteq> ran tbl"
    "distinct (mInputs c @ mLocals c)"
    using assms(2) by (simp_all add: cfa_ok_def variables_ok_def)
  have "v \<notin> set (mInputs c @ mLocals c)" "dom (mSymbolNames c) \<subseteq> ran tbl'"
    using old v(3) ran_map_le [OF v(2)] by blast+
  then have "variables_ok (c\<lparr>mTmp := tmp, mSymbolNames := (mSymbolNames c)(v \<mapsto> n), mInputs := mInputs c @ [v],
        mLocals := mLocals c, mOutputs := mOutputs c\<rparr>) tbl'"
    "variables_ok (c\<lparr>mTmp := tmp, mSymbolNames := (mSymbolNames c)(v \<mapsto> n), mInputs := mInputs c,
        mLocals := mLocals c @ [v], mOutputs := mOutputs c\<rparr>) tbl'"
    using old v(1,4) unfolding variables_ok_def by auto
  from this [THEN cfa_ok_variables [OF assms(2)]]
  show "cfa_ok (c'\<lparr>mInputs := mInputs c' @ [v]\<rparr>) tbl'" "cfa_ok (c'\<lparr>mLocals := mLocals c' @ [v]\<rparr>) tbl'"
    by (simp_all add: c')
qed

lemma cfa_step_ok:
  assumes "cfa_step ct ct'" and "cfa_ok (fst ct) (snd ct)"
  shows "cfa_ok (fst ct') (snd ct')"
  using assms
proof (induction rule: cfa_step.induct)
  case (assign e c s t g as c' tbl)
  then show ?case
    by (auto simp: createAssignTransition_def Let_def check_def isBoolType_iff intro!: addTransition_ok
        split: if_splits)
next
  case (call e c s t guard callee callee_cfa ins outs c' tbl)
  then show ?case
    by (auto simp: createCallTransition_def check_def isBoolType_iff intro!: addTransition_ok split: if_splits)
next
  case (error_code l c x c' tbl)
  then show ?case
    by (auto simp: addErrorCode_def check_def cfa_ok_def variables_ok_def errors_ok_def isError_def
        split: if_splits) blast+
next
  case (input n ty c tbl v c' tbl')
  then show ?case
    by (auto simp: createInput_def rbind_eq_Inr intro: new_variable_ok(1))
next
  case (local n ty c tbl v c' tbl')
  then show ?case
    by (auto simp: createLocal_def rbind_eq_Inr intro: new_variable_ok(2))
next
  case (output_var c tbl v)
  then show ?case
    using cfa_ok_variables [where c = c and tbl = tbl and tbl' = tbl and tmp = "mTmp c" and names = "mSymbolNames c" and ins = "mInputs c"
        and locs = "mLocals c" and outs = "mOutputs c @ [v]"]
    by (simp add: addOutput_def cfa_ok_def variables_ok_def)
next
  case (locals_if c tbl p)
  then show ?case
    using cfa_ok_variables [where c = c and tbl = tbl and tbl' = tbl and tmp = "mTmp c" and names = "mSymbolNames c" and ins = "mInputs c"
        and locs = "filter (\<lambda>v. \<not> p v) (mLocals c)" and outs = "mOutputs c"]
    by (auto simp: removeLocalsIf_def cfa_ok_def variables_ok_def)
next
  case (others tbl' tbl c)
  then show ?case
    using cfa_ok_variables [where c = c and tbl = tbl and tbl' = tbl' and tmp = "mTmp c" and names = "mSymbolNames c" and ins = "mInputs c"
        and locs = "mLocals c" and outs = "mOutputs c"]
      ran_map_le [of tbl tbl'] by (auto simp: cfa_ok_def variables_ok_def)
qed (use createLocation_ok in auto)

lemma Cfa_new_ok:
  assumes "entry \<noteq> exit" and "table_ok tbl"
  shows "cfa_ok (Cfa_new n entry exit) tbl"
  using assms
  by (auto simp: Cfa_new_def createLocation_def createNode_def empty_cfa_def Let_def cfa_ok_def graph_ok_def
      locations_ok_def errors_ok_def guards_ok_def variables_ok_def live_def isError_def u32_def split: if_splits)

lemma built_ok: "cfa_built ct \<Longrightarrow> cfa_ok (fst ct) (snd ct)"
  by (induction rule: cfa_built.induct) (auto intro: Cfa_new_ok cfa_step_ok)

text \<open>
  C13: every automaton that the building operations make is consistent: the two views of its edges
  agree, its entry and exit are among its locations, a location is found by its number, the list of
  error locations is exact, the guards are Boolean, and its inputs and locals are different
  variables of the context.
\<close>

theorem built_invariant:
  assumes "cfa_built (c, tbl)"
  shows "cfa_ok c tbl \<and> (\<forall>l \<in> set (mNodes c). findLocationById c (mID c l) = Some l)"
  using built_ok [OF assms] by (auto simp: cfa_ok_def locations_ok_def findLocationById_def)

text \<open>An automaton with an error location, a guarded transition and an error code.\<close>

definition sample_cfa :: cfa where
  "sample_cfa = (let c = createErrorLocation 7 (Cfa_new ''f'' 3 4) in
     (case createAssignTransition 0 3 7 None [] c of Inl _ \<Rightarrow> c | Inr c' \<Rightarrow> c'))"

theorem built_invariant_witness:
  "cfa_ok sample_cfa Map.empty \<and> findLocationById sample_cfa 2 = Some 7 \<and> mOutgoing sample_cfa 3 = [0]"
proof -
  let ?c = "createErrorLocation 7 (Cfa_new ''f'' 3 4)"
  have "cfa_built (?c, Map.empty)"
    by (rule cfa_built.step, rule cfa_built.new [of 3 4 "Map.empty" "''f''"], simp, simp add: table_ok_def,
        rule cfa_step.error_location)
      (simp_all add: Cfa_new_def createLocation_def createNode_def empty_cfa_def Let_def u32_def)
  moreover have "createAssignTransition 0 3 7 None [] ?c = Inr sample_cfa"
    by (simp add: sample_cfa_def createAssignTransition_def check_def isBoolType_def)
  ultimately have "cfa_built (sample_cfa, Map.empty)"
    by (intro cfa_built.step [OF _ cfa_step.assign [of 0 ?c 3 7 None "[]" sample_cfa]])
      (simp_all add: Cfa_new_def createErrorLocation_def createLocation_def createNode_def empty_cfa_def Let_def)
  from built_invariant [OF this] show ?thesis
    by (simp add: sample_cfa_def createAssignTransition_def check_def isBoolType_def addTransition_def
        createEdge_def Cfa_new_def createErrorLocation_def createLocation_def createNode_def empty_cfa_def Let_def u32_def
        findLocationById_def)
qed

section \<open>Creation and lookup of variables\<close>

lemma index_of_append_new: "v \<notin> set vs \<Longrightarrow> index_of v (vs @ [v]) = Inr (length vs)"
  by (induction vs) auto

lemma index_of_nth: "index_of v vs = Inr i \<Longrightarrow> i < length vs \<and> vs ! i = v"
  by (induction vs arbitrary: i) (auto simp: rbind_eq_Inr split: if_splits)

lemma freshName_free: "getVariable tbl base = None \<Longrightarrow> freshName tbl base tmp = Some (base, tmp)"
  unfolding freshName_def by (subst while_option_unfold) simp

text \<open>
  C29: creating an input always returns, with a variable that the context did not have, of the given
  type, as the last input of the automaton; if its qualified name was not in use, then the input is
  found by the given name.
\<close>

theorem createInput_roundtrip:
  assumes ok: "variables_ok c tbl" and "card (dom tbl) < 2 ^ 32" and "mTmp c < 2 ^ 32"
  shows "\<exists>v c' tbl'. createInput n t c tbl = Some (Inr (v, c', tbl'))
    \<and> v \<notin> ran tbl \<and> var_type v = t \<and> getVariable tbl' (var_name v) = Some v \<and> tbl \<subseteq>\<^sub>m tbl'
    \<and> getInputNumber c' v = Inr (length (mInputs c))
    \<and> (getVariable tbl (mName c @ ''/'' @ n) = None \<longrightarrow> findInputByName c' tbl' n = Some v)"
proof -
  let ?base = "mName c @ ''/'' @ n"
  have tbl: "finite (dom tbl)" "table_ok tbl" using ok by (auto simp: variables_ok_def table_ok_def)
  obtain name tmp where name: "freshName tbl ?base (mTmp c) = Some (name, tmp)" "getVariable tbl name = None"
    using freshName_total [OF tbl(1) assms(2,3)] by blast
  let ?v = "Variable name t" and ?tbl = "tbl(name \<mapsto> Variable name t)"
  let ?c = "c\<lparr>mTmp := tmp, mSymbolNames := (mSymbolNames c)(?v \<mapsto> n), mInputs := mInputs c @ [?v]\<rparr>"
  have create: "createVariable tbl name t = Inr (?v, ?tbl)"
    using name(2) by (simp add: createVariable_def getVariable_def check_def)
  have "createInput n t c tbl = Some (Inr (?v, ?c, ?tbl))"
    by (simp add: createInput_def createMemberVariable_def name(1) [simplified] create)
  moreover have new: "?v \<notin> ran tbl" "tbl \<subseteq>\<^sub>m ?tbl"
    using createVariable_ok [OF create tbl(2)] by blast+
  moreover have "?v \<notin> set (mInputs c)" using ok new unfolding variables_ok_def by fastforce
  then have "getInputNumber ?c ?v = Inr (length (mInputs c))"
    by (simp add: getInputNumber_def index_of_append_new)
  moreover have "getVariable tbl ?base = None \<longrightarrow> findInputByName ?c ?tbl n = Some ?v"
    using freshName_free [of tbl ?base "mTmp c"] name(1)
    by (auto simp: findInputByName_def findVariableByName_def getVariable_def)
  ultimately show ?thesis by (auto simp: getVariable_def)
qed

theorem createInput_roundtrip_witness:
  "\<exists>v c' tbl'. createInput ''x'' IntType (Cfa_new ''f'' 3 4) Map.empty = Some (Inr (v, c', tbl'))
     \<and> findInputByName c' tbl' ''x'' = Some v \<and> getInputNumber c' v = Inr 0"
proof -
  have "variables_ok (Cfa_new ''f'' 3 4) Map.empty" "mTmp (Cfa_new ''f'' 3 4) = 0" "mInputs (Cfa_new ''f'' 3 4) = []"
    by (auto simp: variables_ok_def table_ok_def Cfa_new_def createLocation_def empty_cfa_def Let_def)
  with createInput_roundtrip [of "Cfa_new ''f'' 3 4" Map.empty "''x''" IntType] show ?thesis
    by (auto simp: getVariable_def)
qed

section \<open>Removal of unreachable locations\<close>

definition edge_rel :: "'a graph_scheme \<Rightarrow> (nat \<times> nat) set" where
  "edge_rel g = {(u, v). \<exists>e. live g e \<and> mSource g e = Some u \<and> mTarget g e = Some v}"

text \<open>What the depth-first iterator promises: it visits the locations reachable from the entry.\<close>

definition dfs_visits :: "cfa \<Rightarrow> (nat \<Rightarrow> bool) \<Rightarrow> bool" where
  "dfs_visits c visited \<longleftrightarrow> (\<forall>l. visited l \<longleftrightarrow> (mEntry c, l) \<in> (edge_rel c)\<^sup>*)"

lemma reach_nodes:
  assumes "graph_ok c" and "mEntry c \<in> set (mNodes c)" and "(mEntry c, l) \<in> (edge_rel c)\<^sup>*"
  shows "l \<in> set (mNodes c)"
  using assms(3,1,2) by (induction rule: rtrancl_induct) (auto simp: edge_rel_def graph_okD)

lemma more_cfa:
  fixes c c' :: cfa
  assumes "graph.more c = graph.more c'"
  shows "mEntry c = mEntry c' \<and> mExit c = mExit c' \<and> mLocationNumbers c = mLocationNumbers c'
    \<and> mTransition c = mTransition c' \<and> mID c = mID c' \<and> mKind c = mKind c' \<and> mLocationIdx c = mLocationIdx c'
    \<and> mErrorLocations c = mErrorLocations c' \<and> mErrorFieldExprs c = mErrorFieldExprs c' \<and> mInputs c = mInputs c'
    \<and> mOutputs c = mOutputs c' \<and> mLocals c = mLocals c' \<and> mSymbolNames c = mSymbolNames c' \<and> mName c = mName c'
    \<and> mTmp c = mTmp c'"
  using assms by (cases c, cases c') simp

lemma edge_relI: "live g e \<Longrightarrow> mSource g e = Some u \<Longrightarrow> mTarget g e = Some v \<Longrightarrow> (u, v) \<in> edge_rel g"
  by (auto simp: edge_rel_def)

lemma kept_nodes:
  assumes "graph_ok g"
  shows "set (mNodes (clearDisconnectedElements g)) =
    {l. \<exists>e. live g e \<and> (mSource g e = Some l \<or> mTarget g e = Some l)}"
proof -
  have "mIncoming g l = [] \<and> mOutgoing g l = [] \<longleftrightarrow>
      \<not> (\<exists>e. live g e \<and> (mSource g e = Some l \<or> mTarget g e = Some l))" for l
    using graph_okD(5,6) [OF assms, of l] by (auto simp flip: set_empty)
  moreover have "l \<in> set (mNodes g)" if "live g e" "mSource g e = Some l \<or> mTarget g e = Some l" for l e
    using that graph_okD(7,8) [OF assms] by blast
  ultimately show ?thesis by (auto simp: clearDisconnectedElements_def)
qed

text \<open>
  C30: \<open>removeUnreachableLocations\<close> succeeds on a consistent automaton, keeps exactly the transitions
  whose source is reachable, with their end points, and the reachability of every location; what is
  left are the reachable locations, unless the entry has no outgoing transition: then nothing is
  left, not even the entry. The entry, the exit and the table of location numbers are not updated.
\<close>

theorem removeUnreachable_spec:
  assumes ok: "graph_ok c" "mEntry c \<in> set (mNodes c)" and dfs: "dfs_visits c visited"
  shows "\<exists>c'. removeUnreachableLocations visited c = Inr c' \<and> graph_ok c'
    \<and> (\<forall>e. live c' e \<longleftrightarrow> live c e \<and> (\<exists>u. mSource c e = Some u \<and> visited u))
    \<and> (\<forall>e. live c' e \<longrightarrow> mSource c' e = mSource c e \<and> mTarget c' e = mTarget c e)
    \<and> set (mNodes c') = (if mOutgoing c (mEntry c) = [] then {} else {l. visited l})
    \<and> (\<forall>l. (mEntry c, l) \<in> (edge_rel c')\<^sup>* \<longleftrightarrow> (mEntry c, l) \<in> (edge_rel c)\<^sup>*)
    \<and> mEntry c' = mEntry c \<and> mExit c' = mExit c \<and> mLocationNumbers c' = mLocationNumbers c
    \<and> mTransition c' = mTransition c"
proof -
  let ?un = "\<lambda>l. \<not> visited l"
  obtain d where d: "disconnectNodes ?un (mNodes c) c = Inr d" "graph_ok d" "mNodes d = mNodes c"
    "graph.more d = graph.more c"
    and live_d: "\<And>e. live d e \<longleftrightarrow> live c e \<and> (\<forall>n \<in> set (mNodes c). \<not> visited n \<longrightarrow>
        mSource c e \<noteq> Some n \<and> mTarget c e \<noteq> Some n)"
    and ends_d: "\<And>e. live d e \<Longrightarrow> mSource d e = mSource c e \<and> mTarget d e = mTarget c e"
    using disconnectNodes_closed [OF ok(1), of ?un "mNodes c"] by blast
  let ?c = "clearDisconnectedElements d"
  have vis: "visited l \<longleftrightarrow> (mEntry c, l) \<in> (edge_rel c)\<^sup>*" for l using dfs by (simp add: dfs_visits_def)
  have succ: "visited v" if "visited u" "live c e" "mSource c e = Some u" "mTarget c e = Some v" for u v e
    using that unfolding vis by (blast intro: rtrancl_into_rtrancl edge_relI)
  have live: "live d e \<longleftrightarrow> live c e \<and> (\<exists>u. mSource c e = Some u \<and> visited u)" for e
  proof
    assume "live d e"
    then show "live c e \<and> (\<exists>u. mSource c e = Some u \<and> visited u)"
      unfolding live_d using graph_okD(7) [OF ok(1)] by (metis live_def option.exhaust)
  next
    assume "live c e \<and> (\<exists>u. mSource c e = Some u \<and> visited u)"
    then show "live d e" unfolding live_d using succ by (metis option.inject)
  qed
  have ends: "mSource ?c e = mSource d e" "mTarget ?c e = mTarget d e" for e
    by (simp_all add: clearDisconnectedElements_def)
  have nodes: "set (mNodes ?c) = {l. \<exists>e. live d e \<and> (mSource c e = Some l \<or> mTarget c e = Some l)}"
    unfolding kept_nodes [OF d(2)] using ends_d by (intro Collect_cong ex_cong1) auto
  have reach: "(mEntry c, l) \<in> (edge_rel ?c)\<^sup>* \<longleftrightarrow> visited l" for l
  proof
    have "edge_rel ?c \<subseteq> edge_rel c" unfolding edge_rel_def live_clear ends using live ends_d by auto
    then show "(mEntry c, l) \<in> (edge_rel ?c)\<^sup>* \<Longrightarrow> visited l" unfolding vis by (meson rtrancl_mono subsetD)
    assume "visited l"
    then show "(mEntry c, l) \<in> (edge_rel ?c)\<^sup>*" unfolding vis
    proof (induction rule: rtrancl_induct)
      case (step u v)
      from step(2) obtain e where "live c e" "mSource c e = Some u" "mTarget c e = Some v" by (auto simp: edge_rel_def)
      then have "live d e" "mSource ?c e = Some u" "mTarget ?c e = Some v"
        using step(1) live [of e] ends ends_d [of e] by (simp_all add: vis)
      then have "(u, v) \<in> edge_rel ?c" by (intro edge_relI [of _ e]) simp_all
      with step(3) show ?case by (rule rtrancl_into_rtrancl)
    qed simp
  qed
  have left: "set (mNodes ?c) = (if mOutgoing c (mEntry c) = [] then {} else {l. visited l})"
  proof (cases "mOutgoing c (mEntry c) = []")
    case True
    then have "(mEntry c, v) \<notin> edge_rel c" for v
      using graph_okD(5) [OF ok(1), of "mEntry c"] by (auto simp: edge_rel_def)
    then have "visited l \<longleftrightarrow> l = mEntry c" for l unfolding vis by (auto elim: converse_rtranclE)
    then show ?thesis using True graph_okD(5) [OF ok(1), of "mEntry c"] by (auto simp: nodes live)
  next
    case False
    then obtain e where e: "live c e" "mSource c e = Some (mEntry c)"
      using graph_okD(5) [OF ok(1), of "mEntry c"] by (metis (mono_tags, lifting) mem_Collect_eq list.set_intros(1) neq_Nil_conv)
    have "\<exists>x. live d x \<and> (mSource c x = Some l \<or> mTarget c x = Some l)" if "visited l" for l
      using that [unfolded vis]
    proof (cases rule: rtranclE)
      case base
      then show ?thesis using e live that by metis
    next
      case (step m)
      then show ?thesis using live by (fastforce simp: edge_rel_def vis)
    qed
    then show ?thesis using False succ by (auto simp: nodes live)
  qed
  have rem: "removeUnreachableLocations visited c = Inr ?c" "graph.more ?c = graph.more c"
    using d(1,4) by (simp_all add: removeUnreachableLocations_def clearDisconnectedElements_def)
  moreover have "\<forall>e. live ?c e \<longrightarrow> mSource ?c e = mSource c e \<and> mTarget ?c e = mTarget c e"
    unfolding live_clear ends using ends_d by blast
  moreover have "\<forall>e. live ?c e \<longleftrightarrow> live c e \<and> (\<exists>u. mSource c e = Some u \<and> visited u)"
    unfolding live_clear live by blast
  moreover have "\<forall>l. (mEntry c, l) \<in> (edge_rel ?c)\<^sup>* \<longleftrightarrow> (mEntry c, l) \<in> (edge_rel c)\<^sup>*"
    unfolding reach vis by blast
  ultimately show ?thesis
    using clearDisconnectedElements_ok [OF d(2)] left
      more_cfa [OF rem(2)] by blast
qed

text \<open>The exit of the sample automaton is not reachable and disappears.\<close>

lemma sample_cfa_simps:
  "graph_ok sample_cfa" "mEntry sample_cfa = 3" "mExit sample_cfa = 4" "mNodes sample_cfa = [3, 4, 7]"
  "mOutgoing sample_cfa 3 = [0]" "live sample_cfa e \<longleftrightarrow> e = 0" "mSource sample_cfa 0 = Some 3" "mTarget sample_cfa 0 = Some 7"
  by (auto simp: sample_cfa_def createAssignTransition_def check_def isBoolType_def addTransition_def live_def graph_ok_def
        createEdge_def Cfa_new_def createErrorLocation_def createLocation_def createNode_def empty_cfa_def Let_def)

theorem removeUnreachable_spec_witness:
  "\<exists>c'. removeUnreachableLocations (\<lambda>l. l \<in> {3, 7}) sample_cfa = Inr c'
     \<and> graph_ok c' \<and> set (mNodes c') = {3, 7} \<and> live c' 0 \<and> mExit c' \<notin> set (mNodes c')"
proof -
  have rel: "edge_rel sample_cfa = {(3, 7)}" by (auto simp: edge_rel_def sample_cfa_simps)
  have "(3 :: nat, l) \<in> {(3, 7)}\<^sup>* \<longleftrightarrow> l = 3 \<or> l = 7" for l :: nat
    by (auto elim: rtranclE)
  then have "dfs_visits sample_cfa (\<lambda>l. l \<in> {3, 7})"
    by (simp add: dfs_visits_def rel sample_cfa_simps)
  from removeUnreachable_spec [OF _ _ this] obtain c' where c':
    "removeUnreachableLocations (\<lambda>l. l \<in> {3, 7}) sample_cfa = Inr c'" "graph_ok c'"
    "\<forall>e. live c' e \<longleftrightarrow> live sample_cfa e \<and> (\<exists>u. mSource sample_cfa e = Some u \<and> u \<in> {3, 7})"
    "set (mNodes c') = (if mOutgoing sample_cfa (mEntry sample_cfa) = [] then {} else {l. l \<in> {3, 7}})"
    "mExit c' = mExit sample_cfa"
    by (auto simp: sample_cfa_simps)
  then show ?thesis by (auto simp: sample_cfa_simps)
qed

section \<open>Automata systems\<close>

record automata_system =
  mAutomata :: "nat list"
  mCfa :: "nat \<Rightarrow> cfa"
  mMainAutomaton :: "nat option"

text \<open>The pointer to the main automaton is not initialised by the constructor; reading it before it is
  set is an error.\<close>

definition AutomataSystem_new :: automata_system where
  "AutomataSystem_new = \<lparr>mAutomata = [], mCfa = (\<lambda>_. empty_cfa ''''), mMainAutomaton = None\<rparr>"

definition createCfa :: "nat \<Rightarrow> string \<Rightarrow> nat \<Rightarrow> nat \<Rightarrow> automata_system \<Rightarrow> automata_system" where
  "createCfa p n entry exit s = s\<lparr>mAutomata := mAutomata s @ [p], mCfa := (mCfa s)(p := Cfa_new n entry exit)\<rparr>"

definition getAutomatonByName :: "automata_system \<Rightarrow> string \<Rightarrow> nat option" where
  "getAutomatonByName s n = find (\<lambda>p. mName (mCfa s p) = n) (mAutomata s)"

definition setMainAutomaton :: "nat \<Rightarrow> automata_system \<Rightarrow> automata_system res" where
  "setMainAutomaton p s = check (p \<in> set (mAutomata s)) AssertFail (Inr (s\<lparr>mMainAutomaton := Some p\<rparr>))"

definition getMainAutomaton :: "automata_system \<Rightarrow> nat res" where
  "getMainAutomaton s = (case mMainAutomaton s of None \<Rightarrow> Inl NullDeref | Some p \<Rightarrow> Inr p)"

text \<open>A lookup after a creation finds the new automaton exactly if the name was not taken.\<close>

lemma find_append: "find P (xs @ ys) = (case find P xs of None \<Rightarrow> find P ys | Some x \<Rightarrow> Some x)"
  by (induction xs) auto

lemma createCfa_lookup:
  assumes "p \<notin> set (mAutomata s)"
  shows "getAutomatonByName (createCfa p n entry exit s) m =
    (case getAutomatonByName s m of Some q \<Rightarrow> Some q | None \<Rightarrow> if m = n then Some p else None)"
proof -
  have "find (\<lambda>q. mName (((mCfa s)(p := Cfa_new n entry exit)) q) = m) (mAutomata s) = getAutomatonByName s m"
    unfolding getAutomatonByName_def using assms by (intro find_cong) auto
  then show ?thesis
    by (auto simp: getAutomatonByName_def createCfa_def find_append Cfa_new_def createLocation_def createNode_def
        empty_cfa_def Let_def split: option.split)
qed

lemma main_automaton_roundtrip:
  "setMainAutomaton p s = Inr s' \<Longrightarrow> getMainAutomaton s' = Inr p"
  by (auto simp: setMainAutomaton_def getMainAutomaton_def check_def split: if_splits)

end
