(* ===== verification/GazerInline.thy ===== *)
theory GazerInline
  imports GazerRewrite GazerCfa
begin

text \<open>
  Inlining of a call into the root automaton. \<open>BoundedModelCheckerImpl::inlineCallIntoRoot\<close> and
  \<open>RecursiveToCyclicTransformer::inlineCallIntoRoot\<close> clone the variables, locations and transitions of
  the called automaton with the same loops; this theory models the loops, the theories of the two
  clients compose them. \<open>alloc\<close> returns the address of a new object, given the addresses in use.

  The lemmas say what the loops add to the root: new locations, and transitions between the copies.
\<close>

record clone =
  cRoot :: cfa
  cTable :: variable_table
  oldVarToNew :: "variable \<rightharpoonup> variable"
  cRewrite :: rewrite_map
  cInlinedVars :: "variable \<rightharpoonup> variable"
  locToLocMap :: "nat \<rightharpoonup> nat"
  cInlinedLocs :: "nat \<rightharpoonup> nat"

definition cloned_local :: "string \<Rightarrow> variable \<Rightarrow> clone \<Rightarrow> (variable \<times> clone) res" where
  "cloned_local name v st = rbind (returned (createLocal name (var_type v) (cRoot st) (cTable st))) (\<lambda>(nv, root, tbl).
     Inr (nv, st\<lparr>cRoot := root, cTable := tbl, oldVarToNew := (oldVarToNew st)(v \<mapsto> nv),
                 cInlinedVars := (cInlinedVars st)(nv \<mapsto> v)\<rparr>))"

definition clone_local :: "cfa \<Rightarrow> string \<Rightarrow> variable \<Rightarrow> clone \<Rightarrow> clone res" where
  "clone_local callee sfx v st = (if isOutput callee v then Inr st
     else rbind (cloned_local (var_name v @ sfx) v st) (\<lambda>(nv, st').
       Inr (st'\<lparr>cRewrite := (cRewrite st')(v \<mapsto> VarRefExpr nv)\<rparr>)))"

definition clone_output :: "transition \<Rightarrow> variable \<Rightarrow> clone \<Rightarrow> clone res" where
  "clone_output call v st = (case getOutputArgument call v of None \<Rightarrow> Inl AssertFail
   | Some a \<Rightarrow> Inr (st\<lparr>oldVarToNew := (oldVarToNew st)(v \<mapsto> va_variable a),
       cInlinedVars := (cInlinedVars st)(va_variable a \<mapsto> v),
       cRewrite := (cRewrite st)(v \<mapsto> VarRefExpr (va_variable a))\<rparr>))"

definition clone_location :: "(nat list \<Rightarrow> nat) \<Rightarrow> cfa \<Rightarrow> nat \<Rightarrow> variable \<Rightarrow> nat \<Rightarrow> clone \<Rightarrow> clone res" where
  "clone_location alloc callee err errVar l st =
     (let n = alloc (mNodes (cRoot st)); root = createLocation n (cRoot st);
          st' = st\<lparr>cRoot := root, locToLocMap := (locToLocMap st)(l \<mapsto> n), cInlinedLocs := (cInlinedLocs st)(n \<mapsto> l)\<rparr>
      in if isError callee l then
           rbind (getErrorFieldExpr callee l) (\<lambda>x. rbind (VariableAssignment_Create errVar x) (\<lambda>a.
             rbind (createAssignTransition (alloc (mEdges root)) n err (Some True_lit) [a] root) (\<lambda>root'.
               Inr (st'\<lparr>cRoot := root'\<rparr>))))
         else Inr st')"

text \<open>The clone of a transition. A location without a copy gives a null pointer, which the constructor
  of the transition rejects; an assigned variable without a copy is dereferenced.\<close>

definition copy_of :: "clone \<Rightarrow> nat option \<Rightarrow> nat res" where
  "copy_of st l = (case l of None \<Rightarrow> Inl AssertFail
   | Some u \<Rightarrow> (case locToLocMap st u of None \<Rightarrow> Inl AssertFail | Some n \<Rightarrow> Inr n))"

definition clone_assignment :: "expr_builder \<Rightarrow> clone \<Rightarrow> variable_assignment \<Rightarrow> variable_assignment res" where
  "clone_assignment B st a = rbind (returned (rewrite B (cRewrite st) (va_value a))) (\<lambda>x.
     (case oldVarToNew st (va_variable a) of None \<Rightarrow> Inl NullDeref | Some v \<Rightarrow> VariableAssignment_Create v x))"

definition clone_argument :: "expr_builder \<Rightarrow> clone \<Rightarrow> variable_assignment \<Rightarrow> variable_assignment res" where
  "clone_argument B st a = rbind (returned (rewrite B (cRewrite st) (va_value a))) (VariableAssignment_Create (va_variable a))"

definition clone_result :: "clone \<Rightarrow> variable_assignment \<Rightarrow> variable_assignment res" where
  "clone_result st a = (case oldVarToNew st (va_variable a) of None \<Rightarrow> Inl AssertFail
   | Some v \<Rightarrow> VariableAssignment_Create v (va_value a))"

definition clone_assign_edge :: "(nat list \<Rightarrow> nat) \<Rightarrow> expr_builder \<Rightarrow> nat \<Rightarrow> nat \<Rightarrow> transition \<Rightarrow> clone \<Rightarrow> clone res" where
  "clone_assign_edge alloc B s t tr st = rbind (res_map (clone_assignment B st) (mAssignments tr)) (\<lambda>as.
     rbind (returned (rewrite B (cRewrite st) (mGuard tr))) (\<lambda>g.
     rbind (createAssignTransition (alloc (mEdges (cRoot st))) s t (Some g) as (cRoot st)) (\<lambda>root.
       Inr (st\<lparr>cRoot := root\<rparr>))))"

definition clone_call_edge :: "(nat list \<Rightarrow> nat) \<Rightarrow> expr_builder \<Rightarrow> automata_system \<Rightarrow> nat \<Rightarrow> nat \<Rightarrow> transition \<Rightarrow> clone \<Rightarrow> clone res" where
  "clone_call_edge alloc B sys s t tr st = rbind (res_map (clone_argument B st) (mInputArgs tr)) (\<lambda>ins.
     rbind (res_map (clone_result st) (mOutputArgs tr)) (\<lambda>outs.
     rbind (returned (rewrite B (cRewrite st) (mGuard tr))) (\<lambda>g.
     rbind (createCallTransition (alloc (mEdges (cRoot st))) s t g (mCallee tr) (mCfa sys (mCallee tr)) ins outs (cRoot st))
       (\<lambda>root. Inr (st\<lparr>cRoot := root\<rparr>)))))"

section \<open>The arcs of an automaton\<close>

text \<open>The connected transitions with their ends and labels, and what has been added to an automaton.\<close>

definition arcs :: "cfa \<Rightarrow> (nat \<times> nat \<times> nat \<times> transition) set" where
  "arcs c = {(e, s, t, tr). live c e \<and> mSource c e = Some s \<and> mTarget c e = Some t \<and> mTransition c e = tr}"

definition added :: "cfa \<Rightarrow> cfa \<Rightarrow> (nat \<times> nat \<times> transition) set \<Rightarrow> bool" where
  "added c c' X \<longleftrightarrow> arcs c \<subseteq> arcs c' \<and> snd ` (arcs c' - arcs c) = X"

lemma arcs_edges: "(e, x) \<in> arcs c \<Longrightarrow> e \<in> set (mEdges c)"
  by (auto simp: arcs_def live_def)

lemma arcs_addTransition:
  "e \<notin> set (mEdges c) \<Longrightarrow> arcs (addTransition e s t tr c) = insert (e, s, t, tr) (arcs c)"
  by (auto simp: arcs_def addTransition_def createEdge_def Let_def live_def split: if_splits)

lemma arcs_createLocation [simp]: "arcs (createLocation l c) = arcs c"
  by (auto simp: arcs_def createLocation_def Let_def live_def)

lemma added_refl: "added c c {}"
  by (simp add: added_def)

lemma added_arcs: "added c c1 X \<Longrightarrow> arcs c2 = arcs c1 \<Longrightarrow> added c c2 X"
  by (simp add: added_def)

lemma added_transition:
  assumes "added c c' X" and "e \<notin> set (mEdges c')"
  shows "added c (addTransition e s t tr c') (insert (s, t, tr) X)"
proof -
  have "(e, s, t, tr) \<notin> arcs c" using assms arcs_edges by (fastforce simp: added_def)
  then have "arcs (addTransition e s t tr c') - arcs c = insert (e, s, t, tr) (arcs c' - arcs c)"
    by (auto simp: arcs_addTransition [OF assms(2)])
  with assms show ?thesis by (auto simp: added_def arcs_addTransition)
qed

lemma arcs_disconnectEdge:
  assumes "graph_ok c" and "live c e" and "disconnectEdge e c = Inr c'"
  shows "arcs c' = {a \<in> arcs c. fst a \<noteq> e}"
proof -
  from disconnectEdge_closed [OF assms(1,2)] assms(3) have
    "\<forall>x. live c' x \<longleftrightarrow> live c x \<and> x \<noteq> e" "\<forall>x. x \<noteq> e \<longrightarrow> mSource c' x = mSource c x \<and> mTarget c' x = mTarget c x"
    by auto
  moreover have "mTransition c' = mTransition c"
    using assms(3) by (auto simp: disconnectEdge_def removeIncoming_def removeOutgoing_def Let_def split: option.splits)
  ultimately show ?thesis by (auto simp: arcs_def)
qed

lemma disconnectEdge_ok:
  assumes "cfa_ok c tbl" and "live c e"
  obtains c' where "disconnectEdge e c = Inr c'" "cfa_ok c' tbl" "mNodes c' = mNodes c" "mTmp c' = mTmp c" "mEntry c' = mEntry c" "mExit c' = mExit c"
    "arcs c' = {a \<in> arcs c. fst a \<noteq> e}"
proof -
  have g: "graph_ok c" using assms(1) by (simp add: cfa_ok_def)
  from disconnectEdge_closed [OF this assms(2)] obtain c' where c': "disconnectEdge e c = Inr c'" "graph_ok c'"
    "\<forall>x. live c' x \<longleftrightarrow> live c x \<and> x \<noteq> e" by blast
  have same: "mNodes c' = mNodes c" "graph.more c' = graph.more c"
    using c'(1) by (auto simp: disconnectEdge_def removeIncoming_def removeOutgoing_def Let_def split: option.splits)
  have "cfa_ok c' tbl"
    using assms(1) c'(2,3) same more_cfa [OF same(2)]
    by (auto simp: cfa_ok_def locations_ok_def errors_ok_def guards_ok_def variables_ok_def isError_def)
  with c'(1) same(1) arcs_disconnectEdge [OF g assms(2) c'(1)] more_cfa [OF same(2)] show thesis by (intro that) auto
qed

section \<open>The variables\<close>

text \<open>A new local variable changes neither the graph nor the tables of the locations.\<close>

definition same_graph :: "cfa \<Rightarrow> cfa \<Rightarrow> bool" where
  "same_graph c c' \<longleftrightarrow> (\<exists>tmp names locs. c' = c\<lparr>mTmp := tmp, mSymbolNames := names, mLocals := locs\<rparr>)"

lemma same_graph_refl: "same_graph c c"
  unfolding same_graph_def by (intro exI [of _ "mTmp c"] exI [of _ "mSymbolNames c"] exI [of _ "mLocals c"]) simp

lemma same_graph_trans: "same_graph c c1 \<Longrightarrow> same_graph c1 c2 \<Longrightarrow> same_graph c c2"
  unfolding same_graph_def by (elim exE, simp) (intro exI, rule refl)

lemma same_graph_arcs: "same_graph c c' \<Longrightarrow> arcs c' = arcs c"
  by (auto simp: same_graph_def arcs_def live_def)

definition table_room :: "nat \<Rightarrow> cfa \<Rightarrow> variable_table \<Rightarrow> bool" where
  "table_room k c tbl \<longleftrightarrow> cfa_ok c tbl \<and> mTmp c < 2 ^ 32 \<and> card (dom tbl) + k < 2 ^ 32"

lemma createLocal_total:
  assumes "table_room (Suc k) c tbl"
  obtains v c' tbl' where "createLocal n t c tbl = Some (Inr (v, c', tbl'))" "table_room k c' tbl'"
    "var_type v = t" "v \<notin> ran tbl" "v \<in> ran tbl'" "tbl \<subseteq>\<^sub>m tbl'" "same_graph c c'"
proof -
  have ok: "cfa_ok c tbl" "table_ok tbl" "mTmp c < 2 ^ 32" "card (dom tbl) + Suc k < 2 ^ 32"
    using assms by (auto simp: table_room_def cfa_ok_def variables_ok_def)
  have fin: "finite (dom tbl)" using ok(2) by (simp add: table_ok_def)
  obtain m j where f: "freshName tbl (mName c @ ''/'' @ n) (mTmp c) = Some (m, j)" "tbl m = None" "j < 2 ^ 32"
    using freshName_total [OF fin _ ok(3), of "mName c @ ''/'' @ n"] ok(4) by (auto simp: getVariable_def)
  define v where "v = Variable m t"
  define c1 where "c1 = c\<lparr>mTmp := j, mSymbolNames := (mSymbolNames c)(v \<mapsto> n)\<rparr>"
  define tbl' where "tbl' = tbl(m \<mapsto> v)"
  have mem: "createMemberVariable n t c tbl = Some (Inr (v, c1, tbl'))"
    using f by (simp add: createMemberVariable_def createVariable_def c1_def v_def tbl'_def)
  have "card (dom tbl') = Suc (card (dom tbl))"
    using f(2) fin by (simp add: tbl'_def card_insert_if domIff)
  then have "table_room k (c1\<lparr>mLocals := mLocals c1 @ [v]\<rparr>) tbl'"
    using new_variable_ok(2) [OF mem ok(1)] ok(4) f(3) by (simp add: table_room_def c1_def)
  moreover have "createLocal n t c tbl = Some (Inr (v, c1\<lparr>mLocals := mLocals c1 @ [v]\<rparr>, tbl'))"
    by (simp add: createLocal_def mem)
  moreover have "same_graph c (c1\<lparr>mLocals := mLocals c1 @ [v]\<rparr>)"
    unfolding same_graph_def c1_def by (intro exI) simp
  ultimately show thesis
    using createMemberVariable_Some [OF mem ok(2)] by (intro that) auto
qed

text \<open>The arguments of a call fit the variables of the called automaton.\<close>

abbreviation callee_vars :: "cfa \<Rightarrow> variable set" where
  "callee_vars callee \<equiv> set (mLocals callee) \<union> set (mInputs callee) \<union> set (mOutputs callee)"

definition arguments_ok :: "cfa \<Rightarrow> transition \<Rightarrow> bool" where
  "arguments_ok callee call \<longleftrightarrow> distinct (mInputs callee @ mLocals callee)
     \<and> (\<forall>v \<in> callee_vars callee. function_free (var_type v))
     \<and> (\<forall>v \<in> set (mInputs callee) - set (mOutputs callee).
          \<exists>a. getInputArgument call v = Some a \<and> well_typed (va_value a) \<and> getType (va_value a) = var_type v)
     \<and> (\<forall>v \<in> set (mOutputs callee). \<exists>a. getOutputArgument call v = Some a \<and> var_type (va_variable a) = var_type v)
     \<and> (\<forall>a \<in> set (mInputArgs call). va_variable a \<in> set (mInputs callee) \<and> getType (va_value a) = var_type (va_variable a))"

text \<open>The renaming and the rewrite map after the variables of \<open>D\<close> have been handled; an input that is not
  an output is replaced by the expression that is passed for it when the inliner is that of the
  bounded model checker, and by the new variable otherwise.\<close>

definition rewrite_of :: "(variable \<Rightarrow> expr option) \<Rightarrow> cfa \<Rightarrow> (variable \<rightharpoonup> variable) \<Rightarrow> variable set \<Rightarrow> rewrite_map" where
  "rewrite_of arg callee new D v =
     (if v \<in> D \<and> v \<in> set (mInputs callee) \<and> v \<notin> set (mOutputs callee) \<and> arg v \<noteq> None then arg v
      else map_option VarRefExpr (new v))"

definition renamed :: "(variable \<Rightarrow> expr option) \<Rightarrow> cfa \<Rightarrow> transition \<Rightarrow> clone \<Rightarrow> variable set \<Rightarrow> clone \<Rightarrow> bool" where
  "renamed arg callee call st0 D st \<longleftrightarrow>
     same_graph (cRoot st0) (cRoot st) \<and> cTable st0 \<subseteq>\<^sub>m cTable st \<and> locToLocMap st = locToLocMap st0
     \<and> cInlinedLocs st = cInlinedLocs st0 \<and> dom (oldVarToNew st) = D
     \<and> (\<forall>v w. oldVarToNew st v = Some w \<longrightarrow> var_type w = var_type v
          \<and> (if v \<in> set (mOutputs callee) then getOutputArgument call v \<noteq> None
                \<and> w = va_variable (the (getOutputArgument call v))
             else w \<in> ran (cTable st) \<and> w \<notin> ran (cTable st0)))
     \<and> inj_on (oldVarToNew st) (D - set (mOutputs callee))
     \<and> cRewrite st = rewrite_of arg callee (oldVarToNew st) D"

lemma renamed_start:
  "oldVarToNew st = Map.empty \<Longrightarrow> cRewrite st = Map.empty \<Longrightarrow> renamed arg callee call st {} st"
  by (auto simp: renamed_def same_graph_refl rewrite_of_def)

lemma cloned_local_total:
  assumes "table_room (Suc k) (cRoot st) (cTable st)" and "renamed arg callee call st0 D st"
    and "v \<notin> set (mOutputs callee)" and "v \<notin> D" and "x = (if v \<in> set (mInputs callee) then arg v else None)"
  obtains w st' where "cloned_local n v st = Inr (w, st')" "table_room k (cRoot st') (cTable st')"
    "renamed arg callee call st0 (insert v D)
       (st'\<lparr>cRewrite := (cRewrite st')(v \<mapsto> (case x of None \<Rightarrow> VarRefExpr w | Some y \<Rightarrow> y))\<rparr>)"
proof -
  obtain w c' tbl' where c: "createLocal n (var_type v) (cRoot st) (cTable st) = Some (Inr (w, c', tbl'))"
    and room: "table_room k c' tbl'" and w: "var_type w = var_type v" "w \<notin> ran (cTable st)" "w \<in> ran tbl'"
    and tbl: "cTable st \<subseteq>\<^sub>m tbl'" and same: "same_graph (cRoot st) c'"
    using createLocal_total [OF assms(1)] .
  let ?st = "st\<lparr>cRoot := c', cTable := tbl', oldVarToNew := (oldVarToNew st)(v \<mapsto> w), cInlinedVars := (cInlinedVars st)(w \<mapsto> v)\<rparr>"
  note r = assms(2) [unfolded renamed_def]
  have cl: "cloned_local n v st = Inr (w, ?st)" by (simp add: cloned_local_def returned_def c)
  have fresh: "w \<notin> ran (cTable st0)" "ran (cTable st) \<subseteq> ran tbl'"
    using w(2) r tbl ran_map_le by blast+
  have old: "oldVarToNew st u \<noteq> Some w" if "u \<in> D - set (mOutputs callee)" for u
    using r that w(2) by (metis DiffD2)
  have inj: "inj_on (oldVarToNew st) (D - set (mOutputs callee))" and D: "dom (oldVarToNew st) = D"
    using r by blast+
  have "inj_on (oldVarToNew ?st) (D - set (mOutputs callee))"
    using old by (simp, intro inj_on_fun_updI [OF inj]) (metis imageE)
  moreover have "oldVarToNew ?st ` (D - set (mOutputs callee)) = oldVarToNew st ` (D - set (mOutputs callee))"
    using assms(4) by (intro image_cong) auto
  then have "Some w \<notin> oldVarToNew ?st ` (D - set (mOutputs callee))" using old by (metis imageE)
  ultimately have "inj_on (oldVarToNew ?st) (insert v D - set (mOutputs callee))"
    using assms(3,4) by (simp add: insert_Diff_if)
  moreover have "cTable st0 \<subseteq>\<^sub>m tbl'" using r tbl map_le_trans by blast
  moreover have "same_graph (cRoot st0) c'" using r same same_graph_trans by blast
  moreover have "(cRewrite st)(v \<mapsto> (case x of None \<Rightarrow> VarRefExpr w | Some y \<Rightarrow> y)) =
      rewrite_of arg callee ((oldVarToNew st)(v \<mapsto> w)) (insert v D)"
    using r assms(3,4,5) by (auto simp: fun_eq_iff rewrite_of_def split: option.splits)
  ultimately have "renamed arg callee call st0 (insert v D)
       (?st\<lparr>cRewrite := (cRewrite ?st)(v \<mapsto> (case x of None \<Rightarrow> VarRefExpr w | Some y \<Rightarrow> y))\<rparr>)"
    unfolding renamed_def using r w(1,3) fresh assms(3) by (auto split: if_splits)
  with cl room show thesis by (intro that) auto
qed

lemma clone_local_total:
  assumes "table_room (Suc k) (cRoot st) (cTable st)" and "renamed arg callee call st0 D st"
    and "v \<notin> set (mInputs callee)" and "v \<notin> D"
  shows "\<exists>st'. clone_local callee sfx v st = Inr st' \<and> table_room k (cRoot st') (cTable st')
    \<and> renamed arg callee call st0 (if v \<in> set (mOutputs callee) then D else insert v D) st'"
proof (cases "v \<in> set (mOutputs callee)")
  case True
  with assms show ?thesis by (auto simp: clone_local_def isOutput_def table_room_def)
next
  case False
  from assms(3) have "None = (if v \<in> set (mInputs callee) then arg v else None)" by simp
  from cloned_local_total [OF assms(1,2) False assms(4) this, where n = "var_name v @ sfx"]
  obtain w st' where "cloned_local (var_name v @ sfx) v st = Inr (w, st')" "table_room k (cRoot st') (cTable st')"
    "renamed arg callee call st0 (insert v D) (st'\<lparr>cRewrite := (cRewrite st')(v \<mapsto> VarRefExpr w)\<rparr>)"
    by (simp only: option.case) blast
  with False show ?thesis by (simp add: clone_local_def isOutput_def)
qed

lemma clone_output_total:
  assumes "table_room k (cRoot st) (cTable st)" and "renamed arg callee call st0 D st" and "arguments_ok callee call"
    and "v \<in> set (mOutputs callee)"
  shows "\<exists>st'. clone_output call v st = Inr st' \<and> table_room k (cRoot st') (cTable st')
    \<and> renamed arg callee call st0 (insert v D) st'"
proof -
  obtain a where a: "getOutputArgument call v = Some a" "var_type (va_variable a) = var_type v"
    using assms(3,4) unfolding arguments_ok_def by blast
  note r = assms(2) [unfolded renamed_def]
  let ?st = "st\<lparr>oldVarToNew := (oldVarToNew st)(v \<mapsto> va_variable a),
       cInlinedVars := (cInlinedVars st)(va_variable a \<mapsto> v), cRewrite := (cRewrite st)(v \<mapsto> VarRefExpr (va_variable a))\<rparr>"
  have "inj_on (oldVarToNew st) (D - set (mOutputs callee))" using r by blast
  moreover have "inj_on (oldVarToNew ?st) (D - set (mOutputs callee)) = inj_on (oldVarToNew st) (D - set (mOutputs callee))"
    using assms(4) by (intro inj_on_cong) auto
  moreover have "insert v D - set (mOutputs callee) = D - set (mOutputs callee)" using assms(4) by auto
  ultimately have "inj_on (oldVarToNew ?st) (insert v D - set (mOutputs callee))" by simp
  then have "renamed arg callee call st0 (insert v D) ?st"
    unfolding renamed_def using r a assms(4) by (auto simp: fun_eq_iff rewrite_of_def)
  then show ?thesis using a assms(1) by (auto simp: clone_output_def)
qed

text \<open>The loop over the local variables, and the one over the outputs.\<close>

lemma clone_locals_total:
  assumes "table_room (length vs + k) (cRoot st) (cTable st)" and "renamed arg callee call st0 D st"
    and "distinct vs" and "set vs \<inter> D = {}" and "set vs \<inter> set (mInputs callee) = {}"
  shows "\<exists>st'. for_each (clone_local callee sfx) vs st = Inr st' \<and> table_room k (cRoot st') (cTable st')
    \<and> renamed arg callee call st0 (D \<union> (set vs - set (mOutputs callee))) st'"
  using assms
proof (induction vs arbitrary: st D)
  case (Cons v vs)
  from Cons.prems have room: "table_room (Suc (length vs + k)) (cRoot st) (cTable st)" by simp
  from Cons.prems have v: "v \<notin> set (mInputs callee)" "v \<notin> D" by auto
  from clone_local_total [OF room Cons.prems(2) v] obtain st' where st': "clone_local callee sfx v st = Inr st'"
    "table_room (length vs + k) (cRoot st') (cTable st')"
    "renamed arg callee call st0 (if v \<in> set (mOutputs callee) then D else insert v D) st'" by blast
  have D: "(if v \<in> set (mOutputs callee) then D else insert v D) \<union> (set vs - set (mOutputs callee)) =
      D \<union> (set (v # vs) - set (mOutputs callee))" by auto
  have "distinct vs" "set vs \<inter> set (mInputs callee) = {}"
    "set vs \<inter> (if v \<in> set (mOutputs callee) then D else insert v D) = {}" using Cons.prems by auto
  from Cons.IH [OF st'(2,3) this(1,3,2)] show ?case unfolding D using st'(1) by simp
qed simp

lemma clone_outputs_total:
  assumes "table_room k (cRoot st) (cTable st)" and "renamed arg callee call st0 D st" and "arguments_ok callee call"
    and "set vs \<subseteq> set (mOutputs callee)"
  shows "\<exists>st'. for_each (clone_output call) vs st = Inr st' \<and> table_room k (cRoot st') (cTable st')
    \<and> renamed arg callee call st0 (D \<union> set vs) st'"
  using assms
proof (induction vs arbitrary: st D)
  case (Cons v vs)
  from Cons.prems have v: "v \<in> set (mOutputs callee)" by auto
  from clone_output_total [OF Cons.prems(1,2,3) v] obtain st' where st': "clone_output call v st = Inr st'"
    "table_room k (cRoot st') (cTable st')" "renamed arg callee call st0 (insert v D) st'" by blast
  have "set vs \<subseteq> set (mOutputs callee)" using Cons.prems(4) by auto
  from Cons.IH [OF st'(2,3) Cons.prems(3) this] show ?case using st'(1) by (simp add: Un_insert_left Un_insert_right)
qed simp

text \<open>The renaming is well typed.\<close>

lemma renamed_typed:
  assumes "renamed arg callee call st0 D st" and "arguments_ok callee call" and "D \<subseteq> callee_vars callee"
    and "\<And>v x. v \<in> set (mInputs callee) - set (mOutputs callee) \<Longrightarrow> arg v = Some x \<Longrightarrow> well_typed x \<and> getType x = var_type v"
  shows "typed_map (cRewrite st)"
proof -
  have ref: "well_typed (VarRefExpr w) \<and> getType (VarRefExpr w) = var_type v" if "oldVarToNew st v = Some w" for v w
  proof -
    have "v \<in> callee_vars callee" "var_type w = var_type v" using assms(1,3) that by (auto simp: renamed_def)
    then show ?thesis using assms(2) by (auto simp: arguments_ok_def intro!: wt_var)
  qed
  have "(v \<in> set (mInputs callee) - set (mOutputs callee) \<and> arg v = Some x) \<or> (\<exists>w. oldVarToNew st v = Some w \<and> x = VarRefExpr w)"
    if "cRewrite st v = Some x" for v x
    using assms(1) that by (auto simp: renamed_def rewrite_of_def split: if_splits)
  then show ?thesis using ref assms(4) unfolding typed_map_def by blast
qed

section \<open>The locations\<close>

definition fresh_alloc :: "(nat list \<Rightarrow> nat) \<Rightarrow> bool" where
  "fresh_alloc alloc \<longleftrightarrow> (\<forall>xs. alloc xs \<notin> set xs)"

text \<open>An allocator that returns an address above all those in use.\<close>

definition next_address :: "nat list \<Rightarrow> nat" where
  "next_address xs = Suc (foldr max xs 0)"

lemma next_address_fresh: "fresh_alloc next_address"
proof -
  have "x \<le> foldr max xs 0" if "x \<in> set xs" for x :: nat and xs
    using that by (induction xs) (auto simp: max_def)
  then show ?thesis by (fastforce simp: fresh_alloc_def next_address_def)
qed

definition errors_coded :: "cfa \<Rightarrow> variable \<Rightarrow> bool" where
  "errors_coded callee errVar \<longleftrightarrow> (\<forall>l \<in> set (mNodes callee). isError callee l \<longrightarrow>
     (\<exists>x. mErrorFieldExprs callee l = Some x \<and> getType x = var_type errVar))"

definition loc_copy :: "clone \<Rightarrow> nat \<Rightarrow> nat" where
  "loc_copy st l = the (locToLocMap st l)"

definition error_arcs :: "cfa \<Rightarrow> nat \<Rightarrow> variable \<Rightarrow> (nat \<Rightarrow> nat) \<Rightarrow> nat list \<Rightarrow> (nat \<times> nat \<times> transition) set" where
  "error_arcs callee err errVar \<phi> ls =
     {(\<phi> l, err, AssignTransition True_lit [VarAssign errVar x]) |l x.
        l \<in> set ls \<and> isError callee l \<and> mErrorFieldExprs callee l = Some x}"

text \<open>The state after the locations \<open>ls\<close> have been copied.\<close>

definition located :: "cfa \<Rightarrow> nat \<Rightarrow> variable \<Rightarrow> clone \<Rightarrow> nat list \<Rightarrow> clone \<Rightarrow> bool" where
  "located callee err errVar st0 ls st \<longleftrightarrow> cfa_ok (cRoot st) (cTable st) \<and> cTable st = cTable st0
     \<and> oldVarToNew st = oldVarToNew st0 \<and> cRewrite st = cRewrite st0 \<and> dom (locToLocMap st) = set ls
     \<and> mNodes (cRoot st) = mNodes (cRoot st0) @ map (loc_copy st) ls
     \<and> mLocationIdx (cRoot st) = mLocationIdx (cRoot st0) + length ls
     \<and> mEntry (cRoot st) = mEntry (cRoot st0) \<and> mExit (cRoot st) = mExit (cRoot st0) \<and> mTmp (cRoot st) = mTmp (cRoot st0)
     \<and> added (cRoot st0) (cRoot st) (error_arcs callee err errVar (loc_copy st) ls)"

lemma createAssign_Inr [simp]:
  "getType g = BoolType \<Longrightarrow> createAssignTransition e s t (Some g) as c = Inr (addTransition e s t (AssignTransition g as) c)"
  by (simp add: createAssignTransition_def)

lemma addTransition_simps [simp]:
  "mNodes (addTransition e s t tr c) = mNodes c" "mEntry (addTransition e s t tr c) = mEntry c"
  "mExit (addTransition e s t tr c) = mExit c" "mLocationIdx (addTransition e s t tr c) = mLocationIdx c"
  "mEdges (addTransition e s t tr c) = mEdges c @ [e]" "mTmp (addTransition e s t tr c) = mTmp c"
  by (simp_all add: addTransition_def createEdge_def Let_def)

lemma createLocation_simps [simp]:
  "mNodes (createLocation l c) = mNodes c @ [l]" "mEntry (createLocation l c) = mEntry c"
  "mExit (createLocation l c) = mExit c" "mEdges (createLocation l c) = mEdges c"
  "mLocationIdx (createLocation l c) = u32 (Suc (mLocationIdx c))" "mTmp (createLocation l c) = mTmp c"
  by (simp_all add: createLocation_def Let_def)

lemma error_arcs_cong: "(\<And>l. l \<in> set ls \<Longrightarrow> \<phi> l = \<phi>' l) \<Longrightarrow> error_arcs callee err errVar \<phi> ls = error_arcs callee err errVar \<phi>' ls"
  unfolding error_arcs_def by (intro Collect_cong) metis

lemma error_arcs_append: "error_arcs callee err errVar \<phi> (ls @ [l]) = error_arcs callee err errVar \<phi> ls \<union>
    (if isError callee l then (\<lambda>x. (\<phi> l, err, AssignTransition True_lit [VarAssign errVar x])) ` set_option (mErrorFieldExprs callee l) else {})"
  by (auto simp: error_arcs_def)

lemma clone_location_total:
  assumes "located callee err errVar st0 ls st" and "errors_coded callee errVar" and "fresh_alloc alloc"
    and "err \<in> set (mNodes (cRoot st0))" and "l \<in> set (mNodes callee)" "l \<notin> set ls"
    and "Suc (mLocationIdx (cRoot st)) < 2 ^ 32"
  shows "\<exists>st'. clone_location alloc callee err errVar l st = Inr st' \<and> located callee err errVar st0 (ls @ [l]) st'"
proof -
  note r = assms(1) [unfolded located_def]
  define n where "n = alloc (mNodes (cRoot st))"
  define root where "root = createLocation n (cRoot st)"
  define st1 where "st1 = st\<lparr>cRoot := root, locToLocMap := (locToLocMap st)(l \<mapsto> n), cInlinedLocs := (cInlinedLocs st)(n \<mapsto> l)\<rparr>"
  have n: "n \<notin> set (mNodes (cRoot st))" and e: "alloc (mEdges root) \<notin> set (mEdges root)"
    using assms(3) by (auto simp: fresh_alloc_def n_def)
  have root: "cfa_ok root (cTable st)" unfolding root_def using r n assms(7) by (intro createLocation_ok(1)) auto
  have copies: "map (loc_copy st1) ls = map (loc_copy st) ls" "loc_copy st1 l = n"
    using assms(6) by (auto simp: loc_copy_def st1_def)
  have arcs: "error_arcs callee err errVar (loc_copy st1) ls = error_arcs callee err errVar (loc_copy st) ls"
    using assms(6) by (intro error_arcs_cong) (auto simp: loc_copy_def st1_def)
  have add: "added (cRoot st0) root (error_arcs callee err errVar (loc_copy st) ls)"
    using r unfolding root_def by (auto intro: added_arcs)
  have base: "located callee err errVar st0 (ls @ [l]) (st1\<lparr>cRoot := root'\<rparr>)"
    if "cfa_ok root' (cTable st)" "mNodes root' = mNodes root" "mLocationIdx root' = mLocationIdx root"
      "mEntry root' = mEntry root" "mExit root' = mExit root" "mTmp root' = mTmp root"
      "added (cRoot st0) root' (error_arcs callee err errVar (loc_copy st1) (ls @ [l]))" for root'
  proof -
    have "loc_copy (st1\<lparr>cRoot := root'\<rparr>) = loc_copy st1" by (simp add: loc_copy_def fun_eq_iff)
    then show ?thesis
      using r that copies assms(7) unfolding located_def by (simp add: st1_def root_def u32_def)
  qed
  show ?thesis
  proof (cases "isError callee l")
    case True
    then obtain x where x: "mErrorFieldExprs callee l = Some x" "getType x = var_type errVar"
      using assms(2,5) by (auto simp: errors_coded_def)
    let ?root = "addTransition (alloc (mEdges root)) n err (AssignTransition True_lit [VarAssign errVar x]) root"
    have "cfa_ok ?root (cTable st)"
      using root e assms(4) r by (intro addTransition_ok) (auto simp: root_def)
    moreover have "added (cRoot st0) ?root (error_arcs callee err errVar (loc_copy st1) (ls @ [l]))"
      unfolding error_arcs_append using True x(1) arcs copies(2) added_transition [OF add e] by simp
    moreover have "clone_location alloc callee err errVar l st = Inr (st1\<lparr>cRoot := ?root\<rparr>)"
      using True x by (simp add: clone_location_def Let_def getErrorFieldExpr_def VariableAssignment_Create_def
          n_def root_def st1_def)
    ultimately show ?thesis using base [of ?root] by auto
  next
    case False
    have "clone_location alloc callee err errVar l st = Inr (st1\<lparr>cRoot := root\<rparr>)"
      using False by (simp add: clone_location_def Let_def n_def root_def st1_def)
    then show ?thesis using base [of root] root add False by (auto simp: error_arcs_append arcs)
  qed
qed

lemma clone_locations_total:
  assumes "located callee err errVar st0 ls st" and "errors_coded callee errVar" and "fresh_alloc alloc"
    and "err \<in> set (mNodes (cRoot st0))" and "set ms \<subseteq> set (mNodes callee)" "distinct (ls @ ms)"
    and "mLocationIdx (cRoot st) + length ms < 2 ^ 32"
  shows "\<exists>st'. for_each (clone_location alloc callee err errVar) ms st = Inr st' \<and> located callee err errVar st0 (ls @ ms) st'"
  using assms
proof (induction ms arbitrary: st ls)
  case (Cons l ms)
  have "l \<in> set (mNodes callee)" "l \<notin> set ls" "Suc (mLocationIdx (cRoot st)) < 2 ^ 32" using Cons.prems by auto
  from clone_location_total [OF Cons.prems(1-4) this] obtain st' where
    st': "clone_location alloc callee err errVar l st = Inr st'" "located callee err errVar st0 (ls @ [l]) st'" by blast
  have "set ms \<subseteq> set (mNodes callee)" "distinct ((ls @ [l]) @ ms)" "mLocationIdx (cRoot st') + length ms < 2 ^ 32"
    using Cons.prems(1,5-7) st'(2) by (auto simp: located_def)
  from Cons.IH [OF st'(2) Cons.prems(2-4) this] show ?case using st'(1) by simp
qed simp

section \<open>The transitions\<close>

text \<open>The label of a copied transition, for a rewriting of the expressions and a renaming of the assigned
  variables; the variables on the right of the result assignments belong to the called automaton
  and stay.\<close>

definition image_transition :: "(expr \<Rightarrow> expr) \<Rightarrow> (variable \<Rightarrow> variable) \<Rightarrow> transition \<Rightarrow> transition" where
  "image_transition f \<nu> tr = (case tr of
     AssignTransition g as \<Rightarrow> AssignTransition (f g) (map (\<lambda>a. VarAssign (\<nu> (va_variable a)) (f (va_value a))) as)
   | CallTransition g callee ins outs \<Rightarrow> CallTransition (f g) callee
       (map (\<lambda>a. VarAssign (va_variable a) (f (va_value a))) ins)
       (map (\<lambda>a. VarAssign (\<nu> (va_variable a)) (va_value a)) outs))"

definition expr_ok :: "expr \<Rightarrow> bool" where
  "expr_ok x \<longleftrightarrow> well_typed x \<and> rewritable x"

definition transition_ok :: "automata_system \<Rightarrow> variable set \<Rightarrow> transition \<Rightarrow> bool" where
  "transition_ok sys D tr \<longleftrightarrow> expr_ok (mGuard tr) \<and> getType (mGuard tr) = BoolType \<and> (case tr of
     AssignTransition g as \<Rightarrow>
       (\<forall>a \<in> set as. va_variable a \<in> D \<and> expr_ok (va_value a) \<and> getType (va_value a) = var_type (va_variable a))
   | CallTransition g callee ins outs \<Rightarrow>
       (\<forall>a \<in> set ins. expr_ok (va_value a) \<and> getType (va_value a) = var_type (va_variable a))
       \<and> (\<forall>a \<in> set outs. va_variable a \<in> D \<and> getType (va_value a) = var_type (va_variable a))
       \<and> length (mInputs (mCfa sys callee)) = length ins \<and> length (mOutputs (mCfa sys callee)) = length outs)"

definition renaming_typed :: "clone \<Rightarrow> bool" where
  "renaming_typed cl \<longleftrightarrow> typed_map (cRewrite cl) \<and> (\<forall>v w. oldVarToNew cl v = Some w \<longrightarrow> var_type w = var_type v)"

abbreviation var_copy :: "clone \<Rightarrow> variable \<Rightarrow> variable" where
  "var_copy cl v \<equiv> the (oldVarToNew cl v)"

lemma res_map_Inr: "(\<And>x. x \<in> set xs \<Longrightarrow> f x = Inr (g x)) \<Longrightarrow> res_map f xs = Inr (map g xs)"
  by (induction xs) auto

context rewriter
begin

lemma clone_guard:
  assumes "transition_ok sys D tr" and "renaming_typed cl"
  shows "returned (rewrite B (cRewrite cl) (mGuard tr)) = Inr (image (cRewrite cl) (mGuard tr))"
    "getType (image (cRewrite cl) (mGuard tr)) = BoolType"
  using assms by (auto simp: transition_ok_def renaming_typed_def expr_ok_def rewrite_image image_type)

lemma clone_assignment_total:
  assumes "renaming_typed cl" and "va_variable a \<in> dom (oldVarToNew cl)" and "expr_ok (va_value a)"
    and "getType (va_value a) = var_type (va_variable a)"
  shows "clone_assignment B cl a = Inr (VarAssign (var_copy cl (va_variable a)) (image (cRewrite cl) (va_value a)))"
  using assms by (auto simp: clone_assignment_def VariableAssignment_Create_def renaming_typed_def expr_ok_def
      rewrite_image image_type check_def)

lemma clone_argument_total:
  assumes "renaming_typed cl" and "expr_ok (va_value a)" and "getType (va_value a) = var_type (va_variable a)"
  shows "clone_argument B cl a = Inr (VarAssign (va_variable a) (image (cRewrite cl) (va_value a)))"
  using assms by (auto simp: clone_argument_def VariableAssignment_Create_def renaming_typed_def expr_ok_def
      rewrite_image image_type check_def)

lemma clone_assign_edge_total:
  assumes "transition_ok sys (dom (oldVarToNew cl)) tr" and "isAssign tr" and "renaming_typed cl"
  shows "clone_assign_edge alloc B s t tr cl = Inr (cl\<lparr>cRoot := addTransition (alloc (mEdges (cRoot cl))) s t
      (image_transition (image (cRewrite cl)) (var_copy cl) tr) (cRoot cl)\<rparr>)"
proof -
  obtain g as where tr: "tr = AssignTransition g as" using assms(2) by (cases tr) (auto simp: isAssign_def)
  have "res_map (clone_assignment B cl) as =
      Inr (map (\<lambda>a. VarAssign (var_copy cl (va_variable a)) (image (cRewrite cl) (va_value a))) as)"
    using assms(1) unfolding tr transition_ok_def
    by (intro res_map_Inr clone_assignment_total [OF assms(3)]) auto
  then show ?thesis
    using clone_guard [OF assms(1,3)] by (simp add: clone_assign_edge_def tr image_transition_def)
qed

lemma clone_call_edge_total:
  assumes "transition_ok sys (dom (oldVarToNew cl)) tr" and "\<not> isAssign tr" and "renaming_typed cl"
  shows "clone_call_edge alloc B sys s t tr cl = Inr (cl\<lparr>cRoot := addTransition (alloc (mEdges (cRoot cl))) s t
      (image_transition (image (cRewrite cl)) (var_copy cl) tr) (cRoot cl)\<rparr>)"
proof -
  obtain g c ins outs where tr: "tr = CallTransition g c ins outs" using assms(2) by (cases tr) (auto simp: isAssign_def)
  have "res_map (clone_argument B cl) ins = Inr (map (\<lambda>a. VarAssign (va_variable a) (image (cRewrite cl) (va_value a))) ins)"
    using assms(1) unfolding tr transition_ok_def by (intro res_map_Inr clone_argument_total [OF assms(3)]) auto
  moreover have "res_map (clone_result cl) outs = Inr (map (\<lambda>a. VarAssign (var_copy cl (va_variable a)) (va_value a)) outs)"
    using assms(1,3) unfolding tr transition_ok_def renaming_typed_def
    by (intro res_map_Inr) (auto simp: clone_result_def VariableAssignment_Create_def check_def)
  ultimately show ?thesis
    using clone_guard [OF assms(1,3)] assms(1)
    by (simp add: clone_call_edge_def tr image_transition_def createCallTransition_def transition_ok_def)
qed

end

text \<open>The state after the locations have been copied and the arcs \<open>X\<close> have been added to the root.\<close>

definition linked :: "cfa \<Rightarrow> clone \<Rightarrow> (nat \<times> nat \<times> transition) set \<Rightarrow> clone \<Rightarrow> bool" where
  "linked root st X cl \<longleftrightarrow> cl = st\<lparr>cRoot := cRoot cl\<rparr> \<and> cfa_ok (cRoot cl) (cTable st)
     \<and> mNodes (cRoot cl) = mNodes (cRoot st) \<and> mEntry (cRoot cl) = mEntry (cRoot st) \<and> mExit (cRoot cl) = mExit (cRoot st)
     \<and> mTmp (cRoot cl) = mTmp (cRoot st)
     \<and> added root (cRoot cl) X"

lemma linked_add:
  assumes "linked root st X cl" and "fresh_alloc alloc" and "s \<in> set (mNodes (cRoot st))" "t \<in> set (mNodes (cRoot st))"
    and "getType (mGuard tr) = BoolType"
  shows "linked root st (insert (s, t, tr) X) (cl\<lparr>cRoot := addTransition (alloc (mEdges (cRoot cl))) s t tr (cRoot cl)\<rparr>)"
proof -
  note r = assms(1) [unfolded linked_def]
  have e: "alloc (mEdges (cRoot cl)) \<notin> set (mEdges (cRoot cl))" using assms(2) by (simp add: fresh_alloc_def)
  have "cfa_ok (addTransition (alloc (mEdges (cRoot cl))) s t tr (cRoot cl)) (cTable st)"
    using r e assms(3-5) by (intro addTransition_ok) auto
  moreover have "cl\<lparr>cRoot := c\<rparr> = st\<lparr>cRoot := c\<rparr>" for c
    using r by (metis clone.update_convs(1) clone.surjective)
  ultimately show ?thesis
    using r added_transition [OF _ e] unfolding linked_def by auto
qed

lemma linked_fields:
  assumes "linked root st X cl"
  shows "cTable cl = cTable st" "oldVarToNew cl = oldVarToNew st" "cRewrite cl = cRewrite st" "locToLocMap cl = locToLocMap st"
    "loc_copy cl = loc_copy st" "renaming_typed cl = renaming_typed st"
proof -
  have "cl = st\<lparr>cRoot := cRoot cl\<rparr>" using assms by (simp add: linked_def)
  then show 1: "cTable cl = cTable st" "oldVarToNew cl = oldVarToNew st" "cRewrite cl = cRewrite st" "locToLocMap cl = locToLocMap st"
    by (metis clone.simps(11,12,13,15) clone.ext_inject clone.surjective clone.update_convs(1))+
  show "loc_copy cl = loc_copy st" "renaming_typed cl = renaming_typed st"
    by (simp_all only: loc_copy_def [abs_def] renaming_typed_def 1)
qed

lemma image_transition_simps [simp]:
  "mGuard (image_transition f \<nu> tr) = f (mGuard tr)" "isAssign (image_transition f \<nu> tr) = isAssign tr"
  "isCall (image_transition f \<nu> tr) = isCall tr" "isCall tr \<Longrightarrow> mCallee (image_transition f \<nu> tr) = mCallee tr"
  by (auto simp: image_transition_def isAssign_def isCall_def split: transition.splits)

text \<open>A called automaton that can be copied: it is consistent, no transition has been disconnected, its
  expressions are well typed and every error location has a code.\<close>

definition callee_ok :: "automata_system \<Rightarrow> variable \<Rightarrow> cfa \<Rightarrow> bool" where
  "callee_ok sys errVar callee \<longleftrightarrow> graph_ok callee \<and> mEntry callee \<in> set (mNodes callee) \<and> mExit callee \<in> set (mNodes callee)
     \<and> errors_coded callee errVar
     \<and> (\<forall>e \<in> set (mEdges callee). live callee e \<and> transition_ok sys (callee_vars callee) (mTransition callee e))"

definition copied_arc :: "cfa \<Rightarrow> (nat \<Rightarrow> nat) \<Rightarrow> (transition \<Rightarrow> transition) \<Rightarrow> nat \<Rightarrow> nat \<times> nat \<times> transition" where
  "copied_arc callee \<phi> T e = (\<phi> (the (mSource callee e)), \<phi> (the (mTarget callee e)), T (mTransition callee e))"

lemma copy_of_total: "l \<in> dom (locToLocMap st) \<Longrightarrow> copy_of st (Some l) = Inr (loc_copy st l)"
  by (auto simp: copy_of_def loc_copy_def)

section \<open>The edges\<close>

text \<open>An automaton grows: its edges are kept, with their labels, and an edge that has been disconnected stays
  so. Nothing is required of the automata.\<close>

definition grows :: "cfa \<Rightarrow> cfa \<Rightarrow> bool" where
  "grows c c' \<longleftrightarrow> set (mEdges c) \<subseteq> set (mEdges c') \<and> (\<forall>e \<in> set (mEdges c). mTransition c' e = mTransition c e)
     \<and> (\<forall>e \<in> set (mEdges c). mSource c e = None \<longrightarrow> mSource c' e = None)"

lemma grows_refl: "grows c c"
  by (simp add: grows_def)

lemma grows_trans: "grows a b \<Longrightarrow> grows b c \<Longrightarrow> grows a c"
  by (auto simp: grows_def)

lemma grows_same: "mEdges c' = mEdges c \<Longrightarrow> mTransition c' = mTransition c \<Longrightarrow> mSource c' = mSource c \<Longrightarrow> grows c c'"
  by (simp add: grows_def)

lemma grows_add: "e \<notin> set (mEdges c) \<Longrightarrow> grows c (addTransition e s t tr c)"
  by (auto simp: grows_def addTransition_def createEdge_def Let_def)

lemma edges_add: "mEdges (addTransition e s t tr c) = mEdges c @ [e]" "mTransition (addTransition e s t tr c) e = tr"
  by (simp_all add: addTransition_def createEdge_def Let_def)

lemma createAssign_grows:
  "fresh_alloc alloc \<Longrightarrow> createAssignTransition (alloc (mEdges c)) s t g as c = Inr c' \<Longrightarrow> grows c c'"
  by (auto simp: createAssignTransition_def Let_def check_eq_Inr fresh_alloc_def intro!: grows_add)

lemma createLocal_edges:
  "createLocal n t c tbl = Some (Inr (v, c', tbl')) \<Longrightarrow> grows c c'"
  by (auto simp: createLocal_def createMemberVariable_def rbind_eq_Inr Let_def intro!: grows_same split: prod.splits)

lemma cloned_local_grows: "cloned_local n v st = Inr (nv, st') \<Longrightarrow> grows (cRoot st) (cRoot st')"
  by (auto simp: cloned_local_def rbind_eq_Inr returned_Inr dest: createLocal_edges)

lemma clone_variable_grows:
  "clone_local callee sfx v st = Inr st' \<Longrightarrow> grows (cRoot st) (cRoot st')"
  "clone_output tr v st = Inr st' \<Longrightarrow> grows (cRoot st) (cRoot st')"
  by (auto simp: clone_local_def clone_output_def rbind_eq_Inr grows_refl
      dest!: cloned_local_grows split: if_splits option.splits)

lemma clone_location_grows:
  assumes "fresh_alloc alloc" and "clone_location alloc callee err v l st = Inr st'"
  shows "grows (cRoot st) (cRoot st')"
proof -
  let ?root = "createLocation (alloc (mNodes (cRoot st))) (cRoot st)"
  have "grows (cRoot st) ?root" by (rule grows_same) (simp_all add: createLocation_def createNode_def Let_def)
  moreover have "grows ?root (cRoot st')"
    using assms by (auto simp: clone_location_def Let_def rbind_eq_Inr grows_refl fresh_alloc_def
        intro!: grows_add split: if_splits)
  ultimately show ?thesis by (rule grows_trans)
qed

lemma for_each_grows:
  assumes "for_each f xs st = Inr st'" and "\<And>x st st'. f x st = Inr st' \<Longrightarrow> grows (r st) (r st')"
  shows "grows (r st) (r st')"
  using for_each_rule [where P = "\<lambda>_ s. grows (r st) (r s)", OF assms(1) grows_refl] assms(2) grows_trans by blast

lemma disconnectEdge_grows: "disconnectEdge e (c :: cfa) = Inr c' \<Longrightarrow> grows c c'"
  by (auto simp: disconnectEdge_def Let_def removeOutgoing_def removeIncoming_def grows_def split: option.splits)

lemma Cfa_new_simps [simp]:
  "mNodes (Cfa_new n a b) = [a, b]" "mEdges (Cfa_new n a b) = []" "mEntry (Cfa_new n a b) = a" "mExit (Cfa_new n a b) = b"
  "mLocationIdx (Cfa_new n a b) = 2" "mTmp (Cfa_new n a b) = 0" "arcs (Cfa_new n a b) = {}"
  by (simp_all add: Cfa_new_def createLocation_def createNode_def empty_cfa_def Let_def u32_def arcs_def live_def)

text \<open>The automata that an automaton calls.\<close>

definition callees :: "cfa \<Rightarrow> nat set" where
  "callees c = mCallee ` {tr \<in> mTransition c ` set (mEdges c). isCall tr}"

end
