(* ===== verification/GazerEvalSafe.thy ===== *)
theory GazerEvalSafe
  imports GazerEval
begin

text \<open>
  Properties of the evaluator: it preserves types, so a successful evaluation of a well-typed
  expression is an atom of the type of the expression; what its branches compute (integer modulo,
  the connectives, shifts); and where it fails.
\<close>

definition valuation_ok :: "valuation \<Rightarrow> bool" where
  "valuation_ok \<sigma> \<longleftrightarrow> (\<forall>v l. \<sigma> v = Some l \<longrightarrow> lit_type l = var_type v \<and> lit_ok l)"

definition good :: "atomic \<Rightarrow> gtype \<Rightarrow> bool" where
  "good a t \<longleftrightarrow> atomic_type a = t \<and> (\<forall>l. a = ALit l \<longrightarrow> lit_ok l)"

lemma good_undef [simp]: "good (AUndef t) t' \<longleftrightarrow> t = t'"
  by (simp add: good_def)

lemma good_lit [simp]: "good (ALit l) t \<longleftrightarrow> lit_type l = t \<and> lit_ok l"
  by (simp add: good_def)

lemma good_type: "good a t \<Longrightarrow> atomic_type a = t"
  by (simp add: good_def)

lemma cast_Bv_eq: "cast_Bv err a = Inr x \<longleftrightarrow> a = ALit (BvLiteral x)"
  by (cases "(err, a)" rule: cast_Bv.cases) auto

lemma cast_Int_eq: "cast_Int a = Inr x \<longleftrightarrow> a = ALit (IntLiteral x)"
  by (cases a rule: cast_Int.cases) auto

lemma cast_Bool_eq: "cast_Bool a = Inr x \<longleftrightarrow> a = ALit (BoolLiteral x)"
  by (cases a rule: cast_Bool.cases) auto

lemma cast_Float_eq: "cast_Float a = Inr x \<longleftrightarrow> a = ALit (FloatLiteral x)"
  by (cases a rule: cast_Float.cases) auto

lemma cast_Real_eq: "cast_Real a = Inr x \<longleftrightarrow> a = ALit (RealLiteral (fst x) (snd x))"
  by (cases a rule: cast_Real.cases) auto

lemmas cast_eqs = cast_Bv_eq cast_Int_eq cast_Bool_eq cast_Float_eq cast_Real_eq

lemma bv_atom_eq: "bv_atom t x = Inr a \<longleftrightarrow> t = BvType (getBitWidth x) \<and> a = ALit (BvLiteral x)"
  by (auto simp: bv_atom_def BvLiteralExpr_Get_def rbind_eq_Inr check_eq_Inr split: gtype.splits)

lemma bv_width_eq: "bv_width t = Inr w \<longleftrightarrow> t = BvType w"
  by (cases t) auto

lemma getOperand_simps [simp]:
  "getOperand (v # vs) 0 = Inr v"
  "getOperand (v0 # v # vs) 1 = Inr v" "getOperand (v0 # v # vs) (Suc 0) = Inr v"
  "getOperand (v0 # v1 # v # vs) 2 = Inr v"
  by (simp_all add: getOperand_def)

lemmas visit_simps = rbind_eq_Inr check_eq_Inr of_lib_eq_Inr i64_eq_Inr cast_eqs bv_atom_eq bv_width_eq

lemma eval_bv_arith_ok:
  assumes L: "llvm_laws L" and sw: "same_width l r" and x: "eval_bv_arith L k l r = Inr x"
  shows "apint_ok x \<and> getBitWidth x = getBitWidth l"
proof -
  have ok: "apint_ok l" "0 < getBitWidth l" using sw by (auto simp: same_width_def apint_ok_def)
  have nz: "apBits r \<noteq> 0" if "k \<in> {BvSDiv, BvUDiv, BvSRem, BvURem}"
  proof
    assume "apBits r = 0"
    with that x show False
      using llvm_div_zero [OF L \<open>apBits r = 0\<close>, of l] by (auto simp: eval_bv_arith_def of_lib_def)
  qed
  show ?thesis using x ok nz
    by (cases k) (auto simp: eval_bv_arith_def of_lib_eq_Inr llvm_arith [OF L sw] llvm_div [OF L sw]
        llvm_shift [OF L sw] llvm_shift_n [OF L ok(1)] bit_ops_ok [OF L sw] split: if_splits)
qed

lemma i64_rem_ok:
  assumes "i64_rem a b = Inr r"
  shows "r = a smod b" "b \<noteq> 0"
  using assms by (auto simp: i64_rem_def rbind_eq_Inr split: if_splits)

lemma i64_rem_in_range:
  assumes "i64_rem a b = Inr r" and "in_int64 b"
  shows "in_int64 r"
  using i64_rem_ok [OF assms(1)] smod_bounds [of b a] assms(2)
  by (auto simp: in_int64_def)

lemma eval_int_arith_ok:
  assumes "eval_int_arith k a b = Inr r" and "in_int64 b"
  shows "in_int64 r"
  using assms
  by (cases k) (auto simp: eval_int_arith_def eval_int_mod_def i64_div_def visit_simps
      intro: i64_rem_in_range split: if_splits)

lemma EvalBinaryArithmetic_good:
  assumes L: "llvm_laws L" and "good l t" "good r t"
    and e: "EvalBinaryArithmetic L k l r = Inr a"
  shows "good a t"
proof -
  have t: "atomic_type l = t" using assms(2) by (simp add: good_def)
  consider "atomic_isUndef l \<or> atomic_isUndef r" "a = AUndef t"
    | x y v where "l = ALit (BvLiteral x)" "r = ALit (BvLiteral y)" "eval_bv_arith L k x y = Inr v"
        "a = ALit (BvLiteral v)"
    | x y v where "l = ALit (IntLiteral x)" "r = ALit (IntLiteral y)" "eval_int_arith k x y = Inr v"
        "a = ALit (IntLiteral v)"
    using e t by (auto simp: EvalBinaryArithmetic_def visit_simps split: if_splits)
  then show ?thesis
  proof cases
    case 2
    then have "same_width x y" using assms(2,3) by (auto simp: same_width_def)
    with 2 assms(2) show ?thesis using eval_bv_arith_ok [OF L] by fastforce
  next
    case 3
    then show ?thesis using assms(2,3) eval_int_arith_ok by auto
  qed (use t in auto)
qed

lemma EvalBvCompare_bool: "EvalBvCompare L k l r = Inr a \<Longrightarrow> good a BoolType"
  by (cases k) (auto simp: EvalBvCompare_def)

lemma EvalIntCompare_bool: "EvalIntCompare k l r = Inr a \<Longrightarrow> good a BoolType"
  by (cases k) (auto simp: EvalIntCompare_def)

lemma EvalBinaryCompare_good:
  assumes "EvalBinaryCompare L k l r = Inr a"
  shows "good a BoolType"
proof (cases "atomic_isUndef l \<or> atomic_isUndef r")
  case True
  with assms show ?thesis by (auto simp: EvalBinaryCompare_def check_eq_Inr)
next
  case False
  with assms show ?thesis
    by (cases "atomic_type l")
      (auto simp: EvalBinaryCompare_def visit_simps dest: EvalBvCompare_bool EvalIntCompare_bool)
qed

lemma visitAnd_good: "visitAnd_loop u vs = Inr a \<Longrightarrow> good a BoolType"
  by (induction vs arbitrary: u) (auto simp: rbind_eq_Inr cast_Bool_eq split: if_splits)

lemma visitOr_good: "visitOr_loop u vs = Inr a \<Longrightarrow> good a BoolType"
  by (induction vs arbitrary: u) (auto simp: rbind_eq_Inr cast_Bool_eq split: if_splits)

lemma EvalSelect_good:
  assumes "good t ty" "good e ty" and "EvalSelect c t e = Inr a"
  shows "good a ty"
proof -
  have "a = (if c then t else e)"
    using assms by (auto simp: EvalSelect_def Let_def visit_simps FloatLiteralExpr_Get_def good_def
        split: gtype.splits if_splits)
  with assms(1,2) show ?thesis by simp
qed

lemma map_of_good:
  "list_all (\<lambda>(k, v). lit_ok k \<and> lit_ok v \<and> lit_type k = i \<and> lit_type v = e) m \<Longrightarrow>
   map_of m key = Some v \<Longrightarrow> lit_ok v \<and> lit_type v = e"
  by (induction m) (auto split: if_splits)

lemma visitArrayRead_good:
  assumes "good a (ArrayType i e)" and "visitArrayRead e [a, x] = Inr r"
  shows "good r e"
proof (cases a)
  case (AUndef t)
  with assms show ?thesis by (auto simp: visitArrayRead_def)
next
  case (ALit l)
  with assms(1) obtain m d where l: "l = ArrayLiteral i e m d" by (cases l) auto
  show ?thesis
  proof (cases x)
    case (AUndef t)
    with assms ALit l show ?thesis by (auto simp: visitArrayRead_def)
  next
    case (ALit key)
    with assms(2) \<open>a = ALit l\<close> l have "r = ALit (case map_of m key of None \<Rightarrow> d | Some v \<Rightarrow> v)"
      by (auto simp: visitArrayRead_def rbind_eq_Inr check_eq_Inr split: option.splits)
    with assms(1) \<open>a = ALit l\<close> l show ?thesis
      by (cases "map_of m key") (auto dest: map_of_good)
  qed
qed

lemma visitBvConcat_good:
  assumes L: "llvm_laws L" and "good l (BvType w)" "good r (BvType v)" "w + v < 2 ^ 32"
    and e: "visitBvConcat L (BvType (w + v)) [l, r] = Inr a"
  shows "good a (BvType (w + v))"
proof (cases "atomic_isUndef l \<or> atomic_isUndef r")
  case True
  with e show ?thesis by (auto simp: visitBvConcat_def)
next
  case False
  with e obtain x y where xy: "l = ALit (BvLiteral x)" "r = ALit (BvLiteral y)"
    by (auto simp: visitBvConcat_def Let_def visit_simps)
  with assms(2,3) have ok: "apint_ok x" "apint_ok y" "getBitWidth x = w" "getBitWidth y = v" by auto
  then have "0 < w" "0 < v" by (auto simp: apint_ok_def)
  then have "same_width (mk_ap (w + v) (uval (mk_ap (w + v) (uval x)) * 2 ^ v)) (mk_ap (w + v) (uval y))"
    by (simp add: same_width_def)
  then show ?thesis using e xy ok \<open>0 < w\<close> \<open>0 < v\<close> assms(4) bit_ops_ok [OF L]
    by (auto simp: visitBvConcat_def Let_def visit_simps u32_id llvm_ext [OF L] llvm_shift_n [OF L])
qed

lemma eval_binary:
  "eval L \<sigma> (NonNullaryExpr k t [x, y] d) = Inr a \<longleftrightarrow>
   (\<exists>u v. eval L \<sigma> x = Inr u \<and> eval L \<sigma> y = Inr v \<and> eval_node L k t d [u, v] = Inr a)"
  by (auto simp: eval_NonNullary rbind_eq_Inr)

lemma eval_unary:
  "eval L \<sigma> (NonNullaryExpr k t [x] d) = Inr a \<longleftrightarrow>
   (\<exists>u. eval L \<sigma> x = Inr u \<and> eval_node L k t d [u] = Inr a)"
  by (auto simp: eval_NonNullary rbind_eq_Inr)

lemma eval_ternary:
  "eval L \<sigma> (NonNullaryExpr k t [x, y, z] d) = Inr a \<longleftrightarrow>
   (\<exists>u v w. eval L \<sigma> x = Inr u \<and> eval L \<sigma> y = Inr v \<and> eval L \<sigma> z = Inr w \<and>
     eval_node L k t d [u, v, w] = Inr a)"
  by (auto simp: eval_NonNullary rbind_eq_Inr)

lemma eval_node_arith:
  "k \<in> arith_kinds \<union> bv_kinds \<union> {Div} \<Longrightarrow> eval_node L k t d vs = visitBinaryArithmetic L k vs"
  by (auto simp: eval_node_def kind_sets isArithmetic_def)

lemma eval_node_compare:
  "k \<in> compare_kinds \<union> bv_compare_kinds \<Longrightarrow> eval_node L k t d vs = visitBinaryCompare L k vs"
  by (auto simp: eval_node_def kind_sets isArithmetic_def isCompare_def)

lemma eval_node_unhandled:
  "k \<in> {FCast, SignedToFp, UnsignedToFp, FpToSigned, FpToUnsigned, FAdd, FSub, FMul, FDiv,
        FEq, FGt, FGtEq, FLt, FLtEq, ArrayWrite, TupleSelect, TupleConstruct} \<Longrightarrow>
   eval_node L k t d vs = Inl Unreachable"
  by (auto simp: eval_node_def isArithmetic_def isCompare_def)

lemma getVariableValue_good: "valuation_ok \<sigma> \<Longrightarrow> good (getVariableValue \<sigma> v) (var_type v)"
  by (auto simp: getVariableValue_def valuation_ok_def split: option.splits)

lemma getPrecisionWidth_pos: "0 < getPrecisionWidth p"
  by (cases p) simp_all

lemma apint_ok_mk_apD: "mk_ap w v = x \<Longrightarrow> u < w \<Longrightarrow> apint_ok x"
  by auto

lemma ext_good:
  assumes L: "llvm_laws L" and "good u (BvType w)" "w < v"
    and "visitZExt L (BvType v) [u] = Inr a \<or> visitSExt L (BvType v) [u] = Inr a"
  shows "good a (BvType v)"
  using assms
  by (auto simp: visitZExt_def visitSExt_def visit_simps llvm_ext [OF L] intro: apint_ok_mk_apD)

lemma extract_good:
  assumes L: "llvm_laws L" and "good u (BvType w)" "0 < n" "p + n \<le> w"
    and "visitExtract L (BvType n) (ExtractData p n) [u] = Inr a"
  shows "good a (BvType n)"
  using assms
  by (auto simp: visitExtract_def visit_simps llvm_extract [OF L] intro: apint_ok_mk_apD)

lemma bitcast_good:
  assumes L: "llvm_laws L" and "good u t"
    and "visitFpToBv L ty [u] = Inr a \<or> visitBvToFp L ty [u] = Inr a"
  shows "good a ty"
proof (cases "visitFpToBv L ty [u] = Inr a")
  case True
  with assms(2) show ?thesis
    by (auto simp: visitFpToBv_def visit_simps llvm_fp [OF L] apint_ok_def getPrecisionWidth_pos)
next
  case False
  with assms(3) obtain x p f where "u = ALit (BvLiteral x)" "ty = FloatType p"
      "fpOfBits L p x = Some f" "FloatLiteralExpr_Get ty f = Inr (FloatLiteral f)" "a = ALit (FloatLiteral f)"
    by (cases ty) (auto simp: visitBvToFp_def visit_simps FloatLiteralExpr_Get_def)
  with assms(2) show ?thesis by (auto simp: llvm_fp [OF L] apint_ok_def split: if_splits)
qed

lemma eval_good:
  assumes L: "llvm_laws L" and \<sigma>: "valuation_ok \<sigma>"
  shows "well_typed e \<Longrightarrow> eval L \<sigma> e = Inr a \<Longrightarrow> good a (getType e)"
proof (induction arbitrary: a rule: well_typed.induct)
  case (wt_var v)
  then show ?case using getVariableValue_good [OF \<sigma>] by auto
next
  case (wt_not e)
  then show ?case by (auto simp: eval_unary eval_node_def visitNot_def visit_simps)
next
  case (wt_ext e w v k)
  then obtain u where "eval L \<sigma> e = Inr u" "eval_node L k (BvType v) NoData [u] = Inr a"
    by (auto simp: eval_unary)
  with wt_ext ext_good [OF L, of u w v a] show ?case by (auto simp: eval_node_def)
next
  case (wt_extract e w n p)
  then obtain u where "eval L \<sigma> e = Inr u" "visitExtract L (BvType n) (ExtractData p n) [u] = Inr a"
    by (auto simp: eval_unary eval_node_def)
  with wt_extract show ?case by (auto intro: extract_good [OF L, of u w])
next
  case (wt_arith l r t k)
  then show ?case
    by (auto simp: eval_binary eval_node_arith visitBinaryArithmetic_def
        intro: EvalBinaryArithmetic_good [OF L])
next
  case (wt_div l r t)
  then show ?case
    by (auto simp: eval_binary eval_node_arith visitBinaryArithmetic_def
        intro: EvalBinaryArithmetic_good [OF L])
next
  case (wt_bv l r w k)
  then show ?case
    by (auto simp: eval_binary eval_node_arith visitBinaryArithmetic_def
        intro: EvalBinaryArithmetic_good [OF L])
next
  case (wt_concat l r w v)
  then show ?case
    by (auto simp: eval_binary eval_node_def intro: visitBvConcat_good [OF L])
next
  case (wt_compare l r k)
  then show ?case
    by (auto simp: eval_binary eval_node_compare visitBinaryCompare_def intro: EvalBinaryCompare_good)
next
  case (wt_bv_compare l r w k)
  then show ?case
    by (auto simp: eval_binary eval_node_compare visitBinaryCompare_def intro: EvalBinaryCompare_good)
next
  case (wt_logic ops k)
  then show ?case
    by (auto simp: eval_NonNullary eval_node_def rbind_eq_Inr visitAnd_def visitOr_def
        intro: visitAnd_good visitOr_good)
next
  case (wt_imply l r)
  then show ?case
    by (auto simp: eval_binary eval_node_def visitImply_def visit_simps good_type split: if_splits)
next
  case (wt_fp_query e p k)
  then show ?case
    by (auto simp: eval_unary eval_node_def visitFIsNan_def visitFIsInf_def visit_simps)
next
  case (wt_fp_bits e p w)
  then show ?case by (auto simp: eval_unary eval_node_def intro: bitcast_good [OF L])
next
  case (wt_bits_fp e w p)
  then show ?case by (auto simp: eval_unary eval_node_def intro: bitcast_good [OF L])
next
  case (wt_select c t e ty)
  then show ?case
    by (auto simp: eval_ternary eval_node_def visitSelect_def visit_simps intro: EvalSelect_good)
next
  case (wt_read a' i it et)
  then obtain u v where "eval L \<sigma> a' = Inr u" "eval L \<sigma> i = Inr v" "visitArrayRead et [u, v] = Inr a"
    by (auto simp: eval_binary eval_node_def)
  with wt_read visitArrayRead_good [of u it et v a] show ?case by simp
qed (auto simp: eval_unary eval_binary eval_ternary eval_NonNullary rbind_eq_Inr eval_node_unhandled)

text \<open>
  C10: evaluation preserves types: under LLVM's documented arithmetic and a valuation that gives each
  variable a literal of its type, a well-typed expression that evaluates at all evaluates to an atom
  of its own type, and to a well-formed literal if it is one.
\<close>

theorem eval_type_safe:
  assumes "llvm_laws L" and "valuation_ok \<sigma>" and "well_typed e" and "eval L \<sigma> e = Inr a"
  shows "atomic_type a = getType e \<and> (\<forall>l. a = ALit l \<longrightarrow> lit_ok l)"
  using eval_good [OF assms(1,2) assms(3) assms(4)] by (simp add: good_def)

text \<open>
  Evaluating a bit-vector sum that wraps around, at a valuation of one variable.
\<close>

theorem eval_type_safe_witness:
  "eval doc_llvm [Variable ''x'' (BvType 8) \<mapsto> BvLiteral (APInt 8 200)]
     (node Add (BvType 8) [VarRefExpr (Variable ''x'' (BvType 8)), BvLit (APInt 8 100)])
     = Inr (ALit (BvLiteral (APInt 8 44)))
   \<and> atomic_type (ALit (BvLiteral (APInt 8 44))) = BvType 8 \<and> lit_ok (BvLiteral (APInt 8 44))"
proof -
  let ?\<sigma> = "[Variable ''x'' (BvType 8) \<mapsto> BvLiteral (APInt 8 200)]"
  let ?e = "node Add (BvType 8) [VarRefExpr (Variable ''x'' (BvType 8)), BvLit (APInt 8 100)]"
  have wt: "well_typed ?e"
    by (intro wt_arith) (auto simp: apint_ok_def arith_kinds_def)
  have ok: "valuation_ok ?\<sigma>" by (simp add: valuation_ok_def apint_ok_def)
  have ev: "eval doc_llvm ?\<sigma> ?e = Inr (ALit (BvLiteral (APInt 8 44)))"
    by (simp add: eval_binary eval_node_def isArithmetic_def visitBinaryArithmetic_def
        EvalBinaryArithmetic_def getVariableValue_def eval_bv_arith_def doc_llvm_routines mk_ap_def uval_def
        bv_atom_def BvLiteralExpr_Get_def)
  show ?thesis using eval_type_safe [OF doc_llvm_laws ok wt ev] ev by simp
qed

text \<open>The integer modulo of the evaluator.\<close>

lemma euclid_mod:
  fixes l r :: int
  assumes "r \<noteq> 0"
  shows "l mod \<bar>r\<bar> = (if l smod r < 0 then l smod r + \<bar>r\<bar> else l smod r)"
proof -
  have pos: "0 < \<bar>r\<bar>" using assms by simp
  show ?thesis
  proof (cases "l < 0")
    case False
    then have "l smod r = l mod \<bar>r\<bar>" by (simp add: signed_modulo_int_def sgn_if)
    then show ?thesis using pos_mod_sign [OF pos, of l] by simp
  next
    case True
    then have s: "l smod r = - ((- l) mod \<bar>r\<bar>)" by (simp add: signed_modulo_int_def sgn_if)
    show ?thesis
    proof (cases "(- l) mod \<bar>r\<bar> = 0")
      case True
      then have "l mod \<bar>r\<bar> = 0" by (simp add: mod_eq_0_iff_dvd)
      then show ?thesis using s True by simp
    next
      case False
      then have "l mod \<bar>r\<bar> = \<bar>r\<bar> - (- l) mod \<bar>r\<bar>" using zmod_zminus1_eq_if [of "- l" "\<bar>r\<bar>"] by simp
      moreover have "0 < (- l) mod \<bar>r\<bar>" using False pos_mod_sign [OF pos, of "- l"] by linarith
      ultimately show ?thesis using s by simp
    qed
  qed
qed

lemma i64_div_in_range:
  assumes "in_int64 l" and "in_int64 r" and "r \<noteq> 0" and "r = - 1 \<longrightarrow> l \<noteq> - (2 ^ 63)"
  shows "in_int64 (l sdiv r)"
proof (cases "r = - 1")
  case True
  then have "l sdiv r = - l" by (simp add: signed_divide_int_def sgn_if)
  then show ?thesis using assms True by (auto simp: in_int64_def)
next
  case False
  have abs: "\<bar>l sdiv r\<bar> = \<bar>l\<bar> div \<bar>r\<bar>"
    using assms(3) by (simp add: signed_divide_int_def abs_mult sgn_if pos_imp_zdiv_nonneg_iff)
  show ?thesis
  proof (cases "r = 1")
    case True
    then show ?thesis using assms by (simp add: signed_divide_int_def mult_sgn_abs)
  next
    case False
    then have "2 \<le> \<bar>r\<bar>" using \<open>r \<noteq> - 1\<close> assms(3) by linarith
    then have "\<bar>l\<bar> div \<bar>r\<bar> \<le> \<bar>l\<bar> div 2" by (simp add: zdiv_mono2)
    also have "\<dots> < 2 ^ 63" using assms(1) by (auto simp: in_int64_def)
    finally show ?thesis using abs by (auto simp: in_int64_def)
  qed
qed

text \<open>
  The evaluator's modulo on machine integers is the Euclidean remainder, for every pair of 64-bit
  operands except the divisors \<open>0\<close>, \<open>-1\<close> at the least integer (whose native remainder is undefined
  in C++) and the least integer itself (whose absolute value is undefined).
\<close>

theorem eval_int_mod_euclidean:
  assumes "in_int64 l" and "in_int64 r" and "r \<noteq> 0" and "r \<noteq> - (2 ^ 63)"
    and "\<not> (r = - 1 \<and> l = - (2 ^ 63))"
  shows "eval_int_mod l r = Inr (l mod \<bar>r\<bar>) \<and> 0 \<le> l mod \<bar>r\<bar> \<and> l mod \<bar>r\<bar> < \<bar>r\<bar>"
proof -
  have div: "in_int64 (l sdiv r)" using assms by (intro i64_div_in_range) auto
  have abs: "in_int64 \<bar>r\<bar>" using assms(2,4) by (auto simp: in_int64_def)
  have sum: "in_int64 (l smod r + \<bar>r\<bar>)" if "l smod r < 0"
    using smod_bounds [OF assms(3), of l] that abs by (auto simp: in_int64_def)
  show ?thesis
    using assms(3) div abs sum smod_bounds [OF assms(3), of l]
    by (auto simp: eval_int_mod_def i64_rem_def i64_def i64_abs_def euclid_mod)
qed

text \<open>The remainder of \<open>-7\<close> by \<open>-3\<close> is \<open>2\<close>.\<close>

theorem eval_int_mod_euclidean_witness: "eval_int_mod (- 7) (- 3) = Inr 2"
  using eval_int_mod_euclidean [of "- 7" "- 3"] by (simp add: in_int64_def)

text \<open>The connectives on values that are all defined, and on one that is not.\<close>

abbreviation bool_vals :: "bool list \<Rightarrow> atomic list" where
  "bool_vals bs \<equiv> map (\<lambda>b. ALit (BoolLiteral b)) bs"

lemma visitAnd_bools: "visitAnd_loop False (bool_vals bs @ vs) =
    (if list_all (\<lambda>b. b) bs then visitAnd_loop False vs else bool_atom False)"
  by (induction bs) auto

lemma visitOr_bools: "visitOr_loop False (bool_vals bs @ vs) =
    (if list_ex (\<lambda>b. b) bs then bool_atom True else visitOr_loop False vs)"
  by (induction bs) auto

lemma visitAnd_all: "visitAnd (bool_vals bs) = bool_atom (list_all (\<lambda>b. b) bs)"
  using visitAnd_bools [of bs "[]"] by (simp add: visitAnd_def)

lemma visitOr_ex: "visitOr (bool_vals bs) = bool_atom (list_ex (\<lambda>b. b) bs)"
  using visitOr_bools [of bs "[]"] by (simp add: visitOr_def)

lemma visitAnd_undef:
  "visitAnd (bool_vals bs @ AUndef t # vs) = (if list_all (\<lambda>b. b) bs then Inl BadCast else bool_atom False)"
  by (simp only: visitAnd_def visitAnd_bools visitAnd_loop.simps cast_Bool.simps rbind_Inl)

lemma visitOr_undef:
  "visitOr (bool_vals bs @ AUndef t # vs) = (if list_ex (\<lambda>b. b) bs then bool_atom True else Inl BadCast)"
  by (simp only: visitOr_def visitOr_bools visitOr_loop.simps cast_Bool.simps rbind_Inl)

text \<open>
  The evaluation of a conjunction and of a disjunction, for every list of operand values: it is
  decided by the operands from left to right; with only defined operands it is their conjunction
  or disjunction, and an undefined operand that comes before any deciding one fails the cast (the
  flag \<open>isUndef\<close> the loops keep never yields an undefined result).
\<close>

theorem visitAnd_visitOr_value:
  "visitAnd (bool_vals bs) = bool_atom (list_all (\<lambda>b. b) bs)
   \<and> visitOr (bool_vals bs) = bool_atom (list_ex (\<lambda>b. b) bs)
   \<and> visitAnd (bool_vals bs @ AUndef t # vs) = (if list_all (\<lambda>b. b) bs then Inl BadCast else bool_atom False)
   \<and> visitOr (bool_vals bs @ AUndef t # vs) = (if list_ex (\<lambda>b. b) bs then bool_atom True else Inl BadCast)"
  by (intro conjI visitAnd_all visitOr_ex visitAnd_undef visitOr_undef)

text \<open>\<open>true \<and> false \<and> undef\<close> is decided before the undefined operand is looked at.\<close>

theorem visitAnd_visitOr_value_witness:
  "visitAnd (bool_vals [True, False] @ [AUndef BoolType]) = bool_atom False
   \<and> visitAnd (bool_vals [True] @ [AUndef BoolType]) = Inl BadCast"
  using visitAnd_visitOr_value [of "[True, False]" BoolType "[]"]
    visitAnd_visitOr_value [of "[True]" BoolType "[]"] by simp

end
