(* ===== verification/GazerFoldSound.thy ===== *)
theory GazerFoldSound
  imports GazerEvalSafe GazerBuilder
begin

text \<open>
  The folding builder against the evaluator. \<open>has_val L \<sigma> e l\<close> says that \<open>e\<close> and all its
  subexpressions have defined values under \<open>\<sigma>\<close> and that \<open>e\<close> has the value \<open>l\<close>. Each method of the
  folding builder, applied to expressions with values, returns an expression with the value the
  plain node would have. This theory holds the
  predicate, the shapes of well-typed nodes and the Boolean connectives.
\<close>

fun tot :: "llvm_api \<Rightarrow> valuation \<Rightarrow> expr \<Rightarrow> bool" where
  "tot L \<sigma> (NonNullaryExpr k t ops d) =
     ((case eval L \<sigma> (NonNullaryExpr k t ops d) of Inr (ALit _) \<Rightarrow> True | _ \<Rightarrow> False)
      \<and> list_all (tot L \<sigma>) ops)"
| "tot L \<sigma> e = (case eval L \<sigma> e of Inr (ALit _) \<Rightarrow> True | _ \<Rightarrow> False)"

definition has_val :: "llvm_api \<Rightarrow> valuation \<Rightarrow> expr \<Rightarrow> literal \<Rightarrow> bool" where
  "has_val L \<sigma> e l \<longleftrightarrow> llvm_laws L \<and> valuation_ok \<sigma> \<and> well_typed e \<and> tot L \<sigma> e \<and> eval L \<sigma> e = Inr (ALit l)"

abbreviation bool_val :: "llvm_api \<Rightarrow> valuation \<Rightarrow> expr \<Rightarrow> bool \<Rightarrow> bool" where
  "bool_val L \<sigma> e b \<equiv> has_val L \<sigma> e (BoolLiteral b)"

text \<open>A builder call succeeds with an expression of the given value.\<close>

definition yields :: "llvm_api \<Rightarrow> valuation \<Rightarrow> expr res \<Rightarrow> literal \<Rightarrow> bool" where
  "yields L \<sigma> r l \<longleftrightarrow> (\<exists>q. r = Inr q \<and> has_val L \<sigma> q l)"

lemma well_typed_operand: "well_typed e \<Longrightarrow> x \<in> set (operands e) \<Longrightarrow> well_typed x"
  by (cases e rule: well_typed.cases) auto

lemma has_val_laws: "has_val L \<sigma> e l \<Longrightarrow> llvm_laws L" "has_val L \<sigma> e l \<Longrightarrow> valuation_ok \<sigma>"
    "has_val L \<sigma> e l \<Longrightarrow> well_typed e" "has_val L \<sigma> e l \<Longrightarrow> eval L \<sigma> e = Inr (ALit l)"
  by (simp_all add: has_val_def)

lemma has_val_type: "has_val L \<sigma> e l \<Longrightarrow> getType e = lit_type l"
  and has_val_lit_ok: "has_val L \<sigma> e l \<Longrightarrow> lit_ok l"
  by (auto simp: has_val_def dest: eval_good)

lemma has_val_unique: "has_val L \<sigma> e l \<Longrightarrow> has_val L \<sigma> e l' \<Longrightarrow> l = l'"
  by (simp add: has_val_def)

lemma has_val_operand:
  assumes "has_val L \<sigma> e l" and "x \<in> set (operands e)"
  shows "\<exists>l'. has_val L \<sigma> x l'"
proof -
  have wt: "well_typed x" using assms by (auto simp: has_val_def dest: well_typed_operand)
  have "tot L \<sigma> x" using assms by (cases e) (auto simp: has_val_def list_all_iff)
  moreover from this obtain l' where "eval L \<sigma> x = Inr (ALit l')"
    by (cases x) (auto split: sum.splits atomic.splits)
  ultimately show ?thesis using assms(1) wt by (auto simp: has_val_def)
qed

lemma has_val_lit: "llvm_laws L \<Longrightarrow> valuation_ok \<sigma> \<Longrightarrow> has_val L \<sigma> (LiteralExpr l) l' \<longleftrightarrow> l' = l \<and> lit_ok l"
  by (auto simp: has_val_def)

lemma has_val_nodeI:
  assumes "\<And>x. x \<in> set ops \<Longrightarrow> \<exists>l'. has_val L \<sigma> x l'" and "ops \<noteq> []"
    and "well_typed (NonNullaryExpr k t ops d)" and "eval L \<sigma> (NonNullaryExpr k t ops d) = Inr (ALit l)"
  shows "has_val L \<sigma> (NonNullaryExpr k t ops d) l"
proof -
  obtain x l' where "has_val L \<sigma> x l'" using assms(1,2) by (meson last_in_set)
  then show ?thesis using assms by (auto simp: has_val_def list_all_iff)
qed

text \<open>Shapes of well-typed nodes, and what the matchers match.\<close>

lemma wt_NotD: "well_typed (NonNullaryExpr NotK t ops d) \<Longrightarrow>
    \<exists>e. ops = [e] \<and> d = NoData \<and> t = BoolType \<and> well_typed e \<and> getType e = BoolType"
  by (cases rule: well_typed.cases) (auto simp: kind_sets)

lemma wt_SelectD: "well_typed (NonNullaryExpr Select t ops d) \<Longrightarrow>
    \<exists>c x y. ops = [c, x, y] \<and> d = NoData \<and> getType c = BoolType \<and> getType x = t \<and> getType y = t
      \<and> well_typed c \<and> well_typed x \<and> well_typed y"
  by (cases rule: well_typed.cases) (auto simp: kind_sets)

lemma wt_logicD: "well_typed (NonNullaryExpr k t ops d) \<Longrightarrow> k \<in> {And, Or} \<Longrightarrow>
    d = NoData \<and> t = BoolType \<and> ops \<noteq> [] \<and> (\<forall>e \<in> set ops. well_typed e \<and> getType e = BoolType)"
  by (cases rule: well_typed.cases) (auto simp: kind_sets)

lemma wt_arithD: "well_typed (NonNullaryExpr k t ops d) \<Longrightarrow> k \<in> {Add, Sub} \<Longrightarrow>
    \<exists>l r. ops = [l, r] \<and> d = NoData \<and> getType l = t \<and> getType r = t"
  by (cases rule: well_typed.cases) (auto simp: kind_sets)

lemma m_Not_Some: "m_Not e = Some x \<Longrightarrow> well_typed e \<Longrightarrow> e = node NotK BoolType [x]"
  by (cases e) (auto simp: m_Not_def dest: wt_NotD split: if_splits list.splits)

lemma m_Select_Some: "m_Select e = Some (c, x, y) \<Longrightarrow> well_typed e \<Longrightarrow> e = node Select (getType x) [c, x, y]"
  by (cases e) (auto simp: m_Select_def dest: wt_SelectD split: if_splits list.splits)

lemma binary_match_Some: "binary_match k e = Some (a, b) \<Longrightarrow> k \<notin> {Undef, LiteralK, VarRef} \<Longrightarrow>
    \<exists>t d. e = NonNullaryExpr k t [a, b] d"
  by (cases e) (auto simp: binary_match_def split: if_splits list.splits)

lemma dyn_Some:
  "dyn_Bool e = Some b \<longleftrightarrow> e = LiteralExpr (BoolLiteral b)"
  "dyn_Int e = Some v \<longleftrightarrow> e = LiteralExpr (IntLiteral v)"
  "dyn_Bv e = Some a \<longleftrightarrow> e = LiteralExpr (BvLiteral a)"
  "dyn_Float e = Some f \<longleftrightarrow> e = LiteralExpr (FloatLiteral f)"
  "isLiteral e \<longleftrightarrow> (\<exists>l. e = LiteralExpr l)"
  by (cases e rule: dyn_Bool.cases, auto, cases e rule: dyn_Int.cases, auto,
      cases e rule: dyn_Bv.cases, auto, cases e rule: dyn_Float.cases, auto, cases e, auto)

text \<open>Boolean nodes over operands with values.\<close>

abbreviation bool_list :: "llvm_api \<Rightarrow> valuation \<Rightarrow> expr list \<Rightarrow> bool list \<Rightarrow> bool" where
  "bool_list L \<sigma> es bs \<equiv> list_all2 (bool_val L \<sigma>) es bs"

lemma bool_val_type: "bool_val L \<sigma> e b \<Longrightarrow> getType e = BoolType"
  using has_val_type by fastforce

lemma bool_valE:
  assumes "has_val L \<sigma> e l" and "getType e = BoolType"
  obtains b where "bool_val L \<sigma> e b"
  using assms has_val_type [OF assms(1)] by (cases l) auto

lemma eval_bool_list: "bool_list L \<sigma> es bs \<Longrightarrow> res_map (eval L \<sigma>) es = Inr (bool_vals bs)"
  by (induction rule: list_all2_induct) (auto simp: has_val_def)

lemma bool_list_exists: "bool_list L \<sigma> es bs \<Longrightarrow> x \<in> set es \<Longrightarrow> \<exists>l. has_val L \<sigma> x l"
  by (induction rule: list_all2_induct) auto

lemma bool_list_typed: "bool_list L \<sigma> es bs \<Longrightarrow> \<forall>e \<in> set es. well_typed e \<and> getType e = BoolType"
  by (induction rule: list_all2_induct) (auto simp: has_val_laws bool_val_type)

lemma bool_list_build:
  assumes "\<forall>e \<in> set es. (\<exists>l. has_val L \<sigma> e l) \<and> getType e = BoolType"
  shows "\<exists>bs. bool_list L \<sigma> es bs"
  using assms
proof (induction es)
  case (Cons e es)
  then obtain bs where "bool_list L \<sigma> es bs" by auto
  moreover obtain b where "bool_val L \<sigma> e b" using Cons.prems bool_valE by (metis list.set_intros(1))
  ultimately show ?case by (auto simp: list_all2_Cons1)
qed (auto intro: exI [of _ "[]"])

lemma Not_val: "bool_val L \<sigma> e b \<Longrightarrow> bool_val L \<sigma> (node NotK BoolType [e]) (\<not> b)"
  by (rule has_val_nodeI)
    (auto simp: eval_unary eval_node_def visitNot_def has_val_laws bool_val_type visit_simps intro: wt_not)

lemma And_val:
  assumes "bool_list L \<sigma> es bs" and "es \<noteq> []"
  shows "bool_val L \<sigma> (node And BoolType es) (list_all (\<lambda>b. b) bs)"
  using assms bool_list_exists [OF assms(1)] bool_list_typed [OF assms(1)]
  by (intro has_val_nodeI) (auto simp: eval_NonNullary eval_bool_list eval_node_def visitAnd_all intro!: wt_logic)

lemma Or_val:
  assumes "bool_list L \<sigma> es bs" and "es \<noteq> []"
  shows "bool_val L \<sigma> (node Or BoolType es) (list_ex (\<lambda>b. b) bs)"
  using assms bool_list_exists [OF assms(1)] bool_list_typed [OF assms(1)]
  by (intro has_val_nodeI) (auto simp: eval_NonNullary eval_bool_list eval_node_def visitOr_ex intro!: wt_logic)

lemma Imply_val:
  assumes "bool_val L \<sigma> x a" and "bool_val L \<sigma> y b"
  shows "bool_val L \<sigma> (node Imply BoolType [x, y]) (a \<longrightarrow> b)"
  using assms
  by (intro has_val_nodeI) (auto simp: eval_binary eval_node_def visitImply_def has_val_laws bool_val_type
      visit_simps intro!: wt_imply)

lemma logic_node_operands:
  assumes "has_val L \<sigma> (NonNullaryExpr k t ops d) l" and "k \<in> {And, Or}"
  shows "\<exists>bs. bool_list L \<sigma> ops bs" and "NonNullaryExpr k t ops d = node k BoolType ops" and "ops \<noteq> []"
proof -
  have shape: "d = NoData" "t = BoolType" "ops \<noteq> []" "\<forall>e \<in> set ops. getType e = BoolType"
    using wt_logicD [OF has_val_laws(3) [OF assms(1)] assms(2)] by auto
  then show "NonNullaryExpr k t ops d = node k BoolType ops" "ops \<noteq> []" by auto
  show "\<exists>bs. bool_list L \<sigma> ops bs"
    using shape(4) has_val_operand [OF assms(1)] by (intro bool_list_build) auto
qed

lemma And_node_vals:
  assumes "bool_val L \<sigma> (NonNullaryExpr And t ops d) b"
  obtains bs where "bool_list L \<sigma> ops bs" and "b = (list_all (\<lambda>b. b) bs)"
proof -
  obtain bs where bs: "bool_list L \<sigma> ops bs" using logic_node_operands(1) [OF assms] by auto
  have "bool_val L \<sigma> (NonNullaryExpr And t ops d) (list_all (\<lambda>b. b) bs)"
    using And_val [OF bs] logic_node_operands(2,3) [OF assms] by simp
  from has_val_unique [OF assms this] bs that show ?thesis by blast
qed

lemma Or_node_vals:
  assumes "bool_val L \<sigma> (NonNullaryExpr Or t ops d) b"
  obtains bs where "bool_list L \<sigma> ops bs" and "b = (list_ex (\<lambda>b. b) bs)"
proof -
  obtain bs where bs: "bool_list L \<sigma> ops bs" using logic_node_operands(1) [OF assms] by auto
  have "bool_val L \<sigma> (NonNullaryExpr Or t ops d) (list_ex (\<lambda>b. b) bs)"
    using Or_val [OF bs] logic_node_operands(2,3) [OF assms] by simp
  from has_val_unique [OF assms this] bs that show ?thesis by blast
qed

lemma Not_node_val:
  assumes "bool_val L \<sigma> (node NotK BoolType [x]) b"
  shows "bool_val L \<sigma> x (\<not> b)"
proof -
  have "getType x = BoolType" using wt_NotD [OF has_val_laws(3) [OF assms]] by auto
  moreover obtain l where "has_val L \<sigma> x l" using has_val_operand [OF assms, of x] by auto
  ultimately obtain c where c: "bool_val L \<sigma> x c" using bool_valE by blast
  then have "b = (\<not> c)" using has_val_unique [OF assms Not_val [OF c]] by simp
  with c show ?thesis by simp
qed

text \<open>Literals have the value they denote.\<close>

lemma bool_lit_val: "bool_val L \<sigma> (LiteralExpr (BoolLiteral b)) c \<longleftrightarrow> llvm_laws L \<and> valuation_ok \<sigma> \<and> c = b"
  by (auto simp: has_val_def)

lemma yieldsI: "r = Inr q \<Longrightarrow> has_val L \<sigma> q l \<Longrightarrow> yields L \<sigma> r l"
  by (auto simp: yields_def)

lemma yields_Inr [simp]: "yields L \<sigma> (Inr q) l \<longleftrightarrow> has_val L \<sigma> q l"
  by (simp add: yields_def)

lemma yields_rbind: "yields L \<sigma> r l \<Longrightarrow> (\<And>q. has_val L \<sigma> q l \<Longrightarrow> yields L \<sigma> (f q) l') \<Longrightarrow> yields L \<sigma> (rbind r f) l'"
  by (auto simp: yields_def)

text \<open>The plain factories.\<close>

lemma Not_Create_yields: "bool_val L \<sigma> e b \<Longrightarrow> yields L \<sigma> (NotExpr_Create e) (BoolLiteral (\<not> b))"
  by (simp add: NotExpr_Create_def bool_val_type Not_val)

lemma And_Create_yields:
  "bool_list L \<sigma> es bs \<Longrightarrow> es \<noteq> [] \<Longrightarrow>
    yields L \<sigma> (MultiaryLogicExpr_Create And es) (BoolLiteral (list_all (\<lambda>b. b) bs))"
  using bool_list_typed [of L \<sigma> es bs] And_val [of L \<sigma> es bs]
  by (simp add: MultiaryLogicExpr_Create_def check_def list_all_iff)

lemma Or_Create_yields:
  "bool_list L \<sigma> es bs \<Longrightarrow> es \<noteq> [] \<Longrightarrow>
    yields L \<sigma> (MultiaryLogicExpr_Create Or es) (BoolLiteral (list_ex (\<lambda>b. b) bs))"
  using bool_list_typed [of L \<sigma> es bs] Or_val [of L \<sigma> es bs]
  by (simp add: MultiaryLogicExpr_Create_def check_def list_all_iff)

lemma Imply_Create_yields:
  "bool_val L \<sigma> x a \<Longrightarrow> bool_val L \<sigma> y b \<Longrightarrow>
    yields L \<sigma> (BinaryLogicExpr_Create Imply x y) (BoolLiteral (a \<longrightarrow> b))"
  using Imply_val [of L \<sigma> x a y b] by (simp add: BinaryLogicExpr_Create_def bool_val_type)

text \<open>The connectives of the folding builder.\<close>

lemma And_newOps_val:
  assumes "bool_list L \<sigma> es bs"
  shows "case And_newOps es of None \<Rightarrow> \<not> (list_all (\<lambda>b. b) bs)
    | Some ns \<Rightarrow> (\<exists>cs. bool_list L \<sigma> ns cs \<and> (list_all (\<lambda>b. b) cs) = (list_all (\<lambda>b. b) bs))"
  using assms
proof (induction rule: list_all2_induct)
  case (Cons e es b bs)
  show ?case
  proof (cases "dyn_Bool e")
    case (Some c)
    with Cons.hyps(1) have "c = b" by (simp add: dyn_Some bool_lit_val)
    with Some Cons.IH show ?thesis by (auto split: option.splits)
  next
    case None
    have "\<exists>cs. bool_list L \<sigma> (if getKind e = And then operands e else [e]) cs \<and> (list_all (\<lambda>b. b) cs) = b"
    proof (cases "getKind e = And")
      case True
      then obtain t ops d where "e = NonNullaryExpr And t ops d" by (cases e) auto
      with Cons.hyps(1) show ?thesis by (auto elim!: And_node_vals)
    next
      case False
      with Cons.hyps(1) show ?thesis by (auto intro!: exI [of _ "[b]"])
    qed
    then obtain cs where cs: "bool_list L \<sigma> (if getKind e = And then operands e else [e]) cs" "(list_all (\<lambda>b. b) cs) = b"
      by blast
    show ?thesis
    proof (cases "And_newOps es")
      case (Some ns)
      with Cons.IH obtain ds where ds: "bool_list L \<sigma> ns ds" "list_all (\<lambda>b. b) ds = list_all (\<lambda>b. b) bs" by auto
      have "And_newOps (e # es) = Some ((if getKind e = And then operands e else [e]) @ ns)"
        using None Some by simp
      moreover have "bool_list L \<sigma> ((if getKind e = And then operands e else [e]) @ ns) (cs @ ds)"
        using cs(1) ds(1) by (rule list_all2_appendI)
      moreover have "list_all (\<lambda>b. b) (cs @ ds) = list_all (\<lambda>b. b) (b # bs)" using cs(2) ds(2) by auto
      ultimately show ?thesis by (simp only: option.case) blast
    qed (use None Cons.IH in auto)
  qed
qed simp

lemma Or_newOps_val:
  assumes "bool_list L \<sigma> es bs"
  shows "case Or_newOps es of None \<Rightarrow> list_ex (\<lambda>b. b) bs
    | Some ns \<Rightarrow> (\<exists>cs. bool_list L \<sigma> ns cs \<and> (list_ex (\<lambda>b. b) cs) = (list_ex (\<lambda>b. b) bs))"
  using assms
proof (induction rule: list_all2_induct)
  case (Cons e es b bs)
  show ?case
  proof (cases "dyn_Bool e")
    case (Some c)
    with Cons.hyps(1) have "c = b" by (simp add: dyn_Some bool_lit_val)
    with Some Cons.IH show ?thesis by (auto split: option.splits)
  next
    case None
    have "\<exists>cs. bool_list L \<sigma> (if getKind e = Or then operands e else [e]) cs \<and> (list_ex (\<lambda>b. b) cs) = b"
    proof (cases "getKind e = Or")
      case True
      then obtain t ops d where "e = NonNullaryExpr Or t ops d" by (cases e) auto
      with Cons.hyps(1) show ?thesis by (auto elim!: Or_node_vals)
    next
      case False
      with Cons.hyps(1) show ?thesis by (auto intro!: exI [of _ "[b]"])
    qed
    then obtain cs where cs: "bool_list L \<sigma> (if getKind e = Or then operands e else [e]) cs" "(list_ex (\<lambda>b. b) cs) = b"
      by blast
    show ?thesis
    proof (cases "Or_newOps es")
      case (Some ns)
      with Cons.IH obtain ds where ds: "bool_list L \<sigma> ns ds" "list_ex (\<lambda>b. b) ds = list_ex (\<lambda>b. b) bs" by auto
      have "Or_newOps (e # es) = Some ((if getKind e = Or then operands e else [e]) @ ns)"
        using None Some by simp
      moreover have "bool_list L \<sigma> ((if getKind e = Or then operands e else [e]) @ ns) (cs @ ds)"
        using cs(1) ds(1) by (rule list_all2_appendI)
      moreover have "list_ex (\<lambda>b. b) (cs @ ds) = list_ex (\<lambda>b. b) (b # bs)" using cs(2) ds(2) by auto
      ultimately show ?thesis by (simp only: option.case) blast
    qed (use None Cons.IH in auto)
  qed
qed simp

lemma fold_And_yields:
  assumes "bool_list L \<sigma> es bs" and "llvm_laws L" and "valuation_ok \<sigma>"
  shows "yields L \<sigma> (fold_And es) (BoolLiteral (list_all (\<lambda>b. b) bs))"
proof (cases "And_newOps es")
  case None
  with And_newOps_val [OF assms(1)] have "\<not> (list_all (\<lambda>b. b) bs)" by simp
  with None assms(2,3) show ?thesis by (simp add: fold_And_def bool_lit_val)
next
  case (Some ns)
  with And_newOps_val [OF assms(1)] obtain cs where cs: "bool_list L \<sigma> ns cs"
      and eq: "(list_all (\<lambda>b. b) bs) = (list_all (\<lambda>b. b) cs)" by auto
  show ?thesis
  proof (cases "length ns \<ge> 2")
    case True
    then obtain x y zs where "ns = x # y # zs" by (cases ns rule: remdups_adj.cases) auto
    with Some And_Create_yields [OF cs] eq show ?thesis by (simp add: fold_And_def)
  next
    case False
    with Some cs eq assms(2,3) show ?thesis
      by (cases ns; cases "tl ns") (auto simp: fold_And_def bool_lit_val list_all2_Cons1)
  qed
qed

lemma fold_Or_yields:
  assumes "bool_list L \<sigma> es bs" and "llvm_laws L" and "valuation_ok \<sigma>"
  shows "yields L \<sigma> (fold_Or es) (BoolLiteral (list_ex (\<lambda>b. b) bs))"
proof (cases "Or_newOps es")
  case None
  with Or_newOps_val [OF assms(1)] have "list_ex (\<lambda>b. b) bs" by simp
  with None assms(2,3) show ?thesis by (simp add: fold_Or_def bool_lit_val)
next
  case (Some ns)
  with Or_newOps_val [OF assms(1)] obtain cs where cs: "bool_list L \<sigma> ns cs"
      and eq: "(list_ex (\<lambda>b. b) bs) = (list_ex (\<lambda>b. b) cs)" by auto
  show ?thesis
  proof (cases "length ns \<ge> 2")
    case True
    then obtain x y zs where "ns = x # y # zs" by (cases ns rule: remdups_adj.cases) auto
    with Some Or_Create_yields [OF cs] eq show ?thesis by (simp add: fold_Or_def)
  next
    case False
    with Some cs eq assms(2,3) show ?thesis
      by (cases ns; cases "tl ns") (auto simp: fold_Or_def bool_lit_val list_all2_Cons1)
  qed
qed

lemma fold_And2_yields: "bool_val L \<sigma> x a \<Longrightarrow> bool_val L \<sigma> y b \<Longrightarrow>
    yields L \<sigma> (fold_And [x, y]) (BoolLiteral (a \<and> b))"
  using fold_And_yields [of L \<sigma> "[x, y]" "[a, b]"] by (simp add: has_val_laws)

lemma fold_Or2_yields: "bool_val L \<sigma> x a \<Longrightarrow> bool_val L \<sigma> y b \<Longrightarrow>
    yields L \<sigma> (fold_Or [x, y]) (BoolLiteral (a \<or> b))"
  using fold_Or_yields [of L \<sigma> "[x, y]" "[a, b]"] by (simp add: has_val_laws)

lemma m_Or_Not_val:
  assumes "m_Or_Not e = Some (x, y)" and "bool_val L \<sigma> e b"
  shows "\<exists>p q. bool_val L \<sigma> x p \<and> bool_val L \<sigma> y q \<and> b = (\<not> p \<or> q)"
proof -
  from assms(1) obtain u v where uv: "binary_match Or e = Some (u, v)"
      and c: "m_Not u = Some x \<and> y = v \<or> m_Not v = Some x \<and> y = u"
    by (auto simp: m_Or_Not_def split: option.splits)
  from uv obtain t d where e: "e = NonNullaryExpr Or t [u, v] d" by (auto dest: binary_match_Some)
  from assms(2) e obtain p q where pq: "bool_val L \<sigma> u p" "bool_val L \<sigma> v q" "b = (p \<or> q)"
    by (auto elim!: Or_node_vals simp: list_all2_Cons1)
  from c show ?thesis
  proof
    assume "m_Not u = Some x \<and> y = v"
    moreover from this have "bool_val L \<sigma> x (\<not> p)"
      using pq(1) m_Not_Some [of u x] has_val_laws(3) [OF pq(1)] Not_node_val by auto
    ultimately show ?thesis using pq by auto
  next
    assume "m_Not v = Some x \<and> y = u"
    moreover from this have "bool_val L \<sigma> x (\<not> q)"
      using pq(2) m_Not_Some [of v x] has_val_laws(3) [OF pq(2)] Not_node_val by auto
    ultimately show ?thesis using pq by auto
  qed
qed

lemma fold_Not_yields: "bool_val L \<sigma> e b \<Longrightarrow> yields L \<sigma> (fold_Not e) (BoolLiteral (\<not> b))"
proof (induction e arbitrary: b rule: fold_Not.induct)
  case (1 e)
  show ?case
  proof (cases "dyn_Bool e")
    case (Some c)
    with 1 show ?thesis by (simp add: fold_Not.simps dyn_Some bool_lit_val)
  next
    case None
    show ?thesis
    proof (cases "m_Or_Not e")
      case (Some p)
      obtain x y where p: "p = (x, y)" by (cases p)
      obtain u v where uv: "bool_val L \<sigma> x u" "bool_val L \<sigma> y v" "b = (\<not> u \<or> v)"
        using m_Or_Not_val [OF _ "1.prems"] Some p by blast
      have "yields L \<sigma> (fold_Not y) (BoolLiteral (\<not> v))"
        using "1.IH" [OF None Some p [symmetric]] uv(2) by simp
      then have "yields L \<sigma> (rbind (fold_Not y) (\<lambda>ny. fold_And [x, ny])) (BoolLiteral (u \<and> \<not> v))"
        by (rule yields_rbind) (rule fold_And2_yields [OF uv(1)])
      then show ?thesis using uv(3) None Some p by (simp add: fold_Not.simps [of e])
    next
      case N: None
      with None 1 show ?thesis by (simp add: fold_Not.simps [of e] Not_Create_yields)
    qed
  qed
qed

lemma fold_Imply_yields:
  assumes "bool_val L \<sigma> x a" and "bool_val L \<sigma> y b"
  shows "yields L \<sigma> (fold_Imply x y) (BoolLiteral (a \<longrightarrow> b))"
proof (cases "dyn_Bool x")
  case (Some c)
  with assms show ?thesis by (auto simp: fold_Imply_def dyn_Some bool_lit_val)
next
  case None
  with assms show ?thesis
    by (cases "dyn_Bool y")
      (auto simp: fold_Imply_def dyn_Some bool_lit_val Imply_Create_yields dest: fold_Not_yields)
qed

end
