(* ===== verification/GazerFoldArith.thy ===== *)
theory GazerFoldArith
  imports GazerFoldSound
begin

text \<open>
  The folding builder against the evaluator, continued: arithmetic, casts, floating-point queries
  and array reads. The plain node has a value; the call of the folding builder then succeeds and
  yields an expression of the same value.
\<close>

text \<open>The amount of a right shift by a literal fits in 32 bits.\<close>

definition shift_ok :: "expr_kind \<Rightarrow> expr \<Rightarrow> bool" where
  "shift_ok k r = (k \<in> {LShr, AShr} \<longrightarrow> (case dyn_Bv r of Some b \<Rightarrow> apBits b < 2 ^ 32 | None \<Rightarrow> True))"

text \<open>The premise and the conclusion of the lemmas on \<open>foldBinaryExpr\<close>: the node has the value \<open>z\<close>;
  the routine gives up or returns an expression of that value.\<close>

definition foldable :: "llvm_api \<Rightarrow> valuation \<Rightarrow> expr_kind \<Rightarrow> expr \<Rightarrow> expr \<Rightarrow> literal \<Rightarrow> bool" where
  "foldable L \<sigma> k l r z \<longleftrightarrow> (\<exists>x y. has_val L \<sigma> l x \<and> has_val L \<sigma> r y \<and>
     EvalBinaryArithmetic L k (ALit x) (ALit y) = Inr (ALit z)) \<and> shift_ok k r \<and> lit_ok z"

definition folds_to :: "llvm_api \<Rightarrow> valuation \<Rightarrow> expr option res \<Rightarrow> literal \<Rightarrow> bool" where
  "folds_to L \<sigma> r z \<longleftrightarrow> r = Inr None \<or> (\<exists>q. r = Inr (Some q) \<and> has_val L \<sigma> q z)"

lemma node_vals1:
  assumes "has_val L \<sigma> (NonNullaryExpr k t [e] d) z"
  obtains x where "has_val L \<sigma> e x" and "eval_node L k t d [ALit x] = Inr (ALit z)"
proof -
  obtain x where "has_val L \<sigma> e x" using has_val_operand [OF assms, of e] by auto
  with assms that show ?thesis by (auto simp: has_val_def eval_unary)
qed

lemma node_vals2:
  assumes "has_val L \<sigma> (NonNullaryExpr k t [l, r] d) z"
  obtains x y where "has_val L \<sigma> l x" and "has_val L \<sigma> r y"
    and "eval_node L k t d [ALit x, ALit y] = Inr (ALit z)"
proof -
  obtain x y where "has_val L \<sigma> l x" "has_val L \<sigma> r y"
    using has_val_operand [OF assms, of l] has_val_operand [OF assms, of r] by auto
  with assms that show ?thesis by (auto simp: has_val_def eval_binary)
qed

lemma node_vals3:
  assumes "has_val L \<sigma> (NonNullaryExpr k t [a, b, c] d) z"
  obtains x y w where "has_val L \<sigma> a x" and "has_val L \<sigma> b y" and "has_val L \<sigma> c w"
    and "eval_node L k t d [ALit x, ALit y, ALit w] = Inr (ALit z)"
proof -
  obtain x y w where "has_val L \<sigma> a x" "has_val L \<sigma> b y" "has_val L \<sigma> c w"
    using has_val_operand [OF assms, of a] has_val_operand [OF assms, of b]
      has_val_operand [OF assms, of c] by auto
  with assms that show ?thesis by (auto simp: has_val_def eval_ternary)
qed

lemma has_val_same_width:
  assumes "has_val L \<sigma> l (BvLiteral a)" and "has_val L \<sigma> r (BvLiteral b)" and "getBitWidth a = getBitWidth b"
  shows "same_width a b"
  using assms has_val_lit_ok by (fastforce simp: same_width_def)

text \<open>What the evaluation of an arithmetic node says about its operands.\<close>

lemma EvalBinaryArithmetic_lits:
  assumes "EvalBinaryArithmetic L k (ALit x) (ALit y) = Inr (ALit z)"
  shows "(\<exists>a b c. x = BvLiteral a \<and> y = BvLiteral b \<and> getBitWidth a = getBitWidth b
      \<and> eval_bv_arith L k a b = Inr c \<and> z = BvLiteral c)
    \<or> (\<exists>a b c. x = IntLiteral a \<and> y = IntLiteral b \<and> eval_int_arith k a b = Inr c \<and> z = IntLiteral c)"
  using assms
  by (cases x) (auto simp: EvalBinaryArithmetic_def visit_simps split: if_splits)

lemma mk_ap_zero: "apint_ok a \<Longrightarrow> apBits a = 0 \<Longrightarrow> mk_ap (getBitWidth a) 0 = a"
  by (cases a) (simp add: mk_ap_def)

lemma smod_1 [simp]: "(a :: int) smod 1 = 0"
  by (simp add: signed_modulo_int_def)

lemma sdiv_1 [simp]: "(a :: int) sdiv 1 = a"
  by (simp add: signed_divide_int_def mult_sgn_abs)

lemma sval_one:
  assumes "apint_ok b" and "apBits b = 1"
  shows "getBitWidth b = 1 \<and> sval b = - 1 \<or> sval b = 1"
proof (cases "getBitWidth b = 1")
  case True
  then show ?thesis using assms by (simp add: sval_def)
next
  case False
  then have "2 \<le> getBitWidth b" using assms by (simp add: apint_ok_def)
  then have "(2::nat) ^ 2 \<le> 2 ^ getBitWidth b" by (intro power_increasing) auto
  then show ?thesis using assms by (simp add: sval_def)
qed

lemma sdiv_by_one:
  assumes "same_width a b" and "apBits b = 1"
  shows "mk_ap (getBitWidth a) (sval a sdiv sval b) = a" "sval a smod sval b = 0"
proof -
  have ok: "apint_ok a" "apint_ok b" "getBitWidth b = getBitWidth a"
    using assms(1) by (auto simp: same_width_def)
  from sval_one [OF ok(2) assms(2)]
  have "mk_ap (getBitWidth a) (sval a sdiv sval b) = a \<and> sval a smod sval b = 0"
  proof
    assume w: "getBitWidth b = 1 \<and> sval b = - 1"
    then have "apBits a = 0 \<or> apBits a = 1" using ok by (auto simp: apint_ok_def)
    with w ok show ?thesis
      by (cases a) (auto simp: sval_def mk_ap_def signed_divide_int_def signed_modulo_int_def)
  next
    assume "sval b = 1"
    with ok show ?thesis by (simp add: mk_ap_sval)
  qed
  then show "mk_ap (getBitWidth a) (sval a sdiv sval b) = a" "sval a smod sval b = 0" by auto
qed

lemma bv_right_zero:
  assumes "llvm_laws L" and "same_width a b" and "apBits b = 0"
  shows "apAdd L a b = a" "apSub L a b = a" "apMul L a b = b" "apAnd L a b = b" "apOr L a b = a" "apXor L a b = a"
  using assms same_width_D [OF assms(2)] mk_ap_uval [of a] mk_ap_zero [of b]
  by (cases a; cases b; simp add: llvm_arith llvm_bits uval_def)+

lemma bv_right_one:
  assumes "llvm_laws L" and "same_width a b" and "apBits b = 1"
  shows "apMul L a b = a" "apUDiv L a b = Some a" "apSDiv L a b = Some a"
    "apURem L a b = Some (mk_ap (getBitWidth a) 0)" "apSRem L a b = Some (mk_ap (getBitWidth a) 0)"
proof -
  have one: "uval b = 1" "apBits b \<noteq> 0" using assms(3) by (simp_all add: uval_def)
  have a: "mk_ap (getBitWidth a) (uval a) = a" using same_width_D [OF assms(2)] by (simp add: mk_ap_uval)
  show "apMul L a b = a" "apUDiv L a b = Some a" "apSDiv L a b = Some a"
    "apURem L a b = Some (mk_ap (getBitWidth a) 0)" "apSRem L a b = Some (mk_ap (getBitWidth a) 0)"
    using one a sdiv_by_one [OF assms(2,3)]
    by (simp_all add: llvm_arith [OF assms(1,2)] llvm_div [OF assms(1,2)])
qed

lemma bv_right_ones:
  assumes "llvm_laws L" and "same_width a b" and "apBits b = 2 ^ getBitWidth b - 1"
  shows "apAnd L a b = a" "apOr L a b = b"
proof -
  have w: "getBitWidth b = getBitWidth a" and lt: "apBits a < 2 ^ getBitWidth a"
    using assms(2) by (auto simp: same_width_def apint_ok_def)
  have m: "apBits b = mask (getBitWidth a)" using assms(3) w by (simp add: mask_eq_exp_minus_1)
  have t: "take_bit (getBitWidth a) (apBits a) = apBits a" using lt by (simp add: take_bit_nat_eq_self)
  have a: "apBits a AND mask (getBitWidth a) = apBits a" using t by (simp add: take_bit_eq_mask)
  have "(apBits a AND mask (getBitWidth a)) OR mask (getBitWidth a) = mask (getBitWidth a)"
    by (intro bit_eqI) (auto simp: bit_or_iff bit_and_iff)
  with a have "apBits a AND mask (getBitWidth a) = apBits a"
    "apBits a OR mask (getBitWidth a) = mask (getBitWidth a)" by simp_all
  then show "apAnd L a b = a" "apOr L a b = b"
    using m w by (simp_all add: llvm_bits [OF assms(1,2)] apint.expand)
qed

lemma llvm_of_nat: "llvm_laws L \<Longrightarrow> 0 < w \<Longrightarrow> apOfNat L w v = mk_ap w (int v)"
  unfolding llvm_laws_def cast_laws_def by blast

lemma bv_left_zero:
  assumes "llvm_laws L" and "same_width a b" and "apBits a = 0" and "k \<in> zero_left_kinds"
    and "eval_bv_arith L k a b = Inr c"
  shows "c = a"
proof -
  have z: "uval a = 0" "sval a = 0" "mk_ap (getBitWidth a) 0 = a" and ok: "apint_ok a"
    using assms(3) same_width_D(1) [OF assms(2)] by (simp_all add: uval_def sval_def mk_ap_zero)
  have nz: "apBits b \<noteq> 0" if "k \<in> {BvSDiv, BvUDiv, BvSRem, BvURem}"
  proof
    assume "apBits b = 0"
    with that assms(5) show False
      using llvm_div_zero [OF assms(1) \<open>apBits b = 0\<close>, of a] by (auto simp: eval_bv_arith_def of_lib_def)
  qed
  have "0 sdiv (y :: int) = 0" "0 smod (y :: int) = 0" for y
    by (simp_all add: signed_divide_int_def signed_modulo_int_def)
  with assms(4,5) z nz show ?thesis
    by (auto simp: zero_left_kinds_def eval_bv_arith_def of_lib_eq_Inr llvm_div [OF assms(1,2)]
        llvm_shift [OF assms(1,2)] llvm_shift_n [OF assms(1) ok] split: if_splits)
qed

lemma fold_bv_arith_eval:
  assumes "llvm_laws L" and "same_width a b" and "eval_bv_arith L k a b = Inr c"
    and "k \<in> {LShr, AShr} \<longrightarrow> apBits b < 2 ^ 32"
  shows "fold_bv_arith L k a b = Inr c"
proof (cases "k \<in> {LShr, AShr}")
  case True
  then have lt: "apBits b < 2 ^ 32" using assms(4) by simp
  then have amount: "u32 (apLimited L b) = apBits b"
    by (simp add: u32_def llvm_limited [OF assms(1)] min_def)
  have ok: "apint_ok a" using assms(2) by (simp add: same_width_def)
  show ?thesis
    using assms(3) True amount
    by (auto simp: eval_bv_arith_def fold_bv_arith_def of_lib_eq_Inr llvm_shift [OF assms(1,2)]
        llvm_shift_n [OF assms(1) ok] min_def split: if_splits)
next
  case False
  then show ?thesis using assms(3) by (cases k) (simp_all add: eval_bv_arith_def fold_bv_arith_def)
qed

lemma eval_bv_arith_commute:
  assumes "llvm_laws L" and "same_width a b" and "isCommutative k"
  shows "eval_bv_arith L k b a = eval_bv_arith L k a b"
proof -
  have "same_width b a" using assms(2) by (auto simp: same_width_def)
  note r = llvm_arith [OF assms(1) this] llvm_bits [OF assms(1) this]
  from assms(3) show ?thesis
    using same_width_D(3) [OF assms(2)]
    by (cases k) (simp_all add: isCommutative_def eval_bv_arith_def llvm_arith [OF assms(1,2)]
        llvm_bits [OF assms(1,2)] r add.commute mult.commute and.commute or.commute xor.commute)
qed

lemma eval_int_arith_commute: "isCommutative k \<Longrightarrow> eval_int_arith k b a = eval_int_arith k a b"
  by (cases k) (simp_all add: isCommutative_def eval_int_arith_def add.commute mult.commute)

lemma fold_right_Bv_val:
  assumes "has_val L \<sigma> l (BvLiteral a)" and "has_val L \<sigma> (BvLit b) (BvLiteral b)" and "same_width a b"
    and "eval_bv_arith L k a b = Inr c" and "fold_right_Bv L k l (BvLit b) b = Some q"
  shows "has_val L \<sigma> q (BvLiteral c)"
proof -
  have L: "llvm_laws L" and \<sigma>: "valuation_ok \<sigma>" using assms(1) by (auto simp: has_val_laws)
  have w: "getBitWidth b = getBitWidth a" and okb: "apint_ok b" and pos: "0 < getBitWidth a"
    using assms(3) by (auto simp: same_width_def apint_ok_def)
  have zero: "apOfNat L (getBitWidth b) 0 = mk_ap (getBitWidth a) 0"
    using llvm_of_nat [OF L pos, of 0] w by simp
  note rules = bv_right_zero [OF L assms(3)] bv_right_one [OF L assms(3)] bv_right_ones [OF L assms(3)]
  show ?thesis
    using assms(1,2,4,5) pos
    by (cases k) (auto simp: fold_right_Bv_def eval_bv_arith_def llvm_tests [OF L okb]
        has_val_lit [OF L \<sigma>] rules zero split: if_splits)
qed

lemma in_int64_0 [simp]: "in_int64 0"
  by (simp add: in_int64_def)

lemma fold_right_Int_val:
  assumes "has_val L \<sigma> l (IntLiteral a)" and "in_int64 v"
    and "eval_int_arith k a v = Inr c" and "fold_right_Int k l (IntLit v) v = Some q"
  shows "has_val L \<sigma> q (IntLiteral c)"
proof -
  have L: "llvm_laws L" "valuation_ok \<sigma>" using assms(1) by (auto simp: has_val_laws)
  show ?thesis
    using assms
    by (cases k) (auto simp: fold_right_Int_def eval_int_arith_def i64_eq_Inr i64_div_def i64_rem_def
        eval_int_mod_def rbind_eq_Inr has_val_lit [OF L] split: if_splits)
qed

lemma fold_lits_Int_val:
  assumes "llvm_laws L" and "valuation_ok \<sigma>" and "eval_int_arith k a b = Inr c"
    and "in_int64 c"
  shows "fold_lits_Int k a b = Inr None \<or> (\<exists>q. fold_lits_Int k a b = Inr (Some q) \<and> has_val L \<sigma> q (IntLiteral c))"
  using assms(3,4)
  by (cases k) (auto simp: eval_int_arith_def fold_lits_Int_def has_val_lit [OF assms(1,2)])

lemma fold_lits_val:
  assumes l: "has_val L \<sigma> l x" and r: "has_val L \<sigma> r y"
    and ev: "EvalBinaryArithmetic L k (ALit x) (ALit y) = Inr (ALit z)" and sh: "shift_ok k r"
    and z: "lit_ok z"
  shows "fold_lits L k l r = Inr None \<or> (\<exists>q. fold_lits L k l r = Inr (Some q) \<and> has_val L \<sigma> q z)"
proof -
  have L: "llvm_laws L" and \<sigma>: "valuation_ok \<sigma>" using l by (auto simp: has_val_laws)
  from EvalBinaryArithmetic_lits [OF ev] show ?thesis
  proof (elim disjE exE conjE)
    fix a b c
    assume xy: "x = BvLiteral a" "y = BvLiteral b" "getBitWidth a = getBitWidth b"
      "eval_bv_arith L k a b = Inr c" "z = BvLiteral c"
    then have sw: "same_width a b" using l r by (auto intro: has_val_same_width)
    have nl: "dyn_Int l = None"
      using l xy by (cases "dyn_Int l") (auto simp: dyn_Some has_val_lit [OF L \<sigma>])
    show ?thesis
    proof (cases "dyn_Bv l")
      case None
      with nl show ?thesis by (simp add: fold_lits_def)
    next
      case (Some a')
      with l xy have a': "a' = a" "l = BvLit a" by (auto simp: dyn_Some has_val_lit [OF L \<sigma>])
      show ?thesis
      proof (cases "dyn_Bv r")
        case None
        have "c = a" if "k \<in> zero_left_kinds" "apIsZero L a"
          using bv_left_zero [OF L sw _ that(1) xy(4)] that(2) llvm_tests(1) [OF L, of a] sw
          by (auto simp: same_width_def)
        with None Some nl a' l xy show ?thesis by (auto simp: fold_lits_def)
      next
        case (Some b')
        with r xy have b': "b' = b" by (auto simp: dyn_Some has_val_lit [OF L \<sigma>])
        with Some sh have "fold_bv_arith L k a b = Inr c"
          using fold_bv_arith_eval [OF L sw xy(4)] by (auto simp: shift_ok_def)
        with Some \<open>dyn_Bv l = Some a'\<close> a' b' nl xy z show ?thesis
          by (auto simp: fold_lits_def has_val_lit [OF L \<sigma>])
      qed
    qed
  next
    fix a b c
    assume xy: "x = IntLiteral a" "y = IntLiteral b" "eval_int_arith k a b = Inr c" "z = IntLiteral c"
    have nl: "dyn_Bv l = None"
      using l xy by (cases "dyn_Bv l") (auto simp: dyn_Some has_val_lit [OF L \<sigma>])
    show ?thesis
    proof (cases "dyn_Int l = None \<or> dyn_Int r = None")
      case True
      with nl show ?thesis by (auto simp: fold_lits_def split: option.splits)
    next
      case False
      then have "l = IntLit a" "r = IntLit b" using l r xy by (auto simp: dyn_Some has_val_lit [OF L \<sigma>])
      then show ?thesis
        using fold_lits_Int_val [OF L \<sigma> xy(3)] z xy(4) by (simp add: fold_lits_def)
    qed
  qed
qed

lemma foldBinaryExpr_no_swap:
  assumes f: "foldable L \<sigma> k l r z"
    and "dyn_Int r \<noteq> None \<or> dyn_Bv r \<noteq> None \<or> \<not> (isLiteral l \<and> isCommutative k)"
  shows "folds_to L \<sigma> (foldBinaryExpr (Suc n) L k l r) z"
proof -
  from f obtain x y where xy: "has_val L \<sigma> l x" "has_val L \<sigma> r y"
      and ev: "EvalBinaryArithmetic L k (ALit x) (ALit y) = Inr (ALit z)" and sh: "shift_ok k r" "lit_ok z"
    by (auto simp: foldable_def)
  have L: "llvm_laws L" and \<sigma>: "valuation_ok \<sigma>" using xy(1) by (auto simp: has_val_laws)
  have lits: "folds_to L \<sigma> (fold_lits L k l r) z"
    using fold_lits_val [OF xy ev sh] by (simp add: folds_to_def)
  show ?thesis
  proof (cases "dyn_Int r")
    case (Some v)
    then have r: "r = IntLit v" "y = IntLiteral v" using xy(2) by (auto simp: dyn_Some has_val_lit [OF L \<sigma>])
    then obtain a c where ac: "x = IntLiteral a" "eval_int_arith k a v = Inr c" "z = IntLiteral c"
      using EvalBinaryArithmetic_lits [OF ev] by auto
    have "in_int64 v" using has_val_lit_ok [OF xy(2)] r by simp
    then have "has_val L \<sigma> q z" if "fold_right_Int k l r v = Some q" for q
      using fold_right_Int_val [of L \<sigma> l a v k c q] xy(1) ac r that by simp
    with Some lits show ?thesis by (auto simp: folds_to_def split: option.splits)
  next
    case None
    show ?thesis
    proof (cases "dyn_Bv r")
      case (Some b)
      then have r: "r = BvLit b" "y = BvLiteral b" using xy(2) by (auto simp: dyn_Some has_val_lit [OF L \<sigma>])
      then obtain a c where ac: "x = BvLiteral a" "getBitWidth a = getBitWidth b"
          "eval_bv_arith L k a b = Inr c" "z = BvLiteral c"
        using EvalBinaryArithmetic_lits [OF ev] by auto
      then have "same_width a b" using xy r by (auto intro: has_val_same_width)
      then have "has_val L \<sigma> q z" if "fold_right_Bv L k l r b = Some q" for q
        using fold_right_Bv_val [of L \<sigma> l a b k c q] xy ac r that by simp
      with Some None lits show ?thesis by (auto simp: folds_to_def split: option.splits)
    next
      case N: None
      with None assms(2) lits show ?thesis by auto
    qed
  qed
qed

lemma foldable_swap:
  assumes "foldable L \<sigma> k l r z" and com: "isCommutative k"
  shows "foldable L \<sigma> k r l z"
proof -
  from assms(1) obtain x y where xy: "has_val L \<sigma> l x" "has_val L \<sigma> r y"
      and ev: "EvalBinaryArithmetic L k (ALit x) (ALit y) = Inr (ALit z)" and z: "lit_ok z"
    by (auto simp: foldable_def)
  have L: "llvm_laws L" using xy(1) by (simp add: has_val_laws)
  have sh: "shift_ok k l" using com by (auto simp: shift_ok_def isCommutative_def)
  from EvalBinaryArithmetic_lits [OF ev] have "EvalBinaryArithmetic L k (ALit y) (ALit x) = Inr (ALit z)"
  proof (elim disjE exE conjE)
    fix a b c
    assume e: "x = BvLiteral a" "y = BvLiteral b" "getBitWidth a = getBitWidth b"
      "eval_bv_arith L k a b = Inr c" "z = BvLiteral c"
    then have sw: "same_width a b" using xy by (auto intro: has_val_same_width)
    have "getBitWidth c = getBitWidth a" using eval_bv_arith_ok [OF L sw e(4)] by simp
    then show ?thesis using e eval_bv_arith_commute [OF L sw com]
      by (auto simp: EvalBinaryArithmetic_def bv_atom_def BvLiteralExpr_Get_def)
  next
    fix a b c
    assume "x = IntLiteral a" "y = IntLiteral b" "eval_int_arith k a b = Inr c" "z = IntLiteral c"
    then show ?thesis using eval_int_arith_commute [OF com, of b a] by (simp add: EvalBinaryArithmetic_def)
  qed
  with xy sh z show ?thesis by (auto simp: foldable_def)
qed

lemma foldBinaryExpr_val:
  assumes "foldable L \<sigma> k l r z"
  shows "folds_to L \<sigma> (foldBinaryExpr (Suc (Suc n)) L k l r) z"
proof (cases "dyn_Int r \<noteq> None \<or> dyn_Bv r \<noteq> None \<or> \<not> (isLiteral l \<and> isCommutative k)")
  case True
  with assms show ?thesis by (rule foldBinaryExpr_no_swap)
next
  case False
  then have com: "isCommutative k" and lit: "isLiteral l" and r: "dyn_Int r = None" "dyn_Bv r = None" by auto
  from assms obtain x y where xy: "has_val L \<sigma> l x" "EvalBinaryArithmetic L k (ALit x) (ALit y) = Inr (ALit z)"
    by (auto simp: foldable_def)
  then have "dyn_Int l \<noteq> None \<or> dyn_Bv l \<noteq> None"
    using lit EvalBinaryArithmetic_lits [OF xy(2)] by (auto simp: dyn_Some has_val_def)
  then have "folds_to L \<sigma> (foldBinaryExpr (Suc n) L k r l) z"
    using foldBinaryExpr_no_swap [OF foldable_swap [OF assms com]] by blast
  with com lit r show ?thesis by simp
qed

lemma Arithmetic_Create_eq: "ArithmeticExpr_Create k l r = Inr p \<Longrightarrow> p = node k (getType l) [l, r]"
  by (simp add: ArithmeticExpr_Create_def check_eq_Inr)

lemma fold_Arithmetic_yields:
  assumes p: "ArithmeticExpr_Create k l r = Inr p" and v: "has_val L \<sigma> p z"
    and k: "k \<in> arith_kinds \<union> bv_kinds \<union> {Div}" and sh: "shift_ok k r"
  shows "yields L \<sigma> (fold_Arithmetic L k l r) z"
proof (cases "k \<in> {Div, Mod, Rem}")
  case True
  with p v show ?thesis by (simp add: fold_Arithmetic_def)
next
  case False
  from v Arithmetic_Create_eq [OF p] obtain x y where "has_val L \<sigma> l x" "has_val L \<sigma> r y"
      "eval_node L k (getType l) NoData [ALit x, ALit y] = Inr (ALit z)"
    by (auto elim!: node_vals2)
  then have "foldable L \<sigma> k l r z"
    using sh has_val_lit_ok [OF v] k by (auto simp: foldable_def eval_node_arith visitBinaryArithmetic_def)
  then have "folds_to L \<sigma> (foldBinaryExpr 3 L k l r) z"
    unfolding numeral_3_eq_3 by (rule foldBinaryExpr_val)
  with False p v show ?thesis by (auto simp: fold_Arithmetic_def folds_to_def)
qed

text \<open>Casts, queries and reads: with a literal operand the builder calls the LLVM routine the
  evaluator calls.\<close>

lemma fold_Ext_yields:
  assumes "ExtCastExpr_Create k e t = Inr p" and "has_val L \<sigma> p z" and "k \<in> {ZExt, SExt}"
  shows "yields L \<sigma> (fold_Ext L k e t) z"
proof (cases "dyn_Bv e")
  case (Some a)
  with assms(1) obtain w where t: "t = BvType w" and e: "e = BvLit a" and p: "p = node k t [e]"
    by (auto simp: ExtCastExpr_Create_def dyn_Some check_eq_Inr split: gtype.splits)
  have ok: "lit_ok z" "llvm_laws L" "valuation_ok \<sigma>" using assms(2) by (auto simp: has_val_laws intro: has_val_lit_ok)
  have "eval L \<sigma> p = Inr (ALit z)" using assms(2) by (rule has_val_laws)
  with p e t assms(3) obtain x where x: "(if k = ZExt then apZExt L a w else apSExt L a w) = Some x"
      "getBitWidth x = w" "z = BvLiteral x"
    by (auto simp: eval_unary eval_node_def visitZExt_def visitSExt_def visit_simps)
  then show ?thesis
    using Some t ok by (auto simp: fold_Ext_def BvLiteralExpr_Get_def has_val_lit)
next
  case None
  with assms show ?thesis by (simp add: fold_Ext_def)
qed

lemma has_val_not_undef: "has_val L \<sigma> e l \<Longrightarrow> \<not> isUndef e"
  by (cases e) (auto simp: has_val_def isUndef_def dest: built_kinds_ok)

lemma fold_Extract_yields:
  assumes "ExtractExpr_Create e offset width = Inr p" and "has_val L \<sigma> p z"
  shows "yields L \<sigma> (fold_Extract L e offset width) z"
proof -
  have p: "p = NonNullaryExpr Extract (BvType width) [e] (ExtractData offset width)"
    using assms(1) by (auto simp: ExtractExpr_Create_def check_eq_Inr split: gtype.splits)
  then have nu: "\<not> isUndef e" using assms(2) has_val_not_undef by (auto elim!: node_vals1)
  show ?thesis
  proof (cases "dyn_Bv e")
    case (Some a)
    then have e: "e = BvLit a" by (simp add: dyn_Some)
    have ok: "lit_ok z" "llvm_laws L" "valuation_ok \<sigma>" using assms(2) by (auto simp: has_val_laws intro: has_val_lit_ok)
    have "eval L \<sigma> p = Inr (ALit z)" using assms(2) by (rule has_val_laws)
    with p e obtain x where "apExtract L a width offset = Some x" "getBitWidth x = width" "z = BvLiteral x"
      by (auto simp: eval_unary eval_node_def visitExtract_def visit_simps)
    then show ?thesis using Some ok by (auto simp: fold_Extract_def BvLiteralExpr_Get_def has_val_lit)
  next
    case None
    with assms nu show ?thesis by (simp add: fold_Extract_def)
  qed
qed

lemma fold_BvConcat_yields:
  assumes "BvConcatExpr_Create l r = Inr p" and "has_val L \<sigma> p z"
  shows "yields L \<sigma> (fold_BvConcat L l r) z"
proof -
  obtain w v where wv: "getType l = BvType w" "getType r = BvType v" and p: "p = node BvConcat (BvType (u32 (w + v))) [l, r]"
    using assms(1) by (auto simp: BvConcatExpr_Create_def split: gtype.splits)
  then have nu: "\<not> isUndef l" using assms(2) has_val_not_undef by (auto elim!: node_vals2)
  show ?thesis
  proof (cases "dyn_Bv l = None \<or> dyn_Bv r = None")
    case True
    with assms nu wv show ?thesis by (auto simp: fold_BvConcat_def Let_def split: option.splits)
  next
    case False
    then obtain a b where e: "l = BvLit a" "r = BvLit b" by (auto simp: dyn_Some)
    have ok: "lit_ok z" "llvm_laws L" "valuation_ok \<sigma>" using assms(2) by (auto simp: has_val_laws intro: has_val_lit_ok)
    have "eval L \<sigma> p = Inr (ALit z)" using assms(2) by (rule has_val_laws)
    with p e wv obtain a1 a2 b1 where "apZExt L a (u32 (w + v)) = Some a1" "apShlN L a1 v = Some a2"
        "apZExt L b (u32 (w + v)) = Some b1" "z = BvLiteral (apOr L a2 b1)"
      by (auto simp: eval_binary eval_node_def visitBvConcat_def Let_def visit_simps)
    then show ?thesis using wv e ok by (auto simp: fold_BvConcat_def Let_def has_val_lit)
  qed
qed

lemma fold_FpQuery_yields:
  assumes "FpQueryExpr_Create k e = Inr p" and "has_val L \<sigma> p z" and "k \<in> {FIsNan, FIsInf}"
  shows "yields L \<sigma> (fold_FpQuery L k e) z"
proof (cases "dyn_Float e")
  case (Some f)
  have p: "p = node k BoolType [e]" using assms(1) by (simp add: FpQueryExpr_Create_def check_eq_Inr)
  have ok: "llvm_laws L" "valuation_ok \<sigma>" and "eval L \<sigma> p = Inr (ALit z)" using assms(2) by (auto simp: has_val_laws)
  with p Some assms(3) show ?thesis
    by (auto simp: fold_FpQuery_def BoolLit_def dyn_Some eval_unary eval_node_def visitFIsNan_def visitFIsInf_def
        visit_simps bool_lit_val)
next
  case None
  with assms show ?thesis by (simp add: fold_FpQuery_def)
qed

lemma fold_Read_yields:
  assumes "ArrayReadExpr_Create a i = Inr p" and "has_val L \<sigma> p z"
  shows "yields L \<sigma> (fold_Read a i) z"
proof (cases "\<exists>it et d. a = LiteralExpr (ArrayLiteral it et [] d)")
  case True
  then obtain it et d where a: "a = LiteralExpr (ArrayLiteral it et [] d)" by blast
  then have p: "p = node ArrayRead et [a, i]" using assms(1) by (simp add: ArrayReadExpr_Create_def check_eq_Inr)
  obtain x y where xy: "has_val L \<sigma> a x" "eval_node L ArrayRead et NoData [ALit x, ALit y] = Inr (ALit z)"
    using assms(2) p by (auto elim!: node_vals2)
  have ok: "llvm_laws L" "valuation_ok \<sigma>" using xy(1) by (auto simp: has_val_laws)
  have x: "x = ArrayLiteral it et [] d" "lit_ok x" using xy(1) a by (auto simp: has_val_lit [OF ok])
  then have "z = d" using xy(2) by (auto simp: eval_node_def visitArrayRead_def visit_simps)
  with a x ok show ?thesis by (simp add: has_val_lit)
next
  case False
  then have "fold_Read a i = ArrayReadExpr_Create a i" by (cases "(a, i)" rule: fold_Read.cases) auto
  with assms show ?thesis by simp
qed

end
