(* ===== verification/GazerFoldCompare.thy ===== *)
theory GazerFoldCompare
  imports GazerFoldArith
begin

text \<open>
  The folding builder against the evaluator: comparisons and selections, and the inputs on which two
  of its rules change the value.
\<close>

text \<open>The types on which the evaluator compares for equality.\<close>

fun eq_type :: "gtype \<Rightarrow> bool" where
  "eq_type BoolType = True"
| "eq_type IntType = True"
| "eq_type (BvType _) = True"
| "eq_type _ = False"

text \<open>The result has the value, or the builder's 64-bit arithmetic overflows.\<close>

definition yields_or_overflow :: "llvm_api \<Rightarrow> valuation \<Rightarrow> expr res \<Rightarrow> literal \<Rightarrow> bool" where
  "yields_or_overflow L \<sigma> r z \<longleftrightarrow> yields L \<sigma> r z \<or> r = Inl SignedOverflow"

text \<open>The inputs of the two rules that are not sound: a selection between two equal literals compared
  with that literal, and a selection whose else-branch is the then-branch of a nested selection.\<close>

definition degenerate_eq :: "expr \<Rightarrow> expr \<Rightarrow> bool" where
  "degenerate_eq l r = (case (m_Select_Literals l, m_Select_Literals r) of
     (Some (c, a, b), None) \<Rightarrow> a = b
   | (None, Some (c, a, b)) \<Rightarrow> a = b
   | _ \<Rightarrow> False)"

definition swapped_select :: "expr \<Rightarrow> expr \<Rightarrow> expr \<Rightarrow> bool" where
  "swapped_select c t f = (case m_Select t of
     Some (c2, e1, e2) \<Rightarrow> e1 = f \<and> e1 \<noteq> e2 \<and> c2 \<noteq> c
   | None \<Rightarrow> False)"

text \<open>The plain selection has the value \<open>z\<close>: the premise of the rules of \<open>Select\<close>.\<close>

definition select_val :: "llvm_api \<Rightarrow> valuation \<Rightarrow> expr \<Rightarrow> expr \<Rightarrow> expr \<Rightarrow> literal \<Rightarrow> bool" where
  "select_val L \<sigma> c t f z \<longleftrightarrow> (\<exists>b x y. bool_val L \<sigma> c b \<and> has_val L \<sigma> t x \<and> has_val L \<sigma> f y \<and>
     lit_type x = lit_type y \<and> getTypeID (lit_type x) \<le> 4 \<and> z = (if b then x else y))"

lemma literal_eq_bv: "has_val L \<sigma> l (BvLiteral a) \<Longrightarrow> has_val L \<sigma> r (BvLiteral b) \<Longrightarrow>
    getBitWidth a = getBitWidth b \<Longrightarrow> apEq L a b \<longleftrightarrow> a = b"
  using llvm_eq has_val_same_width has_val_laws(1) by blast

lemma EvalEq:
  assumes "has_val L \<sigma> l x" and "has_val L \<sigma> r y"
  shows "EvalBinaryCompare L Eq (ALit x) (ALit y) = Inr (ALit z) \<longleftrightarrow>
    lit_type x = lit_type y \<and> eq_type (lit_type x) \<and> z = BoolLiteral (x = y)"
proof (cases "lit_type x = lit_type y")
  case True
  show ?thesis
  proof (cases x)
    case (BvLiteral a)
    with True obtain b where b: "y = BvLiteral b" "getBitWidth a = getBitWidth b" by (cases y) auto
    then have "apEq L a b \<longleftrightarrow> a = b" using assms BvLiteral literal_eq_bv by blast
    with BvLiteral b show ?thesis by (auto simp: EvalBinaryCompare_def EvalBvCompare_def)
  next
    case (BoolLiteral a)
    with True obtain b where b: "y = BoolLiteral b" by (cases y) auto
    with BoolLiteral show ?thesis by (auto simp: EvalBinaryCompare_def)
  next
    case (IntLiteral a)
    with True obtain b where b: "y = IntLiteral b" by (cases y) auto
    with IntLiteral show ?thesis by (auto simp: EvalBinaryCompare_def EvalIntCompare_def)
  qed (use True [symmetric] in \<open>auto simp: EvalBinaryCompare_def check_def\<close>)
next
  case False
  have "function_free (lit_type x)" using has_val_lit_ok [OF assms(1)] by (rule lit_ok_function_free)
  then have "\<not> type_equals (lit_type x) (lit_type y)" using False type_equals_sound by blast
  with False show ?thesis by (simp add: EvalBinaryCompare_def)
qed

lemma Compare_Create_eq: "CompareExpr_Create k l r = Inr p \<Longrightarrow> p = node k BoolType [l, r]"
  by (simp add: CompareExpr_Create_def check_eq_Inr)

lemma Eq_node_vals:
  assumes "has_val L \<sigma> (node Eq BoolType [l, r]) z"
  obtains x y where "has_val L \<sigma> l x" "has_val L \<sigma> r y" "lit_type x = lit_type y"
    "eq_type (lit_type x)" "z = BoolLiteral (x = y)"
proof -
  from assms obtain x y where xy: "has_val L \<sigma> l x" "has_val L \<sigma> r y"
      "eval_node L Eq BoolType NoData [ALit x, ALit y] = Inr (ALit z)"
    by (rule node_vals2)
  then have "EvalBinaryCompare L Eq (ALit x) (ALit y) = Inr (ALit z)"
    by (simp add: eval_node_compare compare_kinds_def visitBinaryCompare_def)
  with that xy(1,2) EvalEq [OF xy(1,2)] show ?thesis by blast
qed

lemma Eq_Create_yields:
  assumes "has_val L \<sigma> l x" and "has_val L \<sigma> r y" and "lit_type x = lit_type y" and "eq_type (lit_type x)"
  shows "CompareExpr_Create Eq l r = Inr (node Eq BoolType [l, r])"
    and "bool_val L \<sigma> (node Eq BoolType [l, r]) (x = y)"
proof -
  have t: "getType l = getType r" using assms has_val_type by metis
  then show "CompareExpr_Create Eq l r = Inr (node Eq BoolType [l, r])"
    by (simp add: CompareExpr_Create_def is_bv_only_compare_def)
  have "well_typed (node Eq BoolType [l, r])"
    using t assms(1,2) by (intro wt_compare) (auto simp: has_val_laws compare_kinds_def)
  moreover have "eval L \<sigma> (node Eq BoolType [l, r]) = bool_atom (x = y)"
    using assms EvalEq [OF assms(1,2)] has_val_laws(4) [OF assms(1)] has_val_laws(4) [OF assms(2)]
    by (auto simp: eval_binary eval_node_compare compare_kinds_def visitBinaryCompare_def)
  ultimately show "bool_val L \<sigma> (node Eq BoolType [l, r]) (x = y)"
    using assms(1,2) by (intro has_val_nodeI) auto
qed

text \<open>Selections.\<close>

lemma EvalSelect_value:
  assumes "lit_type x = lit_type y" and "getTypeID (lit_type x) \<le> 4"
  shows "EvalSelect c (ALit x) (ALit y) = Inr (ALit (if c then x else y))"
  using assms
  by (cases x; cases y)
    (auto simp: EvalSelect_def bv_atom_def BvLiteralExpr_Get_def FloatLiteralExpr_Get_def)

lemma Select_node_vals:
  assumes "has_val L \<sigma> (node Select t [c, e1, e2]) z"
  obtains b x y where "bool_val L \<sigma> c b" "has_val L \<sigma> e1 x" "has_val L \<sigma> e2 y"
    "z = (if b then x else y)" "lit_type x = lit_type y" "getTypeID (lit_type x) \<le> 4" "t = lit_type x"
proof -
  from assms obtain v x y where v: "has_val L \<sigma> c v" "has_val L \<sigma> e1 x" "has_val L \<sigma> e2 y"
      "eval_node L Select t NoData [ALit v, ALit x, ALit y] = Inr (ALit z)"
    by (rule node_vals3)
  have t: "t = lit_type x" "lit_type x = lit_type y"
    using wt_SelectD [OF has_val_laws(3) [OF assms]] has_val_type [OF v(2)] has_val_type [OF v(3)] by auto
  from v(4) t obtain b where b: "v = BoolLiteral b" "getTypeID (lit_type x) \<le> 4"
      "EvalSelect b (ALit x) (ALit y) = Inr (ALit z)"
    by (auto simp: eval_node_def visitSelect_def visit_simps)
  then have "z = (if b then x else y)" using EvalSelect_value [OF t(2), of b] by auto
  with that v b t show ?thesis by blast
qed

lemma Select_val:
  assumes "bool_val L \<sigma> c b" and "has_val L \<sigma> e1 x" and "has_val L \<sigma> e2 y"
    and "lit_type x = lit_type y" and "getTypeID (lit_type x) \<le> 4"
  shows "yields L \<sigma> (SelectExpr_Create c e1 e2) (if b then x else y)"
proof -
  have t: "getType e1 = lit_type x" "getType e2 = lit_type x" "getType c = BoolType"
    using assms has_val_type by fastforce+
  have "well_typed (node Select (lit_type x) [c, e1, e2])"
    using t assms(1-3) by (intro wt_select) (auto simp: has_val_laws)
  moreover have "eval L \<sigma> (node Select (lit_type x) [c, e1, e2]) = Inr (ALit (if b then x else y))"
    using assms(5) has_val_laws(4) [OF assms(1)] has_val_laws(4) [OF assms(2)] has_val_laws(4) [OF assms(3)]
      EvalSelect_value [OF assms(4,5), of b]
    by (auto simp: eval_ternary eval_node_def visitSelect_def check_def)
  ultimately have "has_val L \<sigma> (node Select (lit_type x) [c, e1, e2]) (if b then x else y)"
    using assms(1-3) by (intro has_val_nodeI) auto
  with t show ?thesis by (simp add: SelectExpr_Create_def)
qed

text \<open>Equality.\<close>

lemma compare_Bool_val:
  assumes "bool_val L \<sigma> x a"
  shows "\<exists>q. compare_Bool Eq x b = Inr (Some q) \<and> bool_val L \<sigma> q (a = b)"
proof (cases b)
  case True
  with assms show ?thesis by (simp add: compare_Bool_def)
next
  case False
  obtain q where "fold_Not x = Inr q" "bool_val L \<sigma> q (\<not> a)"
    using fold_Not_yields [OF assms] by (auto simp: yields_def)
  with False show ?thesis by (simp add: compare_Bool_def)
qed

lemma compare_lits_Eq:
  assumes "\<not> (isLiteral l \<and> isLiteral r)"
  shows "compare_lits L k l r = Inr None"
  using assms
  by (auto simp: compare_lits_def dyn_Some split: option.splits)

lemma foldBinaryCompare_Eq:
  assumes "has_val L \<sigma> l x" and "has_val L \<sigma> r y" and "lit_type x = lit_type y"
    and "\<not> (isLiteral l \<and> isLiteral r)"
  shows "foldBinaryCompare L Eq l r = Inr None \<or>
    (\<exists>q. foldBinaryCompare L Eq l r = Inr (Some q) \<and> bool_val L \<sigma> q (x = y))"
proof -
  have L: "llvm_laws L" "valuation_ok \<sigma>" using assms(1) by (auto simp: has_val_laws)
  show ?thesis
  proof (cases "dyn_Bool r")
    case (Some b)
    then have y: "y = BoolLiteral b" using assms(2) by (auto simp: dyn_Some has_val_lit [OF L])
    with assms(3) obtain a where "x = BoolLiteral a" by (cases x) auto
    with y assms(1) compare_Bool_val [of L \<sigma> l a b] Some show ?thesis
      by (auto simp: foldBinaryCompare_def foldBinaryCompare_right_def)
  next
    case None
    show ?thesis
    proof (cases "dyn_Bool l")
      case (Some b)
      then have x: "x = BoolLiteral b" using assms(1) by (auto simp: dyn_Some has_val_lit [OF L])
      with assms(3) obtain a where a: "y = BoolLiteral a" by (cases y) auto
      then obtain q where "compare_Bool Eq r b = Inr (Some q)" "bool_val L \<sigma> q (a = b)"
        using assms(2) compare_Bool_val [of L \<sigma> r a b] by blast
      moreover have "(a = b) = (x = y)" using x a by auto
      ultimately show ?thesis
        using Some None by (auto simp: foldBinaryCompare_def foldBinaryCompare_right_def)
    next
      case N: None
      with None assms(4) show ?thesis by (simp add: foldBinaryCompare_def compare_lits_Eq)
    qed
  qed
qed

lemma select_literals_val:
  assumes "has_val L \<sigma> e x" and "m_Select_Literals e = Some (c, l1, LiteralExpr y)" and "l1 \<noteq> LiteralExpr y"
  shows "\<exists>b. bool_val L \<sigma> c b \<and> (\<not> b) = (x = y)"
proof -
  have L: "llvm_laws L" "valuation_ok \<sigma>" using assms(1) by (auto simp: has_val_laws)
  from assms(2) obtain z where m: "m_Select e = Some (c, LiteralExpr z, LiteralExpr y)" "l1 = LiteralExpr z"
    by (auto simp: m_Select_Literals_def dyn_Some split: option.splits if_splits)
  have "e = node Select (getType (LiteralExpr z)) [c, LiteralExpr z, LiteralExpr y]"
    using m_Select_Some [OF m(1)] assms(1) by (simp add: has_val_laws)
  with assms(1) obtain b x' y' where b: "bool_val L \<sigma> c b" "has_val L \<sigma> (LiteralExpr z) x'"
      "has_val L \<sigma> (LiteralExpr y) y'" "x = (if b then x' else y')"
    by (metis Select_node_vals)
  then have "x' = z" "y' = y" by (auto simp: has_val_lit [OF L])
  with b m(2) assms(3) show ?thesis by auto
qed

lemma Eq_select_match_val:
  assumes "has_val L \<sigma> l x" and "has_val L \<sigma> r y" and "Eq_select_match l r = Some c" and "\<not> degenerate_eq l r"
  shows "\<exists>b. bool_val L \<sigma> c b \<and> (\<not> b) = (x = y)"
proof -
  have L: "llvm_laws L" "valuation_ok \<sigma>" using assms(1) by (auto simp: has_val_laws)
  have lits: "\<exists>u v. a = LiteralExpr u \<and> b = LiteralExpr v" if "m_Select_Literals e = Some (d, a, b)" for e d a b
    using that by (auto simp: m_Select_Literals_def dyn_Some split: option.splits if_splits)
  from assms(3) consider
      a b where "m_Select_Literals l = Some (c, a, b)" "r = b" "m_Select_Literals r = None"
    | a b where "m_Select_Literals r = Some (c, a, b)" "l = b" "m_Select_Literals l = None"
    by (auto simp: Eq_select_match_def split: option.splits if_splits)
  then show ?thesis
  proof cases
    case (1 a b)
    then obtain v where v: "b = LiteralExpr v" using lits by blast
    have "y = v" using assms(2) 1 v by (auto simp: has_val_lit [OF L])
    moreover have "a \<noteq> b" using 1 assms(4) by (simp add: degenerate_eq_def)
    ultimately show ?thesis using select_literals_val [OF assms(1), of c a v] 1 v by blast
  next
    case (2 a b)
    then obtain v where v: "b = LiteralExpr v" using lits by blast
    have "x = v" using assms(1) 2 v by (auto simp: has_val_lit [OF L])
    moreover have "a \<noteq> b" using 2 assms(4) by (simp add: degenerate_eq_def)
    ultimately show ?thesis using select_literals_val [OF assms(2), of c a v] 2 v by metis
  qed
qed

lemma fold_Eq_yields:
  assumes "has_val L \<sigma> l x" and "has_val L \<sigma> r y" and "lit_type x = lit_type y" and "eq_type (lit_type x)"
    and "\<not> degenerate_eq l r"
  shows "yields L \<sigma> (fold_Eq L l r) (BoolLiteral (x = y))"
proof -
  have L: "llvm_laws L" "valuation_ok \<sigma>" using assms(1) by (auto simp: has_val_laws)
  show ?thesis
  proof (cases "l = r \<or> isLiteral l \<and> isLiteral r")
    case True
    with assms(1,2) show ?thesis
      using has_val_unique [OF assms(1), of y]
      by (auto simp: fold_Eq_def has_val_lit [OF L] dyn_Some)
  next
    case False
    from foldBinaryCompare_Eq [OF assms(1-3)] False have
      "foldBinaryCompare L Eq l r = Inr None \<or>
        (\<exists>q. foldBinaryCompare L Eq l r = Inr (Some q) \<and> bool_val L \<sigma> q (x = y))" by blast
    then show ?thesis
    proof
      assume none: "foldBinaryCompare L Eq l r = Inr None"
      show ?thesis
      proof (cases "Eq_select_match l r")
        case None
        with none False Eq_Create_yields [OF assms(1-4)] show ?thesis by (auto simp: fold_Eq_def)
      next
        case (Some c)
        then obtain b where b: "bool_val L \<sigma> c b" "(\<not> b) = (x = y)"
          using Eq_select_match_val [OF assms(1,2) Some assms(5)] by blast
        have "fold_Eq L l r = fold_Not c" using none Some False by (auto simp: fold_Eq_def)
        with fold_Not_yields [OF b(1)] b(2) show ?thesis by simp
      qed
    qed (use False in \<open>auto simp: fold_Eq_def\<close>)
  qed
qed

text \<open>Integer order.\<close>

abbreviation int_val :: "llvm_api \<Rightarrow> valuation \<Rightarrow> expr \<Rightarrow> int \<Rightarrow> bool" where
  "int_val L \<sigma> e v \<equiv> has_val L \<sigma> e (IntLiteral v)"

lemma order_node_vals:
  assumes "has_val L \<sigma> (node k BoolType [l, r]) z" and "k \<in> {Lt, LtEq, Gt, GtEq}"
  obtains u v where "int_val L \<sigma> l u" "int_val L \<sigma> r v" "compare_Int_lits k u v = Inr (z = BoolLiteral True)"
    "\<exists>b. z = BoolLiteral b"
proof -
  from assms(1) obtain x y where xy: "has_val L \<sigma> l x" "has_val L \<sigma> r y"
      "eval_node L k BoolType NoData [ALit x, ALit y] = Inr (ALit z)"
    by (rule node_vals2)
  then have ev: "EvalBinaryCompare L k (ALit x) (ALit y) = Inr (ALit z)"
    using assms(2) by (auto simp: eval_node_compare compare_kinds_def visitBinaryCompare_def)
  then obtain u v where "x = IntLiteral u" "y = IntLiteral v" "EvalIntCompare k u v = Inr (ALit z)"
    using assms(2) by (cases x) (auto simp: EvalBinaryCompare_def EvalBvCompare_def visit_simps)
  with that xy(1,2) assms(2) show ?thesis by (auto simp: EvalIntCompare_def compare_Int_lits_def)
qed

lemma LtEq_Create_yields:
  assumes "int_val L \<sigma> l u" and "int_val L \<sigma> r v"
  shows "yields L \<sigma> (CompareExpr_Create LtEq l r) (BoolLiteral (u \<le> v))"
proof -
  have t: "getType l = IntType" "getType r = IntType" using assms has_val_type by fastforce+
  have "well_typed (node LtEq BoolType [l, r])"
    using t assms by (intro wt_compare) (auto simp: has_val_laws compare_kinds_def)
  moreover have "eval L \<sigma> (node LtEq BoolType [l, r]) = bool_atom (u \<le> v)"
    using has_val_laws(4) [OF assms(1)] has_val_laws(4) [OF assms(2)]
    by (auto simp: eval_binary eval_node_compare compare_kinds_def visitBinaryCompare_def
        EvalBinaryCompare_def EvalIntCompare_def)
  ultimately have "bool_val L \<sigma> (node LtEq BoolType [l, r]) (u \<le> v)"
    using assms by (intro has_val_nodeI) auto
  with t show ?thesis by (simp add: CompareExpr_Create_def is_bv_only_compare_def)
qed

lemma int_lit_val: "int_val L \<sigma> e u \<Longrightarrow> in_int64 v \<Longrightarrow> int_val L \<sigma> (IntLit v) v"
  by (simp add: has_val_lit has_val_laws)

lemma int_node_val:
  assumes "int_val L \<sigma> e v" and "binary_match k e = Some (a, b)" and "k \<in> {Add, Sub}"
  shows "\<exists>x y. int_val L \<sigma> a x \<and> int_val L \<sigma> b y \<and> v = (if k = Add then x + y else x - y)"
proof -
  obtain t d where e: "e = NonNullaryExpr k t [a, b] d" using binary_match_Some [OF assms(2)] assms(3) by auto
  with assms(1) obtain x y where xy: "has_val L \<sigma> a x" "has_val L \<sigma> b y"
      "eval_node L k t d [ALit x, ALit y] = Inr (ALit (IntLiteral v))"
    by (auto elim: node_vals2)
  then have "EvalBinaryArithmetic L k (ALit x) (ALit y) = Inr (ALit (IntLiteral v))"
    using assms(3) by (auto simp: eval_node_arith arith_kinds_def visitBinaryArithmetic_def)
  from EvalBinaryArithmetic_lits [OF this] xy(1,2) assms(3) show ?thesis
    by (auto simp: eval_int_arith_def i64_eq_Inr)
qed

lemma m_Add_Int_val:
  assumes "int_val L \<sigma> e v" and "m_Add_Int e = Some (c, x)"
  shows "int_val L \<sigma> x (v - c)"
proof -
  have L: "llvm_laws L" "valuation_ok \<sigma>" using assms(1) by (auto simp: has_val_laws)
  from assms(2) obtain a b where ab: "binary_match Add e = Some (a, b)"
      and c: "a = IntLit c \<and> x = b \<or> b = IntLit c \<and> x = a"
    by (auto simp: m_Add_Int_def dyn_Some split: option.splits)
  from int_node_val [OF assms(1) ab] c show ?thesis by (auto simp: has_val_lit [OF L])
qed

lemma m_Sub_Int_val:
  assumes "int_val L \<sigma> e v" and "m_Sub_Int e = Some (x, c)"
  shows "int_val L \<sigma> x (v + c)"
proof -
  have L: "llvm_laws L" "valuation_ok \<sigma>" using assms(1) by (auto simp: has_val_laws)
  from assms(2) obtain b where ab: "binary_match Sub e = Some (x, b)" and c: "b = IntLit c"
    by (auto simp: m_Sub_Int_def dyn_Some split: option.splits)
  from int_node_val [OF assms(1) ab] c show ?thesis by (auto simp: has_val_lit [OF L])
qed

lemma bound_moved:
  assumes "int_val L \<sigma> x u"
  shows "yields_or_overflow L \<sigma> (rbind (i64 c) (\<lambda>v. CompareExpr_Create LtEq x (IntLit v))) (BoolLiteral (u \<le> c))"
    and "yields_or_overflow L \<sigma> (rbind (i64 c) (\<lambda>v. CompareExpr_Create LtEq (IntLit v) x)) (BoolLiteral (c \<le> u))"
  using LtEq_Create_yields [OF assms int_lit_val [OF assms]] LtEq_Create_yields [OF int_lit_val [OF assms] assms]
  by (auto simp: yields_or_overflow_def i64_def)

lemma simplifyLtEq_yields:
  assumes "int_val L \<sigma> l u" and "int_val L \<sigma> r v" and "\<not> (isLiteral l \<and> isLiteral r)"
  shows "yields_or_overflow L \<sigma> (simplifyLtEq l r) (BoolLiteral (u \<le> v))"
proof -
  have L: "llvm_laws L" "valuation_ok \<sigma>" using assms(1) by (auto simp: has_val_laws)
  have plain: "yields_or_overflow L \<sigma> (CompareExpr_Create LtEq l r) (BoolLiteral (u \<le> v))"
    using LtEq_Create_yields [OF assms(1,2)] by (simp add: yields_or_overflow_def)
  show ?thesis
  proof (cases "dyn_Int r")
    case (Some c)
    then have v: "v = c" using assms(2) by (auto simp: dyn_Some has_val_lit [OF L])
    have "yields_or_overflow L \<sigma> (rbind (i64 (c - d)) (\<lambda>w. CompareExpr_Create LtEq x (IntLit w)))
        (BoolLiteral (u \<le> v))" if "m_Add_Int l = Some (d, x)" for d x
      using bound_moved(1) [OF m_Add_Int_val [OF assms(1) that], of "c - d"] v by simp
    moreover have "yields_or_overflow L \<sigma> (rbind (i64 (c + d)) (\<lambda>w. CompareExpr_Create LtEq x (IntLit w)))
        (BoolLiteral (u \<le> v))" if "m_Sub_Int l = Some (x, d)" for d x
      using bound_moved(1) [OF m_Sub_Int_val [OF assms(1) that], of "c + d"] v by simp
    ultimately show ?thesis
      using Some plain by (auto simp: simplifyLtEq_def Let_def split: option.splits)
  next
    case None
    show ?thesis
    proof (cases "dyn_Int l")
      case (Some c)
      then have u: "u = c" using assms(1) by (auto simp: dyn_Some has_val_lit [OF L])
      have ne: "r \<noteq> l" using Some None by auto
      have "yields_or_overflow L \<sigma> (rbind (i64 (c - d)) (\<lambda>w. CompareExpr_Create LtEq (IntLit w) x))
          (BoolLiteral (u \<le> v))" if "m_Add_Int r = Some (d, x)" for d x
        using bound_moved(2) [OF m_Add_Int_val [OF assms(2) that], of "c - d"] u by simp
      moreover have "yields_or_overflow L \<sigma> (rbind (i64 (c + d)) (\<lambda>w. CompareExpr_Create LtEq (IntLit w) x))
          (BoolLiteral (u \<le> v))" if "m_Sub_Int r = Some (x, d)" for d x
        using bound_moved(2) [OF m_Sub_Int_val [OF assms(2) that], of "c + d"] u by simp
      ultimately show ?thesis
        using Some None plain ne by (auto simp: simplifyLtEq_def Let_def split: option.splits)
    qed (use None plain in \<open>simp add: simplifyLtEq_def\<close>)
  qed
qed

text \<open>On integers, \<open>foldBinaryCompare\<close> folds two literals and gives up otherwise.\<close>

lemma foldBinaryCompare_Int:
  assumes "int_val L \<sigma> l u" and "int_val L \<sigma> r v" and "compare_Int_lits k u v = Inr b"
  shows "foldBinaryCompare L k l r = (if isLiteral l \<and> isLiteral r then Inr (Some (BoolLit b)) else Inr None)"
proof -
  have L: "llvm_laws L" "valuation_ok \<sigma>" using assms(1) by (auto simp: has_val_laws)
  have "dyn_Bool l = None" "dyn_Bool r = None"
    using assms(1,2) by (cases "dyn_Bool l"; cases "dyn_Bool r"; auto simp: dyn_Some has_val_lit [OF L])+
  then have *: "foldBinaryCompare L k l r = compare_lits L k l r" by (simp add: foldBinaryCompare_def)
  show ?thesis
  proof (cases "isLiteral l \<and> isLiteral r")
    case True
    then have "l = IntLit u" "r = IntLit v" using assms(1,2) by (auto simp: dyn_Some has_val_lit [OF L])
    with True * assms(3) show ?thesis by (simp add: compare_lits_def)
  next
    case False
    with * show ?thesis by (simp add: compare_lits_Eq)
  qed
qed

lemma BoolLit_val: "int_val L \<sigma> e u \<Longrightarrow> bool_val L \<sigma> (BoolLit b) b"
  by (cases b) (simp_all add: BoolLit_def bool_lit_val has_val_laws)

lemma fold_LtEq_yields:
  assumes "int_val L \<sigma> l u" and "int_val L \<sigma> r v"
  shows "yields_or_overflow L \<sigma> (fold_LtEq L l r) (BoolLiteral (u \<le> v))"
proof (cases "isLiteral l \<and> isLiteral r")
  case True
  with foldBinaryCompare_Int [OF assms, of LtEq "u \<le> v"] BoolLit_val [OF assms(1), of "u \<le> v"] show ?thesis
    by (simp add: fold_LtEq_def compare_Int_lits_def yields_or_overflow_def)
next
  case False
  with foldBinaryCompare_Int [OF assms, of LtEq "u \<le> v"] simplifyLtEq_yields [OF assms] show ?thesis
    by (auto simp: fold_LtEq_def compare_Int_lits_def)
qed

lemma negated_yields:
  assumes "yields_or_overflow L \<sigma> r (BoolLiteral b)"
  shows "yields_or_overflow L \<sigma> (rbind r fold_Not) (BoolLiteral (\<not> b))"
  using assms fold_Not_yields by (auto simp: yields_or_overflow_def intro: yields_rbind)

lemma fold_Gt_yields:
  assumes "int_val L \<sigma> l u" and "int_val L \<sigma> r v"
  shows "yields_or_overflow L \<sigma> (fold_Gt L l r) (BoolLiteral (u > v))"
proof (cases "isLiteral l \<and> isLiteral r")
  case True
  with foldBinaryCompare_Int [OF assms, of Gt "u > v"] BoolLit_val [OF assms(1), of "u > v"] show ?thesis
    by (simp add: fold_Gt_def compare_Int_lits_def yields_or_overflow_def)
next
  case False
  have L: "llvm_laws L" "valuation_ok \<sigma>" using assms(1) by (auto simp: has_val_laws)
  from False foldBinaryCompare_Int [OF assms, of Gt "u > v"]
  have none: "foldBinaryCompare L Gt l r = Inr None" by (auto simp: compare_Int_lits_def)
  show ?thesis
  proof (cases "dyn_Int l")
    case (Some c)
    then have "u = c" using assms(1) by (auto simp: dyn_Some has_val_lit [OF L])
    with none Some bound_moved(1) [OF assms(2), of "c - 1"] show ?thesis
      by (simp add: fold_Gt_def)
  next
    case None
    with none negated_yields [OF fold_LtEq_yields [OF assms]] show ?thesis
      by (simp add: fold_Gt_def not_le)
  qed
qed

text \<open>Selections: a nested selection evaluates to one of its branches.\<close>

lemma nested_select_val:
  assumes "has_val L \<sigma> t x" and "m_Select t = Some (c, e1, e2)"
  obtains b u v where "bool_val L \<sigma> c b" "has_val L \<sigma> e1 u" "has_val L \<sigma> e2 v"
    "x = (if b then u else v)" "lit_type u = lit_type x" "lit_type v = lit_type x"
proof -
  have "t = node Select (getType e1) [c, e1, e2]" using m_Select_Some assms by (auto simp: has_val_laws)
  with assms(1) obtain b u v where "bool_val L \<sigma> c b" "has_val L \<sigma> e1 u" "has_val L \<sigma> e2 v"
      "x = (if b then u else v)" "lit_type u = lit_type v"
    by (metis Select_node_vals)
  with that show ?thesis by (cases b) auto
qed

lemma select_valE:
  assumes "select_val L \<sigma> c t f z"
  obtains b x y where "bool_val L \<sigma> c b" "has_val L \<sigma> t x" "has_val L \<sigma> f y"
    "lit_type x = lit_type y" "getTypeID (lit_type x) \<le> 4" "z = (if b then x else y)"
  using assms unfolding select_val_def by blast

lemma select_val_at:
  assumes "select_val L \<sigma> c t f z" and "bool_val L \<sigma> c b"
  obtains x y where "has_val L \<sigma> t x" "has_val L \<sigma> f y"
    "lit_type x = lit_type y" "getTypeID (lit_type x) \<le> 4" "z = (if b then x else y)"
proof -
  from assms(1) obtain b' x y where v: "bool_val L \<sigma> c b'" "has_val L \<sigma> t x" "has_val L \<sigma> f y"
    "lit_type x = lit_type y" "getTypeID (lit_type x) \<le> 4" "z = (if b' then x else y)"
    by (rule select_valE)
  have "b' = b" using has_val_unique [OF v(1) assms(2)] by simp
  with that v show ?thesis by blast
qed

lemma select_val_yields:
  assumes "select_val L \<sigma> c t f z"
  shows "yields L \<sigma> (SelectExpr_Create c t f) z"
proof -
  from assms obtain b x y where v: "bool_val L \<sigma> c b" "has_val L \<sigma> t x" "has_val L \<sigma> f y"
    "lit_type x = lit_type y" "getTypeID (lit_type x) \<le> 4" "z = (if b then x else y)"
    by (rule select_valE)
  show ?thesis unfolding v(6) using v(1-5) by (rule Select_val)
qed

lemma select_valI:
  assumes "bool_val L \<sigma> c b" and "has_val L \<sigma> t x" and "has_val L \<sigma> f y"
    and "lit_type x = T" and "lit_type y = T" and "getTypeID T \<le> 4" and "z = (if b then x else y)"
  shows "select_val L \<sigma> c t f z"
  unfolding select_val_def by (intro exI [of _ b] exI [of _ x] exI [of _ y]) (use assms in simp)

lemma select_rule_not:
  assumes "select_val L \<sigma> c t f z" and "m_Not c = Some c1"
  shows "select_val L \<sigma> c1 f t z"
proof -
  from assms(1) obtain b x y where v: "bool_val L \<sigma> c b" "has_val L \<sigma> t x" "has_val L \<sigma> f y"
      "lit_type x = lit_type y" "getTypeID (lit_type x) \<le> 4" "z = (if b then x else y)"
    by (rule select_valE)
  have "bool_val L \<sigma> c1 (\<not> b)" using m_Not_Some [OF assms(2)] v(1) Not_node_val by (auto simp: has_val_laws)
  then show ?thesis using v(3,2) refl v(4) by (rule select_valI) (use v(4-6) in simp_all)
qed

lemma select_rule_same_then:
  assumes "select_val L \<sigma> c t f z" and "m_Select t = Some (c, e1, e2)"
  shows "select_val L \<sigma> c e1 f z"
proof -
  from assms(1) obtain b x y where v: "bool_val L \<sigma> c b" "has_val L \<sigma> t x" "has_val L \<sigma> f y"
      "lit_type x = lit_type y" "getTypeID (lit_type x) \<le> 4" "z = (if b then x else y)"
    by (rule select_valE)
  obtain b2 u w where n: "bool_val L \<sigma> c b2" "has_val L \<sigma> e1 u" "x = (if b2 then u else w)" "lit_type u = lit_type x"
    using nested_select_val [OF v(2) assms(2)] by blast
  have "b2 = b" using has_val_unique [OF n(1) v(1)] by simp
  have z: "z = (if b then u else y)" using v(6) n(3) \<open>b2 = b\<close> by simp
  show ?thesis using v(1) n(2) v(3) n(4) v(4) [symmetric] v(5) z by (rule select_valI)
qed

lemma select_rule_same_else:
  assumes "select_val L \<sigma> c t f z" and "m_Select f = Some (c, e1, e2)"
  shows "select_val L \<sigma> c t e2 z"
proof -
  from assms(1) obtain b x y where v: "bool_val L \<sigma> c b" "has_val L \<sigma> t x" "has_val L \<sigma> f y"
      "lit_type x = lit_type y" "getTypeID (lit_type x) \<le> 4" "z = (if b then x else y)"
    by (rule select_valE)
  obtain b2 u w where n: "bool_val L \<sigma> c b2" "has_val L \<sigma> e2 w" "y = (if b2 then u else w)" "lit_type w = lit_type y"
    using nested_select_val [OF v(3) assms(2)] by blast
  have "b2 = b" using has_val_unique [OF n(1) v(1)] by simp
  have z: "z = (if b then x else w)" using v(6) n(3) \<open>b2 = b\<close> by simp
  show ?thesis using v(1,2) n(2) v(4) n(4) _ z by (rule select_valI) (use v(4,5) in simp)
qed

lemma select_rule_and:
  assumes "select_val L \<sigma> c t f z" and "m_Select t = Some (c2, e1, f)"
    and "bool_val L \<sigma> c b" and "bool_val L \<sigma> c2 b2" and "bool_val L \<sigma> a (b \<and> b2)"
  shows "select_val L \<sigma> a e1 f z"
proof -
  from assms(1,3) obtain x y where v: "has_val L \<sigma> t x" "has_val L \<sigma> f y"
      "lit_type x = lit_type y" "getTypeID (lit_type x) \<le> 4" "z = (if b then x else y)"
    by (rule select_val_at)
  obtain b3 u w where n: "bool_val L \<sigma> c2 b3" "has_val L \<sigma> e1 u" "has_val L \<sigma> f w"
      "x = (if b3 then u else w)" "lit_type u = lit_type x"
    using nested_select_val [OF v(1) assms(2)] by blast
  have "b3 = b2" "w = y" using has_val_unique [OF n(1) assms(4)] has_val_unique [OF n(3) v(2)] by auto
  then have z: "z = (if b \<and> b2 then u else y)" using v(5) n(4) by simp
  show ?thesis using assms(5) n(2) v(2) n(5) v(3) [symmetric] v(4) z by (rule select_valI)
qed

lemma select_rule_or:
  assumes "select_val L \<sigma> c t f z" and "m_Select f = Some (c2, t, e2)"
    and "bool_val L \<sigma> c b" and "bool_val L \<sigma> c2 b2" and "bool_val L \<sigma> a (b \<or> b2)"
  shows "select_val L \<sigma> a t e2 z"
proof -
  from assms(1,3) obtain x y where v: "has_val L \<sigma> t x" "has_val L \<sigma> f y"
      "lit_type x = lit_type y" "getTypeID (lit_type x) \<le> 4" "z = (if b then x else y)"
    by (rule select_val_at)
  obtain b3 u w where n: "bool_val L \<sigma> c2 b3" "has_val L \<sigma> t u" "has_val L \<sigma> e2 w"
      "y = (if b3 then u else w)" "lit_type w = lit_type y"
    using nested_select_val [OF v(2) assms(2)] by blast
  have "b3 = b2" "u = x" using has_val_unique [OF n(1) assms(4)] has_val_unique [OF n(2) v(1)] by auto
  then have z: "z = (if b \<or> b2 then x else w)" using v(5) n(4) by simp
  show ?thesis using assms(5) v(1) n(3) v(3) n(5) _ z by (rule select_valI) (use v(3,4) in simp)
qed

lemma select_val_cond: "select_val L \<sigma> c t f z \<Longrightarrow> \<exists>b. bool_val L \<sigma> c b"
  by (auto simp: select_val_def)

lemma nested_cond:
  assumes "select_val L \<sigma> c t f z" and "m_Select t = Some (c2, e1, e2) \<or> m_Select f = Some (c2, e1, e2)"
  shows "\<exists>b. bool_val L \<sigma> c2 b"
  using assms nested_select_val unfolding select_val_def by metis

lemma select_rule_equal_branches:
  assumes "select_val L \<sigma> c t f z" and "m_Select t = Some (c2, f, f)" and "bool_val L \<sigma> a b'"
  shows "select_val L \<sigma> a f f z"
proof -
  from assms(1) obtain b x y where v: "has_val L \<sigma> t x" "has_val L \<sigma> f y"
      "lit_type x = lit_type y" "getTypeID (lit_type x) \<le> 4" "z = (if b then x else y)"
    unfolding select_val_def by blast
  obtain b2 u w where n: "has_val L \<sigma> f u" "has_val L \<sigma> f w" "x = (if b2 then u else w)"
    using nested_select_val [OF v(1) assms(2)] by blast
  have "u = y" "w = y" using has_val_unique [OF n(1) v(2)] has_val_unique [OF n(2) v(2)] by auto
  then have z: "z = (if b' then y else y)" using v(5) n(3) by simp
  show ?thesis using assms(3) v(2,2) refl refl _ z by (rule select_valI) (use v(3,4) in simp)
qed

lemma select_rules_yields:
  assumes s: "select_val L \<sigma> c t f z" and ns: "\<not> swapped_select c t f"
  shows "yields L \<sigma> (select_rules c t f) z"
proof -
  obtain b where b: "bool_val L \<sigma> c b" using select_val_cond [OF s] by blast
  have r3: "yields L \<sigma> (rbind (fold_Not c2) (\<lambda>n. rbind (fold_And [c, n]) (\<lambda>a. SelectExpr_Create a f e2))) z"
    if m: "m_Select t = Some (c2, f, e2)" "c2 \<noteq> c" for c2 e2
  proof -
    have e2: "e2 = f" using ns m by (simp add: swapped_select_def)
    obtain b2 where b2: "bool_val L \<sigma> c2 b2" using nested_cond [OF s] m(1) by blast
    show ?thesis
      using fold_Not_yields [OF b2] fold_And2_yields [OF b] select_rule_equal_branches [OF s] m(1) e2
      by (auto intro!: yields_rbind select_val_yields)
  qed
  have r4: "yields L \<sigma> (rbind (MultiaryLogicExpr_Create And [c, c2]) (\<lambda>a. SelectExpr_Create a e1 f)) z"
    if m: "m_Select t = Some (c2, e1, f)" for c2 e1
  proof -
    obtain b2 where b2: "bool_val L \<sigma> c2 b2" using nested_cond [OF s] m by blast
    have "yields L \<sigma> (MultiaryLogicExpr_Create And [c, c2]) (BoolLiteral (b \<and> b2))"
      using And_Create_yields [of L \<sigma> "[c, c2]" "[b, b2]"] b b2 by simp
    then show ?thesis
      by (rule yields_rbind) (rule select_val_yields, rule select_rule_and [OF s m b b2])
  qed
  have r5: "yields L \<sigma> (rbind (MultiaryLogicExpr_Create Or [c, c2]) (\<lambda>a. SelectExpr_Create a t e2)) z"
    if m: "m_Select f = Some (c2, t, e2)" for c2 e2
  proof -
    obtain b2 where b2: "bool_val L \<sigma> c2 b2" using nested_cond [OF s] m by blast
    have "yields L \<sigma> (MultiaryLogicExpr_Create Or [c, c2]) (BoolLiteral (b \<or> b2))"
      using Or_Create_yields [of L \<sigma> "[c, c2]" "[b, b2]"] b b2 by simp
    then show ?thesis
      by (rule yields_rbind) (rule select_val_yields, rule select_rule_or [OF s m b b2])
  qed
  show ?thesis
    using select_val_yields [OF s] select_val_yields [OF select_rule_not [OF s]]
      select_val_yields [OF select_rule_same_then [OF s]] select_val_yields [OF select_rule_same_else [OF s]]
      r3 r4 r5
    unfolding select_rules_def
    by (cases "m_Not c"; cases "m_Select t"; cases "m_Select f") auto
qed

lemma fold_Select_yields:
  assumes s: "select_val L \<sigma> c t f z" and ns: "\<not> swapped_select c t f"
  shows "yields L \<sigma> (fold_Select c t f) z"
proof -
  from s obtain b x y where v: "bool_val L \<sigma> c b" "has_val L \<sigma> t x" "has_val L \<sigma> f y"
      "lit_type x = lit_type y" "getTypeID (lit_type x) \<le> 4" "z = (if b then x else y)"
    by (rule select_valE)
  have L: "llvm_laws L" "valuation_ok \<sigma>" using v(1) by (auto simp: has_val_laws)
  have bools: "\<exists>p q. x = BoolLiteral p \<and> y = BoolLiteral q" if "lit_type x = BoolType"
    using that v(4) by (cases x; cases y) auto
  show ?thesis
  proof (cases "dyn_Bool c")
    case (Some b')
    then have "b' = b" using v(1) by (auto simp: dyn_Some has_val_lit [OF L])
    with Some v(2,3,6) show ?thesis by (simp add: fold_Select_def)
  next
    case None
    consider "t = f" | "t \<noteq> f" "f = False_lit" | "t \<noteq> f" "f = True_lit" | "t \<noteq> f" "t = True_lit" "f \<noteq> False_lit"
      | "t \<noteq> f" "t = False_lit" "f \<noteq> True_lit" | "t \<noteq> f" "t \<notin> {True_lit, False_lit}" "f \<notin> {True_lit, False_lit}"
      by blast
    then show ?thesis
    proof cases
      case 1
      then have "x = y" using has_val_unique [OF v(2)] v(3) by blast
      with 1 None v(2,6) show ?thesis by (simp add: fold_Select_def)
    next
      case 2
      then have "y = BoolLiteral False" using v(3) by (auto simp: has_val_lit [OF L])
      then obtain p where "x = BoolLiteral p" using bools v(4) by auto
      with 2 None v fold_And2_yields [OF v(1), of t p] \<open>y = BoolLiteral False\<close> show ?thesis
        by (cases b) (auto simp: fold_Select_def)
    next
      case 3
      then have y: "y = BoolLiteral True" using v(3) by (auto simp: has_val_lit [OF L])
      then obtain p where x: "x = BoolLiteral p" using bools v(4) by auto
      then have "yields L \<sigma> (rbind (fold_Not c) (\<lambda>n. fold_Or [n, t])) (BoolLiteral (\<not> b \<or> p))"
        using v(2) by (intro yields_rbind [OF fold_Not_yields [OF v(1)]] fold_Or2_yields) auto
      with 3 None x y v(6) show ?thesis by (cases b) (auto simp: fold_Select_def)
    next
      case 4
      then have x: "x = BoolLiteral True" using v(2) by (auto simp: has_val_lit [OF L])
      then obtain q where "y = BoolLiteral q" using bools v(4) by auto
      with 4 None v fold_Or2_yields [OF v(1), of f q] x show ?thesis
        by (cases b) (auto simp: fold_Select_def)
    next
      case 5
      then have x: "x = BoolLiteral False" using v(2) by (auto simp: has_val_lit [OF L])
      then obtain q where y: "y = BoolLiteral q" using bools v(4) by auto
      then have "yields L \<sigma> (rbind (fold_Not c) (\<lambda>n. fold_And [n, f])) (BoolLiteral (\<not> b \<and> q))"
        using v(3) by (intro yields_rbind [OF fold_Not_yields [OF v(1)]] fold_And2_yields) auto
      with 5 None x y v(6) show ?thesis by (cases b) (auto simp: fold_Select_def)
    next
      case 6
      with None select_rules_yields [OF s ns] show ?thesis by (simp add: fold_Select_def)
    qed
  qed
qed

lemma plain_Compare_NotEq_vals:
  assumes "plain_Compare NotEq l r = Inr p" and "has_val L \<sigma> p z"
  shows "\<exists>b. bool_val L \<sigma> (node Eq BoolType [l, r]) b \<and> z = BoolLiteral (\<not> b)"
proof -
  have p: "p = node NotK BoolType [node Eq BoolType [l, r]]"
    using assms(1) by (auto simp: plain_Compare_def plain_NotEq_def rbind_eq_Inr NotExpr_Create_def
        check_eq_Inr dest: Compare_Create_eq)
  have "z = BoolLiteral b" if "lit_type z = BoolType" "b = (z = BoolLiteral True)" for b
    using that by (cases z) auto
  then obtain b where b: "z = BoolLiteral b" using has_val_type [OF assms(2)] p by auto
  with assms(2) p Not_node_val [of L \<sigma> "node Eq BoolType [l, r]" b] show ?thesis by auto
qed

lemma fold_Compare_yields:
  assumes p: "plain_Compare k l r = Inr p" and v: "has_val L \<sigma> p z"
    and k: "k \<in> compare_kinds \<union> bv_compare_kinds" and d: "k \<in> {Eq, NotEq} \<longrightarrow> \<not> degenerate_eq l r"
  shows "yields_or_overflow L \<sigma> (fold_Compare L k l r) z"
proof -
  have eq: "yields L \<sigma> (fold_Eq L l r) (BoolLiteral b)"
    if "bool_val L \<sigma> (node Eq BoolType [l, r]) b" "k \<in> {Eq, NotEq}" for b
  proof -
    from that(1) obtain x y where xy: "has_val L \<sigma> l x" "has_val L \<sigma> r y" "lit_type x = lit_type y"
        "eq_type (lit_type x)" "BoolLiteral b = BoolLiteral (x = y)"
      by (rule Eq_node_vals)
    show ?thesis unfolding xy(5) using xy(1-4) d that(2) by (intro fold_Eq_yields) auto
  qed
  consider "k = NotEq" | "k = Eq" | "k \<in> {Lt, LtEq, Gt, GtEq}" | "k \<in> bv_compare_kinds" "k \<notin> compare_kinds"
    using k by (auto simp: kind_sets)
  then show ?thesis
  proof cases
    case 1
    then obtain b where b: "bool_val L \<sigma> (node Eq BoolType [l, r]) b" "z = BoolLiteral (\<not> b)"
      using plain_Compare_NotEq_vals p v by blast
    with 1 eq negated_yields [of L \<sigma> "fold_Eq L l r" b] show ?thesis
      by (simp add: fold_Compare_def yields_or_overflow_def)
  next
    case 2
    then have "p = node Eq BoolType [l, r]" using p by (simp add: plain_Compare_def Compare_Create_eq)
    moreover from this v obtain b where "z = BoolLiteral b" by (auto elim: Eq_node_vals)
    ultimately show ?thesis using 2 v eq by (simp add: fold_Compare_def yields_or_overflow_def)
  next
    case 3
    then have "p = node k BoolType [l, r]" using p by (auto simp: plain_Compare_def dest: Compare_Create_eq)
    with v 3 obtain u w where uw: "int_val L \<sigma> l u" "int_val L \<sigma> r w"
        "compare_Int_lits k u w = Inr (z = BoolLiteral True)" "\<exists>b. z = BoolLiteral b"
      using order_node_vals by metis
    from 3 uw(3,4) negated_yields [OF fold_LtEq_yields [OF uw(2,1)]] fold_LtEq_yields [OF uw(2,1)]
      fold_LtEq_yields [OF uw(1,2)] fold_Gt_yields [OF uw(1,2)]
    show ?thesis by (auto simp: fold_Compare_def compare_Int_lits_def not_le)
  next
    case 4
    then have "fold_Compare L k l r = Inr p"
      using p by (auto simp: fold_Compare_def plain_Compare_def kind_sets)
    with v show ?thesis by (simp add: yields_or_overflow_def)
  qed
qed

end
