(* ===== verification/GazerFolding.thy ===== *)
theory GazerFolding
  imports GazerFoldCompare
begin

text \<open>
  What the builders promise. The locale \<open>formula_builder\<close> is the contract of the methods that the
  clients of a builder use to assemble formulas; the plain and the folding builder are its two
  interpretations. The theorems state that the folding builder returns expressions of the value the
  plain builder's nodes have, family by family, and the lemmas at the end are the inputs on which it
  does not.
\<close>

locale formula_builder =
  fixes B :: expr_builder and L :: llvm_api
  assumes not_val: "bool_val L \<sigma> e b \<Longrightarrow> yields L \<sigma> (bNot B e) (BoolLiteral (\<not> b))"
    and and_val: "bool_list L \<sigma> es bs \<Longrightarrow> es \<noteq> [] \<Longrightarrow>
      yields L \<sigma> (bAnd B es) (BoolLiteral (list_all (\<lambda>b. b) bs))"
    and or_val: "bool_list L \<sigma> es bs \<Longrightarrow> es \<noteq> [] \<Longrightarrow>
      yields L \<sigma> (bOr B es) (BoolLiteral (list_ex (\<lambda>b. b) bs))"
    and imply_val: "bool_val L \<sigma> e a \<Longrightarrow> bool_val L \<sigma> e' b \<Longrightarrow>
      yields L \<sigma> (bImply B e e') (BoolLiteral (a \<longrightarrow> b))"
    and eq_var_val: "has_val L \<sigma> (VarRefExpr v) x \<Longrightarrow> has_val L \<sigma> e y \<Longrightarrow> lit_type x = lit_type y \<Longrightarrow>
      eq_type (lit_type x) \<Longrightarrow> yields L \<sigma> (bCompare B Eq (VarRefExpr v) e) (BoolLiteral (x = y))"
begin

lemma and2_val: "bool_val L \<sigma> x a \<Longrightarrow> bool_val L \<sigma> y b \<Longrightarrow> yields L \<sigma> (bAnd B [x, y]) (BoolLiteral (a \<and> b))"
  using and_val [of \<sigma> "[x, y]" "[a, b]"] by simp

lemma or2_val: "bool_val L \<sigma> x a \<Longrightarrow> bool_val L \<sigma> y b \<Longrightarrow> yields L \<sigma> (bOr B [x, y]) (BoolLiteral (a \<or> b))"
  using or_val [of \<sigma> "[x, y]" "[a, b]"] by simp

lemma connectives:
  assumes "bool_list L \<sigma> es bs" and "es \<noteq> []" and "bool_val L \<sigma> x a" and "bool_val L \<sigma> y b"
  shows "yields L \<sigma> (bNot B x) (BoolLiteral (\<not> a))
    \<and> yields L \<sigma> (bAnd B es) (BoolLiteral (list_all (\<lambda>b. b) bs))
    \<and> yields L \<sigma> (bOr B es) (BoolLiteral (list_ex (\<lambda>b. b) bs))
    \<and> yields L \<sigma> (bImply B x y) (BoolLiteral (a \<longrightarrow> b))"
  using assms by (intro conjI not_val and_val or_val imply_val)

end

lemma bool_list_laws:
  assumes "bool_list L \<sigma> es bs" and "es \<noteq> []"
  shows "llvm_laws L" and "valuation_ok \<sigma>"
  using assms by (auto simp: neq_Nil_conv list_all2_Cons1 has_val_laws)

lemma var_no_select_match: "Eq_select_match (VarRefExpr v) e = None"
  by (auto simp: Eq_select_match_def m_Select_Literals_def m_Select_def split: option.splits if_splits)

lemma fold_Eq_var_yields:
  assumes "has_val L \<sigma> (VarRefExpr v) x" and "has_val L \<sigma> e y" and "lit_type x = lit_type y"
    and "eq_type (lit_type x)"
  shows "yields L \<sigma> (fold_Eq L (VarRefExpr v) e) (BoolLiteral (x = y))"
proof (cases "VarRefExpr v = e")
  case True
  then show ?thesis using assms(1,2) has_val_unique [OF assms(1), of y]
    by (auto simp: fold_Eq_def bool_lit_val has_val_laws)
next
  case False
  from foldBinaryCompare_Eq [OF assms(1-3)] have
    "foldBinaryCompare L Eq (VarRefExpr v) e = Inr None \<or>
      (\<exists>q. foldBinaryCompare L Eq (VarRefExpr v) e = Inr (Some q) \<and> bool_val L \<sigma> q (x = y))" by simp
  with False Eq_Create_yields [OF assms] var_no_select_match [of v e] show ?thesis
    by (auto simp: fold_Eq_def)
qed

interpretation plain: formula_builder plain_builder L
  for L
proof (unfold_locales, goal_cases)
  case (5 \<sigma> v x e y)
  then show ?case
    using Eq_Create_yields [OF 5] by (simp add: plain_builder_def plain_Compare_def)
qed (simp_all add: plain_builder_def Not_Create_yields And_Create_yields Or_Create_yields Imply_Create_yields)

interpretation folding: formula_builder "folding_builder L" L
  for L
proof (unfold_locales, goal_cases)
  case (5 \<sigma> v x e y)
  then show ?case by (simp add: folding_builder_def fold_Compare_def fold_Eq_var_yields)
qed (auto simp: folding_builder_def fold_Not_yields fold_Imply_yields
    intro!: fold_And_yields fold_Or_yields dest: bool_list_laws)

text \<open>
  C24: the Boolean connectives of the folding builder, applied to operands with values, succeed and
  return an expression whose value is the negation, conjunction, disjunction or implication of the
  operands' values, whatever simplification was applied (dropped literals, flattened operands, the
  rewriting of a negated disjunction).
\<close>

theorem fold_logic_sound:
  assumes "bool_list L \<sigma> es bs" and "es \<noteq> []" and "bool_val L \<sigma> x a" and "bool_val L \<sigma> y b"
  shows "yields L \<sigma> (bNot (folding_builder L) x) (BoolLiteral (\<not> a))
    \<and> yields L \<sigma> (bAnd (folding_builder L) es) (BoolLiteral (list_all (\<lambda>b. b) bs))
    \<and> yields L \<sigma> (bOr (folding_builder L) es) (BoolLiteral (list_ex (\<lambda>b. b) bs))
    \<and> yields L \<sigma> (bImply (folding_builder L) x y) (BoolLiteral (a \<longrightarrow> b))"
  using assms by (rule folding.connectives)

text \<open>The negation of \<open>\<not> p \<or> q\<close> is rewritten to \<open>p \<and> \<not> q\<close>.\<close>

lemma has_val_var:
  "llvm_laws L \<Longrightarrow> valuation_ok \<sigma> \<Longrightarrow> function_free (var_type v) \<Longrightarrow> \<sigma> v = Some l \<Longrightarrow> has_val L \<sigma> (VarRefExpr v) l"
  by (simp add: has_val_def getVariableValue_def)

theorem fold_logic_sound_witness:
  "yields doc_llvm [Variable ''p'' BoolType \<mapsto> BoolLiteral True, Variable ''q'' BoolType \<mapsto> BoolLiteral False]
     (bNot (folding_builder doc_llvm) (node Or BoolType
        [node NotK BoolType [VarRefExpr (Variable ''p'' BoolType)], VarRefExpr (Variable ''q'' BoolType)]))
     (BoolLiteral True)"
proof -
  let ?\<sigma> = "[Variable ''p'' BoolType \<mapsto> BoolLiteral True, Variable ''q'' BoolType \<mapsto> BoolLiteral False]"
  let ?p = "VarRefExpr (Variable ''p'' BoolType)"
  let ?q = "VarRefExpr (Variable ''q'' BoolType)"
  have ok: "valuation_ok ?\<sigma>" by (auto simp: valuation_ok_def)
  have p: "bool_val doc_llvm ?\<sigma> ?p True" and q: "bool_val doc_llvm ?\<sigma> ?q False"
    using ok doc_llvm_laws by (auto intro!: has_val_var)
  have "bool_list doc_llvm ?\<sigma> [node NotK BoolType [?p], ?q] [False, False]"
    using Not_val [OF p] q by simp
  from Or_val [OF this] have "bool_val doc_llvm ?\<sigma> (node Or BoolType [node NotK BoolType [?p], ?q]) False" by simp
  with fold_logic_sound [of doc_llvm ?\<sigma> "[?p]" "[True]" "node Or BoolType [node NotK BoolType [?p], ?q]" False ?q False]
    p q show ?thesis by simp
qed

text \<open>
  C23: folding is sound for arithmetic, except for right shifts by a literal of \<open>2^32\<close> or more, whose amount the evaluator narrows
  to 32 bits and the folding builder does not: if the plain builder creates an arithmetic or bit-vector node that has a value, then the folding
  builder succeeds too, and the expression it returns has the same value and type.
\<close>

theorem fold_arithmetic_sound:
  assumes "bArithmetic plain_builder k l r = Inr p" and "has_val L \<sigma> p z"
    and "k \<in> arith_kinds \<union> bv_kinds \<union> {Div}" and "shift_ok k r"
  shows "\<exists>q. bArithmetic (folding_builder L) k l r = Inr q \<and> has_val L \<sigma> q z \<and> getType q = getType p"
proof -
  have "yields L \<sigma> (fold_Arithmetic L k l r) z"
    using assms by (intro fold_Arithmetic_yields) (auto simp: plain_builder_def)
  then show ?thesis
    using has_val_type [OF assms(2)] by (auto simp: yields_def folding_builder_def has_val_type)
qed

text \<open>Adding the literal \<open>0\<close> to a variable returns the variable.\<close>

theorem fold_arithmetic_sound_witness:
  "\<exists>q. bArithmetic (folding_builder doc_llvm) Add (VarRefExpr (Variable ''x'' IntType)) (IntLit 0) = Inr q
     \<and> has_val doc_llvm [Variable ''x'' IntType \<mapsto> IntLiteral 7] q (IntLiteral 7) \<and> getType q = IntType"
proof -
  let ?\<sigma> = "[Variable ''x'' IntType \<mapsto> IntLiteral 7]"
  let ?x = "VarRefExpr (Variable ''x'' IntType)"
  let ?p = "node Add IntType [?x, IntLit 0]"
  have ok: "valuation_ok ?\<sigma>" by (auto simp: valuation_ok_def in_int64_def)
  have x: "has_val doc_llvm ?\<sigma> ?x (IntLiteral 7)" and z: "has_val doc_llvm ?\<sigma> (IntLit 0) (IntLiteral 0)"
    using ok doc_llvm_laws by (auto intro!: has_val_var simp: has_val_lit)
  have "well_typed ?p" by (intro wt_arith) (auto simp: arith_kinds_def)
  moreover have "eval doc_llvm ?\<sigma> ?p = Inr (ALit (IntLiteral 7))"
    by (simp add: eval_binary eval_node_arith arith_kinds_def visitBinaryArithmetic_def
        EvalBinaryArithmetic_def getVariableValue_def eval_int_arith_def i64_def in_int64_def)
  ultimately have "has_val doc_llvm ?\<sigma> ?p (IntLiteral 7)" using x z by (intro has_val_nodeI) auto
  then show ?thesis
    using fold_arithmetic_sound [of Add ?x "IntLit 0" ?p doc_llvm ?\<sigma> "IntLiteral 7"]
    by (simp add: plain_builder_def ArithmeticExpr_Create_def is_bv_only_def is_arithmetic_only_def
        arith_kinds_def shift_ok_def)
qed

text \<open>
  C9: folding is sound for comparisons, except for \<open>Eq\<close> and \<open>NotEq\<close> with an operand that is a selection between two equal literals
  (\<open>degenerate_eq\<close>, for which the rule gives another value): if the plain builder's comparison has a value, the folding builder's normalised
  comparison has the same value, unless moving a constant across the inequality overflows the 64-bit
  integers the builder computes with.
\<close>

theorem fold_compare_sound:
  assumes "bCompare plain_builder k l r = Inr p" and "has_val L \<sigma> p z"
    and "k \<in> compare_kinds \<union> bv_compare_kinds" and "k \<in> {Eq, NotEq} \<longrightarrow> \<not> degenerate_eq l r"
  shows "(\<exists>q. bCompare (folding_builder L) k l r = Inr q \<and> has_val L \<sigma> q z)
    \<or> bCompare (folding_builder L) k l r = Inl SignedOverflow"
  using fold_Compare_yields [of k l r p L \<sigma> z] assms
  by (simp add: plain_builder_def folding_builder_def yields_or_overflow_def yields_def)

text \<open>\<open>x + 3 < 10\<close> becomes the negation of \<open>7 \<le> x\<close>.\<close>

theorem fold_compare_sound_witness:
  "\<exists>q. bCompare (folding_builder doc_llvm) Lt
         (node Add IntType [VarRefExpr (Variable ''x'' IntType), IntLit 3]) (IntLit 10) = Inr q
     \<and> has_val doc_llvm [Variable ''x'' IntType \<mapsto> IntLiteral 2] q (BoolLiteral True)"
proof -
  let ?\<sigma> = "[Variable ''x'' IntType \<mapsto> IntLiteral 2]"
  let ?x = "VarRefExpr (Variable ''x'' IntType)"
  let ?s = "node Add IntType [?x, IntLit 3]"
  let ?p = "node Lt BoolType [?s, IntLit 10]"
  have ok: "valuation_ok ?\<sigma>" by (auto simp: valuation_ok_def in_int64_def)
  have lit: "has_val doc_llvm ?\<sigma> (IntLit n) (IntLiteral n)" if "in_int64 n" for n
    using ok doc_llvm_laws that by (simp add: has_val_lit)
  have x: "has_val doc_llvm ?\<sigma> ?x (IntLiteral 2)" using ok doc_llvm_laws by (auto intro!: has_val_var)
  have ws: "well_typed ?s" by (intro wt_arith) (auto simp: arith_kinds_def in_int64_def)
  have es: "eval doc_llvm ?\<sigma> ?s = Inr (ALit (IntLiteral 5))"
    by (simp add: eval_binary eval_node_arith arith_kinds_def visitBinaryArithmetic_def
        EvalBinaryArithmetic_def getVariableValue_def eval_int_arith_def i64_def in_int64_def)
  have s: "has_val doc_llvm ?\<sigma> ?s (IntLiteral 5)"
    using ws es x lit [of 3] by (intro has_val_nodeI) (auto simp: in_int64_def)
  have "well_typed ?p" using ws by (intro wt_compare) (auto simp: compare_kinds_def in_int64_def)
  moreover have "eval doc_llvm ?\<sigma> ?p = bool_atom True"
    using es by (simp add: eval_binary eval_node_compare compare_kinds_def visitBinaryCompare_def
        EvalBinaryCompare_def EvalIntCompare_def)
  ultimately have "has_val doc_llvm ?\<sigma> ?p (BoolLiteral True)"
    using s lit [of 10] by (intro has_val_nodeI) (auto simp: in_int64_def)
  moreover have "bCompare (folding_builder doc_llvm) Lt ?s (IntLit 10)
      = Inr (node NotK BoolType [node LtEq BoolType [IntLit 7, ?x]])"
    by (simp add: folding_builder_def fold_Compare_def fold_LtEq_def foldBinaryCompare_def compare_lits_def
        simplifyLtEq_def m_Add_Int_def binary_match_def i64_def in_int64_def CompareExpr_Create_def
        is_bv_only_compare_def fold_Not.simps m_Or_Not_def NotExpr_Create_def)
  ultimately show ?thesis
    using fold_compare_sound [of Lt ?s "IntLit 10" ?p doc_llvm ?\<sigma> "BoolLiteral True"]
    by (simp add: plain_builder_def plain_Compare_def CompareExpr_Create_def is_bv_only_compare_def compare_kinds_def)
qed

text \<open>
  C25: folding is sound for selections: if the plain selection has a value, the expression the folding
  builder returns has that value, for every rule except the one whose result swaps the branches
  (a then-branch \<open>Select(c2, e1, e2)\<close> with \<open>e1\<close> as the else-branch).
\<close>

theorem fold_select_sound:
  assumes "bSelect plain_builder c t f = Inr p" and "has_val L \<sigma> p z" and "\<not> swapped_select c t f"
  shows "\<exists>q. bSelect (folding_builder L) c t f = Inr q \<and> has_val L \<sigma> q z"
proof -
  have "p = node Select (getType t) [c, t, f]"
    using assms(1) by (simp add: plain_builder_def SelectExpr_Create_def check_eq_Inr)
  with assms(2) have "has_val L \<sigma> (node Select (getType t) [c, t, f]) z" by simp
  then obtain b x y where "bool_val L \<sigma> c b" "has_val L \<sigma> t x" "has_val L \<sigma> f y" "z = (if b then x else y)"
      "lit_type x = lit_type y" "getTypeID (lit_type x) \<le> 4"
    by (rule Select_node_vals)
  then have "select_val L \<sigma> c t f z" unfolding select_val_def by blast
  from fold_Select_yields [OF this assms(3)] show ?thesis by (simp add: folding_builder_def yields_def)
qed

text \<open>\<open>Select(c, Select(c, 5, 7), 9)\<close> becomes \<open>Select(c, 5, 9)\<close>.\<close>

theorem fold_select_sound_witness:
  "\<exists>q. bSelect (folding_builder doc_llvm) (VarRefExpr (Variable ''c'' BoolType))
         (node Select IntType [VarRefExpr (Variable ''c'' BoolType), IntLit 5, IntLit 7]) (IntLit 9) = Inr q
     \<and> has_val doc_llvm [Variable ''c'' BoolType \<mapsto> BoolLiteral True] q (IntLiteral 5)"
proof -
  let ?\<sigma> = "[Variable ''c'' BoolType \<mapsto> BoolLiteral True]"
  let ?c = "VarRefExpr (Variable ''c'' BoolType)"
  let ?t = "node Select IntType [?c, IntLit 5, IntLit 7]"
  have ok: "valuation_ok ?\<sigma>" by (auto simp: valuation_ok_def)
  have lit: "has_val doc_llvm ?\<sigma> (IntLit n) (IntLiteral n)" if "in_int64 n" for n
    using ok doc_llvm_laws that by (simp add: has_val_lit)
  have c: "bool_val doc_llvm ?\<sigma> ?c True" using ok doc_llvm_laws by (auto intro!: has_val_var)
  have "yields doc_llvm ?\<sigma> (SelectExpr_Create ?c (IntLit 5) (IntLit 7)) (if True then IntLiteral 5 else IntLiteral 7)"
    using c lit by (intro Select_val) (auto simp: in_int64_def)
  then have t: "has_val doc_llvm ?\<sigma> ?t (IntLiteral 5)" by (simp add: SelectExpr_Create_def)
  have "yields doc_llvm ?\<sigma> (SelectExpr_Create ?c ?t (IntLit 9)) (if True then IntLiteral 5 else IntLiteral 9)"
    using c t lit by (intro Select_val) (auto simp: in_int64_def)
  then show ?thesis
    using fold_select_sound [of ?c ?t "IntLit 9" "node Select IntType [?c, ?t, IntLit 9]" doc_llvm ?\<sigma> "IntLiteral 5"]
    by (simp add: SelectExpr_Create_def plain_builder_def swapped_select_def m_Select_def)
qed

text \<open>
  C26: folding is sound for the remaining rewritten methods: extensions, extraction, concatenation,
  floating-point queries and array reads of the folding builder return an expression of the value of
  the plain node.
\<close>

theorem fold_casts_sound:
  assumes "has_val L \<sigma> p z"
  shows "(bExt plain_builder k e t = Inr p \<and> k \<in> {ZExt, SExt} \<longrightarrow> yields L \<sigma> (bExt (folding_builder L) k e t) z)
    \<and> (bExtract plain_builder e offset width = Inr p \<longrightarrow> yields L \<sigma> (bExtract (folding_builder L) e offset width) z)
    \<and> (bBvConcat plain_builder e e' = Inr p \<longrightarrow> yields L \<sigma> (bBvConcat (folding_builder L) e e') z)
    \<and> (bFpQuery plain_builder k e = Inr p \<and> k \<in> {FIsNan, FIsInf} \<longrightarrow> yields L \<sigma> (bFpQuery (folding_builder L) k e) z)
    \<and> (bRead plain_builder e e' = Inr p \<longrightarrow> yields L \<sigma> (bRead (folding_builder L) e e') z)"
  using assms fold_Ext_yields [of k e t p L \<sigma> z] fold_Extract_yields [of e offset width p L \<sigma> z]
    fold_BvConcat_yields [of e e' p L \<sigma> z] fold_FpQuery_yields [of k e p L \<sigma> z] fold_Read_yields [of e e' p L \<sigma> z]
  by (simp add: plain_builder_def folding_builder_def)

text \<open>The sign extension of the literal \<open>200\<close> of eight bits to sixteen.\<close>

theorem fold_casts_sound_witness:
  "yields doc_llvm Map.empty (bExt (folding_builder doc_llvm) SExt (BvLit (APInt 8 200)) (BvType 16))
     (BvLiteral (APInt 16 65480))"
proof -
  let ?e = "BvLit (APInt 8 200)"
  let ?p = "node SExt (BvType 16) [?e]"
  have e: "has_val doc_llvm Map.empty ?e (BvLiteral (APInt 8 200))"
    using doc_llvm_laws by (simp add: has_val_lit valuation_ok_def apint_ok_def)
  have "well_typed ?p" by (intro wt_ext) (auto simp: apint_ok_def)
  moreover have "eval doc_llvm Map.empty ?p = Inr (ALit (BvLiteral (APInt 16 65480)))"
    by (simp add: eval_unary eval_node_def visitSExt_def doc_llvm_routines guarded_def mk_ap_def sval_def
        bv_atom_def BvLiteralExpr_Get_def)
  ultimately have "has_val doc_llvm Map.empty ?p (BvLiteral (APInt 16 65480))" using e by (intro has_val_nodeI) auto
  from fold_casts_sound [OF this, of SExt ?e "BvType 16" 0 0 ?e] show ?thesis
    by (simp add: plain_builder_def ExtCastExpr_Create_def)
qed

text \<open>The rule for a selection whose else-branch equals the inner then-branch.\<close>

definition swap_applies :: "expr \<Rightarrow> expr \<Rightarrow> expr \<Rightarrow> bool" where
  "swap_applies c c2 e1 \<longleftrightarrow> dyn_Bool c = None \<and> m_Not c = None \<and> c2 \<noteq> c \<and> e1 \<notin> {True_lit, False_lit}
     \<and> (case m_Select e1 of Some (c3, _, _) \<Rightarrow> c3 \<noteq> c | None \<Rightarrow> True)"

lemma fold_Select_swap:
  assumes "swap_applies c c2 e1"
  shows "fold_Select c (node Select ty [c2, e1, e2]) e1 =
    rbind (fold_Not c2) (\<lambda>n. rbind (fold_And [c, n]) (\<lambda>a. SelectExpr_Create a e1 e2))"
proof -
  have "node Select ty [c2, e1, e2] \<noteq> e1" by (rule notI, drule arg_cong [where f = size]) simp
  then show ?thesis
    using assms by (auto simp: swap_applies_def fold_Select_def select_rules_def m_Select_def [of "node Select ty [c2, e1, e2]"] split: option.splits)
qed

text \<open>
  C28: the rule of the folding builder for \<open>Select(c, Select(c2, e1, e2), e1)\<close> swaps the branches, whatever the operands are: where
  the rule applies (no earlier rule does), the selection has the value of \<open>e2\<close> exactly if \<open>c\<close> is true and \<open>c2\<close> is
  false, and the expression that is returned for it then has the value of \<open>e1\<close>, and the value of \<open>e2\<close> otherwise. So it
  has the value of the selection only if both branches have the same value.
\<close>

theorem fold_select_swaps_branches:
  assumes "bool_val L \<sigma> c b" and "bool_val L \<sigma> c2 b2" and "has_val L \<sigma> e1 x" and "has_val L \<sigma> e2 y"
    and "lit_type x = lit_type y" and "getTypeID (lit_type x) \<le> 4" and "swap_applies c c2 e1"
  shows "(\<exists>p. bSelect plain_builder c (node Select (lit_type x) [c2, e1, e2]) e1 = Inr p \<and> has_val L \<sigma> p (if b \<and> \<not> b2 then y else x))
    \<and> (\<exists>q. bSelect (folding_builder L) c (node Select (lit_type x) [c2, e1, e2]) e1 = Inr q \<and> has_val L \<sigma> q (if b \<and> \<not> b2 then x else y))"
proof -
  let ?t = "node Select (lit_type x) [c2, e1, e2]"
  have types: "getType e1 = lit_type x" "getType e2 = lit_type y" using assms(3,4) by (simp_all add: has_val_type)
  have "yields L \<sigma> (SelectExpr_Create c2 e1 e2) (if b2 then x else y)" using assms(2-6) by (intro Select_val)
  then have t: "has_val L \<sigma> ?t (if b2 then x else y)"
    by (auto simp: yields_def SelectExpr_Create_def check_eq_Inr types)
  have "yields L \<sigma> (SelectExpr_Create c ?t e1) (if b then (if b2 then x else y) else x)"
    using assms(1,3,5,6) t by (intro Select_val) auto
  then have plain: "yields L \<sigma> (bSelect plain_builder c ?t e1) (if b \<and> \<not> b2 then y else x)"
    by (cases b; cases b2) (simp_all add: plain_builder_def)
  have "yields L \<sigma> (fold_Select c ?t e1) (if b \<and> \<not> b2 then x else y)"
    unfolding fold_Select_swap [OF assms(7)]
    by (intro yields_rbind [OF fold_Not_yields [OF assms(2)]] yields_rbind [OF fold_And2_yields [OF assms(1)]] Select_val)
      (use assms(3-6) in simp_all)
  with plain show ?thesis by (simp add: yields_def folding_builder_def)
qed

text \<open>\<open>Select(a, Select(b, 1, 2), 1)\<close> with \<open>a\<close> true and \<open>b\<close> false.\<close>

theorem fold_select_swaps_branches_witness:
  "\<exists>p q. bSelect plain_builder (VarRefExpr (Variable ''a'' BoolType))
        (node Select IntType [VarRefExpr (Variable ''b'' BoolType), IntLit 1, IntLit 2]) (IntLit 1) = Inr p
    \<and> bSelect (folding_builder doc_llvm) (VarRefExpr (Variable ''a'' BoolType))
        (node Select IntType [VarRefExpr (Variable ''b'' BoolType), IntLit 1, IntLit 2]) (IntLit 1) = Inr q
    \<and> has_val doc_llvm [Variable ''a'' BoolType \<mapsto> BoolLiteral True, Variable ''b'' BoolType \<mapsto> BoolLiteral False] p (IntLiteral 2)
    \<and> has_val doc_llvm [Variable ''a'' BoolType \<mapsto> BoolLiteral True, Variable ''b'' BoolType \<mapsto> BoolLiteral False] q (IntLiteral 1)"
proof -
  let ?a = "Variable ''a'' BoolType" and ?b = "Variable ''b'' BoolType"
  let ?\<sigma> = "[?a \<mapsto> BoolLiteral True, ?b \<mapsto> BoolLiteral False]"
  have ok: "valuation_ok ?\<sigma>" by (auto simp: valuation_ok_def)
  have lit: "has_val doc_llvm ?\<sigma> (IntLit n) (IntLiteral n)" if "in_int64 n" for n
    using ok doc_llvm_laws that by (simp add: has_val_lit)
  have v: "bool_val doc_llvm ?\<sigma> (VarRefExpr ?a) True" "bool_val doc_llvm ?\<sigma> (VarRefExpr ?b) False"
    using ok doc_llvm_laws by (auto intro!: has_val_var)
  show ?thesis
    using fold_select_swaps_branches [OF v lit [of 1] lit [of 2]]
    by (auto simp: in_int64_def swap_applies_def m_Not_def m_Select_def)
qed

text \<open>The retry of \<open>foldBinaryExpr\<close> with swapped operands: a literal of another type than the integers and bit-vectors.\<close>

definition other_literal :: "expr \<Rightarrow> bool" where
  "other_literal e \<longleftrightarrow> isLiteral e \<and> dyn_Int e = None \<and> dyn_Bv e = None"

lemma fold_lits_no_overflow: "fold_lits L k l r \<noteq> Inl StackOverflow"
  by (auto simp: fold_lits_def fold_lits_Int_def fold_bv_arith_def i64_def i64_div_def check_def of_lib_def rbind_eq_Inl
      split: option.splits expr_kind.splits if_splits)

lemma foldBinaryExpr_direct:
  assumes "\<not> (isCommutative k \<and> isLiteral l \<and> dyn_Int r = None \<and> dyn_Bv r = None)"
  shows "foldBinaryExpr (Suc n) L k l r = foldBinaryExpr 1 L k l r" "foldBinaryExpr (Suc n) L k l r \<noteq> Inl StackOverflow"
  using assms fold_lits_no_overflow by (auto split: option.splits)

lemma foldBinaryExpr_retry:
  assumes "isCommutative k" and "isLiteral l" and "dyn_Int r = None" and "dyn_Bv r = None"
  shows "foldBinaryExpr (Suc n) L k l r = foldBinaryExpr n L k r l"
  using assms by simp

lemma foldBinaryExpr_diverges:
  "isCommutative k \<Longrightarrow> other_literal l \<Longrightarrow> other_literal r \<Longrightarrow> foldBinaryExpr n L k l r = Inl StackOverflow"
  by (induction n arbitrary: l r) (simp_all add: other_literal_def)

text \<open>
  C27: the recursion of \<open>foldBinaryExpr\<close>, which retries with swapped operands. For every kind and all operands it ends exactly
  unless the kind is commutative and both operands are literals that are neither integers nor bit-vectors, such as two
  reals; then the operands are swapped for ever. Where it ends, there are at most two calls, so at most one retry: fuel for two
  calls gives a result, and more fuel gives the same one.
\<close>

theorem foldBinaryExpr_termination:
  "((\<exists>n. foldBinaryExpr n L k l r \<noteq> Inl StackOverflow) \<longleftrightarrow> \<not> (isCommutative k \<and> other_literal l \<and> other_literal r))
   \<and> (\<not> (isCommutative k \<and> other_literal l \<and> other_literal r) \<longrightarrow>
        foldBinaryExpr 2 L k l r \<noteq> Inl StackOverflow \<and> foldBinaryExpr (n + 2) L k l r = foldBinaryExpr 2 L k l r)"
proof (cases "isCommutative k \<and> other_literal l \<and> other_literal r")
  case True
  then show ?thesis using foldBinaryExpr_diverges by blast
next
  case ends: False
  have "foldBinaryExpr (Suc (Suc m)) L k l r = foldBinaryExpr 2 L k l r \<and> foldBinaryExpr 2 L k l r \<noteq> Inl StackOverflow" for m
  proof (cases "isCommutative k \<and> isLiteral l \<and> dyn_Int r = None \<and> dyn_Bv r = None")
    case True
    then have swap: "foldBinaryExpr (Suc i) L k l r = foldBinaryExpr i L k r l" for i by (intro foldBinaryExpr_retry) simp_all
    have "\<not> (isCommutative k \<and> isLiteral r \<and> dyn_Int l = None \<and> dyn_Bv l = None)"
      using ends True by (auto simp: other_literal_def)
    from foldBinaryExpr_direct [OF this] show ?thesis unfolding numeral_2_eq_2 swap by simp
  next
    case False
    from foldBinaryExpr_direct [OF this] show ?thesis unfolding numeral_2_eq_2 by metis
  qed
  then show ?thesis using ends by auto
qed

text \<open>One literal zero on the left is moved to the right and dropped.\<close>

theorem foldBinaryExpr_termination_witness:
  "foldBinaryExpr 7 doc_llvm Add (IntLit 0) (VarRefExpr (Variable ''x'' IntType))
     = Inr (Some (VarRefExpr (Variable ''x'' IntType)))
   \<and> foldBinaryExpr 7 doc_llvm Add (LiteralExpr (RealLiteral 1 2)) (LiteralExpr (RealLiteral 1 3)) = Inl StackOverflow"
  using foldBinaryExpr_termination [of doc_llvm Add "IntLit 0" "VarRefExpr (Variable ''x'' IntType)" 5]
    foldBinaryExpr_termination [of doc_llvm Add "LiteralExpr (RealLiteral 1 2)" "LiteralExpr (RealLiteral 1 3)"]
  by (simp add: other_literal_def numeral_2_eq_2 isCommutative_def fold_right_Int_def)

end
