(* ===== verification/GazerPathCond.thy ===== *)
theory GazerPathCond
  imports GazerFolding GazerCfa
begin

text \<open>
  Path conditions (\<open>PathConditionCalculator\<close>, \<^verbatim>\<open>src/Automaton/CfaUtils.cpp\<close>). \<open>encode\<close> walks a topological
  order of the locations and computes for every location the condition under which it is reached
  from the source. The builder, the index function of the locations and the callback for calls are
  arguments; the optional callback \<open>mPredecessors\<close> is the flag \<open>track\<close> and the list of the calls made
  to it. The state of the calculator is its counter and the variable table of the context.

  The theorems are proved once for every builder of the locale \<open>path_builder\<close>, which adds the selection
  between two literals to \<open>formula_builder\<close>, and hold for the plain and the folding builder.
\<close>

record pcc =
  pVariables :: variable_table
  mPredIdx :: nat
  mPredCalls :: "(nat \<times> expr) list"

definition pred_name :: "nat \<Rightarrow> string" where
  "pred_name n = ''__gazer_pred_'' @ dec_digits n"

definition assignment_formulas :: "expr_builder \<Rightarrow> variable_assignment list \<Rightarrow> expr list res" where
  "assignment_formulas B as = res_map (\<lambda>a. bCompare B Eq (VarRefExpr (va_variable a)) (va_value a))
     (filter (\<lambda>a. getKind (va_value a) \<noteq> Undef) as)"

definition edge_formula :: "expr_builder \<Rightarrow> (nat \<Rightarrow> expr) \<Rightarrow> cfa \<Rightarrow> expr \<Rightarrow> nat \<Rightarrow> expr res" where
  "edge_formula B calls c d e = rbind (bAnd B [d, mGuard (mTransition c e)]) (\<lambda>formula.
     (case mTransition c e of
        AssignTransition g as \<Rightarrow> rbind (assignment_formulas B as) (\<lambda>assigns.
          if assigns = [] then Inr formula
          else rbind (bAnd B assigns) (\<lambda>conj. bAnd B [formula, conj]))
      | CallTransition g callee ins outs \<Rightarrow> bAnd B [formula, calls e]))"

text \<open>The loop over the incoming transitions of the location with the index \<open>start + i\<close>. A transition
  in the list of a location has a source.\<close>

fun collect_preds :: "expr_builder \<Rightarrow> (nat \<Rightarrow> expr) \<Rightarrow> cfa \<Rightarrow> (nat \<Rightarrow> nat) \<Rightarrow> nat \<Rightarrow> nat \<Rightarrow> expr list \<Rightarrow> nat list \<Rightarrow>
    (nat \<times> expr) list res" where
  "collect_preds B calls c index start i dp [] = Inr []"
| "collect_preds B calls c index start i dp (e # es) =
     (case mSource c e of None \<Rightarrow> Inl NullDeref
      | Some u \<Rightarrow> check (index u < i + start) AssertFail
         (if start \<le> index u then
            rbind (edge_formula B calls c (dp ! (index u - start)) e) (\<lambda>f.
              rbind (collect_preds B calls c index start i dp es) (\<lambda>ps. Inr ((e, f) # ps)))
          else collect_preds B calls c index start i dp es))"

definition source_lit :: "cfa \<Rightarrow> nat \<Rightarrow> expr" where
  "source_lit c e = IntLit (int (mID c (the (mSource c e))))"

definition choice2 :: "expr_builder \<Rightarrow> expr \<Rightarrow> expr \<Rightarrow> expr \<Rightarrow> expr \<Rightarrow> expr res" where
  "choice2 B f1 p1 f2 p2 = rbind (bAnd B [f1, p1]) (\<lambda>a. rbind (bAnd B [f2, p2]) (\<lambda>b. bOr B [a, b]))"

definition choice_many :: "expr_builder \<Rightarrow> (nat \<Rightarrow> expr res) \<Rightarrow> (nat \<times> expr) list \<Rightarrow> expr res" where
  "choice_many B ident preds = rbind (res_map (\<lambda>(e, f). rbind (ident e) (\<lambda>p. bAnd B [f, p])) preds) (bOr B)"

text \<open>The combination of the predecessors of a location.\<close>

definition encode_location :: "expr_builder \<Rightarrow> bool \<Rightarrow> cfa \<Rightarrow> nat \<Rightarrow> (nat \<times> expr) list \<Rightarrow> pcc \<Rightarrow> (expr \<times> pcc) res" where
  "encode_location B track c l preds st =
    (if preds = [] then Inr (False_lit, st)
     else if length preds = 1 then
       Inr (snd (hd preds), if track then st\<lparr>mPredCalls := mPredCalls st @ [(l, source_lit c (fst (hd preds)))]\<rparr> else st)
     else if length preds = 2 then
       (let (e1, f1) = preds ! 0; (e2, f2) = preds ! 1 in
        if track then
          rbind (createVariable (pVariables st) (pred_name (mPredIdx st)) BoolType) (\<lambda>(v, tbl).
          rbind (bSelect B (VarRefExpr v) (source_lit c e1) (source_lit c e2)) (\<lambda>sel.
          rbind (bNot B (VarRefExpr v)) (\<lambda>p2.
          rbind (choice2 B f1 (VarRefExpr v) f2 p2) (\<lambda>r.
            Inr (r, \<lparr>pVariables = tbl, mPredIdx = u32 (Suc (mPredIdx st)), mPredCalls = mPredCalls st @ [(l, sel)]\<rparr>)))))
        else rbind (choice2 B f1 True_lit f2 True_lit) (\<lambda>r. Inr (r, st)))
     else
       (if track then
          rbind (createVariable (pVariables st) (pred_name (mPredIdx st)) IntType) (\<lambda>(v, tbl).
          rbind (choice_many B (\<lambda>e. bCompare B Eq (VarRefExpr v) (source_lit c e)) preds) (\<lambda>r.
            Inr (r, \<lparr>pVariables = tbl, mPredIdx = u32 (Suc (mPredIdx st)),
                     mPredCalls = mPredCalls st @ [(l, VarRefExpr v)]\<rparr>)))
        else rbind (choice_many B (\<lambda>e. Inr True_lit) preds) (\<lambda>r. Inr (r, st))))"

fun encode_loop :: "expr_builder \<Rightarrow> (nat \<Rightarrow> expr) \<Rightarrow> bool \<Rightarrow> cfa \<Rightarrow> nat list \<Rightarrow> (nat \<Rightarrow> nat) \<Rightarrow> nat \<Rightarrow> nat list \<Rightarrow>
    expr list \<Rightarrow> pcc \<Rightarrow> (expr list \<times> pcc) res" where
  "encode_loop B calls track c topo index start [] dp st = Inr (dp, st)"
| "encode_loop B calls track c topo index start (i # is) dp st =
     (let l = topo ! (i + start) in
      rbind (collect_preds B calls c index start i dp (mIncoming c l)) (\<lambda>preds.
      rbind (encode_location B track c l preds st) (\<lambda>(f, st').
        encode_loop B calls track c topo index start is (dp[i := f]) st')))"

definition encode :: "expr_builder \<Rightarrow> (nat \<Rightarrow> expr) \<Rightarrow> bool \<Rightarrow> cfa \<Rightarrow> nat list \<Rightarrow> (nat \<Rightarrow> nat) \<Rightarrow> nat \<Rightarrow> nat \<Rightarrow> pcc \<Rightarrow>
    (expr \<times> pcc) res" where
  "encode B calls track c topo index source target st =
    (if source = target then Inr (True_lit, st)
     else let start = index source; end = index target; n = end - start + 1 in
       check (start < end) AssertFail (check (end < length topo) AssertFail
         (rbind (encode_loop B calls track c topo index start [1..<n] ((replicate n False_lit)[0 := True_lit]) st)
           (\<lambda>(dp, st'). Inr (last dp, st')))))"

section \<open>What a path condition means\<close>

text \<open>A transition holds under a valuation if its guard does, every assigned variable has the value of
  its expression, and the formula of a call is true.\<close>

definition assignment_holds :: "llvm_api \<Rightarrow> valuation \<Rightarrow> variable_assignment \<Rightarrow> bool" where
  "assignment_holds L \<sigma> a \<longleftrightarrow> getKind (va_value a) \<noteq> Undef \<longrightarrow>
     eval L \<sigma> (VarRefExpr (va_variable a)) = eval L \<sigma> (va_value a)"

definition transition_holds :: "llvm_api \<Rightarrow> valuation \<Rightarrow> (nat \<Rightarrow> expr) \<Rightarrow> cfa \<Rightarrow> nat \<Rightarrow> bool" where
  "transition_holds L \<sigma> calls c e \<longleftrightarrow> eval L \<sigma> (mGuard (mTransition c e)) = Inr (ALit (BoolLiteral True))
     \<and> (case mTransition c e of
          AssignTransition g as \<Rightarrow> list_all (assignment_holds L \<sigma>) as
        | CallTransition g callee ins outs \<Rightarrow> eval L \<sigma> (calls e) = Inr (ALit (BoolLiteral True)))"

text \<open>The expressions of a transition have values under the valuation; only integers, bit-vectors and
  Booleans are compared.\<close>

definition assignment_defined :: "llvm_api \<Rightarrow> valuation \<Rightarrow> variable_assignment \<Rightarrow> bool" where
  "assignment_defined L \<sigma> a \<longleftrightarrow> getKind (va_value a) \<noteq> Undef \<longrightarrow>
     (\<exists>x y. has_val L \<sigma> (VarRefExpr (va_variable a)) x \<and> has_val L \<sigma> (va_value a) y
        \<and> lit_type x = lit_type y \<and> eq_type (lit_type x))"

definition transition_defined :: "llvm_api \<Rightarrow> valuation \<Rightarrow> (nat \<Rightarrow> expr) \<Rightarrow> cfa \<Rightarrow> nat \<Rightarrow> bool" where
  "transition_defined L \<sigma> calls c e \<longleftrightarrow> (\<exists>b. bool_val L \<sigma> (mGuard (mTransition c e)) b)
     \<and> (case mTransition c e of
          AssignTransition g as \<Rightarrow> list_all (assignment_defined L \<sigma>) as
        | CallTransition g callee ins outs \<Rightarrow> \<exists>b. bool_val L \<sigma> (calls e) b)"

text \<open>Paths from a location over transitions with a property.\<close>

inductive path_by :: "cfa \<Rightarrow> (nat \<Rightarrow> nat \<Rightarrow> bool) \<Rightarrow> nat \<Rightarrow> nat \<Rightarrow> bool" for c ok s where
  path_refl: "path_by c ok s s"
| path_step: "path_by c ok s u \<Longrightarrow> e \<in> set (mIncoming c v) \<Longrightarrow> mSource c e = Some u \<Longrightarrow> ok v e \<Longrightarrow> path_by c ok s v"

inductive_cases path_byE: "path_by c ok s v"

text \<open>\<open>topo\<close> is a topological order of the locations, with \<open>index\<close> as its inverse, that is closed under
  predecessors.\<close>

definition topo_ok :: "cfa \<Rightarrow> nat list \<Rightarrow> (nat \<Rightarrow> nat) \<Rightarrow> bool" where
  "topo_ok c topo index \<longleftrightarrow> (\<forall>i < length topo. index (topo ! i) = i
     \<and> (\<forall>e \<in> set (mIncoming c (topo ! i)). \<exists>u. mSource c e = Some u \<and> u \<in> set topo \<and> index u < i))"

text \<open>The transitions of the region, the number of the discriminator of a location, and the
  transitions that a valuation of the discriminators selects.\<close>

definition region :: "cfa \<Rightarrow> (nat \<Rightarrow> nat) \<Rightarrow> nat \<Rightarrow> nat \<Rightarrow> nat list" where
  "region c index start l = filter (\<lambda>e. start \<le> index (the (mSource c e))) (mIncoming c l)"

definition disc_number :: "bool \<Rightarrow> cfa \<Rightarrow> nat list \<Rightarrow> (nat \<Rightarrow> nat) \<Rightarrow> nat \<Rightarrow> nat \<Rightarrow> nat \<Rightarrow> nat" where
  "disc_number track c topo index start first i =
     first + (if track then length (filter (\<lambda>j. 2 \<le> length (region c index start (topo ! (j + start)))) [1..<i]) else 0)"

definition selects :: "valuation \<Rightarrow> cfa \<Rightarrow> nat list \<Rightarrow> nat \<Rightarrow> nat \<Rightarrow> bool" where
  "selects \<sigma> c es n e \<longleftrightarrow>
     (if length es \<le> 1 then True
      else if length es = 2 then
        (if \<sigma> (Variable (pred_name n) BoolType) = Some (BoolLiteral True) then e = es ! 0 else e = es ! 1)
      else \<sigma> (Variable (pred_name n) IntType) = Some (IntLiteral (int (mID c (the (mSource c e))))))"

definition takes :: "bool \<Rightarrow> llvm_api \<Rightarrow> valuation \<Rightarrow> (nat \<Rightarrow> expr) \<Rightarrow> cfa \<Rightarrow> nat list \<Rightarrow> (nat \<Rightarrow> nat) \<Rightarrow> nat \<Rightarrow> nat \<Rightarrow>
    nat \<Rightarrow> nat \<Rightarrow> bool" where
  "takes track L \<sigma> calls c topo index start first v e \<longleftrightarrow> transition_holds L \<sigma> calls c e
     \<and> (track \<longrightarrow> selects \<sigma> c (region c index start v) (disc_number track c topo index start first (index v - start)) e)"

text \<open>The discriminators have values of their types.\<close>

definition disc_ok :: "valuation \<Rightarrow> bool" where
  "disc_ok \<sigma> \<longleftrightarrow> (\<forall>n. (\<exists>b. \<sigma> (Variable (pred_name n) BoolType) = Some (BoolLiteral b))
     \<and> (\<exists>k. \<sigma> (Variable (pred_name n) IntType) = Some (IntLiteral k)))"

lemma pred_name_inj [simp]: "pred_name a = pred_name b \<longleftrightarrow> a = b"
  by (simp add: pred_name_def)

lemma bool_val_eval: "bool_val L \<sigma> e b \<Longrightarrow> eval L \<sigma> e = Inr (ALit (BoolLiteral True)) \<longleftrightarrow> b"
  by (auto simp: has_val_def)

section \<open>Correctness for every builder\<close>

locale path_builder = formula_builder +
  assumes select_lit_val: "bool_val L \<sigma> (VarRefExpr v) b \<Longrightarrow> lit_ok (IntLiteral x) \<Longrightarrow> lit_ok (IntLiteral y) \<Longrightarrow>
    yields L \<sigma> (bSelect B (VarRefExpr v) (IntLit x) (IntLit y)) (IntLiteral (if b then x else y))"
begin

lemma assignment_formulas_val:
  assumes "list_all (assignment_defined L \<sigma>) as"
  shows "\<exists>eqs bs. assignment_formulas B as = Inr eqs \<and> bool_list L \<sigma> eqs bs
    \<and> (list_all (\<lambda>b. b) bs \<longleftrightarrow> list_all (assignment_holds L \<sigma>) as)"
  using assms
proof (induction as)
  case (Cons a as)
  then obtain eqs bs where IH: "assignment_formulas B as = Inr eqs" "bool_list L \<sigma> eqs bs"
    "list_all (\<lambda>b. b) bs \<longleftrightarrow> list_all (assignment_holds L \<sigma>) as" by auto
  show ?case
  proof (cases "getKind (va_value a) = Undef")
    case True
    then have "assignment_holds L \<sigma> a" by (simp add: assignment_holds_def)
    with True IH show ?thesis by (auto simp: assignment_formulas_def)
  next
    case False
    then obtain x y where v: "has_val L \<sigma> (VarRefExpr (va_variable a)) x" "has_val L \<sigma> (va_value a) y"
      "lit_type x = lit_type y" "eq_type (lit_type x)"
      using Cons.prems by (auto simp: assignment_defined_def)
    from eq_var_val [OF this] obtain q where q: "bCompare B Eq (VarRefExpr (va_variable a)) (va_value a) = Inr q"
      "bool_val L \<sigma> q (x = y)" by (auto simp: yields_def)
    have "assignment_holds L \<sigma> a \<longleftrightarrow> x = y" using False v(1,2) by (auto simp: assignment_holds_def has_val_def)
    with False IH q show ?thesis
      by (intro exI [of _ "q # eqs"] exI [of _ "(x = y) # bs"]) (auto simp: assignment_formulas_def)
  qed
qed (simp add: assignment_formulas_def)

lemma edge_formula_val:
  assumes d: "bool_val L \<sigma> d b" and "transition_defined L \<sigma> calls c e"
  shows "yields L \<sigma> (edge_formula B calls c d e) (BoolLiteral (b \<and> transition_holds L \<sigma> calls c e))"
proof -
  obtain g where g: "bool_val L \<sigma> (mGuard (mTransition c e)) g" using assms(2) by (auto simp: transition_defined_def)
  obtain f where f: "bAnd B [d, mGuard (mTransition c e)] = Inr f" "bool_val L \<sigma> f (b \<and> g)"
    using and2_val [OF d g] by (auto simp: yields_def)
  show ?thesis
  proof (cases "mTransition c e")
    case (AssignTransition gu as)
    then obtain eqs bs where as: "assignment_formulas B as = Inr eqs" "bool_list L \<sigma> eqs bs"
      "list_all (\<lambda>b. b) bs \<longleftrightarrow> list_all (assignment_holds L \<sigma>) as"
      using assignment_formulas_val assms(2) by (force simp: transition_defined_def)
    have h: "transition_holds L \<sigma> calls c e \<longleftrightarrow> g \<and> list_all (\<lambda>b. b) bs"
      using AssignTransition as(3) bool_val_eval [OF g] by (simp add: transition_holds_def)
    show ?thesis
    proof (cases "eqs = []")
      case True
      then have "bs = []" using as(2) by simp
      with True h f AssignTransition as(1) show ?thesis by (simp add: edge_formula_def)
    next
      case False
      obtain k where k: "bAnd B eqs = Inr k" "bool_val L \<sigma> k (list_all (\<lambda>b. b) bs)"
        using and_val [OF as(2) False] by (auto simp: yields_def)
      from and2_val [OF f(2) k(2)] False h f AssignTransition as(1) k show ?thesis
        by (simp add: edge_formula_def conj_assoc)
    qed
  next
    case (CallTransition gu callee ins outs)
    then obtain k where k: "bool_val L \<sigma> (calls e) k" using assms(2) by (auto simp: transition_defined_def)
    have "transition_holds L \<sigma> calls c e \<longleftrightarrow> g \<and> k"
      using CallTransition bool_val_eval [OF g] bool_val_eval [OF k] by (simp add: transition_holds_def)
    with and2_val [OF f(2) k] f CallTransition show ?thesis by (simp add: edge_formula_def conj_assoc)
  qed
qed

lemma collect_preds_val:
  assumes "\<And>j. j < i \<Longrightarrow> bool_val L \<sigma> (dp ! j) (D j)"
    and "\<And>e. e \<in> set es \<Longrightarrow> \<exists>u. mSource c e = Some u \<and> index u < i + start \<and> transition_defined L \<sigma> calls c e"
  shows "\<exists>ps. collect_preds B calls c index start i dp es = Inr ps
    \<and> map fst ps = filter (\<lambda>e. start \<le> index (the (mSource c e))) es
    \<and> list_all (\<lambda>(e, f). bool_val L \<sigma> f
        (D (index (the (mSource c e)) - start) \<and> transition_holds L \<sigma> calls c e)) ps"
  using assms(2)
proof (induction es)
  case (Cons e es)
  then obtain u where u: "mSource c e = Some u" "index u < i + start" "transition_defined L \<sigma> calls c e" by auto
  obtain ps where ps: "collect_preds B calls c index start i dp es = Inr ps"
    "map fst ps = filter (\<lambda>e. start \<le> index (the (mSource c e))) es"
    "list_all (\<lambda>(e, f). bool_val L \<sigma> f (D (index (the (mSource c e)) - start) \<and> transition_holds L \<sigma> calls c e)) ps"
    using Cons by auto
  show ?case
  proof (cases "start \<le> index u")
    case True
    then have "bool_val L \<sigma> (dp ! (index u - start)) (D (index u - start))" using u(2) by (intro assms(1)) simp
    from edge_formula_val [OF this u(3)] obtain f where "edge_formula B calls c (dp ! (index u - start)) e = Inr f"
      "bool_val L \<sigma> f (D (index u - start) \<and> transition_holds L \<sigma> calls c e)" by (auto simp: yields_def)
    with True u ps show ?thesis by (simp add: check_def)
  qed (use u ps in \<open>simp add: check_def\<close>)
qed simp

lemma choice2_val:
  assumes "bool_val L \<sigma> f1 a" "bool_val L \<sigma> p1 b" "bool_val L \<sigma> f2 x" "bool_val L \<sigma> p2 y"
  shows "yields L \<sigma> (choice2 B f1 p1 f2 p2) (BoolLiteral (a \<and> b \<or> x \<and> y))"
  unfolding choice2_def
  by (rule yields_rbind [OF and2_val [OF assms(1,2)]], rule yields_rbind [OF and2_val [OF assms(3,4)]])
    (rule or2_val)

lemma choice_many_val:
  assumes "list_all (\<lambda>(e, f). bool_val L \<sigma> f (V e)) ps" and "ps \<noteq> []"
    and "\<And>e. e \<in> fst ` set ps \<Longrightarrow> yields L \<sigma> (ident e) (BoolLiteral (S e))"
  shows "yields L \<sigma> (choice_many B ident ps) (BoolLiteral (\<exists>e \<in> fst ` set ps. V e \<and> S e))"
proof -
  have "\<exists>fs. res_map (\<lambda>(e, f). rbind (ident e) (\<lambda>p. bAnd B [f, p])) ps = Inr fs
      \<and> bool_list L \<sigma> fs (map (\<lambda>(e, f). V e \<and> S e) ps)"
    using assms(1,3)
  proof (induction ps)
    case (Cons p ps)
    obtain e f where p: "p = (e, f)" by (cases p)
    have "yields L \<sigma> (rbind (ident e) (\<lambda>q. bAnd B [f, q])) (BoolLiteral (V e \<and> S e))"
      using Cons.prems p by (intro yields_rbind [of L \<sigma> "ident e" "BoolLiteral (S e)"] and2_val) auto
    then obtain q where "rbind (ident e) (\<lambda>q. bAnd B [f, q]) = Inr q" "bool_val L \<sigma> q (V e \<and> S e)"
      by (auto simp: yields_def)
    with Cons p show ?case by auto
  qed simp
  then obtain fs where fs: "res_map (\<lambda>(e, f). rbind (ident e) (\<lambda>p. bAnd B [f, p])) ps = Inr fs"
    "bool_list L \<sigma> fs (map (\<lambda>(e, f). V e \<and> S e) ps)" by blast
  then have "fs \<noteq> []" using assms(2) by (auto simp: list_all2_Cons2 neq_Nil_conv)
  moreover have "list_ex (\<lambda>b. b) (map (\<lambda>(e, f). V e \<and> S e) ps) \<longleftrightarrow> (\<exists>e \<in> fst ` set ps. V e \<and> S e)"
    by (induction ps) auto
  ultimately show ?thesis using or_val [OF fs(2)] fs(1) by (simp add: choice_many_def)
qed

lemma disc_var_val:
  assumes "llvm_laws L" "valuation_ok \<sigma>" "\<sigma> (Variable n t) = Some l" "function_free t"
  shows "has_val L \<sigma> (VarRefExpr (Variable n t)) l"
  using assms by (intro has_val_var) auto

lemma source_lit_val:
  assumes "llvm_laws L" "valuation_ok \<sigma>" "mID c (the (mSource c e)) < 2 ^ 32"
  shows "has_val L \<sigma> (source_lit c e) (IntLiteral (int (mID c (the (mSource c e)))))"
  using assms by (simp add: source_lit_def has_val_lit in_int64_def)

text \<open>The formula of a location, its discriminator and the call of the predecessor callback.\<close>

lemma encode_location_val:
  assumes V: "list_all (\<lambda>(e, f). bool_val L \<sigma> f (V e)) ps" and es: "es = map fst ps"
    and laws: "llvm_laws L" "valuation_ok \<sigma>" and disc: "track \<Longrightarrow> disc_ok \<sigma>"
    and ids: "\<forall>l. mID c l < 2 ^ 32" and fresh: "\<And>n. track \<Longrightarrow> mPredIdx st \<le> n \<Longrightarrow> pVariables st (pred_name n) = None"
    and wrap: "Suc (mPredIdx st) < 2 ^ 32"
  shows "\<exists>f st'. encode_location B track c l ps st = Inr (f, st')
    \<and> bool_val L \<sigma> f (\<exists>e \<in> set es. V e \<and> (track \<longrightarrow> selects \<sigma> c es (mPredIdx st) e))
    \<and> mPredIdx st' = mPredIdx st + (if track \<and> 2 \<le> length es then 1 else 0)
    \<and> (\<forall>n. track \<longrightarrow> mPredIdx st' \<le> n \<longrightarrow> pVariables st' (pred_name n) = None)
    \<and> (if track \<and> es \<noteq> [] then \<exists>x. mPredCalls st' = mPredCalls st @ [(l, x)] \<and> (\<forall>e \<in> set es.
          selects \<sigma> c es (mPredIdx st) e \<longrightarrow> has_val L \<sigma> x (IntLiteral (int (mID c (the (mSource c e))))))
       else mPredCalls st' = mPredCalls st)
    \<and> (\<not> track \<longrightarrow> st' = st)"
proof -
  let ?n = "mPredIdx st"
  note lit = source_lit_val [OF laws ids [rule_format]]
  consider "ps = []" | e f where "ps = [(e, f)]" | e1 f1 e2 f2 where "ps = [(e1, f1), (e2, f2)]" | "3 \<le> length ps"
  proof (cases ps)
    case (Cons p qs)
    then show ?thesis using that by (cases p; cases qs; cases "tl qs") (auto simp: numeral_3_eq_3)
  qed (use that in blast)
  then show ?thesis
  proof cases
    case 1
    then show ?thesis using fresh es laws by (auto simp: encode_location_def bool_lit_val)
  next
    case 2
    then show ?thesis using V fresh es lit [of e]
      by (auto simp: encode_location_def selects_def)
  next
    case 3
    then have v: "bool_val L \<sigma> f1 (V e1)" "bool_val L \<sigma> f2 (V e2)" "es = [e1, e2]" using V es by auto
    show ?thesis
    proof (cases track)
      case False
      have t: "bool_val L \<sigma> True_lit True" using laws by (simp add: bool_lit_val)
      obtain r where "choice2 B f1 True_lit f2 True_lit = Inr r" "bool_val L \<sigma> r (V e1 \<or> V e2)"
        using choice2_val [OF v(1) t v(2) t] by (auto simp: yields_def)
      then show ?thesis using False 3 v(3) by (auto simp: encode_location_def)
    next
      case True
      let ?d = "Variable (pred_name ?n) BoolType"
      obtain b where b: "\<sigma> ?d = Some (BoolLiteral b)" using disc [OF True] by (auto simp: disc_ok_def)
      then have d: "bool_val L \<sigma> (VarRefExpr ?d) b" using laws by (intro disc_var_val) auto
      obtain p2 where p2: "bNot B (VarRefExpr ?d) = Inr p2" "bool_val L \<sigma> p2 (\<not> b)"
        using not_val [OF d] by (auto simp: yields_def)
      obtain r where r: "choice2 B f1 (VarRefExpr ?d) f2 p2 = Inr r" "bool_val L \<sigma> r (V e1 \<and> b \<or> V e2 \<and> \<not> b)"
        using choice2_val [OF v(1) d v(2) p2(2)] by (auto simp: yields_def)
      have "lit_ok (IntLiteral (int (mID c k)))" for k using ids [rule_format, of k] by (simp add: in_int64_def)
      with select_lit_val [OF d] obtain s where s: "bSelect B (VarRefExpr ?d) (source_lit c e1) (source_lit c e2) = Inr s"
        "has_val L \<sigma> s (IntLiteral (if b then int (mID c (the (mSource c e1))) else int (mID c (the (mSource c e2)))))"
        unfolding source_lit_def yields_def by blast
      have sel: "selects \<sigma> c [e1, e2] ?n e \<longleftrightarrow> (if b then e = e1 else e = e2)" for e
        using b by (auto simp: selects_def)
      have "encode_location B track c l ps st = Inr (r, \<lparr>pVariables = (pVariables st)(pred_name ?n \<mapsto> ?d),
          mPredIdx = Suc ?n, mPredCalls = mPredCalls st @ [(l, s)]\<rparr>)"
        using True 3 fresh [of ?n] p2(1) r(1) s(1) wrap
        by (simp add: encode_location_def createVariable_def check_def u32_def)
      moreover have "(\<exists>e \<in> set es. V e \<and> (track \<longrightarrow> selects \<sigma> c es ?n e)) \<longleftrightarrow> V e1 \<and> b \<or> V e2 \<and> \<not> b"
        using True v(3) sel by auto
      ultimately show ?thesis
        using True r(2) s(2) v(3) sel fresh by auto
    qed
  next
    case 4
    then have len: "ps \<noteq> []" "length ps \<noteq> Suc 0" "length ps \<noteq> 2" "\<not> length es \<le> Suc 0" "length es \<noteq> 2" "es \<noteq> []"
      using es by auto
    have im: "fst ` set ps = set es" using es by auto
    show ?thesis
    proof (cases track)
      case False
      have "yields L \<sigma> (choice_many B (\<lambda>e. Inr True_lit) ps) (BoolLiteral (\<exists>e \<in> fst ` set ps. V e \<and> True))"
        using laws by (intro choice_many_val [OF V len(1)]) (simp add: bool_lit_val)
      then show ?thesis using False len by (auto simp: encode_location_def yields_def im)
    next
      case True
      let ?d = "Variable (pred_name ?n) IntType"
      obtain k where k: "\<sigma> ?d = Some (IntLiteral k)" using disc [OF True] by (auto simp: disc_ok_def)
      then have d: "has_val L \<sigma> (VarRefExpr ?d) (IntLiteral k)" using laws by (intro disc_var_val) auto
      have sel: "selects \<sigma> c es ?n e \<longleftrightarrow> k = int (mID c (the (mSource c e)))" for e
        using k len by (simp add: selects_def)
      have "yields L \<sigma> (bCompare B Eq (VarRefExpr ?d) (source_lit c e)) (BoolLiteral (selects \<sigma> c es ?n e))" for e
        using eq_var_val [OF d lit [of e]] by (simp add: sel)
      then have "yields L \<sigma> (choice_many B (\<lambda>e. bCompare B Eq (VarRefExpr ?d) (source_lit c e)) ps)
          (BoolLiteral (\<exists>e \<in> fst ` set ps. V e \<and> selects \<sigma> c es ?n e))"
        by (intro choice_many_val [OF V len(1)])
      then obtain r where r: "choice_many B (\<lambda>e. bCompare B Eq (VarRefExpr ?d) (source_lit c e)) ps = Inr r"
        "bool_val L \<sigma> r (\<exists>e \<in> set es. V e \<and> selects \<sigma> c es ?n e)" by (auto simp: yields_def im)
      have "encode_location B track c l ps st = Inr (r, \<lparr>pVariables = (pVariables st)(pred_name ?n \<mapsto> ?d),
          mPredIdx = Suc ?n, mPredCalls = mPredCalls st @ [(l, VarRefExpr ?d)]\<rparr>)"
        using True len fresh [of ?n] r(1) wrap
        by (simp add: encode_location_def createVariable_def check_def u32_def)
      then show ?thesis using True r(2) d fresh len sel by auto
    qed
  qed
qed

end

text \<open>Paths from the source stay in the region, and a path to another location ends with a transition
  of the region.\<close>

lemma topo_nth: "topo_ok c topo index \<Longrightarrow> u \<in> set topo \<Longrightarrow> index u < length topo \<and> topo ! index u = u"
  by (auto simp: topo_ok_def in_set_conv_nth)

lemma topo_source:
  assumes "topo_ok c topo index" "v \<in> set topo" "e \<in> set (mIncoming c v)"
  shows "\<exists>u. mSource c e = Some u \<and> u \<in> set topo \<and> index u < index v"
  using assms topo_nth [OF assms(1,2)] by (metis topo_ok_def)

lemma path_in_topo:
  assumes "topo_ok c topo index" and "path_by c ok s v" and "v \<in> set topo"
  shows "index s \<le> index v \<and> s \<in> set topo"
  using assms(2,3)
proof (induction rule: path_by.induct)
  case (path_step u e v)
  then obtain u' where "mSource c e = Some u'" "u' \<in> set topo" "index u' < index v"
    using topo_source [OF assms(1)] by blast
  with path_step show ?case by auto
qed simp

lemma path_by_region:
  assumes t: "topo_ok c topo index" and v: "v \<in> set topo" and s: "index s < index v"
  shows "path_by c ok s v \<longleftrightarrow>
    (\<exists>e \<in> set (region c index (index s) v). path_by c ok s (the (mSource c e)) \<and> ok v e)"
proof
  assume "path_by c ok s v"
  then show "\<exists>e \<in> set (region c index (index s) v). path_by c ok s (the (mSource c e)) \<and> ok v e"
  proof (cases rule: path_by.cases)
    case path_refl
    with s show ?thesis by simp
  next
    case (path_step u e)
    then have "u \<in> set topo" using topo_source [OF t v] by fastforce
    then have "index s \<le> index u" using path_in_topo [OF t] path_step by blast
    with path_step show ?thesis by (auto simp: region_def)
  qed
next
  assume "\<exists>e \<in> set (region c index (index s) v). path_by c ok s (the (mSource c e)) \<and> ok v e"
  then obtain e where e: "e \<in> set (mIncoming c v)" "path_by c ok s (the (mSource c e))" "ok v e"
    by (auto simp: region_def)
  then obtain u where "mSource c e = Some u" using topo_source [OF t v] by blast
  with e show "path_by c ok s v" by (auto intro: path_by.path_step)
qed

lemma disc_number_Suc:
  "1 \<le> i \<Longrightarrow> disc_number track c topo index start first (Suc i) = disc_number track c topo index start first i
     + (if track \<and> 2 \<le> length (region c index start (topo ! (i + start))) then 1 else 0)"
  by (simp add: disc_number_def)

lemma disc_number_le: "disc_number track c topo index start first i \<le> first + i"
  using length_filter_le [of "\<lambda>j. 2 \<le> length (region c index start (topo ! (j + start)))" "[1..<i]"]
  by (auto simp: disc_number_def)

text \<open>The calls of the predecessor callback agree with the selected transitions.\<close>

definition calls_ok :: "llvm_api \<Rightarrow> valuation \<Rightarrow> cfa \<Rightarrow> nat list \<Rightarrow> (nat \<Rightarrow> nat) \<Rightarrow> nat \<Rightarrow> nat \<Rightarrow> (nat \<times> expr) list \<Rightarrow> bool" where
  "calls_ok L \<sigma> c topo index start first calls \<longleftrightarrow> (\<forall>(l, x) \<in> set calls. \<forall>e \<in> set (region c index start l).
     selects \<sigma> c (region c index start l) (disc_number True c topo index start first (index l - start)) e \<longrightarrow>
       has_val L \<sigma> x (IntLiteral (int (mID c (the (mSource c e))))))"

lemma calls_ok_append:
  "calls_ok L \<sigma> c topo index start first (xs @ ys) \<longleftrightarrow>
     calls_ok L \<sigma> c topo index start first xs \<and> calls_ok L \<sigma> c topo index start first ys"
  by (auto simp: calls_ok_def)

context path_builder
begin

lemma encode_loop_val:
  fixes index :: "nat \<Rightarrow> nat" and s first :: nat and c :: cfa and track and \<sigma> and calls and topo
  defines "start \<equiv> index s"
  defines "D \<equiv> \<lambda>j. path_by c (takes track L \<sigma> calls c topo index start first) s (topo ! (j + start))"
  assumes t: "topo_ok c topo index" and n: "start + n \<le> length topo"
    and laws: "llvm_laws L" "valuation_ok \<sigma>" and disc: "track \<Longrightarrow> disc_ok \<sigma>" and ids: "\<forall>l. mID c l < 2 ^ 32"
    and def: "\<And>l e. l \<in> set topo \<Longrightarrow> e \<in> set (mIncoming c l) \<Longrightarrow> transition_defined L \<sigma> calls c e"
    and wrap: "first + length topo < 2 ^ 32"
    and i: "1 \<le> i" "i \<le> n" and dp: "length dp = n" "\<And>j. j < i \<Longrightarrow> bool_val L \<sigma> (dp ! j) (D j)"
    and st: "mPredIdx st = disc_number track c topo index start first i"
      "\<And>k. track \<Longrightarrow> mPredIdx st \<le> k \<Longrightarrow> pVariables st (pred_name k) = None"
  shows "\<exists>dp' st' new. encode_loop B calls track c topo index start [i..<n] dp st = Inr (dp', st')
    \<and> length dp' = n \<and> (\<forall>j < n. bool_val L \<sigma> (dp' ! j) (D j))
    \<and> mPredCalls st' = mPredCalls st @ new \<and> calls_ok L \<sigma> c topo index start first new \<and> (\<not> track \<longrightarrow> new = [] \<and> st' = st)
    \<and> fst ` set new = {l \<in> (\<lambda>j. topo ! (j + start)) ` {i..<n}. track \<and> region c index start l \<noteq> []}
    \<and> mPredIdx st' \<le> first + n \<and> (\<forall>k. track \<longrightarrow> mPredIdx st' \<le> k \<longrightarrow> pVariables st' (pred_name k) = None)"
  using i dp st
proof (induction "n - i" arbitrary: i dp st)
  case 0
  then have "[i..<n] = []" "{i..<n} = {}" by auto
  moreover have "mPredIdx st \<le> first + n"
    using 0 disc_number_le [of track c topo index start first i] by simp
  ultimately show ?case using 0 by (intro exI [of _ dp] exI [of _ st] exI [of _ "[]"]) (auto simp: calls_ok_def)
next
  case (Suc k)
  let ?l = "topo ! (i + start)" and ?first = "disc_number track c topo index start first"
  let ?es = "region c index start ?l"
  let ?D = "\<lambda>e. D (index (the (mSource c e)) - start) \<and> transition_holds L \<sigma> calls c e"
  have i: "i < n" using Suc.hyps(2) Suc.prems(2) by simp
  then have l: "?l \<in> set topo" "index ?l = i + start" using t n by (auto simp: topo_ok_def)
  have edge: "\<exists>u. mSource c e = Some u \<and> index u < i + start \<and> transition_defined L \<sigma> calls c e"
    if "e \<in> set (mIncoming c ?l)" for e
    using topo_source [OF t l(1) that] def [OF l(1) that] l(2) by auto
  obtain ps where ps: "collect_preds B calls c index start i dp (mIncoming c ?l) = Inr ps" "map fst ps = ?es"
    "list_all (\<lambda>(e, f). bool_val L \<sigma> f (?D e)) ps"
    using collect_preds_val [where D = D, OF Suc.prems(4) edge] unfolding region_def by blast
  have w: "Suc (mPredIdx st) < 2 ^ 32"
    using Suc.prems(5) disc_number_le [of track c topo index start first i] i n wrap by simp
  obtain f st1 where f: "encode_location B track c ?l ps st = Inr (f, st1)"
    "bool_val L \<sigma> f (\<exists>e \<in> set ?es. ?D e \<and> (track \<longrightarrow> selects \<sigma> c ?es (mPredIdx st) e))"
    "mPredIdx st1 = mPredIdx st + (if track \<and> 2 \<le> length ?es then 1 else 0)"
    "\<forall>n. track \<longrightarrow> mPredIdx st1 \<le> n \<longrightarrow> pVariables st1 (pred_name n) = None"
    "if track \<and> ?es \<noteq> [] then \<exists>x. mPredCalls st1 = mPredCalls st @ [(?l, x)] \<and> (\<forall>e \<in> set ?es.
       selects \<sigma> c ?es (mPredIdx st) e \<longrightarrow> has_val L \<sigma> x (IntLiteral (int (mID c (the (mSource c e))))))
     else mPredCalls st1 = mPredCalls st" "\<not> track \<longrightarrow> st1 = st"
    using encode_location_val [OF ps(3) ps(2) [symmetric] laws disc ids Suc.prems(6) w] by blast
  have src: "D (index (the (mSource c e)) - start) \<longleftrightarrow>
      path_by c (takes track L \<sigma> calls c topo index start first) s (the (mSource c e))" if "e \<in> set ?es" for e
    using that topo_source [OF t l(1)] topo_nth [OF t] unfolding D_def region_def by fastforce
  have no: "disc_number track c topo index start first (index ?l - start) = mPredIdx st"
    using l(2) Suc.prems(5) by simp
  have "index s < index ?l" using l(2) Suc.prems(1) start_def by simp
  moreover have tk: "takes track L \<sigma> calls c topo index start first ?l e \<longleftrightarrow>
      transition_holds L \<sigma> calls c e \<and> (track \<longrightarrow> selects \<sigma> c ?es (mPredIdx st) e)" for e
    unfolding takes_def no by simp
  ultimately have "D i \<longleftrightarrow> (\<exists>e \<in> set ?es. path_by c (takes track L \<sigma> calls c topo index start first) s (the (mSource c e))
      \<and> takes track L \<sigma> calls c topo index start first ?l e)"
    unfolding D_def start_def by (intro path_by_region [OF t l(1) [unfolded start_def]])
  also have "\<dots> \<longleftrightarrow> (\<exists>e \<in> set ?es. ?D e \<and> (track \<longrightarrow> selects \<sigma> c ?es (mPredIdx st) e))"
    by (rule bex_cong [OF refl]) (simp add: src tk conj_assoc)
  finally have val: "bool_val L \<sigma> f (D i)" using f(2) by simp
  obtain new where new: "mPredCalls st1 = mPredCalls st @ new" "calls_ok L \<sigma> c topo index start first new"
    "\<not> track \<longrightarrow> new = []" "fst ` set new = (if track \<and> ?es \<noteq> [] then {?l} else {})"
  proof (cases "track \<and> ?es \<noteq> []")
    case True
    with f(5) obtain x where x: "mPredCalls st1 = mPredCalls st @ [(?l, x)]" "\<forall>e \<in> set ?es.
       selects \<sigma> c ?es (mPredIdx st) e \<longrightarrow> has_val L \<sigma> x (IntLiteral (int (mID c (the (mSource c e)))))" by auto
    have "calls_ok L \<sigma> c topo index start first [(?l, x)]"
      using x(2) no True by (simp add: calls_ok_def)
    with that [of "[(?l, x)]"] x(1) True show ?thesis by simp
  next
    case False
    with that [of "[]"] f(5) show ?thesis by (simp add: calls_ok_def)
  qed
  have "\<exists>dp' st' new'. encode_loop B calls track c topo index start [Suc i..<n] (dp[i := f]) st1 = Inr (dp', st')
    \<and> length dp' = n \<and> (\<forall>j < n. bool_val L \<sigma> (dp' ! j) (D j))
    \<and> mPredCalls st' = mPredCalls st1 @ new' \<and> calls_ok L \<sigma> c topo index start first new' \<and> (\<not> track \<longrightarrow> new' = [] \<and> st' = st1)
    \<and> fst ` set new' = {l \<in> (\<lambda>j. topo ! (j + start)) ` {Suc i..<n}. track \<and> region c index start l \<noteq> []}
    \<and> mPredIdx st' \<le> first + n \<and> (\<forall>k. track \<longrightarrow> mPredIdx st' \<le> k \<longrightarrow> pVariables st' (pred_name k) = None)"
  proof (rule Suc.hyps(1))
    show "k = n - Suc i" "1 \<le> Suc i" "Suc i \<le> n" "length (dp[i := f]) = n" using Suc i by auto
    show "bool_val L \<sigma> (dp[i := f] ! j) (D j)" if "j < Suc i" for j
      using that val Suc.prems(3,4) i by (cases "j = i") auto
    show "mPredIdx st1 = ?first (Suc i)"
      using f(3) Suc.prems(1,5) by (simp add: disc_number_Suc)
    show "pVariables st1 (pred_name k) = None" if "track" "mPredIdx st1 \<le> k" for k using f(4) that by blast
  qed
  then obtain dp' st' new' where r: "encode_loop B calls track c topo index start [Suc i..<n] (dp[i := f]) st1 = Inr (dp', st')"
    "length dp' = n" "\<forall>j < n. bool_val L \<sigma> (dp' ! j) (D j)" "mPredCalls st' = mPredCalls st1 @ new'"
    "calls_ok L \<sigma> c topo index start first new'" "\<not> track \<longrightarrow> new' = [] \<and> st' = st1"
    "fst ` set new' = {l \<in> (\<lambda>j. topo ! (j + start)) ` {Suc i..<n}. track \<and> region c index start l \<noteq> []}"
    "mPredIdx st' \<le> first + n" "\<forall>k. track \<longrightarrow> mPredIdx st' \<le> k \<longrightarrow> pVariables st' (pred_name k) = None"
    by (elim exE conjE) (rule that)
  have split: "[i..<n] = i # [Suc i..<n]" "{i..<n} = insert i {Suc i..<n}" using i by (auto simp: upt_conv_Cons)
  have "encode_loop B calls track c topo index start [i..<n] dp st = Inr (dp', st')"
    unfolding split(1) using ps(1) f(1) r(1) by (simp add: Let_def)
  moreover have "fst ` set (new @ new') = {l \<in> (\<lambda>j. topo ! (j + start)) ` {i..<n}. track \<and> region c index start l \<noteq> []}"
    unfolding split(2) set_append image_Un new(4) r(7) by auto
  ultimately show ?case
    using r(2-6,8,9) new f(6) by (intro exI [of _ dp'] exI [of _ st'] exI [of _ "new @ new'"]) (simp add: calls_ok_append)
qed

text \<open>The formula that \<open>encode\<close> returns is true exactly if there is a path from the source to the target
  whose transitions hold and are selected by the discriminators.\<close>

lemma encode_val:
  assumes t: "topo_ok c topo index" and s: "source \<in> set topo" "target \<in> set topo" "index source \<le> index target"
    and laws: "llvm_laws L" "valuation_ok \<sigma>" and disc: "track \<Longrightarrow> disc_ok \<sigma>" and ids: "\<forall>l. mID c l < 2 ^ 32"
    and def: "\<And>l e. l \<in> set topo \<Longrightarrow> e \<in> set (mIncoming c l) \<Longrightarrow> transition_defined L \<sigma> calls c e"
    and wrap: "mPredIdx st + length topo < 2 ^ 32"
    and fresh: "\<And>k. track \<Longrightarrow> mPredIdx st \<le> k \<Longrightarrow> pVariables st (pred_name k) = None"
  shows "\<exists>f st' new. encode B calls track c topo index source target st = Inr (f, st')
    \<and> bool_val L \<sigma> f (path_by c (takes track L \<sigma> calls c topo index (index source) (mPredIdx st)) source target)
    \<and> mPredCalls st' = mPredCalls st @ new \<and> calls_ok L \<sigma> c topo index (index source) (mPredIdx st) new
    \<and> fst ` set new = {l \<in> (\<lambda>j. topo ! (j + index source)) ` {1..<index target - index source + 1}.
         track \<and> region c index (index source) l \<noteq> []}
    \<and> (\<not> track \<longrightarrow> st' = st)
    \<and> mPredIdx st' \<le> mPredIdx st + length topo \<and> (\<forall>k. track \<longrightarrow> mPredIdx st' \<le> k \<longrightarrow> pVariables st' (pred_name k) = None)"
proof (cases "source = target")
  case True
  then show ?thesis using laws fresh by (auto simp: encode_def bool_lit_val calls_ok_def intro: path_by.intros)
next
  case False
  let ?start = "index source" and ?n = "index target - index source + 1"
  note nth = topo_nth [OF t s(1)] topo_nth [OF t s(2)]
  have lt: "?start < index target" using False nth s(3) by (metis le_neq_implies_less)
  then have n: "?start + ?n \<le> length topo" using nth(2) by simp
  have dp0: "bool_val L \<sigma> ((replicate ?n False_lit)[0 := True_lit] ! j)
      (path_by c (takes track L \<sigma> calls c topo index ?start (mPredIdx st)) source (topo ! (j + ?start)))" if "j < 1" for j
    using that nth(1) laws by (simp add: bool_lit_val path_by.path_refl)
  let ?dp = "(replicate ?n False_lit)[0 := True_lit]"
  have "\<exists>dp' st' new. encode_loop B calls track c topo index ?start [1..<?n] ?dp st = Inr (dp', st') \<and> length dp' = ?n
    \<and> (\<forall>j < ?n. bool_val L \<sigma> (dp' ! j)
       (path_by c (takes track L \<sigma> calls c topo index ?start (mPredIdx st)) source (topo ! (j + ?start))))
    \<and> mPredCalls st' = mPredCalls st @ new \<and> calls_ok L \<sigma> c topo index ?start (mPredIdx st) new
    \<and> (\<not> track \<longrightarrow> new = [] \<and> st' = st)
    \<and> fst ` set new = {l \<in> (\<lambda>j. topo ! (j + ?start)) ` {1..<?n}. track \<and> region c index ?start l \<noteq> []}
    \<and> mPredIdx st' \<le> mPredIdx st + ?n \<and> (\<forall>k. track \<longrightarrow> mPredIdx st' \<le> k \<longrightarrow> pVariables st' (pred_name k) = None)"
  proof (rule encode_loop_val [OF t n laws disc ids _ wrap])
    show "mPredIdx st = disc_number track c topo index ?start (mPredIdx st) 1" by (simp add: disc_number_def)
  qed (use def dp0 fresh in auto)
  then obtain dp' st' new where r: "encode_loop B calls track c topo index ?start [1..<?n] ?dp st = Inr (dp', st')"
    "length dp' = ?n"
    "\<forall>j < ?n. bool_val L \<sigma> (dp' ! j)
       (path_by c (takes track L \<sigma> calls c topo index ?start (mPredIdx st)) source (topo ! (j + ?start)))"
    "mPredCalls st' = mPredCalls st @ new" "calls_ok L \<sigma> c topo index ?start (mPredIdx st) new"
    "\<not> track \<longrightarrow> new = [] \<and> st' = st"
    "fst ` set new = {l \<in> (\<lambda>j. topo ! (j + ?start)) ` {1..<?n}. track \<and> region c index ?start l \<noteq> []}"
    "mPredIdx st' \<le> mPredIdx st + ?n" "\<forall>k. track \<longrightarrow> mPredIdx st' \<le> k \<longrightarrow> pVariables st' (pred_name k) = None"
    by (elim exE conjE) (rule that)
  have "last dp' = dp' ! (?n - 1)" using r(2) by (simp add: last_conv_nth flip: length_0_conv)
  moreover have "topo ! (?n - 1 + ?start) = target" using nth(2) lt by simp
  ultimately have "bool_val L \<sigma> (last dp') (path_by c (takes track L \<sigma> calls c topo index ?start (mPredIdx st)) source target)"
    using r(3) [rule_format, of "?n - 1"] by simp
  moreover have "encode B calls track c topo index source target st = Inr (last dp', st')"
    using False lt nth(2) r(1) by (simp add: encode_def Let_def check_def)
  moreover have "mPredIdx st' \<le> mPredIdx st + length topo" using r(8) n by linarith
  ultimately show ?thesis using r(4-7,9)
    by (intro exI [of _ "last dp'"] exI [of _ st'] exI [of _ new]) simp
qed

end

lemma lit_not_bool: "IntLit x \<noteq> True_lit" "IntLit x \<noteq> False_lit"
  by auto

interpretation plain_paths: path_builder plain_builder L
  for L
proof unfold_locales
  fix \<sigma> v b x y
  assume "bool_val L \<sigma> (VarRefExpr v) b" "lit_ok (IntLiteral x)" "lit_ok (IntLiteral y)"
  then have "select_val L \<sigma> (VarRefExpr v) (IntLit x) (IntLit y) (if b then IntLiteral x else IntLiteral y)"
    by (intro select_valI [where T = IntType and b = b]) (auto simp: has_val_lit has_val_laws)
  from select_val_yields [OF this]
  show "yields L \<sigma> (bSelect plain_builder (VarRefExpr v) (IntLit x) (IntLit y)) (IntLiteral (if b then x else y))"
    by (simp add: plain_builder_def if_distrib)
qed

interpretation folding_paths: path_builder "folding_builder L" L
  for L
proof unfold_locales
  fix \<sigma> v b x y
  assume "bool_val L \<sigma> (VarRefExpr v) b" "lit_ok (IntLiteral x)" "lit_ok (IntLiteral y)"
  then have "select_val L \<sigma> (VarRefExpr v) (IntLit x) (IntLit y) (if b then IntLiteral x else IntLiteral y)"
    by (intro select_valI [where T = IntType and b = b]) (auto simp: has_val_lit has_val_laws)
  from fold_Select_yields [OF this]
  show "yields L \<sigma> (bSelect (folding_builder L) (VarRefExpr v) (IntLit x) (IntLit y)) (IntLiteral (if b then x else y))"
    by (simp add: folding_builder_def swapped_select_def m_Select_def if_distrib)
qed

section \<open>Discriminators for a given path\<close>

lemma disc_number_mono: "i \<le> j \<Longrightarrow> disc_number track c topo index start first i \<le> disc_number track c topo index start first j"
proof (induction j rule: dec_induct)
  case (step j)
  then show ?case
    by (cases j) (auto simp: disc_number_Suc intro: trans_le_add1, simp add: disc_number_def)
qed simp

lemma disc_number_less:
  assumes "1 \<le> i" "i < j" "2 \<le> length (region c index start (topo ! (i + start)))"
  shows "disc_number True c topo index start first i < disc_number True c topo index start first j"
  using disc_number_mono [of "Suc i" j True c topo index start first] assms by (simp add: disc_number_Suc)

lemma path_by_mono:
  assumes "topo_ok c topo index" and "path_by c ok s v" and "v \<in> set topo"
    and "\<And>w e. w \<in> set topo \<Longrightarrow> e \<in> set (mIncoming c w) \<Longrightarrow> index s < index w \<Longrightarrow> index w \<le> index v \<Longrightarrow> ok w e \<Longrightarrow> ok' w e"
  shows "path_by c ok' s v"
  using assms(2-4)
proof (induction rule: path_by.induct)
  case (path_step u e v)
  obtain u' where u: "mSource c e = Some u'" "u' \<in> set topo" "index u' < index v"
    using topo_source [OF assms(1) path_step.prems(1)] path_step.hyps(2) by blast
  then have "u = u'" using path_step.hyps(3) by simp
  have "index s \<le> index u" using path_in_topo [OF assms(1) path_step.hyps(1)] u \<open>u = u'\<close> by simp
  with path_step u \<open>u = u'\<close> show ?case
    by (intro path_by.path_step [of c ok' s u e v]) auto
qed (rule path_by.path_refl)

text \<open>Valuations that differ in the discriminators only.\<close>

definition same_program :: "valuation \<Rightarrow> valuation \<Rightarrow> bool" where
  "same_program \<sigma> \<sigma>' \<longleftrightarrow> (\<forall>v. (\<forall>n. var_name v \<noteq> pred_name n) \<longrightarrow> \<sigma>' v = \<sigma> v)"

lemma same_program_upd: "same_program \<sigma> \<sigma>' \<Longrightarrow> same_program \<sigma> (\<sigma>'(Variable (pred_name n) t \<mapsto> l))"
  by (auto simp: same_program_def)

lemma disc_ok_upd:
  "disc_ok \<sigma> \<Longrightarrow> disc_ok (\<sigma>(Variable (pred_name n) BoolType \<mapsto> BoolLiteral b))"
  "disc_ok \<sigma> \<Longrightarrow> disc_ok (\<sigma>(Variable (pred_name n) IntType \<mapsto> IntLiteral k))"
  by (auto simp: disc_ok_def)

text \<open>The valuation of the discriminator \<open>n\<close> that selects a transition, without a change of the others.\<close>

definition choose_pred :: "cfa \<Rightarrow> nat list \<Rightarrow> nat \<Rightarrow> nat \<Rightarrow> valuation \<Rightarrow> valuation" where
  "choose_pred c es n e \<sigma> = (if length es \<le> 1 then \<sigma>
     else if length es = 2 then \<sigma>(Variable (pred_name n) BoolType \<mapsto> BoolLiteral (e = es ! 0))
     else \<sigma>(Variable (pred_name n) IntType \<mapsto> IntLiteral (int (mID c (the (mSource c e))))))"

lemma choose_pred_selects:
  assumes "e \<in> set es"
  shows "selects (choose_pred c es n e \<sigma>) c es n e"
proof -
  have "e = es ! 0 \<or> e = es ! 1" if "length es = 2"
    using assms that by (cases es; cases "tl es") auto
  then show ?thesis by (auto simp: choose_pred_def selects_def)
qed

lemma choose_other: "m \<noteq> n \<Longrightarrow> selects (choose_pred c es n e \<sigma>) c es' m e' = selects \<sigma> c es' m e'"
  by (simp add: choose_pred_def selects_def)

lemma choose_ok:
  assumes "same_program \<sigma>0 \<sigma>" "disc_ok \<sigma>" "valuation_ok \<sigma>" "\<forall>l. mID c l < 2 ^ 32"
  shows "same_program \<sigma>0 (choose_pred c es n e \<sigma>) \<and> disc_ok (choose_pred c es n e \<sigma>) \<and> valuation_ok (choose_pred c es n e \<sigma>)"
proof -
  have "in_int64 (int (mID c l))" for l using assms(4) [rule_format, of l] by (simp add: in_int64_def)
  then show ?thesis
    using assms(1-3) by (auto simp: choose_pred_def valuation_ok_def intro!: same_program_upd disc_ok_upd)
qed

lemma select_path:
  assumes t: "topo_ok c topo index" and ids: "\<forall>l. mID c l < 2 ^ 32"
    and ok: "disc_ok \<sigma>" "valuation_ok \<sigma>"
    and indep: "\<And>\<sigma>' l e. same_program \<sigma> \<sigma>' \<Longrightarrow> l \<in> set topo \<Longrightarrow> e \<in> set (mIncoming c l) \<Longrightarrow>
      transition_holds L \<sigma>' calls c e = transition_holds L \<sigma> calls c e"
    and path: "path_by c (\<lambda>v. transition_holds L \<sigma> calls c) s v" and v: "v \<in> set topo"
  shows "\<exists>\<sigma>'. same_program \<sigma> \<sigma>' \<and> disc_ok \<sigma>' \<and> valuation_ok \<sigma>'
    \<and> path_by c (takes True L \<sigma>' calls c topo index (index s) first) s v"
  using path v
proof (induction rule: path_by.induct)
  case path_refl
  have "same_program \<sigma> \<sigma>" by (simp add: same_program_def)
  with ok show ?case using path_by.path_refl by blast
next
  case (path_step u e v)
  let ?T = "\<lambda>\<sigma>. takes True L \<sigma> calls c topo index (index s) first"
  obtain u' where u': "mSource c e = Some u'" "u' \<in> set topo" "index u' < index v"
    using topo_source [OF t path_step.prems] path_step.hyps(2) by blast
  then have u: "u' = u" "u \<in> set topo" using path_step.hyps(3) by auto
  have su: "index s \<le> index u" using path_in_topo [OF t path_step.hyps(1) u(2)] by simp
  from path_step.IH u obtain \<sigma>' where \<sigma>': "same_program \<sigma> \<sigma>'" "disc_ok \<sigma>'" "valuation_ok \<sigma>'" "path_by c (?T \<sigma>') s u"
    by blast
  let ?es = "region c index (index s) v" and ?n = "disc_number True c topo index (index s) first (index v - index s)"
  let ?\<sigma> = "choose_pred c ?es ?n e \<sigma>'"
  have ok': "same_program \<sigma> ?\<sigma>" "disc_ok ?\<sigma>" "valuation_ok ?\<sigma>" using choose_ok [OF \<sigma>'(1-3) ids] by auto
  have "?T ?\<sigma> w x" if w: "w \<in> set topo" "index s < index w" "index w \<le> index u" "?T \<sigma>' w x" and x: "x \<in> set (mIncoming c w)" for w x
  proof -
    let ?ew = "region c index (index s) w" and ?m = "disc_number True c topo index (index s) first (index w - index s)"
    have "?m < ?n" if "2 \<le> length ?ew"
      using disc_number_less [of "index w - index s" "index v - index s"] that w(2,3) u' u topo_nth [OF t w(1)]
      by simp
    moreover have "selects ?\<sigma> c ?ew ?m x" if "length ?ew \<le> 1" using that by (simp add: selects_def)
    ultimately have "selects ?\<sigma> c ?ew ?m x"
      using w(4) choose_other [of ?m ?n] by (cases "length ?ew \<le> 1") (auto simp: takes_def)
    with w(4) indep [OF ok'(1) w(1) x] indep [OF \<sigma>'(1) w(1) x] show ?thesis by (simp add: takes_def)
  qed
  then have "path_by c (?T ?\<sigma>) s u" by (intro path_by_mono [OF t \<sigma>'(4) u(2)])
  moreover have "e \<in> set ?es" using path_step.hyps(2) u' u su by (simp add: region_def)
  then have "?T ?\<sigma> v e"
    using path_step.hyps(4) indep [OF ok'(1) path_step.prems path_step.hyps(2)] choose_pred_selects by (simp add: takes_def)
  ultimately have "path_by c (?T ?\<sigma>) s v"
    using path_step.hyps(2,3) by (intro path_by.path_step [of c "?T ?\<sigma>" s u e v])
  with ok' show ?case by blast
qed

section \<open>The properties\<close>

text \<open>The inputs of \<open>encode\<close>: a topological order that holds both locations in this order, transitions
  whose expressions have values, and location numbers and a counter that do not wrap.\<close>

definition encodable :: "llvm_api \<Rightarrow> valuation \<Rightarrow> (nat \<Rightarrow> expr) \<Rightarrow> cfa \<Rightarrow> nat list \<Rightarrow> (nat \<Rightarrow> nat) \<Rightarrow> nat \<Rightarrow> nat \<Rightarrow> pcc \<Rightarrow> bool" where
  "encodable L \<sigma> calls c topo index source target st \<longleftrightarrow> topo_ok c topo index
     \<and> source \<in> set topo \<and> target \<in> set topo \<and> index source \<le> index target
     \<and> llvm_laws L \<and> valuation_ok \<sigma> \<and> (\<forall>l. mID c l < 2 ^ 32) \<and> mPredIdx st + length topo < 2 ^ 32
     \<and> (\<forall>l \<in> set topo. \<forall>e \<in> set (mIncoming c l). transition_defined L \<sigma> calls c e)"

lemma takes_untracked: "takes False L \<sigma> calls c topo index start first = (\<lambda>v. transition_holds L \<sigma> calls c)"
  by (simp add: takes_def fun_eq_iff)

lemma encode_untracked:
  assumes "path_builder B L" and "encodable L \<sigma> calls c topo index source target st"
  shows "\<exists>f. encode B calls False c topo index source target st = Inr (f, st)
    \<and> bool_val L \<sigma> f (path_by c (\<lambda>v. transition_holds L \<sigma> calls c) source target)"
  using path_builder.encode_val [OF assms(1), where track = False and \<sigma> = \<sigma> and calls = calls and c = c and topo = topo
      and index = index and source = source and target = target and st = st] assms(2)
  by (auto simp: encodable_def takes_untracked)

text \<open>
  C2: \<open>encode\<close> succeeds with either builder, and the formula it returns is true under a valuation
  exactly if there is a path from the source to the target on which every guard holds, every
  assigned variable has the value of its expression and the formula of every call is true.
\<close>

theorem encode_paths:
  assumes "encodable L \<sigma> calls c topo index source target st"
  shows "(\<exists>f. encode plain_builder calls False c topo index source target st = Inr (f, st)
      \<and> bool_val L \<sigma> f (path_by c (\<lambda>v. transition_holds L \<sigma> calls c) source target))
    \<and> (\<exists>f. encode (folding_builder L) calls False c topo index source target st = Inr (f, st)
      \<and> bool_val L \<sigma> f (path_by c (\<lambda>v. transition_holds L \<sigma> calls c) source target))"
  using encode_untracked [OF plain_paths.path_builder_axioms assms]
    encode_untracked [OF folding_paths.path_builder_axioms assms] by blast

text \<open>Two transitions from the entry to the exit, with the guards \<open>p\<close> and \<open>q\<close>.\<close>

definition two_edges :: cfa where
  "two_edges = addTransition 11 3 4 (AssignTransition (VarRefExpr (Variable ''q'' BoolType)) [])
     (addTransition 10 3 4 (AssignTransition (VarRefExpr (Variable ''p'' BoolType)) []) (Cfa_new ''f'' 3 4))"

definition p_valuation :: valuation where
  "p_valuation v = (if v = Variable ''p'' BoolType then Some (BoolLiteral True)
     else if var_type v = BoolType then Some (BoolLiteral False)
     else if var_type v = IntType then Some (IntLiteral 0) else None)"

definition new_pcc :: pcc where
  "new_pcc = \<lparr>pVariables = Map.empty, mPredIdx = 0, mPredCalls = []\<rparr>"

lemma two_edges_simps:
  "mIncoming two_edges 4 = [10, 11]" "mIncoming two_edges 3 = []" "mSource two_edges 10 = Some 3" "mSource two_edges 11 = Some 3"
  "mTransition two_edges 10 = AssignTransition (VarRefExpr (Variable ''p'' BoolType)) []"
  "mTransition two_edges 11 = AssignTransition (VarRefExpr (Variable ''q'' BoolType)) []" "mID two_edges l < 4294967296"
  by (simp_all add: two_edges_def addTransition_def createEdge_def Cfa_new_def createLocation_def createNode_def
      empty_cfa_def Let_def u32_def)

lemma two_edges_topo: "topo_ok two_edges [3, 4] (\<lambda>l. l - 3)"
  by (auto simp: topo_ok_def two_edges_simps less_Suc_eq)

lemma two_edges_encodable:
  assumes "valuation_ok \<sigma>" "\<exists>b. \<sigma> (Variable ''p'' BoolType) = Some (BoolLiteral b)"
    "\<exists>b. \<sigma> (Variable ''q'' BoolType) = Some (BoolLiteral b)"
  shows "encodable doc_llvm \<sigma> calls two_edges [3, 4] (\<lambda>l. l - 3) 3 4 new_pcc"
proof -
  have "transition_defined doc_llvm \<sigma> calls two_edges e" if "e \<in> {10, 11}" for e
    using that assms doc_llvm_laws
    by (auto simp: transition_defined_def two_edges_simps intro!: exI has_val_var)
  then show ?thesis
    using two_edges_topo assms(1) doc_llvm_laws by (auto simp: encodable_def two_edges_simps new_pcc_def)
qed

lemma p_valuation_ok: "valuation_ok p_valuation" "disc_ok p_valuation"
  by (auto simp: valuation_ok_def p_valuation_def in_int64_def disc_ok_def pred_name_def split: if_splits)

lemma two_edges_path: "path_by two_edges (\<lambda>v. transition_holds doc_llvm p_valuation calls two_edges) 3 4"
  by (rule path_by.path_step [OF path_by.path_refl, of 10])
    (simp_all add: two_edges_simps transition_holds_def getVariableValue_def p_valuation_def)

theorem encode_paths_witness:
  "\<exists>f. encode (folding_builder doc_llvm) (\<lambda>e. True_lit) False two_edges [3, 4] (\<lambda>l. l - 3) 3 4 new_pcc = Inr (f, new_pcc)
     \<and> bool_val doc_llvm p_valuation f True"
proof -
  have "encodable doc_llvm p_valuation (\<lambda>e. True_lit) two_edges [3, 4] (\<lambda>l. l - 3) 3 4 new_pcc"
    by (rule two_edges_encodable [OF p_valuation_ok(1)]) (auto simp: p_valuation_def)
  from encode_paths [OF this] show ?thesis using two_edges_path [of "\<lambda>e. True_lit"] by simp
qed

text \<open>With predecessor tracking the formula mentions the new discriminators, over which the satisfying
  valuation is chosen.\<close>

definition trackable :: "llvm_api \<Rightarrow> valuation \<Rightarrow> (nat \<Rightarrow> expr) \<Rightarrow> cfa \<Rightarrow> nat list \<Rightarrow> (nat \<Rightarrow> nat) \<Rightarrow> nat \<Rightarrow> nat \<Rightarrow> pcc \<Rightarrow> bool" where
  "trackable L \<sigma> calls c topo index source target st \<longleftrightarrow> valuation_ok \<sigma> \<and> disc_ok \<sigma>
     \<and> (\<forall>k \<ge> mPredIdx st. pVariables st (pred_name k) = None)
     \<and> (\<forall>\<sigma>'. same_program \<sigma> \<sigma>' \<longrightarrow> valuation_ok \<sigma>' \<longrightarrow> encodable L \<sigma>' calls c topo index source target st)
     \<and> (\<forall>\<sigma>' e. same_program \<sigma> \<sigma>' \<longrightarrow> transition_holds L \<sigma>' calls c e = transition_holds L \<sigma> calls c e)"

lemma encode_tracked:
  assumes "path_builder B L" and "trackable L \<sigma> calls c topo index source target st"
    and "same_program \<sigma> \<sigma>'" "valuation_ok \<sigma>'" "disc_ok \<sigma>'"
  shows "\<exists>f st' new. encode B calls True c topo index source target st = Inr (f, st')
    \<and> bool_val L \<sigma>' f (path_by c (takes True L \<sigma>' calls c topo index (index source) (mPredIdx st)) source target)
    \<and> mPredCalls st' = mPredCalls st @ new \<and> calls_ok L \<sigma>' c topo index (index source) (mPredIdx st) new
    \<and> fst ` set new = {l \<in> (\<lambda>j. topo ! (j + index source)) ` {1..<index target - index source + 1}.
         region c index (index source) l \<noteq> []}"
proof -
  have "encodable L \<sigma>' calls c topo index source target st"
    using assms(2-5) unfolding trackable_def by blast
  with path_builder.encode_val [OF assms(1), where track = True and \<sigma> = \<sigma>' and calls = calls and c = c and topo = topo
      and index = index and source = source and target = target and st = st] assms(2,5)
  show ?thesis by (auto simp: encodable_def trackable_def)
qed

lemma encode_sat:
  assumes B: "path_builder B L" and t: "trackable L \<sigma> calls c topo index source target st"
  shows "\<exists>f st'. encode B calls True c topo index source target st = Inr (f, st')
    \<and> ((\<exists>\<sigma>'. same_program \<sigma> \<sigma>' \<and> disc_ok \<sigma>' \<and> bool_val L \<sigma>' f True) \<longleftrightarrow>
       path_by c (\<lambda>v. transition_holds L \<sigma> calls c) source target)"
proof -
  have \<sigma>: "same_program \<sigma> \<sigma>" "valuation_ok \<sigma>" "disc_ok \<sigma>" using t by (auto simp: trackable_def same_program_def)
  obtain f st' where f: "encode B calls True c topo index source target st = Inr (f, st')"
    using encode_tracked [OF B t \<sigma>] by blast
  have en: "encodable L \<sigma> calls c topo index source target st" using t \<sigma> by (auto simp: trackable_def)
  have indep: "transition_holds L \<sigma>' calls c e = transition_holds L \<sigma> calls c e" if "same_program \<sigma> \<sigma>'" for \<sigma>' e
    using t that by (auto simp: trackable_def)
  let ?P = "\<lambda>\<sigma>. path_by c (takes True L \<sigma> calls c topo index (index source) (mPredIdx st)) source target"
  have val: "bool_val L \<sigma>' f True \<longleftrightarrow> ?P \<sigma>'" if "same_program \<sigma> \<sigma>'" "valuation_ok \<sigma>'" "disc_ok \<sigma>'" for \<sigma>'
  proof -
    have "bool_val L \<sigma>' f (?P \<sigma>')" using encode_tracked [OF B t that] f by auto
    then show ?thesis using has_val_unique [of L \<sigma>' f] by (metis literal.inject(1))
  qed
  let ?path = "path_by c (\<lambda>v. transition_holds L \<sigma> calls c) source target"
  have sound: ?path if "?P \<sigma>'" "same_program \<sigma> \<sigma>'" for \<sigma>'
    using en indep [OF that(2)] by (intro path_by_mono [OF _ that(1)]) (auto simp: encodable_def takes_def)
  have complete: "\<exists>\<sigma>'. same_program \<sigma> \<sigma>' \<and> disc_ok \<sigma>' \<and> valuation_ok \<sigma>' \<and> ?P \<sigma>'" if ?path
    by (rule select_path [OF _ _ \<sigma>(3,2) indep that]) (use en in \<open>simp_all add: encodable_def\<close>)
  have "(\<exists>\<sigma>'. same_program \<sigma> \<sigma>' \<and> disc_ok \<sigma>' \<and> bool_val L \<sigma>' f True) \<longleftrightarrow> ?path"
  proof
    assume "\<exists>\<sigma>'. same_program \<sigma> \<sigma>' \<and> disc_ok \<sigma>' \<and> bool_val L \<sigma>' f True"
    then obtain \<sigma>' where s: "same_program \<sigma> \<sigma>'" "disc_ok \<sigma>'" "bool_val L \<sigma>' f True" by blast
    from val [OF s(1) has_val_laws(2) [OF s(3)] s(2)] s show ?path by (intro sound [of \<sigma>']) auto
  next
    assume ?path
    from complete [OF this] obtain \<sigma>' where s: "same_program \<sigma> \<sigma>'" "disc_ok \<sigma>'" "valuation_ok \<sigma>'" "?P \<sigma>'" by blast
    from val [OF s(1,3,2)] s show "\<exists>\<sigma>'. same_program \<sigma> \<sigma>' \<and> disc_ok \<sigma>' \<and> bool_val L \<sigma>' f True" by blast
  qed
  with f show ?thesis by (intro exI [of _ f] exI [of _ st']) simp
qed

text \<open>
  C6: with predecessor tracking, \<open>encode\<close> succeeds, and its formula can be satisfied by a choice of
  the new discriminators alone exactly if there is a path from the source to the target on which
  every transition holds: the discriminators neither add nor lose paths.
\<close>

theorem encode_equisatisfiable:
  assumes "trackable L \<sigma> calls c topo index source target st"
  shows "\<exists>f st'. encode (folding_builder L) calls True c topo index source target st = Inr (f, st')
    \<and> ((\<exists>\<sigma>'. same_program \<sigma> \<sigma>' \<and> disc_ok \<sigma>' \<and> bool_val L \<sigma>' f True) \<longleftrightarrow>
       path_by c (\<lambda>v. transition_holds L \<sigma> calls c) source target)"
  by (rule encode_sat [OF folding_paths.path_builder_axioms assms])

lemma not_pred_name: "''p'' \<noteq> pred_name n" "''q'' \<noteq> pred_name n"
  by (simp_all add: pred_name_def)

lemma same_program_pq:
  assumes "same_program \<sigma> \<sigma>'"
  shows "\<sigma>' (Variable ''p'' t) = \<sigma> (Variable ''p'' t)" "\<sigma>' (Variable ''q'' t) = \<sigma> (Variable ''q'' t)"
  using assms not_pred_name by (auto simp: same_program_def)

lemma two_edges_holds:
  assumes "same_program \<sigma> \<sigma>'"
  shows "transition_holds doc_llvm \<sigma>' (\<lambda>e. True_lit) two_edges e = transition_holds doc_llvm \<sigma> (\<lambda>e. True_lit) two_edges e"
proof (cases "e = 10 \<or> e = 11")
  case True
  then show ?thesis using same_program_pq [OF assms]
    by (auto simp: transition_holds_def two_edges_simps getVariableValue_def)
next
  case False
  then have "mTransition two_edges e = AssignTransition True_lit []"
    by (simp add: two_edges_def addTransition_def createEdge_def Cfa_new_def createLocation_def createNode_def
        empty_cfa_def Let_def)
  then show ?thesis by (simp add: transition_holds_def)
qed

lemma two_edges_trackable:
  "trackable doc_llvm p_valuation (\<lambda>e. True_lit) two_edges [3, 4] (\<lambda>l. l - 3) 3 4 new_pcc"
proof -
  have "encodable doc_llvm \<sigma>' (\<lambda>e. True_lit) two_edges [3, 4] (\<lambda>l. l - 3) 3 4 new_pcc"
    if "same_program p_valuation \<sigma>'" "valuation_ok \<sigma>'" for \<sigma>'
    using same_program_pq [OF that(1)] by (intro two_edges_encodable that(2)) (auto simp: p_valuation_def)
  then show ?thesis
    using p_valuation_ok two_edges_holds by (simp add: trackable_def new_pcc_def)
qed

theorem encode_equisatisfiable_witness:
  "\<exists>f st' \<sigma>'. encode (folding_builder doc_llvm) (\<lambda>e. True_lit) True two_edges [3, 4] (\<lambda>l. l - 3) 3 4 new_pcc = Inr (f, st')
     \<and> same_program p_valuation \<sigma>' \<and> bool_val doc_llvm \<sigma>' f True"
  using encode_equisatisfiable [OF two_edges_trackable] two_edges_path [of "\<lambda>e. True_lit"] by blast

text \<open>
  C31: with predecessor tracking, the formula is true under a valuation exactly if a path is taken
  whose transitions hold and are selected by the discriminators, and for every selected transition
  the expression that was passed to the predecessor callback for its target evaluates to the number
  of its source location. The callback is called for every location after the source that has a
  predecessor in the region.
\<close>

theorem encode_predecessors:
  assumes "trackable L \<sigma> calls c topo index source target st"
    and "same_program \<sigma> \<sigma>'" "valuation_ok \<sigma>'" "disc_ok \<sigma>'"
  shows "\<exists>f st' new. encode (folding_builder L) calls True c topo index source target st = Inr (f, st')
    \<and> mPredCalls st' = mPredCalls st @ new
    \<and> bool_val L \<sigma>' f (path_by c (takes True L \<sigma>' calls c topo index (index source) (mPredIdx st)) source target)
    \<and> fst ` set new = {l \<in> (\<lambda>j. topo ! (j + index source)) ` {1..<index target - index source + 1}.
         region c index (index source) l \<noteq> []}
    \<and> (\<forall>l x e. (l, x) \<in> set new \<longrightarrow> e \<in> set (region c index (index source) l) \<longrightarrow>
         takes True L \<sigma>' calls c topo index (index source) (mPredIdx st) l e \<longrightarrow>
         has_val L \<sigma>' x (IntLiteral (int (mID c (the (mSource c e))))))"
  using encode_tracked [OF folding_paths.path_builder_axioms assms] unfolding calls_ok_def takes_def by fast

theorem encode_predecessors_witness:
  "\<exists>f st' x \<sigma>'. encode (folding_builder doc_llvm) (\<lambda>e. True_lit) True two_edges [3, 4] (\<lambda>l. l - 3) 3 4 new_pcc = Inr (f, st')
     \<and> (4, x) \<in> set (mPredCalls st') \<and> same_program p_valuation \<sigma>' \<and> has_val doc_llvm \<sigma>' x (IntLiteral 0)"
proof -
  let ?\<sigma> = "p_valuation(Variable (pred_name 0) BoolType \<mapsto> BoolLiteral True)"
  let ?T = "takes True doc_llvm ?\<sigma> (\<lambda>e. True_lit) two_edges [3, 4] (\<lambda>l. l - 3) 0 0"
  have same: "same_program p_valuation ?\<sigma>" by (rule same_program_upd) (simp add: same_program_def)
  have ok: "valuation_ok ?\<sigma>" "disc_ok ?\<sigma>"
    using p_valuation_ok disc_ok_upd(1) by (auto simp: valuation_ok_def)
  have reg: "region two_edges (\<lambda>l. l - 3) 0 4 = [10, 11]" by (simp add: region_def two_edges_simps)
  have "{1..<2 :: nat} = {1}" by auto
  with encode_predecessors [OF two_edges_trackable same ok] obtain f st' new where e:
    "encode (folding_builder doc_llvm) (\<lambda>e. True_lit) True two_edges [3, 4] (\<lambda>l. l - 3) 3 4 new_pcc = Inr (f, st')"
    "mPredCalls st' = new" "fst ` set new = {l \<in> {4}. region two_edges (\<lambda>l. l - 3) 0 l \<noteq> []}"
    "\<And>l x e. (l, x) \<in> set new \<Longrightarrow> e \<in> set (region two_edges (\<lambda>l. l - 3) 0 l) \<Longrightarrow> ?T l e \<Longrightarrow>
       has_val doc_llvm ?\<sigma> x (IntLiteral (int (mID two_edges (the (mSource two_edges e)))))"
    by (auto simp: new_pcc_def)
  have "4 \<in> fst ` set new" unfolding e(3) by (simp add: reg)
  then obtain x where x: "(4, x) \<in> set new" by auto
  have "transition_holds doc_llvm ?\<sigma> (\<lambda>e. True_lit) two_edges 10"
    by (simp add: transition_holds_def two_edges_simps getVariableValue_def p_valuation_def not_pred_name)
  then have "?T 4 10" by (simp add: takes_def selects_def reg disc_number_def)
  moreover have "mID two_edges 3 = 0"
    by (simp add: two_edges_def addTransition_def createEdge_def Cfa_new_def createLocation_def createNode_def
        empty_cfa_def Let_def)
  ultimately have "has_val doc_llvm ?\<sigma> x (IntLiteral 0)"
    using e(4) [OF x, of 10] by (simp add: reg two_edges_simps)
  with e(1,2) x same show ?thesis by blast
qed

end
