(* ===== verification/GazerDominators.thy ===== *)
theory GazerDominators
  imports GazerPathCond
begin

text \<open>
  \<open>findLowestCommonDominator\<close> and \<open>findHighestCommonPostDominator\<close> (\<^verbatim>\<open>src/Automaton/CfaUtils.cpp\<close>). The bit
  sets are lists of Booleans; bit \<open>k\<close> of the set of the location with the offset \<open>i\<close> says that the
  location with the offset \<open>k\<close> lies on every path. Following a target transition that has lost an end
  point is an error.

  Both functions compute the same table over the offsets, which is characterised once, by paths that
  avoid a location, and then read as dominance between locations.
\<close>

fun max_element :: "(nat \<Rightarrow> nat) \<Rightarrow> nat \<Rightarrow> nat list \<Rightarrow> nat" where
  "max_element key best [] = best"
| "max_element key best (x # xs) = max_element key (if key best < key x then x else best) xs"

fun min_element :: "(nat \<Rightarrow> nat) \<Rightarrow> nat \<Rightarrow> nat list \<Rightarrow> nat" where
  "min_element key best [] = best"
| "min_element key best (x # xs) = min_element key (if key x < key best then x else best) xs"

definition bits_and :: "bool list \<Rightarrow> bool list \<Rightarrow> bool list" where
  "bits_and a b = map2 (\<and>) a b"

fun highest_bit :: "nat \<Rightarrow> bool list \<Rightarrow> nat" where
  "highest_bit 0 bs = 0"
| "highest_bit (Suc i) bs = (if bs ! Suc i then Suc i else highest_bit i bs)"

definition initial_dominators :: "nat \<Rightarrow> bool list list" where
  "initial_dominators n = (replicate n (replicate n False))[0 := (replicate n False)[0 := True]]"

text \<open>The last part of both functions: the common dominators of the targets, given the offset of each,
  and the highest bit.\<close>

fun common_dominators :: "bool list list \<Rightarrow> nat list \<Rightarrow> bool list \<Rightarrow> bool list res" where
  "common_dominators doms [] bs = Inr bs"
| "common_dominators doms (i # is) bs =
     check (i < length doms) OutOfRange (common_dominators doms is (bits_and bs (doms ! i)))"

definition pick_common :: "nat \<Rightarrow> bool list \<Rightarrow> nat res" where
  "pick_common n bs = check (bs ! 0) AssertFail (Inr (highest_bit (n - 1) bs))"

section \<open>The lowest common dominator\<close>

abbreviation src :: "cfa \<Rightarrow> nat \<Rightarrow> nat" where "src c e \<equiv> the (mSource c e)"
abbreviation tgt :: "cfa \<Rightarrow> nat \<Rightarrow> nat" where "tgt c e \<equiv> the (mTarget c e)"

fun dominators_incoming :: "cfa \<Rightarrow> (nat \<Rightarrow> nat) \<Rightarrow> nat \<Rightarrow> nat \<Rightarrow> bool list list \<Rightarrow> nat list \<Rightarrow> bool list \<Rightarrow> bool list res" where
  "dominators_incoming c index start i doms [] bs = Inr bs"
| "dominators_incoming c index start i doms (e # es) bs =
     check (mSource c e \<noteq> None) NullDeref (check (index (src c e) < i + start) AssertFail
       (if index (src c e) < start then dominators_incoming c index start i doms es bs
        else dominators_incoming c index start i doms es (bits_and bs (doms ! (index (src c e) - start)))))"

fun dominators_loop :: "cfa \<Rightarrow> nat list \<Rightarrow> (nat \<Rightarrow> nat) \<Rightarrow> nat \<Rightarrow> nat \<Rightarrow> nat list \<Rightarrow> bool list list \<Rightarrow> bool list list res" where
  "dominators_loop c topo index start n [] doms = Inr doms"
| "dominators_loop c topo index start n (i # is) doms =
     rbind (dominators_incoming c index start i doms (mIncoming c (topo ! (start + i))) (replicate n True)) (\<lambda>bs.
       dominators_loop c topo index start n is (doms[i := bs[i := True]]))"

definition findLowestCommonDominator :: "cfa \<Rightarrow> nat list \<Rightarrow> nat list \<Rightarrow> (nat \<Rightarrow> nat) \<Rightarrow> nat option \<Rightarrow> nat option res" where
  "findLowestCommonDominator c targets topo index start =
    (if targets = [] then Inr None
     else check (start \<noteq> None \<or> topo \<noteq> []) OutOfRange
       (check (list_all (\<lambda>e. mSource c e \<noteq> None \<and> mTarget c e \<noteq> None) targets) NullDeref
       (let s = (case start of None \<Rightarrow> topo ! 0 | Some s \<Rightarrow> s);
            end = max_element (\<lambda>e. index (src c e)) (hd targets) (tl targets);
            startIdx = index s; lastIdx = index (tgt c end); n = lastIdx - startIdx
        in check (startIdx < lastIdx) AssertFail
          (rbind (dominators_loop c topo index startIdx n [1..<n] (initial_dominators n)) (\<lambda>doms.
             check (list_all (\<lambda>e. startIdx \<le> index (src c e)) targets) OutOfRange
             (rbind (common_dominators doms (map (\<lambda>e. index (src c e) - startIdx) targets) (replicate n True)) (\<lambda>common.
               rbind (pick_common n common) (\<lambda>k. Inr (Some (topo ! (k + startIdx)))))))))))"

section \<open>The highest common post-dominator\<close>

fun postdominators_outgoing :: "cfa \<Rightarrow> (nat \<Rightarrow> nat) \<Rightarrow> nat \<Rightarrow> nat \<Rightarrow> bool list list \<Rightarrow> nat list \<Rightarrow> bool list \<Rightarrow> bool list res" where
  "postdominators_outgoing c index start i doms [] bs = Inr bs"
| "postdominators_outgoing c index start i doms (e # es) bs =
     check (mTarget c e \<noteq> None) NullDeref
       (if start < index (tgt c e) then postdominators_outgoing c index start i doms es bs
        else check (start - index (tgt c e) < length doms) OutOfRange
          (postdominators_outgoing c index start i doms es (bits_and bs (doms ! (start - index (tgt c e))))))"

fun postdominators_loop :: "cfa \<Rightarrow> nat list \<Rightarrow> (nat \<Rightarrow> nat) \<Rightarrow> nat \<Rightarrow> nat \<Rightarrow> nat list \<Rightarrow> bool list list \<Rightarrow> bool list list res" where
  "postdominators_loop c topo index start n [] doms = Inr doms"
| "postdominators_loop c topo index start n (i # is) doms =
     rbind (postdominators_outgoing c index start i doms (mOutgoing c (topo ! (start - i))) (replicate n True)) (\<lambda>bs.
       postdominators_loop c topo index start n is (doms[i := bs[i := True]]))"

definition findHighestCommonPostDominator :: "cfa \<Rightarrow> nat list \<Rightarrow> nat list \<Rightarrow> (nat \<Rightarrow> nat) \<Rightarrow> nat option \<Rightarrow> nat option res" where
  "findHighestCommonPostDominator c targets topo index start =
    (if targets = [] then Inr None
     else check (list_all (\<lambda>e. mSource c e \<noteq> None \<and> mTarget c e \<noteq> None) targets) NullDeref
       (let s = (case start of None \<Rightarrow> mExit c | Some s \<Rightarrow> s);
            end = min_element (\<lambda>e. index (src c e)) (hd targets) (tl targets);
            startIdx = index s; lastIdx = index (src c end); n = startIdx - lastIdx
        in check (lastIdx < startIdx) AssertFail
          (rbind (postdominators_loop c topo index startIdx n [1..<n] (initial_dominators n)) (\<lambda>doms.
             check (list_all (\<lambda>e. index (tgt c e) \<le> startIdx) targets) OutOfRange
             (rbind (common_dominators doms (map (\<lambda>e. startIdx - index (tgt c e)) targets) (replicate n True)) (\<lambda>common.
               rbind (pick_common n common) (\<lambda>k. Inr (Some (topo ! (startIdx - k))))))))))"

section \<open>The table over offsets\<close>

text \<open>Paths over offsets that start at \<open>0\<close> and do not enter \<open>k\<close>, for a function that lists the predecessors.\<close>

inductive avoids :: "(nat \<Rightarrow> nat list) \<Rightarrow> nat \<Rightarrow> nat \<Rightarrow> bool" for preds k where
  avoids_start: "avoids preds k 0"
| avoids_step: "avoids preds k p \<Longrightarrow> p \<in> set (preds i) \<Longrightarrow> i \<noteq> k \<Longrightarrow> avoids preds k i"

definition dominates_at :: "(nat \<Rightarrow> nat list) \<Rightarrow> nat \<Rightarrow> nat \<Rightarrow> bool" where
  "dominates_at preds k i \<longleftrightarrow> k = 0 \<or> \<not> avoids preds k i"

lemma dominates_at_0: "dominates_at preds k 0 \<longleftrightarrow> k = 0"
  by (auto simp: dominates_at_def intro: avoids.intros)

lemma dominates_at_step: "0 < i \<Longrightarrow> dominates_at preds k i \<longleftrightarrow> i = k \<or> (\<forall>p \<in> set (preds i). dominates_at preds k p)"
  unfolding dominates_at_def by (auto elim: avoids.cases intro: avoids.intros)

definition table_row :: "(nat \<Rightarrow> nat list) \<Rightarrow> nat \<Rightarrow> nat \<Rightarrow> bool list" where
  "table_row preds n i = map (\<lambda>k. dominates_at preds k i) [0..<n]"

definition row_prefix :: "(nat \<Rightarrow> nat list) \<Rightarrow> nat \<Rightarrow> nat \<Rightarrow> bool list list \<Rightarrow> bool" where
  "row_prefix preds n i doms \<longleftrightarrow> length doms = n \<and> (\<forall>j < i. doms ! j = table_row preds n j)"

lemma initial_prefix: "0 < n \<Longrightarrow> row_prefix preds n 1 (initial_dominators n)"
  by (auto simp: row_prefix_def initial_dominators_def table_row_def dominates_at_0 nth_list_update
      intro!: nth_equalityI split: if_splits)

lemma prefix_update:
  assumes "row_prefix preds n i doms" and "0 < i" "i < n" and "length bs = n"
    and "\<And>k. k < n \<Longrightarrow> bs ! k \<longleftrightarrow> (\<forall>p \<in> set (preds i). dominates_at preds k p)"
  shows "row_prefix preds n (Suc i) (doms[i := bs[i := True]])"
proof -
  have "bs[i := True] = table_row preds n i"
    using assms by (intro nth_equalityI) (auto simp: table_row_def dominates_at_step nth_list_update)
  with assms show ?thesis by (auto simp: row_prefix_def nth_list_update less_Suc_eq)
qed

lemma bits_and_nth: "length a = length b \<Longrightarrow> k < length a \<Longrightarrow> bits_and a b ! k \<longleftrightarrow> a ! k \<and> b ! k"
  by (simp add: bits_and_def)

lemma length_bits_and [simp]: "length a = length b \<Longrightarrow> length (bits_and a b) = length b"
  by (simp add: bits_and_def)

lemma common_dominators_val:
  assumes "row_prefix preds n n doms" and "length bs = n" and "\<forall>i \<in> set is. i < n"
  shows "\<exists>bs'. common_dominators doms is bs = Inr bs' \<and> length bs' = n
    \<and> (\<forall>k < n. bs' ! k \<longleftrightarrow> bs ! k \<and> (\<forall>i \<in> set is. dominates_at preds k i))"
  using assms(2,3)
proof (induction "is" arbitrary: bs)
  case (Cons i "is")
  have row: "doms ! i = table_row preds n i" "i < length doms" using assms(1) Cons.prems by (auto simp: row_prefix_def)
  obtain bs' where "common_dominators doms is (bits_and bs (doms ! i)) = Inr bs'" "length bs' = n"
    "\<forall>k < n. bs' ! k \<longleftrightarrow> bits_and bs (doms ! i) ! k \<and> (\<forall>i \<in> set is. dominates_at preds k i)"
    using Cons.IH [of "bits_and bs (doms ! i)"] Cons.prems row by (auto simp: table_row_def)
  then show ?case
    using Cons.prems row by (auto simp: check_def bits_and_nth table_row_def)
qed simp

lemma highest_bit_val:
  assumes "bs ! 0"
  shows "highest_bit m bs \<le> m \<and> bs ! highest_bit m bs \<and> (\<forall>k \<le> m. bs ! k \<longrightarrow> k \<le> highest_bit m bs)"
  using assms by (induction m) (auto simp: le_Suc_eq)

text \<open>The common tail of both functions returns the highest offset that dominates all targets.\<close>

lemma pick_common_val:
  assumes "row_prefix preds n n doms" and "0 < n" and "\<forall>i \<in> set is. i < n"
  shows "\<exists>common k. common_dominators doms is (replicate n True) = Inr common \<and> pick_common n common = Inr k
    \<and> k < n \<and> (\<forall>i \<in> set is. dominates_at preds k i)
    \<and> (\<forall>k' < n. (\<forall>i \<in> set is. dominates_at preds k' i) \<longrightarrow> k' \<le> k)"
proof -
  obtain bs where bs: "common_dominators doms is (replicate n True) = Inr bs"
    "\<forall>k < n. bs ! k \<longleftrightarrow> (\<forall>i \<in> set is. dominates_at preds k i)"
    using common_dominators_val [OF assms(1) _ assms(3), of "replicate n True"] by auto
  have 0: "bs ! 0" using bs(2) assms(2) by (simp add: dominates_at_def)
  from highest_bit_val [OF this, of "n - 1"] have h: "highest_bit (n - 1) bs < n" "bs ! highest_bit (n - 1) bs"
    "\<forall>k < n. bs ! k \<longrightarrow> k \<le> highest_bit (n - 1) bs" using assms(2) by auto
  show ?thesis
    using bs 0 h by (intro exI [of _ bs] exI [of _ "highest_bit (n - 1) bs"]) (auto simp: pick_common_def check_def)
qed

section \<open>Dominance between locations\<close>

text \<open>\<open>d\<close> lies on every path from \<open>s\<close> to \<open>v\<close>.\<close>

definition dominates :: "cfa \<Rightarrow> nat \<Rightarrow> nat \<Rightarrow> nat \<Rightarrow> bool" where
  "dominates c s d v \<longleftrightarrow> d = s \<or> \<not> path_by c (\<lambda>w e. w \<noteq> d) s v"

definition offset_preds :: "cfa \<Rightarrow> nat list \<Rightarrow> (nat \<Rightarrow> nat) \<Rightarrow> nat \<Rightarrow> nat \<Rightarrow> nat list" where
  "offset_preds c topo index start i = map (\<lambda>e. index (src c e) - start) (region c index start (topo ! (start + i)))"

lemma topo_inj: "topo_ok c topo index \<Longrightarrow> i < length topo \<Longrightarrow> j < length topo \<Longrightarrow> topo ! i = topo ! j \<longleftrightarrow> i = j"
  by (metis topo_ok_def)

lemma avoids_path:
  assumes t: "topo_ok c topo index" and s: "s \<in> set topo" and k: "index s + k < length topo"
    and i: "index s + i < length topo"
  shows "avoids (offset_preds c topo index (index s)) k i \<longleftrightarrow>
    path_by c (\<lambda>w e. w \<noteq> topo ! (index s + k)) s (topo ! (index s + i))"
  using i
proof (induction i rule: less_induct)
  case (less i)
  let ?v = "topo ! (index s + i)" and ?P = "path_by c (\<lambda>w e. w \<noteq> topo ! (index s + k)) s"
  show ?case
  proof (cases "i = 0")
    case True
    then show ?thesis using topo_nth [OF t s] by (auto intro: avoids.intros path_by.intros)
  next
    case False
    have v: "?v \<in> set topo" "index ?v = index s + i" using t less.prems by (auto simp: topo_ok_def)
    have ih: "avoids (offset_preds c topo index (index s)) k (index (src c e) - index s) \<longleftrightarrow> ?P (src c e)"
      if e: "e \<in> set (region c index (index s) ?v)" for e
    proof -
      have "e \<in> set (mIncoming c ?v)" using e by (simp add: region_def)
      from topo_source [OF t v(1) this] have u: "src c e \<in> set topo" "index (src c e) < index s + i" using v(2) by auto
      have "index s \<le> index (src c e)" using e by (simp add: region_def)
      with less.IH [of "index (src c e) - index s"] u less.prems topo_nth [OF t u(1)] show ?thesis by simp
    qed
    have "avoids (offset_preds c topo index (index s)) k i \<longleftrightarrow>
        (\<exists>e \<in> set (region c index (index s) ?v). avoids (offset_preds c topo index (index s)) k (index (src c e) - index s)) \<and> i \<noteq> k"
      using False by (auto simp: offset_preds_def elim!: avoids.cases [of _ _ i] intro: avoids.intros)
    also have "\<dots> \<longleftrightarrow> (\<exists>e \<in> set (region c index (index s) ?v). ?P (src c e) \<and> ?v \<noteq> topo ! (index s + k))"
      using ih topo_inj [OF t less.prems k] by auto
    also have "\<dots> \<longleftrightarrow> ?P ?v" using path_by_region [OF t v(1)] v(2) False by simp
    finally show ?thesis .
  qed
qed

lemma dominates_at_iff:
  assumes "topo_ok c topo index" "s \<in> set topo" "index s + k < length topo" "index s + i < length topo"
  shows "dominates_at (offset_preds c topo index (index s)) k i \<longleftrightarrow>
    dominates c s (topo ! (index s + k)) (topo ! (index s + i))"
proof -
  have "topo ! (index s + k) = s \<longleftrightarrow> k = 0"
    using topo_nth [OF assms(1,2)] topo_inj [OF assms(1) assms(3), of "index s"] by auto
  then show ?thesis using avoids_path [OF assms] by (simp add: dominates_at_def dominates_def)
qed

lemma dominators_incoming_val:
  assumes "row_prefix preds n i doms" "i < n" and "length bs = n"
    and "\<And>e. e \<in> set es \<Longrightarrow> mSource c e \<noteq> None \<and> index (src c e) < i + start"
  shows "\<exists>bs'. dominators_incoming c index start i doms es bs = Inr bs' \<and> length bs' = n \<and> (\<forall>k < n. bs' ! k \<longleftrightarrow> bs ! k
    \<and> (\<forall>p \<in> set (map (\<lambda>e. index (src c e) - start) (filter (\<lambda>e. start \<le> index (src c e)) es)). dominates_at preds k p))"
  using assms(3,4)
proof (induction es arbitrary: bs)
  case (Cons e es)
  show ?case
  proof (cases "index (src c e) < start")
    case True
    then show ?thesis using Cons.IH [of bs] Cons.prems by (simp add: check_def)
  next
    case False
    let ?p = "index (src c e) - start"
    have "index (src c e) < i + start" using Cons.prems(2) [of e] by simp
    then have "?p < i" using False by linarith
    then have p: "doms ! ?p = table_row preds n ?p" using assms(1) by (simp add: row_prefix_def)
    obtain bs' where "dominators_incoming c index start i doms es (bits_and bs (doms ! ?p)) = Inr bs'" "length bs' = n"
      "\<forall>k < n. bs' ! k \<longleftrightarrow> bits_and bs (doms ! ?p) ! k \<and> (\<forall>q \<in> set (map (\<lambda>e. index (src c e) - start)
         (filter (\<lambda>e. start \<le> index (src c e)) es)). dominates_at preds k q)"
      using Cons.IH [of "bits_and bs (doms ! ?p)"] Cons.prems p by (auto simp: table_row_def)
    then show ?thesis
      using False Cons.prems p by (auto simp: check_def bits_and_nth table_row_def)
  qed
qed simp

lemma dominators_loop_val:
  assumes t: "topo_ok c topo index" and n: "start + n \<le> length topo"
    and "0 < i" "i \<le> n" and "row_prefix (offset_preds c topo index start) n i doms"
  shows "\<exists>doms'. dominators_loop c topo index start n [i..<n] doms = Inr doms'
    \<and> row_prefix (offset_preds c topo index start) n n doms'"
  using assms(3-)
proof (induction "n - i" arbitrary: i doms)
  case (Suc m)
  let ?v = "topo ! (start + i)" and ?preds = "offset_preds c topo index start"
  have i: "i < n" using Suc.hyps(2) by simp
  have v: "?v \<in> set topo" "index ?v = start + i" using t n i by (auto simp: topo_ok_def)
  have "mSource c e \<noteq> None \<and> index (src c e) < i + start" if "e \<in> set (mIncoming c ?v)" for e
    using topo_source [OF t v(1) that] v(2) by auto
  then have "\<exists>bs. dominators_incoming c index start i doms (mIncoming c ?v) (replicate n True) = Inr bs \<and> length bs = n
    \<and> (\<forall>k < n. bs ! k \<longleftrightarrow> replicate n True ! k \<and> (\<forall>p \<in> set (?preds i). dominates_at ?preds k p))"
    unfolding offset_preds_def [of c topo index start i] region_def
    by (intro dominators_incoming_val [OF Suc.prems(3) i]) auto
  then obtain bs where bs: "dominators_incoming c index start i doms (mIncoming c ?v) (replicate n True) = Inr bs" "length bs = n"
    "\<forall>k < n. bs ! k \<longleftrightarrow> (\<forall>p \<in> set (?preds i). dominates_at ?preds k p)"
    by auto
  have "row_prefix ?preds n (Suc i) (doms[i := bs[i := True]])"
    using prefix_update [OF Suc.prems(3,1) i bs(2)] bs(3) by blast
  then obtain doms' where "dominators_loop c topo index start n [Suc i..<n] (doms[i := bs[i := True]]) = Inr doms'"
    "row_prefix ?preds n n doms'"
    using Suc.hyps(1) [of "Suc i" "doms[i := bs[i := True]]"] Suc.hyps(2) i by force
  with bs(1) i show ?case by (simp add: upt_conv_Cons)
qed auto

lemma max_element_val:
  "max_element key b xs \<in> set (b # xs) \<and> (\<forall>x \<in> set (b # xs). key x \<le> key (max_element key b xs))"
  by (induction xs arbitrary: b) (force split: if_splits)+

lemma min_element_val:
  "min_element key b xs \<in> set (b # xs) \<and> (\<forall>x \<in> set (b # xs). key (min_element key b xs) \<le> key x)"
  by (induction xs arbitrary: b) (force split: if_splits)+

text \<open>A dominator of a reachable location lies between the start and the location.\<close>

lemma dominates_between:
  assumes t: "topo_ok c topo index" and v: "v \<in> set topo" and p: "path_by c (\<lambda>w e. True) s v"
    and d: "dominates c s d v" "d \<in> set topo"
  shows "index s \<le> index d \<and> index d \<le> index v"
proof (cases "d = s")
  case True
  then show ?thesis using path_in_topo [OF t p v] by simp
next
  case False
  show ?thesis
  proof (rule ccontr)
    assume "\<not> (index s \<le> index d \<and> index d \<le> index v)"
    then have "path_by c (\<lambda>w e. w \<noteq> d) s v"
      by (intro path_by_mono [OF t p v]) auto
    with d(1) False show False by (simp add: dominates_def)
  qed
qed

text \<open>The table, the intersection over the given locations and the highest bit, for any size of the table
  that holds the locations.\<close>

lemma dominator_query:
  assumes t: "topo_ok c topo index" and s: "s \<in> set topo" and n: "0 < n" "index s + n \<le> length topo"
    and us: "us \<noteq> []" "\<And>u. u \<in> set us \<Longrightarrow> u \<in> set topo \<and> path_by c (\<lambda>w e. True) s u \<and> index u < index s + n"
  shows "\<exists>doms common k. dominators_loop c topo index (index s) n [1..<n] (initial_dominators n) = Inr doms
    \<and> length doms = n \<and> common_dominators doms (map (\<lambda>u. index u - index s) us) (replicate n True) = Inr common
    \<and> pick_common n common = Inr k \<and> k < n \<and> index (topo ! (index s + k)) = index s + k
    \<and> (\<forall>u \<in> set us. dominates c s (topo ! (index s + k)) u)
    \<and> (\<forall>d' \<in> set topo. (\<forall>u \<in> set us. dominates c s d' u) \<longrightarrow> index d' \<le> index s + k)"
proof -
  let ?preds = "offset_preds c topo index (index s)" and ?is = "map (\<lambda>u. index u - index s) us"
  obtain doms where doms: "dominators_loop c topo index (index s) n [1..<n] (initial_dominators n) = Inr doms"
    "row_prefix ?preds n n doms"
    using dominators_loop_val [OF t n(2) _ _ initial_prefix [OF n(1)]] n(1) by auto
  have lo: "index s \<le> index u" if "u \<in> set us" for u using us(2) [OF that] path_in_topo [OF t] by blast
  have "\<forall>i \<in> set ?is. i < n" using us(2) lo n(1) by fastforce
  from pick_common_val [OF doms(2) n(1) this]
  obtain common k where k: "common_dominators doms ?is (replicate n True) = Inr common" "pick_common n common = Inr k"
    "k < n" "\<forall>i \<in> set ?is. dominates_at ?preds k i" "\<forall>k' < n. (\<forall>i \<in> set ?is. dominates_at ?preds k' i) \<longrightarrow> k' \<le> k"
    by blast
  have dom: "dominates_at ?preds j (index u - index s) \<longleftrightarrow> dominates c s (topo ! (index s + j)) u"
    if "j < n" "u \<in> set us" for j u
    using dominates_at_iff [OF t s, of j "index u - index s"] that n lo [OF that(2)] us(2) [OF that(2)] topo_nth [OF t, of u]
    by simp
  have "index d' \<le> index s + k" if d': "d' \<in> set topo" "\<forall>u \<in> set us. dominates c s d' u" for d'
  proof -
    obtain u where u: "u \<in> set us" using us(1) by (meson last_in_set)
    have b: "index s \<le> index d'" "index d' < index s + n"
      using dominates_between [OF t _ _ _ d'(1), of u s] us(2) [OF u] d'(2) u by fastforce+
    then have lt: "index d' - index s < n" by simp
    have "\<forall>i \<in> set ?is. dominates_at ?preds (index d' - index s) i"
      using dom [OF lt] d' b(1) topo_nth [OF t d'(1)] by auto
    with lt have "index d' - index s \<le> k" using k(5) by blast
    with b(1) show ?thesis by simp
  qed
  moreover have "index (topo ! (index s + k)) = index s + k" using t n k(3) by (simp add: topo_ok_def)
  moreover have "\<forall>u \<in> set us. dominates c s (topo ! (index s + k)) u" using k(4) dom [OF k(3)] by simp
  moreover have "length doms = n" using doms(2) by (simp add: row_prefix_def)
  ultimately show ?thesis using doms(1) k(1-3) by blast
qed

text \<open>The targets of a dominator query: connected transitions whose sources are reachable from the start.\<close>

definition targets_ok :: "cfa \<Rightarrow> nat list \<Rightarrow> nat \<Rightarrow> nat list \<Rightarrow> bool" where
  "targets_ok c topo s targets \<longleftrightarrow> s \<in> set topo \<and> targets \<noteq> [] \<and> (\<forall>e \<in> set targets. \<exists>u v. mSource c e = Some u
     \<and> mTarget c e = Some v \<and> v \<in> set topo \<and> e \<in> set (mIncoming c v) \<and> path_by c (\<lambda>w e. True) s u)"

lemma targets_okD:
  assumes "targets_ok c topo s targets" and "topo_ok c topo index" and "e \<in> set targets"
  shows "mSource c e \<noteq> None" "mTarget c e \<noteq> None" "src c e \<in> set topo" "tgt c e \<in> set topo"
    "index (src c e) < index (tgt c e)" "path_by c (\<lambda>w e. True) s (src c e)" "index s \<le> index (src c e)"
proof -
  from assms(1,3) obtain u v where uv: "mSource c e = Some u" "mTarget c e = Some v" "v \<in> set topo"
    "e \<in> set (mIncoming c v)" "path_by c (\<lambda>w e. True) s u" by (auto simp: targets_ok_def)
  from topo_source [OF assms(2) uv(3,4)] uv show "mSource c e \<noteq> None" "mTarget c e \<noteq> None" "src c e \<in> set topo"
    "tgt c e \<in> set topo" "index (src c e) < index (tgt c e)" "path_by c (\<lambda>w e. True) s (src c e)" by auto
  with path_in_topo [OF assms(2)] show "index s \<le> index (src c e)" by blast
qed

text \<open>
  C19: on a topological order, the lowest common dominator of a set of transitions is found: a
  location on every path from the start to each of their sources, and no location with this property
  comes later in the order.
\<close>

theorem lowest_common_dominator:
  assumes t: "topo_ok c topo index" and g: "targets_ok c topo s targets"
  shows "\<exists>d. findLowestCommonDominator c targets topo index (Some s) = Inr (Some d)
    \<and> (\<forall>e \<in> set targets. dominates c s d (the (mSource c e)))
    \<and> (\<forall>d' \<in> set topo. (\<forall>e \<in> set targets. dominates c s d' (the (mSource c e))) \<longrightarrow> index d' \<le> index d)"
proof -
  note e = targets_okD [OF g t]
  have s: "s \<in> set topo" and ht: "hd targets # tl targets = targets" using g by (auto simp: targets_ok_def)
  let ?e = "max_element (\<lambda>e. index (src c e)) (hd targets) (tl targets)"
  from max_element_val [of "\<lambda>e. index (src c e)" "hd targets" "tl targets"]
  have m: "?e \<in> set targets" "\<And>e. e \<in> set targets \<Longrightarrow> index (src c e) \<le> index (src c ?e)" unfolding ht by auto
  let ?n = "index (tgt c ?e) - index s" and ?us = "map (src c) targets"
  have n: "0 < ?n" "index s + ?n \<le> length topo" using e [OF m(1)] topo_nth [OF t e(4) [OF m(1)]] by auto
  have "u \<in> set topo \<and> path_by c (\<lambda>w e. True) s u \<and> index u < index s + ?n" if "u \<in> set ?us" for u
    using that e m e(5) [OF m(1)] e(7) [OF m(1)] by fastforce
  moreover have "?us \<noteq> []" using g by (simp add: targets_ok_def)
  ultimately obtain doms common k where k:
    "dominators_loop c topo index (index s) ?n [1..<?n] (initial_dominators ?n) = Inr doms"
    "common_dominators doms (map (\<lambda>u. index u - index s) ?us) (replicate ?n True) = Inr common"
    "pick_common ?n common = Inr k" "index (topo ! (index s + k)) = index s + k"
    "\<forall>u \<in> set ?us. dominates c s (topo ! (index s + k)) u"
    "\<forall>d' \<in> set topo. (\<forall>u \<in> set ?us. dominates c s d' u) \<longrightarrow> index d' \<le> index s + k"
    using dominator_query [OF t s n] by blast
  have "findLowestCommonDominator c targets topo index (Some s) = Inr (Some (topo ! (index s + k)))"
    using g e(1,2,7) n(1) k(1-3)
    by (simp add: findLowestCommonDominator_def targets_ok_def check_def list_all_iff Let_def comp_def add.commute)
  with k(4-6) show ?thesis by simp
qed

theorem lowest_common_dominator_witness:
  "\<exists>d. findLowestCommonDominator two_edges [10, 11] [3, 4] (\<lambda>l. l - 3) (Some 3) = Inr (Some d) \<and> dominates two_edges 3 d 3"
proof -
  have "mTarget two_edges 10 = Some 4" "mTarget two_edges 11 = Some 4"
    by (simp_all add: two_edges_def addTransition_def createEdge_def Let_def)
  then have "targets_ok two_edges [3, 4] 3 [10, 11]"
    by (auto simp: targets_ok_def two_edges_simps intro: path_by.intros)
  from lowest_common_dominator [OF two_edges_topo this] show ?thesis by (auto simp: two_edges_simps)
qed

section \<open>Post-dominance is dominance in the reversed automaton\<close>

definition reversed :: "cfa \<Rightarrow> cfa" where
  "reversed c = c\<lparr>mIncoming := mOutgoing c, mOutgoing := mIncoming c, mSource := mTarget c, mTarget := mSource c\<rparr>"

lemma reversed_simps [simp]:
  "mIncoming (reversed c) = mOutgoing c" "mSource (reversed c) = mTarget c" "mTarget (reversed c) = mSource c"
  by (simp_all add: reversed_def)

definition mirror :: "nat list \<Rightarrow> (nat \<Rightarrow> nat) \<Rightarrow> nat \<Rightarrow> nat" where
  "mirror topo index l = length topo - 1 - index l"

text \<open>The order is also closed under successors.\<close>

definition topo_succ_ok :: "cfa \<Rightarrow> nat list \<Rightarrow> (nat \<Rightarrow> nat) \<Rightarrow> bool" where
  "topo_succ_ok c topo index \<longleftrightarrow> (\<forall>i < length topo. index (topo ! i) = i
     \<and> (\<forall>e \<in> set (mOutgoing c (topo ! i)). \<exists>v. mTarget c e = Some v \<and> v \<in> set topo \<and> i < index v))"

lemma succ_nth: "topo_succ_ok c topo index \<Longrightarrow> u \<in> set topo \<Longrightarrow> index u < length topo \<and> topo ! index u = u"
  by (auto simp: topo_succ_ok_def in_set_conv_nth)

lemma succ_target:
  assumes "topo_succ_ok c topo index" "k < length topo" "e \<in> set (mOutgoing c (topo ! k))"
  shows "\<exists>v. mTarget c e = Some v \<and> v \<in> set topo \<and> k < index v"
proof -
  have "\<forall>e \<in> set (mOutgoing c (topo ! k)). \<exists>v. mTarget c e = Some v \<and> v \<in> set topo \<and> k < index v"
    using assms(1,2) by (simp add: topo_succ_ok_def)
  with assms(3) show ?thesis by (rule bspec [rotated])
qed

lemma reversed_topo:
  assumes "topo_succ_ok c topo index"
  shows "topo_ok (reversed c) (rev topo) (mirror topo index)"
  unfolding topo_ok_def
proof (intro allI impI conjI ballI)
  fix i assume i: "i < length (rev topo)"
  then have r: "rev topo ! i = topo ! (length topo - 1 - i)" "length topo - 1 - i < length topo"
    by (simp_all add: rev_nth)
  then have idx: "index (rev topo ! i) = length topo - 1 - i" using assms by (simp add: topo_succ_ok_def)
  show "mirror topo index (rev topo ! i) = i" using idx i by (simp add: mirror_def)
  fix e assume "e \<in> set (mIncoming (reversed c) (rev topo ! i))"
  then obtain v where "mTarget c e = Some v" "v \<in> set topo" "length topo - 1 - i < index v"
    using assms r by (fastforce simp: topo_succ_ok_def)
  with succ_nth [OF assms, of v] i
  show "\<exists>u. mSource (reversed c) e = Some u \<and> u \<in> set (rev topo) \<and> mirror topo index u < i"
    by (auto simp: mirror_def)
qed

text \<open>Both loops do the same on mirrored indices.\<close>

lemma mirror_diff:
  assumes "s < length topo" "index l < length topo" "start = length topo - 1 - s"
  shows "mirror topo index l < start \<longleftrightarrow> s < index l" "\<not> s < index l \<Longrightarrow> mirror topo index l - start = s - index l"
  using assms by (auto simp: mirror_def)

lemma outgoing_reversed:
  assumes "s < length topo" and "start = length topo - 1 - s" and "i < length doms"
    and "\<And>e. e \<in> set es \<Longrightarrow> mTarget c e \<noteq> None \<and> index (tgt c e) < length topo \<and> s < index (tgt c e) + i"
  shows "postdominators_outgoing c index s i doms es bs =
    dominators_incoming (reversed c) (mirror topo index) start i doms es bs"
  using assms(4)
proof (induction es arbitrary: bs)
  case (Cons e es)
  then have e: "mTarget c e \<noteq> None" "index (tgt c e) < length topo" "s < index (tgt c e) + i" by auto
  have "mirror topo index (tgt c e) < i + start" using e assms(1,2) by (auto simp: mirror_def)
  moreover have "s - index (tgt c e) < length doms" using e assms(3) by simp
  ultimately show ?case
    using Cons e(1) mirror_diff [where index = index and l = "tgt c e", OF assms(1) e(2) assms(2)] by (auto simp: check_def)
qed simp

lemma loop_reversed:
  assumes t: "topo_succ_ok c topo index" and s: "s < length topo" "start = length topo - 1 - s" "n \<le> s + 1"
    and "length doms = n"
  shows "0 < i \<Longrightarrow> postdominators_loop c topo index s n [i..<n] doms =
    dominators_loop (reversed c) (rev topo) (mirror topo index) start n [i..<n] doms"
  using assms(5)
proof (induction "n - i" arbitrary: i doms)
  case (Suc m)
  have i: "i < n" using Suc.hyps(2) by simp
  have nth: "rev topo ! (start + i) = topo ! (s - i)" using s i by (simp add: rev_nth)
  have "mTarget c e \<noteq> None \<and> index (tgt c e) < length topo \<and> s < index (tgt c e) + i"
    if oe: "e \<in> set (mOutgoing c (topo ! (s - i)))" for e
  proof -
    have "s - i < length topo" using s i by simp
    from succ_target [OF t this oe] obtain v where "mTarget c e = Some v" "v \<in> set topo" "s - i < index v" by blast
    with succ_nth [OF t, of v] i s(3) show ?thesis by auto
  qed
  then have out: "postdominators_outgoing c index s i doms (mOutgoing c (topo ! (s - i))) (replicate n True) =
      dominators_incoming (reversed c) (mirror topo index) start i doms (mOutgoing c (topo ! (s - i))) (replicate n True)"
    using Suc.prems(2) i by (intro outgoing_reversed [OF s(1,2)]) auto
  have step: "postdominators_loop c topo index s n [Suc i..<n] (doms[i := bs]) =
      dominators_loop (reversed c) (rev topo) (mirror topo index) start n [Suc i..<n] (doms[i := bs])" for bs
    using Suc.hyps(2) Suc.prems(2) i by (intro Suc.hyps(1)) auto
  show ?case
    unfolding upt_conv_Cons [OF i] postdominators_loop.simps dominators_loop.simps reversed_simps nth out step by (rule refl)
qed simp

definition postdominates :: "cfa \<Rightarrow> nat \<Rightarrow> nat \<Rightarrow> nat \<Rightarrow> bool" where
  "postdominates c t d v \<longleftrightarrow> dominates (reversed c) t d v"

text \<open>
  C20: the highest common post-dominator of a set of transitions is found: a location on every path
  from each of their targets to the given location, and no location with this property comes earlier
  in the order.
\<close>

theorem highest_common_postdominator:
  assumes t: "topo_succ_ok c topo index" and s: "s \<in> set topo" and g: "targets \<noteq> []"
    "\<And>e. e \<in> set targets \<Longrightarrow> \<exists>u v. mSource c e = Some u \<and> mTarget c e = Some v \<and> u \<in> set topo
       \<and> e \<in> set (mOutgoing c u) \<and> path_by (reversed c) (\<lambda>w e. True) s v"
  shows "\<exists>d. findHighestCommonPostDominator c targets topo index (Some s) = Inr (Some d)
    \<and> (\<forall>e \<in> set targets. postdominates c s d (the (mTarget c e)))
    \<and> (\<forall>d' \<in> set topo. (\<forall>e \<in> set targets. postdominates c s d' (the (mTarget c e))) \<longrightarrow> index d \<le> index d')"
proof -
  let ?N = "length topo" and ?i = "mirror topo index" and ?r = "reversed c"
  note rt = reversed_topo [OF t]
  have si: "index s < ?N" "topo ! index s = s" using succ_nth [OF t s] by auto
  have e: "mSource c e \<noteq> None" "mTarget c e \<noteq> None" "tgt c e \<in> set topo" "index (src c e) < index (tgt c e)"
    "index (tgt c e) \<le> index s" "path_by ?r (\<lambda>w e. True) s (tgt c e)" if "e \<in> set targets" for e
  proof -
    from g(2) [OF that] obtain u v where uv: "mSource c e = Some u" "mTarget c e = Some v" "u \<in> set topo"
      "e \<in> set (mOutgoing c u)" "path_by ?r (\<lambda>w e. True) s v" by blast
    have "\<exists>v. mTarget c e = Some v \<and> v \<in> set topo \<and> index u < index v"
      using succ_target [OF t, of "index u" e] uv(4) succ_nth [OF t uv(3)] by simp
    with uv show "mSource c e \<noteq> None" "mTarget c e \<noteq> None" "tgt c e \<in> set topo"
      "index (src c e) < index (tgt c e)" "path_by ?r (\<lambda>w e. True) s (tgt c e)" by auto
    with path_in_topo [OF rt] have "?i s \<le> ?i (tgt c e)" by (metis set_rev)
    with succ_nth [OF t] \<open>tgt c e \<in> set topo\<close> si show "index (tgt c e) \<le> index s"
      by (fastforce simp: mirror_def)
  qed
  have ht: "hd targets # tl targets = targets" using g(1) by simp
  let ?e = "min_element (\<lambda>e. index (src c e)) (hd targets) (tl targets)"
  from min_element_val [of "\<lambda>e. index (src c e)" "hd targets" "tl targets"]
  have m: "?e \<in> set targets" "\<And>e. e \<in> set targets \<Longrightarrow> index (src c ?e) \<le> index (src c e)" unfolding ht by auto
  let ?n = "index s - index (src c ?e)" and ?us = "map (tgt c) targets"
  have n: "0 < ?n" "?i s + ?n \<le> length (rev topo)" "?n \<le> index s + 1"
    using e(4,5) [OF m(1)] si(1) by (auto simp: mirror_def)
  have is0: "?i s = ?N - 1 - index s" by (simp add: mirror_def)
  have off: "?i (tgt c e) - ?i s = index s - index (tgt c e)" "?i (tgt c e) < ?i s + ?n" if "e \<in> set targets" for e
    using e(3-5) [OF that] m(2) [OF that] si(1) succ_nth [OF t e(3) [OF that]] by (auto simp: mirror_def)
  have us: "u \<in> set (rev topo) \<and> path_by ?r (\<lambda>w e. True) s u \<and> ?i u < ?i s + ?n" if "u \<in> set ?us" for u
    using that e(3,6) off(2) by auto
  have "?us \<noteq> []" "s \<in> set (rev topo)" using g(1) s by auto
  from dominator_query [OF rt this(2) n(1,2) this(1) us]
  obtain doms common k where k:
    "dominators_loop ?r (rev topo) ?i (?i s) ?n [1..<?n] (initial_dominators ?n) = Inr doms"
    "common_dominators doms (map (\<lambda>u. ?i u - ?i s) ?us) (replicate ?n True) = Inr common"
    "pick_common ?n common = Inr k" "k < ?n"
    "\<forall>u \<in> set ?us. dominates ?r s (rev topo ! (?i s + k)) u"
    "\<forall>d' \<in> set (rev topo). (\<forall>u \<in> set ?us. dominates ?r s d' u) \<longrightarrow> ?i d' \<le> ?i s + k"
    by blast
  have loop: "postdominators_loop c topo index (index s) ?n [1..<?n] (initial_dominators ?n) = Inr doms"
    using loop_reversed [OF t si(1) is0 n(3), of "initial_dominators ?n" 1] k(1) by (simp add: initial_dominators_def)
  have d: "rev topo ! (?i s + k) = topo ! (index s - k)" using k(4) si(1) by (simp add: rev_nth mirror_def)
  have di: "index (topo ! (index s - k)) = index s - k" using t si(1) by (simp add: topo_succ_ok_def)
  have map: "map (\<lambda>u. ?i u - ?i s) ?us = map (\<lambda>e. index s - index (tgt c e)) targets" using off(1) by simp
  have "findHighestCommonPostDominator c targets topo index (Some s) = Inr (Some (topo ! (index s - k)))"
    using g(1) e(1,2,5) n(1) loop k(2,3) unfolding map
    by (simp add: findHighestCommonPostDominator_def check_def list_all_iff Let_def)
  moreover have "index s - k \<le> index d'" if "d' \<in> set topo" "\<forall>e \<in> set targets. postdominates c s d' (tgt c e)" for d'
    using k(6) that succ_nth [OF t that(1)] si(1) k(4) by (fastforce simp: postdominates_def mirror_def)
  ultimately show ?thesis
    using k(5) di unfolding d by (auto simp: postdominates_def)
qed

lemma two_edges_succ: "topo_succ_ok two_edges [3, 4] (\<lambda>l. l - 3)"
  by (auto simp: topo_succ_ok_def less_Suc_eq two_edges_def addTransition_def createEdge_def Cfa_new_def createLocation_def
      createNode_def empty_cfa_def Let_def)

theorem highest_common_postdominator_witness:
  "\<exists>d. findHighestCommonPostDominator two_edges [10, 11] [3, 4] (\<lambda>l. l - 3) (Some 4) = Inr (Some d)
     \<and> postdominates two_edges 4 d 4"
proof -
  have tg: "mTarget two_edges 10 = Some 4" "mTarget two_edges 11 = Some 4" "mOutgoing two_edges 3 = [10, 11]"
    by (simp_all add: two_edges_def addTransition_def createEdge_def Cfa_new_def createLocation_def
      createNode_def empty_cfa_def Let_def)
  then have "\<exists>u v. mSource two_edges e = Some u \<and> mTarget two_edges e = Some v \<and> u \<in> set [3, 4]
      \<and> e \<in> set (mOutgoing two_edges u) \<and> path_by (reversed two_edges) (\<lambda>w e. True) 4 v" if "e \<in> set [10, 11]" for e
    using that by (auto simp: two_edges_simps intro: path_by.intros)
  from highest_common_postdominator [where s = 4 and targets = "[10, 11]", OF two_edges_succ _ _ this] show ?thesis by (auto simp: tg)
qed

end
