(* ===== verification/GazerBmc.thy ===== *)
theory GazerBmc
  imports GazerInline GazerDominators
begin

text \<open>
  The bounded model checker (\<^verbatim>\<open>tools/gazer-bmc/Verifier/BoundedModelChecker.cpp\<close>, \<^verbatim>\<open>BmcTrace.cpp\<close>): the goal
  location, the removal of locations from which it is not reachable, the topological order, inlining
  of calls with the update of the order, and the walk over a counterexample. \<open>ScopedCache\<close>
  (\<^verbatim>\<open>include/gazer/ADT/ScopedCache.h\<close>), which holds the predecessor expressions, is modelled first.

  Parameters: the visited set of LLVM's depth-first iterator, its post-order iterator, the first
  element of a hash map, and the addresses of new objects. The map \<open>mCalls\<close> is an association list, in
  the order in which it is iterated.
\<close>

section \<open>Scoped caches\<close>

text \<open>The scopes from the innermost to the root.\<close>

type_synonym ('k, 'v) scoped_cache = "('k \<rightharpoonup> 'v) list"

definition cache_new :: "('k, 'v) scoped_cache" where
  "cache_new = [Map.empty]"

fun cache_insert :: "'k \<Rightarrow> 'v \<Rightarrow> ('k, 'v) scoped_cache \<Rightarrow> ('k, 'v) scoped_cache" where
  "cache_insert k v (m # ms) = m(k \<mapsto> v) # ms"
| "cache_insert k v [] = []"

fun cache_get :: "('k, 'v) scoped_cache \<Rightarrow> 'k \<Rightarrow> 'v option" where
  "cache_get [] k = None"
| "cache_get (m # ms) k = (case m k of Some v \<Rightarrow> Some v | None \<Rightarrow> cache_get ms k)"

definition cache_clear :: "('k, 'v) scoped_cache \<Rightarrow> ('k, 'v) scoped_cache" where
  "cache_clear c = [Map.empty]"

definition cache_push :: "('k, 'v) scoped_cache \<Rightarrow> ('k, 'v) scoped_cache" where
  "cache_push c = Map.empty # c"

definition cache_pop :: "('k, 'v) scoped_cache \<Rightarrow> ('k, 'v) scoped_cache res" where
  "cache_pop c = check (1 < length c) AssertFail (Inr (tl c))"

section \<open>State\<close>

record call_info =
  overApprox :: expr
  callChain :: "nat list"

definition getCost :: "call_info \<Rightarrow> nat" where
  "getCost i = u32 (count_list (callChain i) (last (callChain i)))"

record bmc =
  bSystem :: automata_system
  bRootPtr :: nat
  bRoot :: cfa
  bTable :: variable_table
  mTopo :: "nat list"
  mLocNumbers :: "nat \<rightharpoonup> nat"
  mError :: nat
  mErrorFieldVariable :: variable
  mCalls :: "(nat \<times> call_info) list"
  mTopoSortMap :: "nat \<Rightarrow> nat list"
  mInlinedLocations :: "nat \<rightharpoonup> nat"
  mInlinedVariables :: "variable \<rightharpoonup> variable"

section \<open>Preprocessing\<close>

definition created_local :: "string \<Rightarrow> gtype \<Rightarrow> bmc \<Rightarrow> (variable \<times> bmc) res" where
  "created_local n t st = rbind (returned (createLocal n t (bRoot st) (bTable st))) (\<lambda>(v, root, tbl).
     Inr (v, st\<lparr>bRoot := root, bTable := tbl\<rparr>))"

definition add_assign :: "(nat list \<Rightarrow> nat) \<Rightarrow> nat \<Rightarrow> nat \<Rightarrow> expr \<Rightarrow> variable_assignment list \<Rightarrow> bmc \<Rightarrow> bmc res" where
  "add_assign alloc s t g as st =
     rbind (createAssignTransition (alloc (mEdges (bRoot st))) s t (Some g) as (bRoot st)) (\<lambda>root.
       Inr (st\<lparr>bRoot := root\<rparr>))"

fun error_field_type :: "cfa \<Rightarrow> nat list \<Rightarrow> gtype option \<Rightarrow> gtype option res" where
  "error_field_type c [] t = Inr t"
| "error_field_type c (l # ls) t = rbind (getErrorFieldExpr c l) (\<lambda>x. error_field_type c ls (Some (getType x)))"

fun other_error_type :: "((nat \<rightharpoonup> expr) \<Rightarrow> nat option) \<Rightarrow> automata_system \<Rightarrow> nat list \<Rightarrow> gtype option" where
  "other_error_type first sys [] = None"
| "other_error_type first sys (p # ps) = (case first (mErrorFieldExprs (mCfa sys p)) of
     None \<Rightarrow> other_error_type first sys ps
   | Some l \<Rightarrow> map_option getType (mErrorFieldExprs (mCfa sys p) l))"

definition initializeErrorField ::
    "(nat list \<Rightarrow> nat) \<Rightarrow> ((nat \<rightharpoonup> expr) \<Rightarrow> nat option) \<Rightarrow> bmc \<Rightarrow> (bool \<times> bmc) res" where
  "initializeErrorField alloc first st =
     (let errors = filter (isError (bRoot st)) (mNodes (bRoot st)) in
      rbind (error_field_type (bRoot st) errors None) (\<lambda>t.
        (case (case t of None \<Rightarrow> other_error_type first (bSystem st) (mAutomata (bSystem st)) | Some t \<Rightarrow> Some t) of
           None \<Rightarrow> Inr (False, st)
         | Some t \<Rightarrow>
            (let err = alloc (mNodes (bRoot st)); st1 = st\<lparr>bRoot := createErrorLocation err (bRoot st), mError := err\<rparr> in
             rbind (created_local ''__error_field'' t st1) (\<lambda>(v, st2).
             (let st3 = st2\<lparr>mErrorFieldVariable := v\<rparr> in
              rbind (if errors = [] then
                       rbind (VariableAssignment_Create v (BvLit (APInt 16 0))) (\<lambda>a.
                         add_assign alloc (mEntry (bRoot st3)) err False_lit [a] st3)
                     else for_each (\<lambda>l s. rbind (getErrorFieldExpr (bRoot s) l) (\<lambda>x.
                            rbind (VariableAssignment_Create v x) (\<lambda>a. add_assign alloc l err True_lit [a] s))) errors st3)
                (\<lambda>st4. rbind (add_assign alloc err (mExit (bRoot st4)) False_lit [] st4) (\<lambda>st5. Inr (True, st5)))))))))"

definition removeIrrelevantLocations :: "(nat \<Rightarrow> bool) \<Rightarrow> bmc \<Rightarrow> bmc res" where
  "removeIrrelevantLocations visited st =
     rbind (disconnectNodes (\<lambda>l. \<not> (visited l \<or> l = mExit (bRoot st))) (mNodes (bRoot st)) (bRoot st)) (\<lambda>root.
       Inr (st\<lparr>bRoot := clearDisconnectedElements root\<rparr>))"

fun number_from :: "nat list \<Rightarrow> nat \<Rightarrow> (nat \<rightharpoonup> nat) \<Rightarrow> (nat \<rightharpoonup> nat)" where
  "number_from [] i m = m"
| "number_from (l # ls) i m = number_from ls (Suc i) (m(l \<mapsto> i))"

definition createTopologicalSort :: "(cfa \<Rightarrow> nat list) \<Rightarrow> cfa \<Rightarrow> nat list" where
  "createTopologicalSort po c = rev (po c)"

definition createTopologicalSorts :: "(cfa \<Rightarrow> nat list) \<Rightarrow> bmc \<Rightarrow> bmc" where
  "createTopologicalSorts po st =
     (let sorts = (\<lambda>p. createTopologicalSort po (if p = bRootPtr st then bRoot st else mCfa (bSystem st) p));
          topo = mTopo st @ sorts (bRootPtr st)
      in st\<lparr>mTopoSortMap := sorts, mTopo := topo, mLocNumbers := number_from topo 0 (mLocNumbers st)\<rparr>)"

definition initial_calls :: "bmc \<Rightarrow> bmc" where
  "initial_calls st = st\<lparr>mCalls := map (\<lambda>e. (e, \<lparr>overApprox = False_lit, callChain = [mCallee (mTransition (bRoot st) e)]\<rparr>))
     (filter (\<lambda>e. isCall (mTransition (bRoot st) e)) (mEdges (bRoot st)))\<rparr>"

section \<open>Inlining\<close>

definition bmc_clone_input :: "cfa \<Rightarrow> transition \<Rightarrow> string \<Rightarrow> variable \<Rightarrow> clone \<Rightarrow> clone res" where
  "bmc_clone_input callee call sfx v st = (if isOutput callee v then Inr st
     else rbind (cloned_local (var_name v @ sfx) v st) (\<lambda>(nv, st').
       (case getInputArgument call v of None \<Rightarrow> Inl AssertFail
        | Some a \<Rightarrow> Inr (st'\<lparr>cRewrite := (cRewrite st')(v \<mapsto> va_value a)\<rparr>))))"

definition bmc_clone_edge :: "(nat list \<Rightarrow> nat) \<Rightarrow> expr_builder \<Rightarrow> automata_system \<Rightarrow> cfa \<Rightarrow> nat list \<Rightarrow> nat \<Rightarrow>
    clone \<times> (nat \<times> call_info) list \<Rightarrow> (clone \<times> (nat \<times> call_info) list) res" where
  "bmc_clone_edge alloc B sys callee chain e st =
     (let (cl, calls) = st; tr = mTransition callee e in
      rbind (copy_of cl (mSource callee e)) (\<lambda>s. rbind (copy_of cl (mTarget callee e)) (\<lambda>t.
        if isAssign tr then rbind (clone_assign_edge alloc B s t tr cl) (\<lambda>cl'. Inr (cl', calls))
        else rbind (clone_call_edge alloc B sys s t tr cl) (\<lambda>cl'.
          Inr (cl', calls @ [(alloc (mEdges (cRoot cl)),
                 \<lparr>overApprox = False_lit, callChain = chain @ [mCallee tr]\<rparr>)])))))"

definition input_assignment :: "clone \<Rightarrow> variable_assignment \<Rightarrow> variable_assignment res" where
  "input_assignment cl a = (case oldVarToNew cl (va_variable a) of None \<Rightarrow> Inl NullDeref
   | Some v \<Rightarrow> VariableAssignment_Create v (va_value a))"

definition clone_of_root :: "bmc \<Rightarrow> clone" where
  "clone_of_root st = \<lparr>cRoot = bRoot st, cTable = bTable st, oldVarToNew = Map.empty, cRewrite = Map.empty,
     cInlinedVars = mInlinedVariables st, locToLocMap = Map.empty, cInlinedLocs = mInlinedLocations st\<rparr>"

definition with_default :: "nat option \<Rightarrow> nat" where
  "with_default n = (case n of None \<Rightarrow> 0 | Some n \<Rightarrow> n)"

definition clone_callee :: "(nat list \<Rightarrow> nat) \<Rightarrow> expr_builder \<Rightarrow> transition \<Rightarrow> nat list \<Rightarrow> string \<Rightarrow> bmc \<Rightarrow>
    (clone \<times> (nat \<times> call_info) list) res" where
  "clone_callee alloc B tr chain sfx st =
     (let callee = mCfa (bSystem st) (mCallee tr) in
      rbind (for_each (clone_local callee sfx) (mLocals callee) (clone_of_root st)) (\<lambda>cl1.
      rbind (for_each (bmc_clone_input callee tr sfx) (mInputs callee) cl1) (\<lambda>cl2.
      rbind (for_each (clone_output tr) (mOutputs callee) cl2) (\<lambda>cl3.
      rbind (for_each (clone_location alloc callee (mError st) (mErrorFieldVariable st)) (mNodes callee) cl3) (\<lambda>cl4.
        for_each (bmc_clone_edge alloc B (bSystem st) callee chain) (mEdges callee) (cl4, []))))))"

definition connect_clone :: "(nat list \<Rightarrow> nat) \<Rightarrow> cfa \<Rightarrow> transition \<Rightarrow> nat \<Rightarrow> nat \<Rightarrow> clone \<Rightarrow> cfa res" where
  "connect_clone alloc callee tr before after cl =
     rbind (res_map (input_assignment cl) (mInputArgs tr)) (\<lambda>ins.
     rbind (copy_of cl (Some (mEntry callee))) (\<lambda>entry.
     rbind (createAssignTransition (alloc (mEdges (cRoot cl))) before entry (Some (mGuard tr)) ins (cRoot cl)) (\<lambda>root1.
     rbind (copy_of cl (Some (mExit callee))) (\<lambda>exit.
       createAssignTransition (alloc (mEdges root1)) exit after (Some True_lit) [] root1))))"

definition insert_topo :: "nat list \<Rightarrow> nat \<Rightarrow> nat list \<Rightarrow> nat list" where
  "insert_topo topo k new = take k topo @ new @ drop k topo"

definition inlineCallIntoRoot :: "(nat list \<Rightarrow> nat) \<Rightarrow> expr_builder \<Rightarrow> nat \<Rightarrow> string \<Rightarrow> bmc \<Rightarrow> (nat list \<times> bmc) res" where
  "inlineCallIntoRoot alloc B call sfx st =
     (let tr = mTransition (bRoot st) call; callee = mCfa (bSystem st) (mCallee tr) in
      check (isCall tr) BadCast (check (mCallee tr \<noteq> bRootPtr st) IteratorInvalid
      (case (map_of (mCalls st) call, mSource (bRoot st) call, mTarget (bRoot st) call) of
         (Some info, Some before, Some after) \<Rightarrow>
           rbind (clone_callee alloc B tr (callChain info) sfx st) (\<lambda>(cl, newCalls).
           rbind (connect_clone alloc callee tr before after cl) (\<lambda>root1.
           rbind (res_map (\<lambda>l. copy_of cl (Some l)) (mTopoSortMap st (mCallee tr))) (\<lambda>new.
           (let k = with_default (mLocNumbers st after); topo = insert_topo (mTopo st) k new in
            rbind (disconnectEdge call root1) (\<lambda>root2.
              Inr (map fst newCalls,
                   st\<lparr>bRoot := root2, bTable := cTable cl, mTopo := topo,
                      mLocNumbers := number_from (drop k topo) k (mLocNumbers st),
                      mCalls := mCalls st @ newCalls,
                      mInlinedLocations := cInlinedLocs cl, mInlinedVariables := cInlinedVars cl\<rparr>))))))
       | _ \<Rightarrow> Inl NullDeref)))"

text \<open>The callers remove the call from \<open>mCalls\<close>.\<close>

definition inline_call :: "(nat list \<Rightarrow> nat) \<Rightarrow> expr_builder \<Rightarrow> nat \<Rightarrow> string \<Rightarrow> bmc \<Rightarrow> (nat list \<times> bmc) res" where
  "inline_call alloc B call sfx st = rbind (inlineCallIntoRoot alloc B call sfx st) (\<lambda>(new, st').
     Inr (new, st'\<lparr>mCalls := filter (\<lambda>p. fst p \<noteq> call) (mCalls st')\<rparr>))"

section \<open>Counterexamples\<close>

definition loc_number :: "bmc \<Rightarrow> nat \<Rightarrow> nat" where
  "loc_number st l = with_default (mLocNumbers st l)"

text \<open>The function that \<open>createLocNumberFunc\<close> returns fails for a location without a number. These are the
  locations for which it is called: given ones, and the ends of the transitions at the locations with
  the indices after \<open>i\<close> up to \<open>j\<close>.\<close>

definition have_numbers :: "bmc \<Rightarrow> nat list \<Rightarrow> bool" where
  "have_numbers st ls = list_all (\<lambda>l. mLocNumbers st l \<noteq> None) ls"

definition ends_have_numbers :: "bmc \<Rightarrow> (nat \<Rightarrow> nat list) \<Rightarrow> (nat \<Rightarrow> nat option) \<Rightarrow> nat \<Rightarrow> nat \<Rightarrow> bool" where
  "ends_have_numbers st edges end i j =
     list_all (\<lambda>l. have_numbers st (List.map_filter end (edges l))) (take (j - i) (drop (Suc i) (mTopo st)))"

definition dominator_lookups :: "bmc \<Rightarrow> nat list \<Rightarrow> nat \<Rightarrow> bool" where
  "dominator_lookups st targets fwd = (targets = [] \<or>
     (let c = bRoot st; end = max_element (\<lambda>e. loc_number st (src c e)) (hd targets) (tl targets) in
      have_numbers st (fwd # tgt c end # map (src c) targets)
      \<and> ends_have_numbers st (mIncoming c) (mSource c) (loc_number st fwd) (loc_number st (tgt c end) - 1)))"

definition postdominator_lookups :: "bmc \<Rightarrow> nat list \<Rightarrow> nat \<Rightarrow> bool" where
  "postdominator_lookups st targets bwd = (targets = [] \<or>
     (let c = bRoot st; end = min_element (\<lambda>e. loc_number st (src c e)) (hd targets) (tl targets) in
      have_numbers st (bwd # map (src c) targets @ map (tgt c) targets)
      \<and> ends_have_numbers st (mOutgoing c) (mTarget c) (loc_number st (src c end)) (loc_number st bwd - 1)))"

definition findCommonCallAncestor :: "bool \<Rightarrow> bool \<Rightarrow> nat \<Rightarrow> nat \<Rightarrow> bmc \<Rightarrow> (nat option \<times> nat option) res" where
  "findCommonCallAncestor noDomPush noPostDomPush fwd bwd st =
     (let targets = map fst (mCalls st) in
      rbind (if \<not> noDomPush then check (dominator_lookups st targets fwd) AssertFail
               (findLowestCommonDominator (bRoot st) targets (mTopo st) (loc_number st) (Some fwd))
             else Inr (Some fwd)) (\<lambda>dom.
      rbind (if \<not> noPostDomPush then check (postdominator_lookups st targets bwd) AssertFail
               (findHighestCommonPostDominator (bRoot st) targets (mTopo st) (loc_number st) (Some bwd))
             else Inr (Some bwd)) (\<lambda>pdom. Inr (dom, pdom))))"

text \<open>One step of the iterator: the predecessor and the transition from it, or the end. The number of
  the location is converted from a 64-bit integer to \<open>unsigned\<close>.\<close>

definition cex_advance :: "(nat \<Rightarrow> expr option) \<Rightarrow> (expr \<Rightarrow> atomic res) \<Rightarrow> cfa \<Rightarrow> nat \<Rightarrow> (nat \<times> nat) option res" where
  "cex_advance preds ev c l = (case preds l of None \<Rightarrow> Inr None
   | Some x \<Rightarrow> rbind (ev x) (\<lambda>a. check (\<not> atomic_isUndef a) AssertFail (check (isIntType (atomic_type a)) AssertFail
       (rbind (cast_Int a) (\<lambda>v.
         (case findLocationById c (u32 (nat (v mod 2 ^ 64))) of None \<Rightarrow> Inl AssertFail
          | Some source \<Rightarrow> (case find (\<lambda>e. mSource c e = Some source) (mIncoming c l) of
               None \<Rightarrow> Inl AssertFail | Some e \<Rightarrow> Inr (Some (source, e)))))))))"

text \<open>The states of a counterexample after its start, until there is no predecessor; \<open>None\<close> if it does
  not end.\<close>

partial_function (option) cex_from :: "(nat \<Rightarrow> expr option) \<Rightarrow> (expr \<Rightarrow> atomic res) \<Rightarrow> cfa \<Rightarrow> nat \<Rightarrow> (nat \<times> nat) list res option" where
  "cex_from preds ev c l = (case cex_advance preds ev c l of
     Inl err \<Rightarrow> Some (Inl err)
   | Inr None \<Rightarrow> Some (Inr [])
   | Inr (Some (u, e)) \<Rightarrow> Option.bind (cex_from preds ev c u) (\<lambda>r. Some (rbind r (\<lambda>xs. Inr ((u, e) # xs)))))"

fun open_calls :: "cfa \<Rightarrow> nat list \<Rightarrow> (nat \<times> nat) list \<Rightarrow> nat list \<Rightarrow> nat list" where
  "open_calls c opens [] found = found"
| "open_calls c opens ((u, e) # xs) found =
     (if isCall (mTransition c e) \<and> e \<in> set opens then
        (let found' = found @ [e] in if length found' = length opens then found' else open_calls c opens xs found')
      else open_calls c opens xs found)"

definition findOpenCallsInCex :: "(nat \<Rightarrow> expr option) \<Rightarrow> (expr \<Rightarrow> atomic res) \<Rightarrow> nat list \<Rightarrow> bmc \<Rightarrow> nat list res option" where
  "findOpenCallsInCex preds ev opens st = map_option (\<lambda>r. rbind r (\<lambda>xs. Inr (open_calls (bRoot st) opens xs [])))
     (cex_from preds ev (bRoot st) (mError st))"

section \<open>The scopes of the cache\<close>

definition insert_all :: "('k \<times> 'v) list \<Rightarrow> ('k, 'v) scoped_cache \<Rightarrow> ('k, 'v) scoped_cache" where
  "insert_all kvs c = fold (\<lambda>(k, v). cache_insert k v) kvs c"

lemma insert_all_top: "insert_all kvs (m # ms) = (m ++ map_of (rev kvs)) # ms"
  by (induction kvs arbitrary: m) (auto simp: insert_all_def map_add_def fun_eq_iff split: option.splits)

text \<open>
  C32: a scope of the cache is undone by \<open>pop\<close>. After \<open>push\<close> and any insertions, a lookup finds the last value
  inserted for the key in the scope and otherwise what the cache held before; \<open>pop\<close> gives back the cache
  as it was. The root scope cannot be popped, and \<open>clear\<close> leaves an empty root scope.
\<close>

theorem cache_scope_roundtrip:
  assumes "c \<noteq> []"
  shows "cache_pop (insert_all kvs (cache_push c)) = Inr c
    \<and> cache_get (insert_all kvs (cache_push c)) k = (case map_of (rev kvs) k of Some v \<Rightarrow> Some v | None \<Rightarrow> cache_get c k)
    \<and> (cache_pop c = Inl AssertFail \<longleftrightarrow> length c = 1)
    \<and> cache_pop (insert_all kvs (cache_clear c)) = Inl AssertFail \<and> cache_get (cache_clear c) k = None"
proof -
  have "cache_pop c = Inl AssertFail \<longleftrightarrow> length c = 1"
    using assms by (cases c) (auto simp: cache_pop_def check_def)
  then show ?thesis
    using assms by (simp add: cache_push_def cache_pop_def cache_clear_def insert_all_top)
qed

theorem cache_scope_roundtrip_witness:
  "cache_pop (insert_all [(3 :: nat, ''a''), (3, ''b'')] (cache_push cache_new)) = Inr cache_new
   \<and> cache_get (insert_all [(3 :: nat, ''a''), (3, ''b'')] (cache_push cache_new)) 3 = Some ''b''"
  using cache_scope_roundtrip [of cache_new "[(3 :: nat, ''a''), (3, ''b'')]" 3] by (simp add: cache_new_def)

end
