(* ===== verification/GazerBmcInline.thy ===== *)
theory GazerBmcInline
  imports GazerBmc "HOL-Library.Sublist"
begin

text \<open>
  Inlining in the bounded model checker. \<open>clone_callee_total\<close> composes the loops of the copy; the two
  theorems say that \<open>inlineCallIntoRoot\<close> returns, which transitions the root has afterwards, and that
  the order of the locations and their numbers are again a topological order of the root, although
  only the part from the target of the call on is renumbered.
\<close>

section \<open>What inlining does to the root\<close>

abbreviation passed :: "transition \<Rightarrow> variable \<Rightarrow> expr option" where
  "passed call v \<equiv> map_option va_value (getInputArgument call v)"

lemma passed_typed:
  assumes "arguments_ok callee call" and "v \<in> set (mInputs callee) - set (mOutputs callee)" and "passed call v = Some x"
  shows "well_typed x \<and> getType x = var_type v"
proof -
  obtain a where "getInputArgument call v = Some a" "well_typed (va_value a)" "getType (va_value a) = var_type v"
    using assms(1,2) unfolding arguments_ok_def by blast
  with assms(3) show ?thesis by simp
qed

lemma bmc_clone_input_total:
  assumes "table_room (Suc k) (cRoot st) (cTable st)" and "renamed (passed call) callee call st0 D st"
    and "arguments_ok callee call" and "v \<in> set (mInputs callee)" and "v \<notin> D"
  shows "\<exists>st'. bmc_clone_input callee call sfx v st = Inr st' \<and> table_room k (cRoot st') (cTable st')
    \<and> renamed (passed call) callee call st0 (if v \<in> set (mOutputs callee) then D else insert v D) st'"
proof (cases "v \<in> set (mOutputs callee)")
  case True
  with assms show ?thesis by (auto simp: bmc_clone_input_def isOutput_def table_room_def)
next
  case False
  then obtain a where a: "getInputArgument call v = Some a" using assms(3,4) unfolding arguments_ok_def by blast
  then have "Some (va_value a) = (if v \<in> set (mInputs callee) then passed call v else None)" using assms(4) by simp
  from cloned_local_total [OF assms(1,2) False assms(5) this, where n = "var_name v @ sfx"]
  obtain w st' where "cloned_local (var_name v @ sfx) v st = Inr (w, st')" "table_room k (cRoot st') (cTable st')"
    "renamed (passed call) callee call st0 (insert v D) (st'\<lparr>cRewrite := (cRewrite st')(v \<mapsto> va_value a)\<rparr>)"
    by (simp only: option.case) blast
  with False a show ?thesis by (simp add: bmc_clone_input_def isOutput_def)
qed

lemma bmc_clone_inputs_total:
  assumes "table_room (length vs + k) (cRoot st) (cTable st)" and "renamed (passed call) callee call st0 D st"
    and "arguments_ok callee call" and "distinct vs" and "set vs \<inter> D = {}" and "set vs \<subseteq> set (mInputs callee)"
  shows "\<exists>st'. for_each (bmc_clone_input callee call sfx) vs st = Inr st' \<and> table_room k (cRoot st') (cTable st')
    \<and> renamed (passed call) callee call st0 (D \<union> (set vs - set (mOutputs callee))) st'"
  using assms
proof (induction vs arbitrary: st D)
  case (Cons v vs)
  from Cons.prems have room: "table_room (Suc (length vs + k)) (cRoot st) (cTable st)" by simp
  from Cons.prems have v: "v \<in> set (mInputs callee)" "v \<notin> D" by auto
  from bmc_clone_input_total [OF room Cons.prems(2,3) v] obtain st' where st': "bmc_clone_input callee call sfx v st = Inr st'"
    "table_room (length vs + k) (cRoot st') (cTable st')"
    "renamed (passed call) callee call st0 (if v \<in> set (mOutputs callee) then D else insert v D) st'" by blast
  have D: "(if v \<in> set (mOutputs callee) then D else insert v D) \<union> (set vs - set (mOutputs callee)) =
      D \<union> (set (v # vs) - set (mOutputs callee))" by auto
  have "distinct vs" "set vs \<subseteq> set (mInputs callee)"
    "set vs \<inter> (if v \<in> set (mOutputs callee) then D else insert v D) = {}" using Cons.prems by auto
  from Cons.IH [OF st'(2,3) Cons.prems(3) this(1,3,2)] show ?case unfolding D using st'(1) by simp
qed simp

text \<open>The three loops over the variables of the called automaton.\<close>

lemma clone_variables_total:
  assumes "table_room (length (mLocals callee) + length (mInputs callee)) (cRoot st) (cTable st)"
    and "arguments_ok callee call" and "oldVarToNew st = Map.empty" "cRewrite st = Map.empty"
  obtains st1 st2 st3 where "for_each (clone_local callee sfx) (mLocals callee) st = Inr st1"
    "for_each (bmc_clone_input callee call sfx) (mInputs callee) st1 = Inr st2"
    "for_each (clone_output call) (mOutputs callee) st2 = Inr st3"
    "table_room 0 (cRoot st3) (cTable st3)" "renamed (passed call) callee call st (callee_vars callee) st3" "renaming_typed st3"
proof -
  have d: "distinct (mLocals callee)" "distinct (mInputs callee)" "set (mLocals callee) \<inter> set (mInputs callee) = {}"
    "set (mInputs callee) \<inter> ({} \<union> (set (mLocals callee) - set (mOutputs callee))) = {}"
    using assms(2) by (auto simp: arguments_ok_def)
  have "renamed (passed call) callee call st {} st" using assms(3,4) by (rule renamed_start)
  moreover have "table_room (length (mLocals callee) + (length (mInputs callee) + 0)) (cRoot st) (cTable st)" using assms(1) by simp
  ultimately obtain st1 where
    1: "for_each (clone_local callee sfx) (mLocals callee) st = Inr st1"
    "table_room (length (mInputs callee) + 0) (cRoot st1) (cTable st1)"
    "renamed (passed call) callee call st ({} \<union> (set (mLocals callee) - set (mOutputs callee))) st1"
    using clone_locals_total [OF _ _ d(1) Int_empty_right d(3)] by blast
  from bmc_clone_inputs_total [OF 1(2,3) assms(2) d(2,4) subset_refl] obtain st2 where
    2: "for_each (bmc_clone_input callee call sfx) (mInputs callee) st1 = Inr st2"
    "table_room 0 (cRoot st2) (cTable st2)" "renamed (passed call) callee call st
      ({} \<union> (set (mLocals callee) - set (mOutputs callee)) \<union> (set (mInputs callee) - set (mOutputs callee))) st2" by blast
  have D: "{} \<union> (set (mLocals callee) - set (mOutputs callee)) \<union> (set (mInputs callee) - set (mOutputs callee)) \<union> set (mOutputs callee)
    = callee_vars callee" by blast
  from clone_outputs_total [OF 2(2,3) assms(2) subset_refl] obtain st3 where
    3: "for_each (clone_output call) (mOutputs callee) st2 = Inr st3"
    "table_room 0 (cRoot st3) (cTable st3)" "renamed (passed call) callee call st (callee_vars callee) st3" unfolding D by blast
  have "typed_map (cRewrite st3)"
    by (rule renamed_typed [OF 3(3) assms(2) subset_refl passed_typed [OF assms(2)]])
  with 3(3) have "renaming_typed st3" unfolding renaming_typed_def renamed_def by blast
  with 1(1) 2(1) 3 show thesis by (intro that)
qed

text \<open>The entries of \<open>mCalls\<close> for the calls that have been added to the root.\<close>

definition call_entries :: "cfa \<Rightarrow> nat list \<Rightarrow> cfa \<Rightarrow> (nat \<times> call_info) list \<Rightarrow> bool" where
  "call_entries root chain c calls \<longleftrightarrow> distinct (map fst calls)
     \<and> fst ` set calls = {e. \<exists>s t tr. (e, s, t, tr) \<in> arcs c - arcs root \<and> isCall tr}
     \<and> (\<forall>(e, i) \<in> set calls. i = \<lparr>overApprox = False_lit, callChain = chain @ [mCallee (mTransition c e)]\<rparr>)"

lemma call_entries_add:
  assumes "call_entries root chain c calls" and "arcs root \<subseteq> arcs c" and "e \<notin> set (mEdges c)"
  shows "call_entries root chain (addTransition e s t tr c)
    (if isCall tr then calls @ [(e, \<lparr>overApprox = False_lit, callChain = chain @ [mCallee tr]\<rparr>)] else calls)"
proof -
  have keys: "fst ` set calls = {e. \<exists>s t tr. (e, s, t, tr) \<in> arcs c - arcs root \<and> isCall tr}"
    using assms(1) unfolding call_entries_def by blast
  have old: "x \<in> set (mEdges c)" if "x \<in> fst ` set calls" for x
    using that unfolding keys by (auto dest: arcs_edges)
  have "(e, s, t, tr) \<notin> arcs root" using assms(2,3) arcs_edges by blast
  then have new: "{x. \<exists>s' t' tr'. (x, s', t', tr') \<in> arcs (addTransition e s t tr c) - arcs root \<and> isCall tr'} =
      fst ` set calls \<union> (if isCall tr then {e} else {})"
    unfolding keys by (auto simp: arcs_addTransition [OF assms(3)])
  have "mTransition (addTransition e s t tr c) x = (if x = e then tr else mTransition c x)" for x
    by (simp add: addTransition_def createEdge_def Let_def)
  moreover have "x \<noteq> e" if "(x, i) \<in> set calls" for x i
    using old [of x] that assms(3) by (metis fst_conv image_eqI)
  ultimately have infos: "\<forall>(x, i) \<in> set calls. i = \<lparr>overApprox = False_lit,
      callChain = chain @ [mCallee (mTransition (addTransition e s t tr c) x)]\<rparr>" and e: "e \<notin> fst ` set calls"
    using assms(1) old assms(3) unfolding call_entries_def by fastforce+
  show ?thesis
    unfolding call_entries_def new using assms(1) infos e
    by (simp add: call_entries_def addTransition_def createEdge_def Let_def)
qed

definition copies_in :: "cfa \<Rightarrow> clone \<Rightarrow> bool" where
  "copies_in callee st \<longleftrightarrow> renaming_typed st \<and> dom (oldVarToNew st) = callee_vars callee
     \<and> dom (locToLocMap st) = set (mNodes callee) \<and> loc_copy st ` set (mNodes callee) \<subseteq> set (mNodes (cRoot st))"

context rewriter
begin

abbreviation copied :: "clone \<Rightarrow> transition \<Rightarrow> transition" where
  "copied st \<equiv> image_transition (image (cRewrite st)) (var_copy st)"

lemma bmc_clone_edge_total:
  assumes "linked root st X cl" and "call_entries root chain (cRoot cl) calls" and "copies_in callee st"
    and "callee_ok sys errVar callee" and "fresh_alloc alloc" and "e \<in> set (mEdges callee)"
  shows "\<exists>cl' calls'. bmc_clone_edge alloc B sys callee chain e (cl, calls) = Inr (cl', calls')
    \<and> linked root st (insert (copied_arc callee (loc_copy st) (copied st) e) X) cl'
    \<and> call_entries root chain (cRoot cl') calls'"
proof -
  note f = linked_fields [OF assms(1)]
  have c: "graph_ok callee" "live callee e" "transition_ok sys (callee_vars callee) (mTransition callee e)"
    using assms(4,6) by (auto simp: callee_ok_def)
  then obtain u v where uv: "mSource callee e = Some u" "mTarget callee e = Some v"
    "u \<in> set (mNodes callee)" "v \<in> set (mNodes callee)"
    using graph_okD(7,8) [OF c(1,2)] by (auto simp: live_def)
  have copy: "copy_of cl (Some u) = Inr (loc_copy st u)" "copy_of cl (Some v) = Inr (loc_copy st v)"
    "loc_copy st u \<in> set (mNodes (cRoot st))" "loc_copy st v \<in> set (mNodes (cRoot st))"
    using assms(3) uv(3,4) copy_of_total [of _ cl] by (auto simp: copies_in_def f)
  have tr: "transition_ok sys (dom (oldVarToNew cl)) (mTransition callee e)" "renaming_typed cl"
    using c(3) assms(3) by (simp_all add: copies_in_def f)
  have g: "getType (mGuard (copied st (mTransition callee e))) = BoolType"
    using clone_guard(2) [OF tr] by (simp add: f)
  let ?e = "alloc (mEdges (cRoot cl))"
  let ?root = "addTransition ?e (loc_copy st u) (loc_copy st v) (copied st (mTransition callee e)) (cRoot cl)"
  have fresh: "?e \<notin> set (mEdges (cRoot cl))" and sub: "arcs root \<subseteq> arcs (cRoot cl)"
    using assms(1,5) by (auto simp: fresh_alloc_def linked_def added_def)
  have "linked root st (insert (copied_arc callee (loc_copy st) (copied st) e) X) (cl\<lparr>cRoot := ?root\<rparr>)"
    using linked_add [OF assms(1,5) copy(3,4) g] by (simp add: copied_arc_def uv)
  moreover note call_entries_add [OF assms(2) sub fresh, of "loc_copy st u" "loc_copy st v" "copied st (mTransition callee e)"]
  moreover have "isCall tr \<longleftrightarrow> \<not> isAssign tr" for tr by (cases tr) (simp_all add: isCall_def isAssign_def)
  ultimately show ?thesis
    using clone_assign_edge_total [OF tr(1) _ tr(2), of alloc "loc_copy st u" "loc_copy st v"]
      clone_call_edge_total [OF tr(1) _ tr(2), of alloc "loc_copy st u" "loc_copy st v"]
    by (cases "isAssign (mTransition callee e)") (simp_all add: bmc_clone_edge_def uv copy f Let_def)
qed

lemma bmc_clone_edges_total:
  assumes "linked root st X cl" and "call_entries root chain (cRoot cl) calls" and "copies_in callee st"
    and "callee_ok sys errVar callee" and "fresh_alloc alloc" and "set es \<subseteq> set (mEdges callee)"
  shows "\<exists>cl' calls'. for_each (bmc_clone_edge alloc B sys callee chain) es (cl, calls) = Inr (cl', calls')
    \<and> linked root st (copied_arc callee (loc_copy st) (copied st) ` set es \<union> X) cl'
    \<and> call_entries root chain (cRoot cl') calls'"
  using assms(1,2,6)
proof (induction es arbitrary: cl calls X)
  case (Cons e es)
  have "e \<in> set (mEdges callee)" "set es \<subseteq> set (mEdges callee)" using Cons.prems(3) by auto
  with bmc_clone_edge_total [OF Cons.prems(1,2) assms(3-5)] obtain cl1 calls1 where
    1: "bmc_clone_edge alloc B sys callee chain e (cl, calls) = Inr (cl1, calls1)"
      "linked root st (insert (copied_arc callee (loc_copy st) (copied st) e) X) cl1" "call_entries root chain (cRoot cl1) calls1"
    by blast
  from Cons.IH [OF 1(2,3) \<open>set es \<subseteq> set (mEdges callee)\<close>] 1(1) show ?case by simp
qed auto

text \<open>All the loops of the copy.\<close>

lemma clone_callee_total:
  assumes "callee = mCfa (bSystem st) (mCallee tr)" and "callee_ok (bSystem st) (mErrorFieldVariable st) callee"
    and "arguments_ok callee tr" and "fresh_alloc alloc" and "mError st \<in> set (mNodes (bRoot st))"
    and "table_room (length (mLocals callee) + length (mInputs callee)) (bRoot st) (bTable st)"
    and "mLocationIdx (bRoot st) + length (mNodes callee) < 2 ^ 32"
  obtains cl calls st3 st4 where "clone_callee alloc B tr chain sfx st = Inr (cl, calls)"
    "renamed (passed tr) callee tr (clone_of_root st) (callee_vars callee) st3" "table_room 0 (cRoot st3) (cTable st3)"
    "located callee (mError st) (mErrorFieldVariable st) st3 (mNodes callee) st4"
    "copies_in callee st4" "call_entries (bRoot st) chain (cRoot cl) calls"
    "linked (bRoot st) st4 (copied_arc callee (loc_copy st4) (copied st4) ` set (mEdges callee) \<union>
       error_arcs callee (mError st) (mErrorFieldVariable st) (loc_copy st4) (mNodes callee)) cl"
proof -
  let ?e = "mError st" and ?ev = "mErrorFieldVariable st" and ?c0 = "clone_of_root st"
  have c0: "cRoot ?c0 = bRoot st" "cTable ?c0 = bTable st" "oldVarToNew ?c0 = Map.empty" "cRewrite ?c0 = Map.empty"
    "locToLocMap ?c0 = Map.empty" by (simp_all add: clone_of_root_def)
  have room: "table_room (length (mLocals callee) + length (mInputs callee)) (cRoot ?c0) (cTable ?c0)" using assms(6) c0 by simp
  obtain cl1 cl2 st3 where 1: "for_each (clone_local callee sfx) (mLocals callee) ?c0 = Inr cl1"
    "for_each (bmc_clone_input callee tr sfx) (mInputs callee) cl1 = Inr cl2"
    "for_each (clone_output tr) (mOutputs callee) cl2 = Inr st3" "table_room 0 (cRoot st3) (cTable st3)"
    "renamed (passed tr) callee tr ?c0 (callee_vars callee) st3" "renaming_typed st3"
    using clone_variables_total [OF room assms(3) c0(3,4)] .
  have same: "same_graph (bRoot st) (cRoot st3)" and map0: "locToLocMap st3 = Map.empty" and D: "dom (oldVarToNew st3) = callee_vars callee"
    using 1(5) c0 by (auto simp: renamed_def)
  have nodes: "mNodes (cRoot st3) = mNodes (bRoot st)" "mLocationIdx (cRoot st3) = mLocationIdx (bRoot st)"
    using same by (auto simp: same_graph_def)
  have start: "located callee ?e ?ev st3 [] st3"
    using 1(4) map0 by (simp add: located_def error_arcs_def added_refl table_room_def)
  have coded: "errors_coded callee ?ev" "distinct ([] @ mNodes callee)"
    using assms(2) by (auto simp: callee_ok_def graph_ok_def)
  have size: "?e \<in> set (mNodes (cRoot st3))" "mLocationIdx (cRoot st3) + length (mNodes callee) < 2 ^ 32"
    using assms(5,7) nodes by auto
  from clone_locations_total [OF start coded(1) assms(4) size(1) subset_refl coded(2) size(2)] obtain st4 where
    2: "for_each (clone_location alloc callee ?e ?ev) (mNodes callee) st3 = Inr st4"
      "located callee ?e ?ev st3 (mNodes callee) st4" by auto
  note l = 2(2) [unfolded located_def]
  have in4: "copies_in callee st4"
    using l 1(6) D unfolding copies_in_def renaming_typed_def by auto
  have arcs: "arcs (cRoot st3) = arcs (bRoot st)" by (rule same_graph_arcs [OF same])
  have link: "linked (bRoot st) st4 (error_arcs callee ?e ?ev (loc_copy st4) (mNodes callee)) st4"
    using l arcs unfolding linked_def added_def by auto
  have calls: "call_entries (bRoot st) chain (cRoot st4) []"
  proof -
    have "\<not> isCall tr'" if "(e, s, t, tr') \<in> arcs (cRoot st4) - arcs (bRoot st)" for e s t tr'
    proof -
      have "(s, t, tr') \<in> error_arcs callee ?e ?ev (loc_copy st4) (mNodes callee)"
        using link that by (force simp: linked_def added_def)
      then show ?thesis by (auto simp: error_arcs_def isCall_def)
    qed
    then show ?thesis by (auto simp: call_entries_def)
  qed
  from bmc_clone_edges_total [OF link calls in4 assms(2,4) subset_refl] obtain cl calls where
    3: "for_each (bmc_clone_edge alloc B (bSystem st) callee chain) (mEdges callee) (st4, []) = Inr (cl, calls)"
      "linked (bRoot st) st4 (copied_arc callee (loc_copy st4) (copied st4) ` set (mEdges callee) \<union>
         error_arcs callee ?e ?ev (loc_copy st4) (mNodes callee)) cl"
      "call_entries (bRoot st) chain (cRoot cl) calls" by blast
  have "clone_callee alloc B tr chain sfx st = Inr (cl, calls)"
    using 1(1-3) 2(1) 3(1) by (simp add: clone_callee_def Let_def assms(1) [symmetric])
  from that [OF this 1(5,4) 2(2) in4 3(3,2)] show thesis .
qed

end

definition boundary_arcs :: "cfa \<Rightarrow> transition \<Rightarrow> nat \<Rightarrow> nat \<Rightarrow> (nat \<Rightarrow> nat) \<Rightarrow> (variable \<Rightarrow> variable) \<Rightarrow> (nat \<times> nat \<times> transition) set" where
  "boundary_arcs callee call before after \<phi> \<nu> =
     {(before, \<phi> (mEntry callee), AssignTransition (mGuard call)
         (map (\<lambda>a. VarAssign (\<nu> (va_variable a)) (va_value a)) (mInputArgs call))),
      (\<phi> (mExit callee), after, AssignTransition True_lit [])}"

lemma connect_clone_total:
  assumes "linked root st X cl" and "call_entries root chain (cRoot cl) calls" and "copies_in callee st" and "fresh_alloc alloc"
    and "arguments_ok callee call" and "getType (mGuard call) = BoolType"
    and "mEntry callee \<in> set (mNodes callee)" "mExit callee \<in> set (mNodes callee)"
    and "before \<in> set (mNodes (cRoot st))" "after \<in> set (mNodes (cRoot st))"
  shows "\<exists>root1. connect_clone alloc callee call before after cl = Inr root1
    \<and> linked root st (boundary_arcs callee call before after (loc_copy st) (var_copy st) \<union> X) (cl\<lparr>cRoot := root1\<rparr>)
    \<and> call_entries root chain root1 calls"
proof -
  note f = linked_fields [OF assms(1)]
  let ?as = "map (\<lambda>a. VarAssign (var_copy st (va_variable a)) (va_value a)) (mInputArgs call)"
  have D: "dom (oldVarToNew st) = callee_vars callee" "renaming_typed st" using assms(3) by (auto simp: copies_in_def)
  have "input_assignment cl a = Inr (VarAssign (var_copy st (va_variable a)) (va_value a))" if "a \<in> set (mInputArgs call)" for a
  proof -
    from assms(5) that have a: "va_variable a \<in> set (mInputs callee)" "getType (va_value a) = var_type (va_variable a)"
      by (auto simp: arguments_ok_def)
    then obtain w where "oldVarToNew st (va_variable a) = Some w" using D(1) by blast
    with a D(2) show ?thesis by (simp add: input_assignment_def f VariableAssignment_Create_def renaming_typed_def)
  qed
  then have ins: "res_map (input_assignment cl) (mInputArgs call) = Inr ?as" by (rule res_map_Inr)
  have copy: "copy_of cl (Some l) = Inr (loc_copy st l)" "loc_copy st l \<in> set (mNodes (cRoot st))" if "l \<in> set (mNodes callee)" for l
    using that assms(3) copy_of_total [of l cl] by (auto simp: copies_in_def f)
  let ?e1 = "alloc (mEdges (cRoot cl))"
  define r1 where "r1 = addTransition ?e1 before (loc_copy st (mEntry callee)) (AssignTransition (mGuard call) ?as) (cRoot cl)"
  let ?e2 = "alloc (mEdges r1)"
  define r2 where "r2 = addTransition ?e2 (loc_copy st (mExit callee)) after (AssignTransition True_lit []) r1"
  have l1: "linked root st (insert (before, loc_copy st (mEntry callee), AssignTransition (mGuard call) ?as) X) (cl\<lparr>cRoot := r1\<rparr>)"
    unfolding r1_def using copy(2) assms by (intro linked_add) auto
  have l2: "linked root st (insert (loc_copy st (mExit callee), after, AssignTransition True_lit [])
      (insert (before, loc_copy st (mEntry callee), AssignTransition (mGuard call) ?as) X)) (cl\<lparr>cRoot := r2\<rparr>)"
    using linked_add [OF l1 assms(4) copy(2) [OF assms(8)] assms(10), of "AssignTransition True_lit []"] by (simp add: r2_def)
  have new: "?e1 \<notin> set (mEdges (cRoot cl))" "?e2 \<notin> set (mEdges r1)" "\<not> isCall (AssignTransition g as)" for g as
    using assms(4) by (auto simp: fresh_alloc_def isCall_def)
  have sub: "arcs root \<subseteq> arcs (cRoot cl)" "arcs root \<subseteq> arcs r1" using assms(1) l1 by (auto simp: linked_def added_def)
  have "call_entries root chain r1 calls"
    using call_entries_add [OF assms(2) sub(1) new(1)] new(3) unfolding r1_def by (metis (full_types))
  then have "call_entries root chain r2 calls"
    using call_entries_add [OF _ sub(2) new(2)] new(3) unfolding r2_def by (metis (full_types))
  moreover have "connect_clone alloc callee call before after cl = Inr r2"
    using copy(1) assms(6-8) by (simp add: connect_clone_def ins r1_def r2_def)
  ultimately show ?thesis using l2 by (auto simp: boundary_arcs_def insert_commute)
qed

section \<open>The order of the locations\<close>

definition numbered :: "nat list \<Rightarrow> (nat \<rightharpoonup> nat) \<Rightarrow> bool" where
  "numbered topo m \<longleftrightarrow> distinct topo \<and> (\<forall>i < length topo. m (topo ! i) = Some i)"

lemma number_from_other: "x \<notin> set ls \<Longrightarrow> number_from ls i m x = m x"
  by (induction ls arbitrary: i m) auto

lemma number_from_nth: "distinct ls \<Longrightarrow> j < length ls \<Longrightarrow> number_from ls i m (ls ! j) = Some (i + j)"
proof (induction ls arbitrary: i j m)
  case (Cons l ls)
  have "number_from ls (Suc i) (m(l \<mapsto> i)) l = Some i" using Cons.prems by (simp add: number_from_other)
  then show ?case using Cons by (cases j) simp_all
qed simp

lemma numbered_insert:
  assumes "numbered topo m" and "k \<le> length topo" and "distinct new" and "set new \<inter> set topo = {}"
  shows "numbered (insert_topo topo k new) (number_from (drop k (insert_topo topo k new)) k m)"
proof -
  let ?t = "insert_topo topo k new"
  have "set (take k topo) \<inter> set (drop k topo) = {}" using assms(1) by (simp add: numbered_def set_take_disj_set_drop_if_distinct)
  then have d: "distinct ?t" using assms(1,3,4) set_take_subset [of k topo] set_drop_subset [of k topo]
    by (auto simp: insert_topo_def numbered_def)
  have "number_from (drop k ?t) k m (?t ! i) = Some i" if i: "i < length ?t" for i
  proof (cases "i < k")
    case True
    then have "?t ! i = topo ! i" using assms(2) by (simp add: insert_topo_def nth_append)
    moreover have "?t ! i \<in> set (take k ?t)" using nth_mem [of i "take k ?t"] True i by simp
    moreover have "set (take k ?t) \<inter> set (drop k ?t) = {}" using d by (simp add: set_take_disj_set_drop_if_distinct)
    ultimately have "number_from (drop k ?t) k m (?t ! i) = m (topo ! i)" using number_from_other by (metis disjoint_iff)
    then show ?thesis using True assms(1,2) by (simp add: numbered_def)
  next
    case False
    then have "drop k ?t ! (i - k) = ?t ! i" "i - k < length (drop k ?t)" using i by auto
    moreover have "distinct (drop k ?t)" using d by simp
    ultimately show ?thesis using number_from_nth [of "drop k ?t" "i - k" k m] False by simp
  qed
  then show ?thesis using d by (simp add: numbered_def)
qed

lemma subseq_pair_nth:
  assumes "distinct xs"
  shows "subseq [s, t] xs \<longleftrightarrow> (\<exists>i j. i < j \<and> j < length xs \<and> xs ! i = s \<and> xs ! j = t)"
  using assms
proof (induction xs)
  case (Cons x xs)
  have "(\<exists>i j. i < j \<and> j < length (x # xs) \<and> (x # xs) ! i = s \<and> (x # xs) ! j = t) \<longleftrightarrow>
      (x = s \<and> t \<in> set xs) \<or> (\<exists>i j. i < j \<and> j < length xs \<and> xs ! i = s \<and> xs ! j = t)" (is "?l \<longleftrightarrow> ?r")
  proof
    assume ?l
    then obtain i j where "i < j" "j < length (x # xs)" "(x # xs) ! i = s" "(x # xs) ! j = t" by blast
    then show ?r by (cases i; cases j) (auto simp: in_set_conv_nth)
  next
    assume ?r
    then show ?l
    proof
      assume "x = s \<and> t \<in> set xs"
      then obtain j where "j < length xs" "xs ! j = t" "x = s" by (auto simp: in_set_conv_nth)
      then show ?l by (intro exI [of _ 0] exI [of _ "Suc j"]) auto
    next
      assume "\<exists>i j. i < j \<and> j < length xs \<and> xs ! i = s \<and> xs ! j = t"
      then obtain i j where "i < j" "j < length xs" "xs ! i = s" "xs ! j = t" by blast
      then show ?l by (intro exI [of _ "Suc i"] exI [of _ "Suc j"]) auto
    qed
  qed
  moreover have "subseq [s, t] (x # xs) \<longleftrightarrow> (x = s \<and> t \<in> set xs) \<or> subseq [s, t] xs"
    using Cons.prems by (auto simp: subseq_singleton_left dest: subseq_Cons' list_emb_set)
  ultimately show ?case using Cons by simp
qed simp

lemma subseq_pair_append: "s \<in> set xs \<Longrightarrow> t \<in> set ys \<Longrightarrow> subseq [s, t] (xs @ ys)"
  using list_emb_append_mono [of "(=)" "[s]" xs "[t]" ys] by (simp add: subseq_singleton_left)

lemma subseq_insert_topo:
  "subseq xs topo \<Longrightarrow> subseq xs (insert_topo topo k new)"
  "subseq xs new \<Longrightarrow> subseq xs (insert_topo topo k new)"
  "s \<in> set (take k topo) \<Longrightarrow> t \<in> set new \<Longrightarrow> subseq [s, t] (insert_topo topo k new)"
  "s \<in> set new \<Longrightarrow> t \<in> set (drop k topo) \<Longrightarrow> subseq [s, t] (insert_topo topo k new)"
proof -
  have "subseq (take k topo @ drop k topo) (take k topo @ new @ drop k topo)"
    by (intro list_emb_append_mono subseq_order.refl list_emb_append2)
  then show "subseq xs topo \<Longrightarrow> subseq xs (insert_topo topo k new)"
    unfolding append_take_drop_id insert_topo_def by (rule subseq_order.trans [rotated])
  show "subseq xs new \<Longrightarrow> subseq xs (insert_topo topo k new)"
    using list_emb_append_mono [of "(=)" xs new "[]" "drop k topo"] unfolding insert_topo_def
    by (simp add: list_emb_append2)
  show "s \<in> set (take k topo) \<Longrightarrow> t \<in> set new \<Longrightarrow> subseq [s, t] (insert_topo topo k new)"
    unfolding insert_topo_def by (intro subseq_pair_append) auto
  show "s \<in> set new \<Longrightarrow> t \<in> set (drop k topo) \<Longrightarrow> subseq [s, t] (insert_topo topo k new)"
    unfolding insert_topo_def by (intro list_emb_append2 subseq_pair_append)
qed

lemma arcs_functional: "(e, x) \<in> arcs c \<Longrightarrow> (e, y) \<in> arcs c \<Longrightarrow> x = y"
  by (auto simp: arcs_def)

section \<open>The invariant of the model checker\<close>

definition ordered_in :: "nat list \<Rightarrow> cfa \<Rightarrow> bool" where
  "ordered_in topo c \<longleftrightarrow> (\<forall>(e, s, t, tr) \<in> arcs c. subseq [s, t] topo)"

text \<open>The root is consistent; \<open>mTopo\<close> is a topological order of it, with the numbers in \<open>mLocNumbers\<close>; the
  goal is in it; \<open>mCalls\<close> lists the calls that are left.\<close>

definition bmc_inv :: "bmc \<Rightarrow> bool" where
  "bmc_inv st \<longleftrightarrow> cfa_ok (bRoot st) (bTable st) \<and> mTmp (bRoot st) < 2 ^ 32
     \<and> numbered (mTopo st) (mLocNumbers st) \<and> set (mTopo st) \<subseteq> set (mNodes (bRoot st))
     \<and> ordered_in (mTopo st) (bRoot st) \<and> mError st \<in> set (mTopo st) \<and> distinct (map fst (mCalls st))
     \<and> fst ` set (mCalls st) = {e. \<exists>s t tr. (e, s, t, tr) \<in> arcs (bRoot st) \<and> isCall tr}"

text \<open>What inlining a call requires: the called automaton is another one that can be copied, its stored
  order is a topological order of all its locations, and if it has error locations then the goal does
  not come before the target of the call. The counters do not overflow.\<close>

definition inlinable :: "bmc \<Rightarrow> nat \<Rightarrow> bool" where
  "inlinable st call \<longleftrightarrow>
     (let tr = mTransition (bRoot st) call; callee = mCfa (bSystem st) (mCallee tr); topo = mTopoSortMap st (mCallee tr) in
      call \<in> fst ` set (mCalls st) \<and> mCallee tr \<noteq> bRootPtr st
      \<and> callee_ok (bSystem st) (mErrorFieldVariable st) callee \<and> arguments_ok callee tr
      \<and> distinct topo \<and> set topo = set (mNodes callee) \<and> ordered_in topo callee
      \<and> ((\<exists>l \<in> set (mNodes callee). isError callee l) \<longrightarrow>
           loc_number st (the (mTarget (bRoot st) call)) \<le> loc_number st (mError st))
      \<and> card (dom (bTable st)) + (length (mLocals callee) + length (mInputs callee)) < 2 ^ 32
      \<and> mLocationIdx (bRoot st) + length (mNodes callee) < 2 ^ 32)"

lemma numbered_mem:
  assumes "numbered topo m" and "x \<in> set topo"
  obtains i where "m x = Some i" "i < length topo" "topo ! i = x"
  using assms by (auto simp: numbered_def in_set_conv_nth)

lemma subseq_numbers:
  assumes "numbered topo m" and "subseq [s, t] topo"
  obtains i j where "m s = Some i" "m t = Some j" "i < j" "j < length topo" "topo ! i = s" "topo ! j = t"
  using assms by (auto simp: numbered_def subseq_pair_nth)

text \<open>The order after the insertion, for the arcs that are kept and the new ones.\<close>

lemma ordered_insert:
  assumes "numbered topo m" and "m after = Some k" and "topo ! k = after" "k < length topo" and "subseq [before, after] topo"
    and "ordered_in topoC callee" and "set topoC = set (mNodes callee)"
    and "mEntry callee \<in> set (mNodes callee)" "mExit callee \<in> set (mNodes callee)" "graph_ok callee"
    and "\<And>e. e \<in> set (mEdges callee) \<Longrightarrow> live callee e"
    and "(\<exists>l \<in> set (mNodes callee). isError callee l) \<Longrightarrow> \<exists>j. k \<le> j \<and> j < length topo \<and> topo ! j = err"
    and "(s, t, tr) \<in> boundary_arcs callee call before after \<phi> \<nu> \<union> (copied_arc callee \<phi> T ` set (mEdges callee) \<union>
       error_arcs callee err errVar \<phi> (mNodes callee))"
  shows "subseq [s, t] (insert_topo topo k (map \<phi> topoC))"
proof -
  have in_drop: "topo ! j \<in> set (drop k topo)" if "k \<le> j" "j < length topo" for j
    using that nth_mem [of "j - k" "drop k topo"] by simp
  have copy: "\<phi> l \<in> set (map \<phi> topoC)" if "l \<in> set (mNodes callee)" for l using that assms(7) by auto
  from subseq_numbers [OF assms(1,5)] obtain i where "i < k" "topo ! i = before" using assms(2) by auto
  then have before: "before \<in> set (take k topo)" using assms(4) nth_mem [of i "take k topo"] by simp
  from assms(13) consider "s = before" "t = \<phi> (mEntry callee)" | "s = \<phi> (mExit callee)" "t = after"
    | e where "e \<in> set (mEdges callee)" "(s, t, tr) = copied_arc callee \<phi> T e"
    | l where "l \<in> set (mNodes callee)" "isError callee l" "s = \<phi> l" "t = err"
    by (auto simp: boundary_arcs_def error_arcs_def)
  then show ?thesis
  proof cases
    case 1
    then show ?thesis using before copy assms(8) by (auto intro: subseq_insert_topo(3))
  next
    case 2
    then show ?thesis using in_drop [of k] assms(3,4,9) copy by (auto intro!: subseq_insert_topo(4))
  next
    case (3 e)
    then obtain u v where uv: "mSource callee e = Some u" "mTarget callee e = Some v" using assms(11) [OF 3(1)] by (auto simp: live_def)
    then have "(e, u, v, mTransition callee e) \<in> arcs callee" using assms(11) [OF 3(1)] by (simp add: arcs_def)
    then have "subseq [u, v] topoC" using assms(6) by (auto simp: ordered_in_def)
    then have "subseq (map \<phi> [u, v]) (map \<phi> topoC)" by (rule subseq_map)
    then show ?thesis using 3 uv by (intro subseq_insert_topo(2)) (simp add: copied_arc_def)
  next
    case (4 l)
    with assms(12) obtain j where "k \<le> j" "j < length topo" "topo ! j = err" by blast
    with 4 show ?thesis using in_drop copy by (auto intro!: subseq_insert_topo(4))
  qed
qed

lemma call_keys:
  assumes "distinct (map fst calls)" and "fst ` set calls = {e. \<exists>s t tr. (e, s, t, tr) \<in> arcs c \<and> isCall tr}"
    and "call_entries c chain c1 new" and "arcs c \<subseteq> arcs c1" and "arcs c2 = {a \<in> arcs c1. fst a \<noteq> call}"
    and "call \<in> fst ` set calls"
  shows "distinct (map fst (filter (\<lambda>p. fst p \<noteq> call) (calls @ new)))"
    "fst ` set (filter (\<lambda>p. fst p \<noteq> call) (calls @ new)) = {e. \<exists>s t tr. (e, s, t, tr) \<in> arcs c2 \<and> isCall tr}"
proof -
  have new: "distinct (map fst new)" "fst ` set new = {e. \<exists>s t tr. (e, s, t, tr) \<in> arcs c1 - arcs c \<and> isCall tr}"
    using assms(3) unfolding call_entries_def by blast+
  have "fst ` set calls \<inter> fst ` set new = {}"
    unfolding assms(2) new(2) using assms(4) arcs_functional by blast
  then have "distinct (map fst (calls @ new))" using assms(1) new(1) by simp
  then show "distinct (map fst (filter (\<lambda>p. fst p \<noteq> call) (calls @ new)))" by (rule distinct_map_filter)
  have "fst ` set (filter (\<lambda>p. fst p \<noteq> call) (calls @ new)) = (fst ` set calls \<union> fst ` set new) - {call}" by auto
  also have "\<dots> = {e. \<exists>s t tr. (e, s, t, tr) \<in> arcs c2 \<and> isCall tr}"
    unfolding assms(2,5) new(2) using assms(4) by auto blast
  finally show "fst ` set (filter (\<lambda>p. fst p \<noteq> call) (calls @ new)) = {e. \<exists>s t tr. (e, s, t, tr) \<in> arcs c2 \<and> isCall tr}" .
qed

definition inlined_arcs :: "cfa \<Rightarrow> transition \<Rightarrow> nat \<Rightarrow> variable \<Rightarrow> nat \<Rightarrow> nat \<Rightarrow> (nat \<Rightarrow> nat) \<Rightarrow> (expr \<Rightarrow> expr) \<Rightarrow>
    (variable \<Rightarrow> variable) \<Rightarrow> (nat \<times> nat \<times> transition) set" where
  "inlined_arcs callee call err errVar before after \<phi> f \<nu> =
     boundary_arcs callee call before after \<phi> \<nu>
     \<union> (copied_arc callee \<phi> (image_transition f \<nu>) ` set (mEdges callee) \<union> error_arcs callee err errVar \<phi> (mNodes callee))"

text \<open>The outcome of the steps of an inlining: \<open>cl0\<close> is the state after the loops over the variables, \<open>cl\<close> after
  the loop over the locations, \<open>root1\<close> the automaton before and \<open>root2\<close> after the call is disconnected.\<close>

definition merged :: "bmc \<Rightarrow> nat \<Rightarrow> nat \<Rightarrow> nat \<Rightarrow> (clone \<Rightarrow> expr \<Rightarrow> expr) \<Rightarrow> clone \<Rightarrow> clone \<Rightarrow> cfa \<Rightarrow> cfa \<Rightarrow>
    (nat \<times> call_info) list \<Rightarrow> bool" where
  "merged st call before after f cl0 cl root1 root2 calls \<longleftrightarrow>
     (let tr = mTransition (bRoot st) call; callee = mCfa (bSystem st) (mCallee tr) in
      renamed (passed tr) callee tr (clone_of_root st) (callee_vars callee) cl0 \<and> table_room 0 (cRoot cl0) (cTable cl0)
      \<and> located callee (mError st) (mErrorFieldVariable st) cl0 (mNodes callee) cl
      \<and> linked (bRoot st) cl (inlined_arcs callee tr (mError st) (mErrorFieldVariable st) before after (loc_copy cl)
           (f cl) (var_copy cl)) (cl\<lparr>cRoot := root1\<rparr>)
      \<and> (\<exists>chain. call_entries (bRoot st) chain root1 calls)
      \<and> cfa_ok root2 (cTable cl) \<and> mNodes root2 = mNodes root1 \<and> mTmp root2 = mTmp root1
      \<and> arcs root2 = {a \<in> arcs root1. fst a \<noteq> call})"

text \<open>The state that the inlining returns.\<close>

definition merged_state :: "bmc \<Rightarrow> nat \<Rightarrow> nat \<Rightarrow> clone \<Rightarrow> cfa \<Rightarrow> (nat \<times> call_info) list \<Rightarrow> bmc" where
  "merged_state st call k cl root2 calls =
     (let topo = insert_topo (mTopo st) k (map (loc_copy cl) (mTopoSortMap st (mCallee (mTransition (bRoot st) call)))) in
      st\<lparr>bRoot := root2, bTable := cTable cl, mTopo := topo, mLocNumbers := number_from (drop k topo) k (mLocNumbers st),
         mInlinedLocations := cInlinedLocs cl, mInlinedVariables := cInlinedVars cl,
         mCalls := filter (\<lambda>p. fst p \<noteq> call) (mCalls st @ calls)\<rparr>)"

lemma inlinable_call:
  assumes "bmc_inv st" and "inlinable st call"
  obtains before after k where "mSource (bRoot st) call = Some before" "mTarget (bRoot st) call = Some after"
    "(call, before, after, mTransition (bRoot st) call) \<in> arcs (bRoot st)" "isCall (mTransition (bRoot st) call)"
    "live (bRoot st) call" "getType (mGuard (mTransition (bRoot st) call)) = BoolType"
    "before \<in> set (mNodes (bRoot st))" "after \<in> set (mNodes (bRoot st))" "subseq [before, after] (mTopo st)"
    "mLocNumbers st after = Some k" "k < length (mTopo st)" "mTopo st ! k = after"
proof -
  note i = assms(1) [unfolded bmc_inv_def] and o = assms(2) [unfolded inlinable_def Let_def]
  obtain s t tr where a: "(call, s, t, tr) \<in> arcs (bRoot st)" "isCall tr" using i o by blast
  then have e: "mSource (bRoot st) call = Some s" "mTarget (bRoot st) call = Some t" "mTransition (bRoot st) call = tr"
    "live (bRoot st) call" by (auto simp: arcs_def)
  have g: "graph_ok (bRoot st)" "getType (mGuard tr) = BoolType" using i e by (auto simp: cfa_ok_def guards_ok_def)
  have ord: "subseq [s, t] (mTopo st)" using i a by (auto simp: ordered_in_def)
  then obtain k where "mLocNumbers st t = Some k" "k < length (mTopo st)" "mTopo st ! k = t"
    using i subseq_numbers by metis
  with a e g ord graph_okD(7,8) [OF g(1) e(4)] show thesis by (intro that [of s t k]) auto
qed

context rewriter
begin

lemma inline_run:
  assumes inv: "bmc_inv st" and ok: "inlinable st call" and fresh: "fresh_alloc alloc"
    and ends: "mSource (bRoot st) call = Some before" "mTarget (bRoot st) call = Some after" and k: "mLocNumbers st after = Some k"
  obtains calls cl0 cl root1 root2 where "merged st call before after (\<lambda>cl. image (cRewrite cl)) cl0 cl root1 root2 calls"
    "inline_call alloc B call sfx st = Inr (map fst calls, merged_state st call k cl root2 calls)"
proof -
  define tr where "tr = mTransition (bRoot st) call"
  define callee where "callee = mCfa (bSystem st) (mCallee tr)"
  let ?root = "bRoot st" and ?topoC = "mTopoSortMap st (mCallee tr)"
  note i = inv [unfolded bmc_inv_def] and o = ok [unfolded inlinable_def Let_def tr_def [symmetric] callee_def [symmetric]]
  obtain arc: "(call, before, after, tr) \<in> arcs ?root" and call: "isCall tr" "getType (mGuard tr) = BoolType"
    and nodes: "before \<in> set (mNodes ?root)" "after \<in> set (mNodes ?root)"
    using inlinable_call [OF inv ok] ends unfolding tr_def by (metis option.inject)
  obtain info where info: "map_of (mCalls st) call = Some info" using o by (meson map_of_eq_None_iff not_Some_eq)
  have room: "table_room (length (mLocals callee) + length (mInputs callee)) ?root (bTable st)"
    "mLocationIdx ?root + length (mNodes callee) < 2 ^ 32" "mError st \<in> set (mNodes ?root)"
    using i o by (auto simp: table_room_def)
  have cok: "callee_ok (bSystem st) (mErrorFieldVariable st) callee" "arguments_ok callee tr" using o by auto
  obtain cl calls st3 st4 where c: "clone_callee alloc B tr (callChain info) sfx st = Inr (cl, calls)"
    "renamed (passed tr) callee tr (clone_of_root st) (callee_vars callee) st3" "table_room 0 (cRoot st3) (cTable st3)"
    "located callee (mError st) (mErrorFieldVariable st) st3 (mNodes callee) st4"
    "copies_in callee st4" "call_entries ?root (callChain info) (cRoot cl) calls"
    "linked ?root st4 (copied_arc callee (loc_copy st4) (copied st4) ` set (mEdges callee) \<union>
       error_arcs callee (mError st) (mErrorFieldVariable st) (loc_copy st4) (mNodes callee)) cl"
    using clone_callee_total [OF callee_def cok fresh room(3,1,2)] .
  have "before \<in> set (mNodes (cRoot st4))" "after \<in> set (mNodes (cRoot st4))"
    using c(2,4) nodes by (auto simp: renamed_def same_graph_def clone_of_root_def located_def)
  moreover have ee: "mEntry callee \<in> set (mNodes callee)" "mExit callee \<in> set (mNodes callee)" using cok(1) by (auto simp: callee_ok_def)
  ultimately obtain root1 where r1: "connect_clone alloc callee tr before after cl = Inr root1"
      "call_entries ?root (callChain info) root1 calls"
      "linked ?root st4 (inlined_arcs callee tr (mError st) (mErrorFieldVariable st) before after (loc_copy st4)
         (image (cRewrite st4)) (var_copy st4)) (cl\<lparr>cRoot := root1\<rparr>)"
    using connect_clone_total [OF c(7,6,5) fresh cok(2) call(2)] unfolding inlined_arcs_def by blast
  note f = linked_fields [OF c(7)]
  have cl: "cl\<lparr>cRoot := root1\<rparr> = st4\<lparr>cRoot := root1\<rparr>" using r1(3) by (simp add: linked_def)
  have live1: "live root1 call" and ok1: "cfa_ok root1 (cTable st4)" using r1(3) arc by (auto simp: linked_def added_def arcs_def)
  obtain root2 where r2: "disconnectEdge call root1 = Inr root2" "cfa_ok root2 (cTable st4)" "mNodes root2 = mNodes root1"
    "mTmp root2 = mTmp root1" "arcs root2 = {a \<in> arcs root1. fst a \<noteq> call}"
    by (rule disconnectEdge_ok [OF ok1 live1])
  have "merged st call before after (\<lambda>cl. image (cRewrite cl)) st3 st4 root1 root2 calls"
    unfolding merged_def Let_def tr_def [symmetric] callee_def [symmetric] using c(2-4) r1(2,3) r2(2-5) cl by auto
  moreover have "res_map (\<lambda>l. copy_of cl (Some l)) ?topoC = Inr (map (loc_copy st4) ?topoC)"
    using o c(5) by (intro res_map_Inr) (auto simp: copies_in_def f copy_of_total)
  moreover have "cInlinedLocs cl = cInlinedLocs st4" "cInlinedVars cl = cInlinedVars st4"
    using cl by (metis clone.select_convs(5,7) clone.surjective clone.update_convs(1))+
  ultimately show thesis
    using o call info ends c(1) r1(1) r2(1) k f(1)
    by (intro that) (simp_all add: inline_call_def inlineCallIntoRoot_def merged_state_def tr_def [symmetric]
        callee_def [symmetric] with_default_def Let_def)
qed

end

lemma merged_arcs:
  assumes "merged st call before after f cl0 cl root1 root2 calls" and "(call, x) \<in> arcs (bRoot st)"
    and "tr = mTransition (bRoot st) call" and "callee = mCfa (bSystem st) (mCallee tr)"
  shows "arcs (bRoot st) \<inter> arcs root2 = {a \<in> arcs (bRoot st). fst a \<noteq> call}"
    "snd ` (arcs root2 - arcs (bRoot st)) = inlined_arcs callee tr (mError st) (mErrorFieldVariable st) before after
       (loc_copy cl) (f cl) (var_copy cl)"
    "mNodes root2 = mNodes (bRoot st) @ map (loc_copy cl) (mNodes callee)" "mTmp root2 < 2 ^ 32"
proof -
  note m = assms(1) [unfolded merged_def Let_def assms(3) [symmetric] assms(4) [symmetric]]
  have arcs1: "arcs (bRoot st) \<subseteq> arcs root1" "snd ` (arcs root1 - arcs (bRoot st)) =
      inlined_arcs callee tr (mError st) (mErrorFieldVariable st) before after (loc_copy cl) (f cl) (var_copy cl)"
    using m by (auto simp: linked_def added_def)
  have "a \<in> arcs (bRoot st)" if "a \<in> arcs root1" "fst a = call" for a
    using that assms(2) arcs1(1) arcs_functional [of call "snd a" root1] by (metis prod.collapse subsetD)
  then have "arcs root2 - arcs (bRoot st) = arcs root1 - arcs (bRoot st)" using m by blast
  then show "snd ` (arcs root2 - arcs (bRoot st)) = inlined_arcs callee tr (mError st) (mErrorFieldVariable st) before after
      (loc_copy cl) (f cl) (var_copy cl)" using arcs1(2) by simp
  show "arcs (bRoot st) \<inter> arcs root2 = {a \<in> arcs (bRoot st). fst a \<noteq> call}" using m arcs1(1) by auto
  have "mNodes (cRoot cl0) = mNodes (bRoot st)" using m by (auto simp: renamed_def same_graph_def clone_of_root_def)
  then show "mNodes root2 = mNodes (bRoot st) @ map (loc_copy cl) (mNodes callee)" "mTmp root2 < 2 ^ 32"
    using m by (simp_all add: linked_def located_def table_room_def)
qed

lemma merged_ordered:
  assumes inv: "bmc_inv st" and ok: "inlinable st call" and m: "merged st call before after f cl0 cl root1 root2 calls"
    and f: "f cl = g" and ends: "mSource (bRoot st) call = Some before" "mTarget (bRoot st) call = Some after"
    and k: "mLocNumbers st after = Some k" "k < length (mTopo st)" "mTopo st ! k = after"
    and a: "(call, x) \<in> arcs (bRoot st)" and ord: "subseq [before, after] (mTopo st)"
  shows "ordered_in (insert_topo (mTopo st) k (map (loc_copy cl) (mTopoSortMap st (mCallee (mTransition (bRoot st) call))))) root2"
    (is "ordered_in (insert_topo _ _ (map _ ?topoC)) _")
proof -
  define tr where "tr = mTransition (bRoot st) call"
  define callee where "callee = mCfa (bSystem st) (mCallee tr)"
  note i = inv [unfolded bmc_inv_def] and o = ok [unfolded inlinable_def Let_def tr_def [symmetric] callee_def [symmetric]]
  have ee: "mEntry callee \<in> set (mNodes callee)" "mExit callee \<in> set (mNodes callee)" "graph_ok callee"
    "\<And>e. e \<in> set (mEdges callee) \<Longrightarrow> live callee e" using o by (auto simp: callee_ok_def)
  have goal: "\<exists>j. k \<le> j \<and> j < length (mTopo st) \<and> mTopo st ! j = mError st" if err: "\<exists>l \<in> set (mNodes callee). isError callee l"
  proof -
    obtain j where "mLocNumbers st (mError st) = Some j" "j < length (mTopo st)" "mTopo st ! j = mError st"
      using i numbered_mem by metis
    then show ?thesis using o err k ends by (auto simp: loc_number_def with_default_def)
  qed
  have "subseq [s, t] (insert_topo (mTopo st) k (map (loc_copy cl) ?topoC))" if a2: "(e, s, t, tr') \<in> arcs root2" for e s t tr'
  proof (cases "(e, s, t, tr') \<in> arcs (bRoot st)")
    case True
    then show ?thesis using i by (intro subseq_insert_topo(1)) (auto simp: ordered_in_def)
  next
    case False
    then have "(s, t, tr') \<in> snd ` (arcs root2 - arcs (bRoot st))" using a2 by force
    then show ?thesis
      unfolding merged_arcs(2) [OF m a tr_def callee_def] inlined_arcs_def tr_def [symmetric] using i o k ord ee goal
      by (intro ordered_insert [of "mTopo st" "mLocNumbers st" after k before _ callee "mError st"]) auto
  qed
  then show ?thesis by (auto simp: ordered_in_def)
qed

lemma merged_inv:
  assumes inv: "bmc_inv st" and ok: "inlinable st call" and m: "merged st call before after f cl0 cl root1 root2 calls"
    and ends: "mSource (bRoot st) call = Some before" "mTarget (bRoot st) call = Some after"
    and k: "mLocNumbers st after = Some k" "k < length (mTopo st)" "mTopo st ! k = after"
    and a: "(call, x) \<in> arcs (bRoot st)" and ord: "subseq [before, after] (mTopo st)"
  shows "bmc_inv (merged_state st call k cl root2 calls)"
proof -
  define tr where "tr = mTransition (bRoot st) call"
  define callee where "callee = mCfa (bSystem st) (mCallee tr)"
  let ?new = "map (loc_copy cl) (mTopoSortMap st (mCallee tr))"
  let ?topo = "insert_topo (mTopo st) k ?new"
  note i = inv [unfolded bmc_inv_def] and o = ok [unfolded inlinable_def Let_def tr_def [symmetric] callee_def [symmetric]]
  note m' = m [unfolded merged_def Let_def tr_def [symmetric] callee_def [symmetric]]
  note r = merged_arcs [OF m a tr_def callee_def]
  have d: "distinct (mNodes (bRoot st) @ map (loc_copy cl) (mNodes callee))"
  proof -
    have "cfa_ok root2 (cTable cl)" using m' by blast
    then have "distinct (mNodes root2)" by (simp add: cfa_ok_def graph_ok_def)
    then show ?thesis unfolding r(3) .
  qed
  have "numbered ?topo (number_from (drop k ?topo) k (mLocNumbers st))"
  proof (rule numbered_insert)
    show "numbered (mTopo st) (mLocNumbers st)" "k \<le> length (mTopo st)" using i k by auto
    have "inj_on (loc_copy cl) (set (mTopoSortMap st (mCallee tr)))" "distinct (mTopoSortMap st (mCallee tr))"
      using d o by (auto simp: distinct_map)
    then show "distinct ?new" by (simp add: distinct_map)
    show "set ?new \<inter> set (mTopo st) = {}" using d o i by auto
  qed
  moreover have "ordered_in ?topo root2" unfolding tr_def by (rule merged_ordered [OF inv ok m refl ends k a ord])
  moreover have "set ?topo \<subseteq> set (mNodes root2)"
    using i o r(3) set_take_subset [of k "mTopo st"] set_drop_subset [of k "mTopo st"] by (auto simp: insert_topo_def)
  moreover have "mError st \<in> set ?topo"
    using i by (metis append_take_drop_id insert_topo_def set_append UnCI UnE)
  moreover have "distinct (map fst (filter (\<lambda>p. fst p \<noteq> call) (mCalls st @ calls)))"
    "fst ` set (filter (\<lambda>p. fst p \<noteq> call) (mCalls st @ calls)) = {e. \<exists>s t tr. (e, s, t, tr) \<in> arcs root2 \<and> isCall tr}"
  proof -
    obtain chain where ch: "call_entries (bRoot st) chain root1 calls" using m' by blast
    have sub: "arcs (bRoot st) \<subseteq> arcs root1" "arcs root2 = {a \<in> arcs root1. fst a \<noteq> call}"
      using m' by (auto simp: linked_def added_def)
    have keys: "distinct (map fst (mCalls st))" "fst ` set (mCalls st) = {e. \<exists>s t tr. (e, s, t, tr) \<in> arcs (bRoot st) \<and> isCall tr}"
      "call \<in> fst ` set (mCalls st)" using i o by blast+
    show "distinct (map fst (filter (\<lambda>p. fst p \<noteq> call) (mCalls st @ calls)))"
      "fst ` set (filter (\<lambda>p. fst p \<noteq> call) (mCalls st @ calls)) = {e. \<exists>s t tr. (e, s, t, tr) \<in> arcs root2 \<and> isCall tr}"
      by (rule call_keys [OF keys(1,2) ch sub keys(3)])+
  qed
  moreover have "cfa_ok root2 (cTable cl)" using m' by blast
  ultimately show ?thesis
    using r(4) unfolding bmc_inv_def merged_state_def tr_def Let_def by simp
qed

text \<open>The invariant gives what the path conditions and the search for common dominators require of the
  order and the numbers.\<close>

lemma ordered_topo:
  assumes g: "graph_ok c" and n: "numbered topo m" and o: "ordered_in topo c" and "index = (\<lambda>l. with_default (m l))"
  shows "topo_ok c topo index" "topo_succ_ok c topo index"
proof -
  have num: "index (topo ! k) = k" if "k < length topo" for k
    using n that by (simp add: numbered_def assms(4) with_default_def)
  have arc: "s \<in> set topo \<and> t \<in> set topo \<and> index s < index t" if "(e, s, t, tr) \<in> arcs c" for e s t tr
  proof -
    have sub: "subseq [s, t] topo" using o that by (auto simp: ordered_in_def)
    obtain a b where ab: "m s = Some a" "m t = Some b" "a < b" "b < length topo" "topo ! a = s" "topo ! b = t"
      by (rule subseq_numbers [OF n sub])
    have "s \<in> set topo" "t \<in> set topo" using ab(3-6) nth_mem by (metis less_trans)+
    then show ?thesis using ab(1-3) by (simp add: assms(4) with_default_def)
  qed
  show "topo_ok c topo index"
    unfolding topo_ok_def
  proof (intro allI impI conjI ballI)
    fix k e assume k: "k < length topo"
    then show "index (topo ! k) = k" by (rule num)
    assume "e \<in> set (mIncoming c (topo ! k))"
    then obtain u where "(e, u, topo ! k, mTransition c e) \<in> arcs c" "mSource c e = Some u"
      by (auto simp: graph_okD(6) [OF g] arcs_def live_def)
    with arc num [OF k] show "\<exists>u. mSource c e = Some u \<and> u \<in> set topo \<and> index u < k" by metis
  qed
  show "topo_succ_ok c topo index"
    unfolding topo_succ_ok_def
  proof (intro allI impI conjI ballI)
    fix k e assume k: "k < length topo"
    then show "index (topo ! k) = k" by (rule num)
    assume "e \<in> set (mOutgoing c (topo ! k))"
    then obtain v where "(e, topo ! k, v, mTransition c e) \<in> arcs c" "mTarget c e = Some v"
      by (auto simp: graph_okD(5) [OF g] arcs_def live_def)
    with arc num [OF k] show "\<exists>v. mTarget c e = Some v \<and> v \<in> set topo \<and> k < index v" by metis
  qed
qed

lemma bmc_inv_topo:
  assumes "bmc_inv st"
  shows "topo_ok (bRoot st) (mTopo st) (loc_number st)" "topo_succ_ok (bRoot st) (mTopo st) (loc_number st)"
  using assms ordered_topo [of "bRoot st" "mTopo st" "mLocNumbers st" "loc_number st"]
  by (auto simp: bmc_inv_def cfa_ok_def loc_number_def fun_eq_iff)

text \<open>
  C5: inlining a call that is \<open>inlinable\<close> (as above: in particular, if the called automaton has error locations, the target of the
  call does not come after the goal, and the called automaton is not the root) with the plain expression builder returns and
  keeps the invariant: the root is consistent again, \<open>mCalls\<close> lists
  exactly the calls of the root, without the one that was inlined, and \<open>mTopo\<close> with \<open>mLocNumbers\<close> is again a
  topological order of the root, in both directions, as the path conditions and the search for
  common dominators require.
\<close>

theorem inlining_keeps_order:
  assumes "bmc_inv st" and "inlinable st call" and "fresh_alloc alloc"
  shows "\<exists>new st'. inline_call alloc plain_builder call sfx st = Inr (new, st') \<and> bmc_inv st'
    \<and> call \<notin> fst ` set (mCalls st')
    \<and> topo_ok (bRoot st') (mTopo st') (loc_number st') \<and> topo_succ_ok (bRoot st') (mTopo st') (loc_number st')"
proof -
  obtain before after k where c: "mSource (bRoot st) call = Some before" "mTarget (bRoot st) call = Some after"
    "(call, before, after, mTransition (bRoot st) call) \<in> arcs (bRoot st)" "subseq [before, after] (mTopo st)"
    "mLocNumbers st after = Some k" "k < length (mTopo st)" "mTopo st ! k = after"
    by (rule inlinable_call [OF assms(1,2)])
  obtain calls cl0 cl root1 root2 where m: "merged st call before after (\<lambda>cl. subst (cRewrite cl)) cl0 cl root1 root2 calls"
    "inline_call alloc plain_builder call sfx st = Inr (map fst calls, merged_state st call k cl root2 calls)"
    by (rule plain_rewriter.inline_run [OF assms c(1,2,5)])
  have inv: "bmc_inv (merged_state st call k cl root2 calls)" by (rule merged_inv [OF assms(1,2) m(1) c(1,2,5-7,3,4)])
  moreover have "call \<notin> fst ` set (mCalls (merged_state st call k cl root2 calls))" by (auto simp: merged_state_def Let_def)
  ultimately show ?thesis using m(2) bmc_inv_topo [OF inv] by auto
qed

text \<open>A root with a call to an automaton that copies its input to a local variable.\<close>

definition x_var :: variable where "x_var = Variable ''f/x'' IntType"
definition y_var :: variable where "y_var = Variable ''f/y'' IntType"

definition sample_callee :: cfa where
  "sample_callee = (addTransition 20 3 4 (AssignTransition True_lit [VarAssign y_var (VarRefExpr x_var)]) (Cfa_new ''f'' 3 4))
     \<lparr>mInputs := [x_var], mLocals := [y_var]\<rparr>"

definition sample_root :: cfa where
  "sample_root = addTransition 12 7 4 (AssignTransition False_lit []) (addTransition 11 5 7 (AssignTransition True_lit [])
     (addTransition 10 3 5 (CallTransition True_lit 100 [VarAssign x_var (IntLit 6)] [])
       (createErrorLocation 7 (createLocation 5 (Cfa_new ''main'' 3 4)))))"

definition sample_bmc :: bmc where
  "sample_bmc = \<lparr>bSystem = \<lparr>mAutomata = [99, 100], mCfa = (\<lambda>_. sample_root)(100 := sample_callee), mMainAutomaton = Some 99\<rparr>,
     bRootPtr = 99, bRoot = sample_root, bTable = [''f/x'' \<mapsto> x_var, ''f/y'' \<mapsto> y_var], mTopo = [3, 5, 7, 4],
     mLocNumbers = [3 \<mapsto> 0, 5 \<mapsto> 1, 7 \<mapsto> 2, 4 \<mapsto> 3], mError = 7, mErrorFieldVariable = Variable ''main/__error_field'' (BvType 16),
     mCalls = [(10, \<lparr>overApprox = False_lit, callChain = [100]\<rparr>)], mTopoSortMap = (\<lambda>_. [3, 4]),
     mInlinedLocations = Map.empty, mInlinedVariables = Map.empty\<rparr>"

lemma createErrorLocation_simps [simp]:
  "mNodes (createErrorLocation l c) = mNodes c @ [l]" "mEntry (createErrorLocation l c) = mEntry c"
  "mExit (createErrorLocation l c) = mExit c" "mEdges (createErrorLocation l c) = mEdges c"
  "mLocationIdx (createErrorLocation l c) = u32 (Suc (mLocationIdx c))" "mTmp (createErrorLocation l c) = mTmp c"
  "arcs (createErrorLocation l c) = arcs c"
  by (auto simp: createErrorLocation_def Let_def arcs_def live_def)

lemma sample_table_ok: "table_ok [''f/x'' \<mapsto> x_var, ''f/y'' \<mapsto> y_var]"
  by (auto simp: table_ok_def x_var_def y_var_def split: if_splits)

lemma sample_root_ok: "cfa_ok sample_root [''f/x'' \<mapsto> x_var, ''f/y'' \<mapsto> y_var]"
proof -
  have "cfa_ok (Cfa_new ''main'' 3 4) [''f/x'' \<mapsto> x_var, ''f/y'' \<mapsto> y_var]"
    using Cfa_new_ok [of 3 4] sample_table_ok by simp
  then show ?thesis
    unfolding sample_root_def by (intro addTransition_ok createLocation_ok) (simp_all add: u32_def)
qed

lemma sample_arcs:
  "arcs sample_root = {(12, 7, 4, AssignTransition False_lit []), (11, 5, 7, AssignTransition True_lit []),
     (10, 3, 5, CallTransition True_lit 100 [VarAssign x_var (IntLit 6)] [])}"
  "arcs sample_callee = {(20, 3, 4, AssignTransition True_lit [VarAssign y_var (VarRefExpr x_var)])}"
proof -
  show "arcs sample_root = {(12, 7, 4, AssignTransition False_lit []), (11, 5, 7, AssignTransition True_lit []),
     (10, 3, 5, CallTransition True_lit 100 [VarAssign x_var (IntLit 6)] [])}"
    unfolding sample_root_def by (simp add: arcs_addTransition)
  have "arcs sample_callee = arcs (addTransition 20 3 4 (AssignTransition True_lit [VarAssign y_var (VarRefExpr x_var)]) (Cfa_new ''f'' 3 4))"
    by (simp add: sample_callee_def arcs_def live_def)
  then show "arcs sample_callee = {(20, 3, 4, AssignTransition True_lit [VarAssign y_var (VarRefExpr x_var)])}"
    by (simp add: arcs_addTransition)
qed

lemma sample_root_arc:
  "mTransition sample_root 10 = CallTransition True_lit 100 [VarAssign x_var (IntLit 6)] []"
  "mSource sample_root 10 = Some 3" "mTarget sample_root 10 = Some 5"
proof -
  have "(10, 3, 5, CallTransition True_lit 100 [VarAssign x_var (IntLit 6)] []) \<in> arcs sample_root" by (simp add: sample_arcs)
  then show "mTransition sample_root 10 = CallTransition True_lit 100 [VarAssign x_var (IntLit 6)] []"
    "mSource sample_root 10 = Some 3" "mTarget sample_root 10 = Some 5" by (simp_all add: arcs_def)
qed

lemma sample_inv: "bmc_inv sample_bmc"
  unfolding bmc_inv_def
proof (intro conjI)
  show "cfa_ok (bRoot sample_bmc) (bTable sample_bmc)" using sample_root_ok by (simp add: sample_bmc_def)
  show "numbered (mTopo sample_bmc) (mLocNumbers sample_bmc)"
    by (simp add: numbered_def sample_bmc_def less_Suc_eq numeral_eq_Suc All_less_Suc)
  show "ordered_in (mTopo sample_bmc) (bRoot sample_bmc)" by (simp add: ordered_in_def sample_bmc_def sample_arcs)
  show "fst ` set (mCalls sample_bmc) = {e. \<exists>s t tr. (e, s, t, tr) \<in> arcs (bRoot sample_bmc) \<and> isCall tr}"
    by (auto simp: sample_bmc_def sample_arcs isCall_def)
qed (simp_all add: sample_bmc_def sample_root_def)

lemma sample_callee_fields [simp]:
  "mNodes sample_callee = [3, 4]" "mEdges sample_callee = [20]" "mEntry sample_callee = 3" "mExit sample_callee = 4"
  "mInputs sample_callee = [x_var]" "mLocals sample_callee = [y_var]" "mOutputs sample_callee = []" "\<not> isError sample_callee l"
  by (simp_all add: sample_callee_def addTransition_def createEdge_def Cfa_new_def createLocation_def createNode_def empty_cfa_def
      Let_def isError_def)

lemma sample_callee_ok: "callee_ok sys v sample_callee"
proof -
  have "cfa_ok (Cfa_new ''f'' 3 4) [''f/x'' \<mapsto> x_var, ''f/y'' \<mapsto> y_var]" using Cfa_new_ok [of 3 4] sample_table_ok by simp
  then have "cfa_ok (addTransition 20 3 4 (AssignTransition True_lit [VarAssign y_var (VarRefExpr x_var)]) (Cfa_new ''f'' 3 4))
      [''f/x'' \<mapsto> x_var, ''f/y'' \<mapsto> y_var]" by (intro addTransition_ok) simp_all
  then have g: "graph_ok sample_callee" by (simp add: cfa_ok_def sample_callee_def)
  have "(20, 3, 4, AssignTransition True_lit [VarAssign y_var (VarRefExpr x_var)]) \<in> arcs sample_callee" by (simp add: sample_arcs)
  then have e: "live sample_callee 20" "mTransition sample_callee 20 = AssignTransition True_lit [VarAssign y_var (VarRefExpr x_var)]"
    by (simp_all add: arcs_def)
  have "expr_ok True_lit" "expr_ok (VarRefExpr x_var)" by (auto simp: expr_ok_def x_var_def intro: well_typed.intros)
  with g e show ?thesis
    by (simp add: callee_ok_def errors_coded_def transition_ok_def x_var_def y_var_def)
qed

lemma sample_inlinable: "inlinable sample_bmc 10"
proof -
  have "well_typed (IntLit 6)" by (auto simp: in_int64_def intro: well_typed.intros)
  then have "arguments_ok sample_callee (mTransition sample_root 10)"
    by (auto simp: arguments_ok_def sample_root_arc getInputArgument_def getOutputArgument_def x_var_def y_var_def)
  moreover have "mLocationIdx sample_root = 4" by (simp add: sample_root_def u32_def)
  ultimately show ?thesis
    using sample_callee_ok
    by (simp add: inlinable_def Let_def sample_bmc_def sample_root_arc ordered_in_def sample_arcs loc_number_def with_default_def)
qed

theorem inlining_keeps_order_witness:
  "\<exists>new st'. inline_call next_address plain_builder 10 ''_call0'' sample_bmc = Inr (new, st') \<and> bmc_inv st'
     \<and> topo_ok (bRoot st') (mTopo st') (loc_number st')"
  using inlining_keeps_order [OF sample_inv sample_inlinable next_address_fresh] by blast

text \<open>The map that rewrites the expressions of the called automaton: an input is replaced by the expression
  that the call passes.\<close>

definition inline_map :: "cfa \<Rightarrow> transition \<Rightarrow> (variable \<Rightarrow> variable) \<Rightarrow> rewrite_map" where
  "inline_map callee call \<nu> v =
     (if v \<in> set (mInputs callee) - set (mOutputs callee) then passed call v
      else if v \<in> callee_vars callee then Some (VarRefExpr (\<nu> v)) else None)"

lemma renamed_inline_map:
  assumes "renamed (passed call) callee call st0 (callee_vars callee) st" and "arguments_ok callee call"
  shows "cRewrite st = inline_map callee call (var_copy st)"
proof
  fix v
  have p: "passed call v \<noteq> None" if "v \<in> set (mInputs callee) - set (mOutputs callee)"
    using assms(2) that by (auto simp: arguments_ok_def)
  have d: "dom (oldVarToNew st) = callee_vars callee"
    and r: "cRewrite st = rewrite_of (passed call) callee (oldVarToNew st) (callee_vars callee)"
    using assms(1) by (auto simp: renamed_def)
  show "cRewrite st v = inline_map callee call (var_copy st) v"
  proof (cases "v \<in> callee_vars callee")
    case True
    then obtain w where "oldVarToNew st v = Some w" using d by blast
    then show ?thesis using p True by (simp add: r rewrite_of_def inline_map_def)
  next
    case False
    then have "oldVarToNew st v = None" using d by blast
    then show ?thesis using False by (simp add: r rewrite_of_def inline_map_def)
  qed
qed

lemma renamed_variables:
  assumes "renamed (passed call) callee call st0 (callee_vars callee) st"
  shows "v \<in> callee_vars callee \<Longrightarrow> var_type (var_copy st v) = var_type v"
    "v \<in> set (mOutputs callee) \<Longrightarrow> var_copy st v = va_variable (the (getOutputArgument call v))"
    "v \<in> callee_vars callee - set (mOutputs callee) \<Longrightarrow> var_copy st v \<notin> ran (cTable st0)"
    "inj_on (var_copy st) (callee_vars callee - set (mOutputs callee))"
proof -
  note r = assms [unfolded renamed_def]
  have d: "oldVarToNew st v = Some (var_copy st v)" if "v \<in> callee_vars callee" for v
    using r that by (metis (no_types, lifting) domD option.sel)
  show "v \<in> callee_vars callee \<Longrightarrow> var_type (var_copy st v) = var_type v" using r d by blast
  show "v \<in> set (mOutputs callee) \<Longrightarrow> var_copy st v = va_variable (the (getOutputArgument call v))"
    using r d by (metis (no_types, lifting) UnCI)
  show "v \<in> callee_vars callee - set (mOutputs callee) \<Longrightarrow> var_copy st v \<notin> ran (cTable st0)"
    using r d by (metis (no_types, lifting) DiffD1 DiffD2)
  have "inj_on (oldVarToNew st) (callee_vars callee - set (mOutputs callee))" using r by blast
  then show "inj_on (var_copy st) (callee_vars callee - set (mOutputs callee))"
    unfolding inj_on_def using d by (metis DiffD1)
qed

text \<open>
  C3: what the root is after a call has been inlined with the plain expression builder (the setting \<open>simplifyExpr\<close> is off;
  the folding builder would rewrite the copied expressions as well), from a state that satisfies the invariant of the model checker and for
  a call that is \<open>inlinable\<close>: it is one of the recorded calls, it does not call the root automaton, the called automaton is well formed
  and typed, with a topological order of its own, its target does not come after the goal if the called automaton has error
  locations, and the counters of locations and names do not wrap around. The locations of the called automaton are
  copied to new locations; every transition but the call is kept, and the new transitions are exactly:
  the entry of the copy with the guard of the call and the assignments of its arguments, the exit of
  the copy, the transitions of the called automaton between the copies with their expressions
  rewritten, and a transition from every copied error location to the goal that stores its error code.
  The new variables are different from each other and from all existing variables; an output stands
  for the variable that receives it.
\<close>

theorem inlining_spec:
  assumes "bmc_inv st" and "inlinable st call" and "fresh_alloc alloc"
    and "tr = mTransition (bRoot st) call" and "callee = mCfa (bSystem st) (mCallee tr)"
  shows "\<exists>new st' before after \<phi> \<nu>. inline_call alloc plain_builder call sfx st = Inr (new, st')
    \<and> mSource (bRoot st) call = Some before \<and> mTarget (bRoot st) call = Some after
    \<and> mNodes (bRoot st') = mNodes (bRoot st) @ map \<phi> (mNodes callee) \<and> distinct (mNodes (bRoot st'))
    \<and> arcs (bRoot st) \<inter> arcs (bRoot st') = {a \<in> arcs (bRoot st). fst a \<noteq> call}
    \<and> snd ` (arcs (bRoot st') - arcs (bRoot st)) =
        inlined_arcs callee tr (mError st) (mErrorFieldVariable st) before after \<phi> (subst (inline_map callee tr \<nu>)) \<nu>
    \<and> (\<forall>v \<in> callee_vars callee. var_type (\<nu> v) = var_type v)
    \<and> (\<forall>v \<in> set (mOutputs callee). \<nu> v = va_variable (the (getOutputArgument tr v)))
    \<and> inj_on \<nu> (callee_vars callee - set (mOutputs callee))
    \<and> \<nu> ` (callee_vars callee - set (mOutputs callee)) \<inter> ran (bTable st) = {}"
proof -
  obtain before after k where c: "mSource (bRoot st) call = Some before" "mTarget (bRoot st) call = Some after"
    "(call, before, after, mTransition (bRoot st) call) \<in> arcs (bRoot st)" "mLocNumbers st after = Some k"
    by (rule inlinable_call [OF assms(1,2)])
  obtain calls cl0 cl root1 root2 where m: "merged st call before after (\<lambda>cl. subst (cRewrite cl)) cl0 cl root1 root2 calls"
    "inline_call alloc plain_builder call sfx st = Inr (map fst calls, merged_state st call k cl root2 calls)"
    by (rule plain_rewriter.inline_run [OF assms(1-3) c(1,2,4)])
  have args: "arguments_ok callee tr" using assms(2) by (simp add: inlinable_def Let_def assms(4,5))
  have ren: "renamed (passed tr) callee tr (clone_of_root st) (callee_vars callee) cl0"
    and same: "oldVarToNew cl = oldVarToNew cl0" "cRewrite cl = cRewrite cl0" and ok: "cfa_ok root2 (cTable cl)"
    using m(1) unfolding merged_def Let_def located_def assms(4,5) by blast+
  have tbl: "cTable (clone_of_root st) = bTable st" by (simp add: clone_of_root_def)
  note v = renamed_variables [OF ren, unfolded tbl] and a = merged_arcs [OF m(1) c(3) assms(4,5)]
  have root: "bRoot (merged_state st call k cl root2 calls) = root2" by (simp add: merged_state_def Let_def)
  have "distinct (mNodes root2)" using ok by (simp add: cfa_ok_def graph_ok_def)
  moreover have "snd ` (arcs root2 - arcs (bRoot st)) = inlined_arcs callee tr (mError st) (mErrorFieldVariable st) before after
      (loc_copy cl) (subst (inline_map callee tr (var_copy cl0))) (var_copy cl0)"
    using a(2) by (simp only: same renamed_inline_map [OF ren args])
  moreover have "var_copy cl0 ` (callee_vars callee - set (mOutputs callee)) \<inter> ran (bTable st) = {}" using v(3) by blast
  ultimately show ?thesis
    using m(2) c(1,2) a(1,3) v(1,2,4) root
    by (intro exI [of _ "map fst calls"] exI [of _ "merged_state st call k cl root2 calls"] exI [of _ before] exI [of _ after]
        exI [of _ "loc_copy cl"] exI [of _ "var_copy cl0"]) simp
qed

text \<open>In the sample, the copy of the local variable is assigned the argument of the call.\<close>

theorem inlining_spec_witness:
  "\<exists>new st' s t y. inline_call next_address plain_builder 10 ''_call0'' sample_bmc = Inr (new, st')
     \<and> (s, t, AssignTransition True_lit [VarAssign y (IntLit 6)]) \<in> snd ` (arcs (bRoot st') - arcs (bRoot sample_bmc))
     \<and> y \<notin> ran (bTable sample_bmc)"
proof -
  have tr: "mTransition sample_root 10 = mTransition (bRoot sample_bmc) 10"
    and callee: "sample_callee = mCfa (bSystem sample_bmc) (mCallee (mTransition sample_root 10))"
    by (simp_all add: sample_bmc_def sample_root_arc)
  obtain new st' before after \<phi> \<nu> where r: "inline_call next_address plain_builder 10 ''_call0'' sample_bmc = Inr (new, st')"
    "snd ` (arcs (bRoot st') - arcs (bRoot sample_bmc)) = inlined_arcs sample_callee (mTransition sample_root 10)
       (mError sample_bmc) (mErrorFieldVariable sample_bmc) before after \<phi>
       (subst (inline_map sample_callee (mTransition sample_root 10) \<nu>)) \<nu>"
    "\<nu> ` (callee_vars sample_callee - set (mOutputs sample_callee)) \<inter> ran (bTable sample_bmc) = {}"
    using inlining_spec [OF sample_inv sample_inlinable next_address_fresh tr callee, of "''_call0''"] by (elim exE conjE) (rule that)
  have "(20, 3, 4, AssignTransition True_lit [VarAssign y_var (VarRefExpr x_var)]) \<in> arcs sample_callee" by (simp add: sample_arcs)
  then have e: "mSource sample_callee 20 = Some 3" "mTarget sample_callee 20 = Some 4"
    "mTransition sample_callee 20 = AssignTransition True_lit [VarAssign y_var (VarRefExpr x_var)]" by (simp_all add: arcs_def)
  have "(\<phi> 3, \<phi> 4, AssignTransition True_lit [VarAssign (\<nu> y_var) (IntLit 6)]) \<in> snd ` (arcs (bRoot st') - arcs (bRoot sample_bmc))"
    unfolding r(2) by (simp add: inlined_arcs_def copied_arc_def e image_transition_def inline_map_def
        getInputArgument_def sample_root_arc)
  moreover have "\<nu> y_var \<notin> ran (bTable sample_bmc)" using r(3) by auto
  ultimately show ?thesis using r(1) by blast
qed

end
