(* ===== verification/GazerBmcGoal.thy ===== *)
theory GazerBmcGoal
  imports GazerBmcInline
begin

text \<open>
  The goal of the bounded model checker: \<open>initializeErrorField\<close> and \<open>removeIrrelevantLocations\<close>. The goal
  is reachable exactly where an error location was, and removing the locations that cannot reach it
  changes no path to it. For a root without error locations of its own the goal is a dummy, and the
  removal deletes the calls through which the errors of other automata could be reached.
\<close>

section \<open>Removing the irrelevant locations\<close>

definition idf_visits :: "bmc \<Rightarrow> (nat \<Rightarrow> bool) \<Rightarrow> bool" where
  "idf_visits st visited \<longleftrightarrow> (\<forall>l. visited l \<longleftrightarrow> (l, mError st) \<in> (edge_rel (bRoot st))\<^sup>*)"

lemma edge_rel_arcs: "edge_rel c = {(s, t). \<exists>e tr. (e, s, t, tr) \<in> arcs c}"
  by (auto simp: edge_rel_def arcs_def)

lemma removeIrrelevant_arcs:
  assumes "graph_ok (bRoot st)"
  obtains root where "removeIrrelevantLocations visited st = Inr (st\<lparr>bRoot := root\<rparr>)" "graph_ok root"
    "arcs root = {(e, s, t, tr) \<in> arcs (bRoot st). (visited s \<or> s = mExit (bRoot st)) \<and> (visited t \<or> t = mExit (bRoot st))}"
    "set (mNodes root) = {l. \<exists>e s t tr. (e, s, t, tr) \<in> arcs root \<and> (l = s \<or> l = t)}"
    "graph.more root = graph.more (bRoot st)" "\<forall>e \<in> set (mEdges root). live root e"
proof -
  let ?c = "bRoot st" and ?P = "\<lambda>l. \<not> (visited l \<or> l = mExit (bRoot st))"
  obtain d where d: "disconnectNodes ?P (mNodes ?c) ?c = Inr d" "graph_ok d" "graph.more d = graph.more ?c"
    and live: "\<And>e. live d e \<longleftrightarrow> live ?c e \<and> (\<forall>n \<in> set (mNodes ?c). ?P n \<longrightarrow> mSource ?c e \<noteq> Some n \<and> mTarget ?c e \<noteq> Some n)"
    and ends: "\<And>e. live d e \<Longrightarrow> mSource d e = mSource ?c e \<and> mTarget d e = mTarget ?c e"
    using disconnectNodes_closed [OF assms, of ?P "mNodes ?c"] by blast
  have tr: "mTransition d = mTransition ?c" using more_cfa [OF d(3)] by blast
  have arcs_d: "arcs d = {(e, s, t, tr) \<in> arcs ?c. \<not> ?P s \<and> \<not> ?P t}"
  proof -
    have keep: "live d e \<longleftrightarrow> live ?c e \<and> \<not> ?P s \<and> \<not> ?P t" if st: "mSource ?c e = Some s" "mTarget ?c e = Some t" for e s t
      using live [of e] graph_okD(7,8) [OF assms, of e] st by auto
    have "(e, s, t, tr) \<in> arcs d \<longleftrightarrow> (e, s, t, tr) \<in> arcs ?c \<and> \<not> ?P s \<and> \<not> ?P t" for e s t tr
    proof -
      have "(e, s, t, tr) \<in> arcs d \<longleftrightarrow> live d e \<and> mSource ?c e = Some s \<and> mTarget ?c e = Some t \<and> mTransition ?c e = tr"
        using ends [of e] by (auto simp: arcs_def tr)
      also have "\<dots> \<longleftrightarrow> (e, s, t, tr) \<in> arcs ?c \<and> \<not> ?P s \<and> \<not> ?P t"
        using keep [of e s t] unfolding arcs_def by blast
      finally show ?thesis .
    qed
    then show ?thesis by auto
  qed
  let ?r = "clearDisconnectedElements d"
  have arcs_r: "arcs ?r = arcs d" by (simp add: arcs_def) (simp add: clearDisconnectedElements_def)
  have "set (mNodes ?r) = {l. \<exists>e s t tr. (e, s, t, tr) \<in> arcs ?r \<and> (l = s \<or> l = t)}"
    unfolding kept_nodes [OF d(2)] arcs_r by (auto simp: arcs_def live_def)
  moreover have "removeIrrelevantLocations visited st = Inr (st\<lparr>bRoot := ?r\<rparr>)"
    using d(1) by (simp add: removeIrrelevantLocations_def)
  moreover have "graph.more ?r = graph.more ?c" using d(3) by (simp add: clearDisconnectedElements_def)
  moreover have "\<forall>e \<in> set (mEdges ?r). live ?r e" by (simp add: clearDisconnectedElements_def live_def)
  ultimately show thesis
    using clearDisconnectedElements_ok [OF d(2)] arcs_d arcs_r by (intro that [of ?r]) simp_all
qed

text \<open>
  C22: removing the locations from which the goal is not reachable never fails and keeps exactly the
  transitions between locations that reach the goal, and those into the exit; the paths to the goal
  stay the same, and every location that is left reaches the goal, except for the exit.
\<close>

theorem removeIrrelevant_spec:
  assumes "graph_ok (bRoot st)" and "idf_visits st visited"
  shows "\<exists>root. removeIrrelevantLocations visited st = Inr (st\<lparr>bRoot := root\<rparr>) \<and> graph_ok root
    \<and> arcs root = {(e, s, t, tr) \<in> arcs (bRoot st). (visited s \<or> s = mExit (bRoot st)) \<and> (visited t \<or> t = mExit (bRoot st))}
    \<and> (\<forall>l. (l, mError st) \<in> (edge_rel root)\<^sup>* \<longleftrightarrow> (l, mError st) \<in> (edge_rel (bRoot st))\<^sup>*)
    \<and> (\<forall>l \<in> set (mNodes root). l = mExit (bRoot st) \<or> (l, mError st) \<in> (edge_rel root)\<^sup>*)"
proof -
  obtain root where r: "removeIrrelevantLocations visited st = Inr (st\<lparr>bRoot := root\<rparr>)" "graph_ok root"
    "arcs root = {(e, s, t, tr) \<in> arcs (bRoot st). (visited s \<or> s = mExit (bRoot st)) \<and> (visited t \<or> t = mExit (bRoot st))}"
    "set (mNodes root) = {l. \<exists>e s t tr. (e, s, t, tr) \<in> arcs root \<and> (l = s \<or> l = t)}"
    using removeIrrelevant_arcs [OF assms(1)] .
  have vis: "visited l \<longleftrightarrow> (l, mError st) \<in> (edge_rel (bRoot st))\<^sup>*" for l using assms(2) by (simp add: idf_visits_def)
  have "edge_rel root \<subseteq> edge_rel (bRoot st)" unfolding edge_rel_arcs r(3) by auto
  then have from_kept: "(l, mError st) \<in> (edge_rel root)\<^sup>* \<Longrightarrow> visited l" for l unfolding vis by (meson rtrancl_mono subsetD)
  have forth: "(l, mError st) \<in> (edge_rel root)\<^sup>*" if "visited l" for l
    using that unfolding vis
  proof (induction rule: converse_rtrancl_induct)
    case (step u v)
    have "visited v" "visited u" unfolding vis using step(1,2) by (auto intro: converse_rtrancl_into_rtrancl)
    with step(1) have "(u, v) \<in> edge_rel root" unfolding edge_rel_arcs r(3) by blast
    with step(3) show ?case by (rule converse_rtrancl_into_rtrancl [rotated])
  qed simp
  have "l = mExit (bRoot st) \<or> visited l" if "l \<in> set (mNodes root)" for l using that unfolding r(4) r(3) by auto
  with r(1-3) from_kept forth vis show ?thesis by blast
qed

lemma sample_rel: "edge_rel sample_root = {(7, 4), (5, 7), (3, 5)}"
  by (auto simp: edge_rel_arcs sample_arcs)

lemma sample_visits: "idf_visits sample_bmc (\<lambda>l. l \<in> {3, 5, 7})"
proof -
  let ?r = "{(7, 4), (5, 7), (3, 5)} :: (nat \<times> nat) set"
  have step: "(5, 7) \<in> ?r\<^sup>*" "(3, 7) \<in> ?r\<^sup>*" "(7, 7) \<in> ?r\<^sup>*"
    by (auto intro: converse_rtrancl_into_rtrancl)
  have "l \<in> {3, 5, 7}" if "(l, 7) \<in> ?r\<^sup>*" for l
    using that by (induction rule: converse_rtrancl_induct) auto
  then show ?thesis using step by (auto simp: idf_visits_def sample_bmc_def sample_rel)
qed

theorem removeIrrelevant_spec_witness:
  "\<exists>root. removeIrrelevantLocations (\<lambda>l. l \<in> {3, 5, 7}) sample_bmc = Inr (sample_bmc\<lparr>bRoot := root\<rparr>)
     \<and> arcs root = arcs sample_root"
proof -
  have "graph_ok (bRoot sample_bmc)" using sample_root_ok by (simp add: cfa_ok_def sample_bmc_def)
  from removeIrrelevant_spec [OF this sample_visits] obtain root where
    r: "removeIrrelevantLocations (\<lambda>l. l \<in> {3, 5, 7}) sample_bmc = Inr (sample_bmc\<lparr>bRoot := root\<rparr>)"
      "arcs root = {(e, s, t, tr) \<in> arcs (bRoot sample_bmc). (s \<in> {3, 5, 7} \<or> s = mExit (bRoot sample_bmc))
         \<and> (t \<in> {3, 5, 7} \<or> t = mExit (bRoot sample_bmc))}"
    by (elim exE conjE) (rule that)
  have "mExit sample_root = 4" by (simp add: sample_root_def)
  then have "arcs root = arcs sample_root" unfolding r(2) by (auto simp: sample_bmc_def sample_arcs)
  with r(1) show ?thesis by (intro exI conjI)
qed

section \<open>Creating the goal\<close>

lemma created_local_total:
  assumes "table_room (Suc k) (bRoot st) (bTable st)"
  obtains v root tbl where "created_local n t st = Inr (v, st\<lparr>bRoot := root, bTable := tbl\<rparr>)" "table_room k root tbl"
    "var_type v = t" "same_graph (bRoot st) root"
proof -
  obtain v root tbl where v: "createLocal n t (bRoot st) (bTable st) = Some (Inr (v, root, tbl))" "table_room k root tbl"
    "var_type v = t" "same_graph (bRoot st) root"
    by (rule createLocal_total [OF assms, where n = n and t = t])
  then have "created_local n t st = Inr (v, st\<lparr>bRoot := root, bTable := tbl\<rparr>)" by (simp add: created_local_def returned_def)
  from that [OF this v(2-4)] show thesis .
qed

lemma add_assign_Inr:
  "getType g = BoolType \<Longrightarrow> add_assign alloc s t g as st =
     Inr (st\<lparr>bRoot := addTransition (alloc (mEdges (bRoot st))) s t (AssignTransition g as) (bRoot st)\<rparr>)"
  by (simp add: add_assign_def)

text \<open>The state after arcs have been added to the root.\<close>

definition extended :: "bmc \<Rightarrow> (nat \<times> nat \<times> transition) set \<Rightarrow> bmc \<Rightarrow> bool" where
  "extended st0 X st \<longleftrightarrow> st = st0\<lparr>bRoot := bRoot st\<rparr> \<and> cfa_ok (bRoot st) (bTable st0) \<and> added (bRoot st0) (bRoot st) X
     \<and> mNodes (bRoot st) = mNodes (bRoot st0) \<and> mEntry (bRoot st) = mEntry (bRoot st0) \<and> mExit (bRoot st) = mExit (bRoot st0)
     \<and> mKind (bRoot st) = mKind (bRoot st0) \<and> mErrorFieldExprs (bRoot st) = mErrorFieldExprs (bRoot st0)
     \<and> mTmp (bRoot st) = mTmp (bRoot st0) \<and> mID (bRoot st) = mID (bRoot st0)"

lemma extended_start: "cfa_ok (bRoot st) (bTable st) \<Longrightarrow> extended st {} st"
  by (simp add: extended_def added_refl)

lemma extended_add:
  assumes "extended st0 X st" and "fresh_alloc alloc" and "s \<in> set (mNodes (bRoot st0))" "t \<in> set (mNodes (bRoot st0))"
    and "getType g = BoolType"
  shows "\<exists>st'. add_assign alloc s t g as st = Inr st' \<and> extended st0 (insert (s, t, AssignTransition g as) X) st'"
proof -
  note r = assms(1) [unfolded extended_def]
  let ?e = "alloc (mEdges (bRoot st))"
  let ?root = "addTransition ?e s t (AssignTransition g as) (bRoot st)"
  have e: "?e \<notin> set (mEdges (bRoot st))" using assms(2) by (simp add: fresh_alloc_def)
  have "cfa_ok ?root (bTable st0)" using r e assms(3-5) by (intro addTransition_ok) auto
  moreover have "added (bRoot st0) ?root (insert (s, t, AssignTransition g as) X)"
    using r added_transition [OF _ e] by blast
  moreover have "st\<lparr>bRoot := ?root\<rparr> = st0\<lparr>bRoot := ?root\<rparr>" using r by (metis bmc.update_convs(3) bmc.surjective)
  moreover have "mKind ?root = mKind (bRoot st)" "mErrorFieldExprs ?root = mErrorFieldExprs (bRoot st)" "mID ?root = mID (bRoot st)"
    by (simp_all add: addTransition_def createEdge_def Let_def)
  ultimately show ?thesis
    using r assms(5) by (intro exI [of _ "st\<lparr>bRoot := ?root\<rparr>"]) (simp add: add_assign_Inr extended_def)
qed

text \<open>The codes of all error locations have the type \<open>T\<close>.\<close>

definition codes_typed :: "cfa \<Rightarrow> gtype \<Rightarrow> bool" where
  "codes_typed c T \<longleftrightarrow> (\<forall>l \<in> set (mNodes c). isError c l \<longrightarrow> (\<exists>x. mErrorFieldExprs c l = Some x \<and> getType x = T))"

lemma error_field_type_val:
  assumes "codes_typed c T" and "\<forall>l \<in> set ls. l \<in> set (mNodes c) \<and> isError c l"
  shows "error_field_type c ls t = Inr (if ls = [] then t else Some T)"
  using assms(2)
proof (induction ls arbitrary: t)
  case (Cons l ls)
  then obtain x where "mErrorFieldExprs c l = Some x" "getType x = T" using assms(1) by (auto simp: codes_typed_def)
  then show ?case using Cons by (simp add: getErrorFieldExpr_def)
qed simp

lemma error_loop_total:
  assumes "extended st0 X st" and "fresh_alloc alloc" and "err \<in> set (mNodes (bRoot st0))"
    and "\<forall>l \<in> set ls. l \<in> set (mNodes (bRoot st0)) \<and> isError (bRoot st0) l
      \<and> (\<exists>x. mErrorFieldExprs (bRoot st0) l = Some x \<and> getType x = var_type v)"
  shows "\<exists>st'. for_each (\<lambda>l s. rbind (getErrorFieldExpr (bRoot s) l) (\<lambda>x. rbind (VariableAssignment_Create v x) (\<lambda>a.
       add_assign alloc l err True_lit [a] s))) ls st = Inr st'
    \<and> extended st0 (error_arcs (bRoot st0) err v (\<lambda>l. l) ls \<union> X) st'"
  using assms(1,4)
proof (induction ls arbitrary: st X)
  case (Cons l ls)
  then obtain x where x: "mErrorFieldExprs (bRoot st0) l = Some x" "getType x = var_type v"
    by auto
  have same: "mKind (bRoot st) = mKind (bRoot st0)" "mErrorFieldExprs (bRoot st) = mErrorFieldExprs (bRoot st0)"
    using Cons.prems(1) by (simp_all add: extended_def)
  have l: "l \<in> set (mNodes (bRoot st0))" "isError (bRoot st0) l" using Cons.prems(2) by auto
  from extended_add [OF Cons.prems(1) assms(2) l(1) assms(3), of True_lit "[VarAssign v x]"] obtain st1 where
    1: "add_assign alloc l err True_lit [VarAssign v x] st = Inr st1"
       "extended st0 (insert (l, err, AssignTransition True_lit [VarAssign v x]) X) st1" by auto
  have "error_arcs (bRoot st0) err v (\<lambda>l. l) (l # ls) =
      insert (l, err, AssignTransition True_lit [VarAssign v x]) (error_arcs (bRoot st0) err v (\<lambda>l. l) ls)"
    using l(2) x(1) by (auto simp: error_arcs_def)
  then show ?case
    using Cons.IH [OF 1(2)] Cons.prems(2) x 1(1) l(2) same
    by (simp add: getErrorFieldExpr_def isError_def VariableAssignment_Create_def)
qed (auto simp: error_arcs_def)

lemma goal_created:
  assumes "table_room 1 (bRoot st) (bTable st)" and "fresh_alloc alloc" and "Suc (mLocationIdx (bRoot st)) < 2 ^ 32"
    and "err = alloc (mNodes (bRoot st))" and "st1 = st\<lparr>bRoot := createErrorLocation err (bRoot st), mError := err\<rparr>"
  obtains v root tbl where "created_local ''__error_field'' t st1 = Inr (v, st1\<lparr>bRoot := root, bTable := tbl\<rparr>)"
    "var_type v = t" "cfa_ok root tbl" "err \<notin> set (mNodes (bRoot st))" "mNodes root = mNodes (bRoot st) @ [err]"
    "mEntry root = mEntry (bRoot st)" "mExit root = mExit (bRoot st)" "arcs root = arcs (bRoot st)" "mTmp root < 2 ^ 32"
    "\<forall>l. l \<noteq> err \<longrightarrow> isError root l = isError (bRoot st) l" "mErrorFieldExprs root = mErrorFieldExprs (bRoot st)"
    "mID root = (mID (bRoot st))(err := mLocationIdx (bRoot st))"
proof -
  have new: "err \<notin> set (mNodes (bRoot st))" using assms(2,4) by (simp add: fresh_alloc_def)
  have room: "table_room (Suc 0) (bRoot st1) (bTable st1)"
    using assms(1,3,5) createLocation_ok(2) [OF _ new] by (simp add: table_room_def)
  obtain v root tbl where v: "created_local ''__error_field'' t st1 = Inr (v, st1\<lparr>bRoot := root, bTable := tbl\<rparr>)"
    "table_room 0 root tbl" "var_type v = t" "same_graph (bRoot st1) root"
    by (rule created_local_total [OF room])
  have more: "mKind (createErrorLocation err (bRoot st)) = (mKind (bRoot st))(err := Error)"
    "mErrorFieldExprs (createErrorLocation err (bRoot st)) = mErrorFieldExprs (bRoot st)"
    "mID (createErrorLocation err (bRoot st)) = (mID (bRoot st))(err := mLocationIdx (bRoot st))"
    by (simp_all add: createErrorLocation_def createNode_def Let_def)
  obtain tmp names locs where root: "root = (bRoot st1)\<lparr>mTmp := tmp, mSymbolNames := names, mLocals := locs\<rparr>"
    using v(4) by (auto simp: same_graph_def)
  have "arcs root = arcs (bRoot st)" using same_graph_arcs [OF v(4)] assms(5) by simp
  moreover have "isError root l = isError (bRoot st) l" if "l \<noteq> err" for l
    using that more assms(5) root by (simp add: isError_def)
  ultimately show thesis
    using v(2,3) new more assms(5) by (intro that [OF v(1)]) (simp_all add: root table_room_def)
qed

lemma error_arcs_filter:
  assumes "\<And>l. l \<in> set ls \<Longrightarrow> isError c l = isError c' l" and "mErrorFieldExprs c = mErrorFieldExprs c'"
  shows "error_arcs c err v \<phi> (filter (isError c') ls) = error_arcs c' err v \<phi> ls"
  using assms by (auto simp: error_arcs_def)

text \<open>The name of the new variable.\<close>

lemma freshName_form:
  assumes "freshName tbl base tmp = Some (n, k)"
  shows "n = base \<or> (\<exists>j. n = suffixed base j)"
proof -
  have "fst (n, k) = base \<or> (\<exists>j. fst (n, k) = suffixed base j)"
    by (rule while_option_rule [where P = "\<lambda>p. fst p = base \<or> (\<exists>j. fst p = suffixed base j)", OF _ assms [unfolded freshName_def]]) auto
  then show ?thesis by simp
qed

lemma created_local_name:
  assumes "created_local n t st = Inr (v, st')"
  shows "bTable st' = (bTable st)(var_name v \<mapsto> v) \<and> bTable st (var_name v) = None \<and> CHR ''/'' \<in> set (var_name v)"
proof -
  obtain m tmp where m: "freshName (bTable st) (mName (bRoot st) @ ''/'' @ n) (mTmp (bRoot st)) = Some (m, tmp)"
    "createVariable (bTable st) m t = Inr (v, bTable st')"
    using assms by (auto simp: created_local_def rbind_eq_Inr returned_Inr createLocal_def createMemberVariable_def)
  have "CHR ''/'' \<in> set m" using freshName_form [OF m(1)] by (auto simp: suffixed_def)
  with m(2) show ?thesis by (auto simp: createVariable_def check_eq_Inr)
qed

lemma goal_run:
  assumes "table_room 1 (bRoot st) (bTable st)" and "fresh_alloc alloc" and "Suc (mLocationIdx (bRoot st)) < 2 ^ 32"
    and "codes_typed (bRoot st) T" and "l \<in> set (mNodes (bRoot st))" "isError (bRoot st) l"
  obtains st' where "initializeErrorField alloc first st = Inr (True, st')" "cfa_ok (bRoot st') (bTable st')"
    "mError st' \<notin> set (mNodes (bRoot st))" "mNodes (bRoot st') = mNodes (bRoot st) @ [mError st']"
    "var_type (mErrorFieldVariable st') = T"
    "added (bRoot st) (bRoot st') (insert (mError st', mExit (bRoot st), AssignTransition False_lit [])
        (error_arcs (bRoot st) (mError st') (mErrorFieldVariable st') (\<lambda>l. l) (mNodes (bRoot st))))"
    "mEntry (bRoot st') = mEntry (bRoot st)" "mExit (bRoot st') = mExit (bRoot st)"
    "bTable st' = (bTable st)(var_name (mErrorFieldVariable st') \<mapsto> mErrorFieldVariable st')"
    "bTable st (var_name (mErrorFieldVariable st')) = None" "CHR ''/'' \<in> set (var_name (mErrorFieldVariable st'))"
    "st' = st\<lparr>bRoot := bRoot st', bTable := bTable st', mError := mError st', mErrorFieldVariable := mErrorFieldVariable st'\<rparr>"
    "mID (bRoot st') = (mID (bRoot st))(mError st' := mLocationIdx (bRoot st))"
proof -
  define errors where "errors = filter (isError (bRoot st)) (mNodes (bRoot st))"
  define err where "err = alloc (mNodes (bRoot st))"
  define st1 where "st1 = st\<lparr>bRoot := createErrorLocation err (bRoot st), mError := err\<rparr>"
  have "errors \<noteq> []" using assms(5,6) by (auto simp: errors_def filter_empty_conv)
  then have ty: "error_field_type (bRoot st) errors None = Inr (Some T)" and ne: "errors \<noteq> []"
    using error_field_type_val [OF assms(4), of errors] by (simp_all add: errors_def)
  obtain v root tbl where g: "created_local ''__error_field'' T st1 = Inr (v, st1\<lparr>bRoot := root, bTable := tbl\<rparr>)"
    "var_type v = T" "cfa_ok root tbl" "err \<notin> set (mNodes (bRoot st))" "mNodes root = mNodes (bRoot st) @ [err]"
    "mEntry root = mEntry (bRoot st)" "mExit root = mExit (bRoot st)" "arcs root = arcs (bRoot st)"
    "\<forall>l. l \<noteq> err \<longrightarrow> isError root l = isError (bRoot st) l" "mErrorFieldExprs root = mErrorFieldExprs (bRoot st)"
    "mID root = (mID (bRoot st))(err := mLocationIdx (bRoot st))"
    by (rule goal_created [OF assms(1-3) err_def st1_def, where t = T])
  define st3 where "st3 = st1\<lparr>bRoot := root, bTable := tbl, mErrorFieldVariable := v\<rparr>"
  have st3: "bRoot st3 = root" "bTable st3 = tbl" "mError st3 = err" "mErrorFieldVariable st3 = v" by (simp_all add: st3_def st1_def)
  have old: "isError root l = isError (bRoot st) l" if "l \<in> set (mNodes (bRoot st))" for l using g(4,9) that by metis
  have "\<forall>l \<in> set errors. l \<in> set (mNodes (bRoot st3)) \<and> isError (bRoot st3) l
      \<and> (\<exists>x. mErrorFieldExprs (bRoot st3) l = Some x \<and> getType x = var_type v)"
    unfolding st3 errors_def using assms(4) old by (auto simp: g(2,5,10) codes_typed_def)
  from error_loop_total [OF extended_start assms(2) _ this, of err] g(3,5) st3 obtain st4 where
    4: "for_each (\<lambda>l s. rbind (getErrorFieldExpr (bRoot s) l) (\<lambda>x. rbind (VariableAssignment_Create v x) (\<lambda>a.
         add_assign alloc l err True_lit [a] s))) errors st3 = Inr st4"
      "extended st3 (error_arcs (bRoot st3) err v (\<lambda>l. l) errors \<union> {}) st4" by auto
  have exit: "mExit (bRoot st4) = mExit (bRoot st)" "mExit (bRoot st) \<in> set (mNodes (bRoot st3))" "err \<in> set (mNodes (bRoot st3))"
    using 4(2) g(5,7) st3 assms(1) by (auto simp: extended_def table_room_def cfa_ok_def locations_ok_def)
  from extended_add [OF 4(2) assms(2) exit(3,2), of False_lit "[]"] obtain st5 where
    5: "add_assign alloc err (mExit (bRoot st)) False_lit [] st4 = Inr st5"
      "extended st3 (insert (err, mExit (bRoot st), AssignTransition False_lit []) (error_arcs (bRoot st3) err v (\<lambda>l. l) errors \<union> {})) st5"
    by auto
  have run: "initializeErrorField alloc first st = Inr (True, st5)"
    using ty ne 4(1) 5(1) exit(1) g(1)
    by (simp add: initializeErrorField_def errors_def [symmetric] err_def [symmetric] st1_def [symmetric] st3_def [symmetric] Let_def)
  have "error_arcs (bRoot st3) err v (\<lambda>l. l) errors = error_arcs (bRoot st) err v (\<lambda>l. l) (mNodes (bRoot st))"
    unfolding errors_def st3 by (intro error_arcs_filter old g(10))
  moreover have f: "mError st5 = err" "mErrorFieldVariable st5 = v" "bTable st5 = tbl"
    using 5(2) st3 unfolding extended_def by (metis bmc.surjective bmc.update_convs(3) bmc.select_convs(4,7,8))+
  moreover have "bTable st5 = (bTable st)(var_name v \<mapsto> v)" "bTable st (var_name v) = None" "CHR ''/'' \<in> set (var_name v)"
    using created_local_name [OF g(1)] f by (simp_all add: st1_def)
  moreover have "mEntry (bRoot st5) = mEntry (bRoot st)" "mExit (bRoot st5) = mExit (bRoot st)"
    "mID (bRoot st5) = (mID (bRoot st))(err := mLocationIdx (bRoot st))"
    using 5(2) g(6,7,11) st3 by (simp_all add: extended_def)
  moreover have "st5 = st\<lparr>bRoot := bRoot st5, bTable := tbl, mError := err, mErrorFieldVariable := v\<rparr>"
  proof -
    obtain r where r: "st5 = st3\<lparr>bRoot := r\<rparr>" using 5(2) unfolding extended_def by blast
    show ?thesis unfolding r by (simp add: st3_def st1_def)
  qed
  ultimately show thesis
    using run 5(2) g st3 by (intro that [of st5]) (simp_all add: extended_def added_def)
qed

text \<open>
  C21: the goal of an automaton with error locations. If the codes of the error locations have the
  same type, \<open>initializeErrorField\<close> returns with a new location as the goal and a new variable of that type;
  the new transitions lead from every error location to the goal, storing its code, and from the goal
  to the exit.
\<close>

theorem goal_spec:
  assumes "table_room 1 (bRoot st) (bTable st)" and "fresh_alloc alloc" and "Suc (mLocationIdx (bRoot st)) < 2 ^ 32"
    and "codes_typed (bRoot st) T" and "l \<in> set (mNodes (bRoot st))" "isError (bRoot st) l"
  shows "\<exists>st'. initializeErrorField alloc first st = Inr (True, st') \<and> cfa_ok (bRoot st') (bTable st')
    \<and> mError st' \<notin> set (mNodes (bRoot st)) \<and> mNodes (bRoot st') = mNodes (bRoot st) @ [mError st']
    \<and> var_type (mErrorFieldVariable st') = T
    \<and> added (bRoot st) (bRoot st') (insert (mError st', mExit (bRoot st), AssignTransition False_lit [])
        (error_arcs (bRoot st) (mError st') (mErrorFieldVariable st') (\<lambda>l. l) (mNodes (bRoot st))))"
  by (rule goal_run [OF assms, where first = first]) blast

text \<open>An automaton with an error location.\<close>

definition failing_root :: cfa where
  "failing_root = (createErrorLocation 5 (Cfa_new ''main'' 3 4))\<lparr>mErrorFieldExprs := [5 \<mapsto> BvLit (APInt 16 7)]\<rparr>"

definition failing_bmc :: bmc where
  "failing_bmc = sample_bmc\<lparr>bRoot := failing_root\<rparr>"

lemma failing_room: "table_room 1 (bRoot failing_bmc) (bTable failing_bmc)"
proof -
  have "cfa_ok (Cfa_new ''main'' 3 4) [''f/x'' \<mapsto> x_var, ''f/y'' \<mapsto> y_var]" using Cfa_new_ok [of 3 4] sample_table_ok by simp
  then have "cfa_ok (createErrorLocation 5 (Cfa_new ''main'' 3 4)) [''f/x'' \<mapsto> x_var, ''f/y'' \<mapsto> y_var]"
    by (intro createLocation_ok) simp_all
  then have "cfa_ok failing_root [''f/x'' \<mapsto> x_var, ''f/y'' \<mapsto> y_var]"
    unfolding failing_root_def
    by (rule cfa_step_ok [OF cfa_step.error_code [of 5 _ "BvLit (APInt 16 7)"], unfolded fst_conv snd_conv, rotated -1])
       (simp_all add: addErrorCode_def createErrorLocation_def isError_def Let_def empty_cfa_def Cfa_new_def createLocation_def createNode_def)
  then show ?thesis by (simp add: table_room_def failing_bmc_def sample_bmc_def failing_root_def)
qed

theorem goal_spec_witness:
  "\<exists>st'. initializeErrorField next_address (\<lambda>m. None) failing_bmc = Inr (True, st')
     \<and> (5, mError st', AssignTransition True_lit [VarAssign (mErrorFieldVariable st') (BvLit (APInt 16 7))]) \<in> snd ` arcs (bRoot st')"
proof -
  have f: "codes_typed (bRoot failing_bmc) (BvType 16)" "5 \<in> set (mNodes (bRoot failing_bmc))" "isError (bRoot failing_bmc) 5"
    "Suc (mLocationIdx (bRoot failing_bmc)) < 2 ^ 32" "mErrorFieldExprs (bRoot failing_bmc) 5 = Some (BvLit (APInt 16 7))"
    by (simp_all add: failing_bmc_def failing_root_def codes_typed_def isError_def createErrorLocation_def Let_def createNode_def
        Cfa_new_def createLocation_def empty_cfa_def u32_def)
  obtain st' where r: "initializeErrorField next_address (\<lambda>m. None) failing_bmc = Inr (True, st')"
    "added (bRoot failing_bmc) (bRoot st') (insert (mError st', mExit (bRoot failing_bmc), AssignTransition False_lit [])
        (error_arcs (bRoot failing_bmc) (mError st') (mErrorFieldVariable st') (\<lambda>l. l) (mNodes (bRoot failing_bmc))))"
    using goal_spec [OF failing_room next_address_fresh f(4) f(1-3), of "\<lambda>m. None"] by (elim exE conjE) (rule that)
  have "(5, mError st', AssignTransition True_lit [VarAssign (mErrorFieldVariable st') (BvLit (APInt 16 7))])
      \<in> snd ` (arcs (bRoot st') - arcs (bRoot failing_bmc))"
    using r(2) f(2,3,5) by (auto simp: added_def error_arcs_def)
  then show ?thesis using r(1) by blast
qed

section \<open>The dummy goal\<close>

text \<open>The arcs of a root with a dummy goal, and the locations that reach it.\<close>

lemma dummy_visits:
  assumes "\<And>e s t tr. (e, s, t, tr) \<in> arcs c \<Longrightarrow>
      (s = entry \<and> t = err) \<or> (s = err \<and> t = exit) \<or> (t \<noteq> entry \<and> t \<noteq> err)"
  shows "(l, err) \<in> (edge_rel c)\<^sup>* \<Longrightarrow> l = err \<or> l = entry"
proof (induction rule: converse_rtrancl_induct)
  case (step u v)
  then obtain e tr where "(e, u, v, tr) \<in> arcs c" by (auto simp: edge_rel_arcs)
  from assms [OF this] step(3) show ?case by auto
qed simp

lemma dummy_goal_created:
  assumes "table_room 1 (bRoot st) (bTable st)" and "fresh_alloc alloc" and "Suc (mLocationIdx (bRoot st)) < 2 ^ 32"
    and "\<forall>l \<in> set (mNodes (bRoot st)). \<not> isError (bRoot st) l"
    and "other_error_type first (bSystem st) (mAutomata (bSystem st)) = Some (BvType 16)"
  obtains st' where "initializeErrorField alloc first st = Inr (True, st')" "graph_ok (bRoot st')"
    "mError st' \<notin> set (mNodes (bRoot st))" "mExit (bRoot st') = mExit (bRoot st)"
    "snd ` arcs (bRoot st') = insert (mError st', mExit (bRoot st), AssignTransition False_lit [])
       (insert (mEntry (bRoot st), mError st', AssignTransition False_lit [VarAssign (mErrorFieldVariable st') (BvLit (APInt 16 0))])
         (snd ` arcs (bRoot st)))"
proof -
  define err where "err = alloc (mNodes (bRoot st))"
  define st1 where "st1 = st\<lparr>bRoot := createErrorLocation err (bRoot st), mError := err\<rparr>"
  have none: "filter (isError (bRoot st)) (mNodes (bRoot st)) = []" using assms(4) by (simp add: filter_empty_conv)
  obtain v root tbl where g: "created_local ''__error_field'' (BvType 16) st1 = Inr (v, st1\<lparr>bRoot := root, bTable := tbl\<rparr>)"
    "var_type v = BvType 16" "cfa_ok root tbl" "err \<notin> set (mNodes (bRoot st))" "mNodes root = mNodes (bRoot st) @ [err]"
    "mEntry root = mEntry (bRoot st)" "mExit root = mExit (bRoot st)" "arcs root = arcs (bRoot st)"
    by (rule goal_created [OF assms(1-3) err_def st1_def, where t = "BvType 16"])
  define st3 where "st3 = st1\<lparr>bRoot := root, bTable := tbl, mErrorFieldVariable := v\<rparr>"
  have st3: "bRoot st3 = root" "bTable st3 = tbl" "mError st3 = err" "mErrorFieldVariable st3 = v" by (simp_all add: st3_def st1_def)
  let ?a = "(mEntry (bRoot st), err, AssignTransition False_lit [VarAssign v (BvLit (APInt 16 0))])"
  have in3: "mEntry (bRoot st) \<in> set (mNodes (bRoot st3))" "mExit (bRoot st) \<in> set (mNodes (bRoot st3))" "err \<in> set (mNodes (bRoot st3))"
    using g(5) st3 assms(1) by (auto simp: table_room_def cfa_ok_def locations_ok_def)
  have "extended st3 {} st3" using g(3) st3 by (intro extended_start) simp
  from extended_add [OF this assms(2) in3(1,3), of False_lit "[VarAssign v (BvLit (APInt 16 0))]"] obtain st4 where
    4: "add_assign alloc (mEntry (bRoot st)) err False_lit [VarAssign v (BvLit (APInt 16 0))] st3 = Inr st4" "extended st3 {?a} st4" by auto
  from extended_add [OF 4(2) assms(2) in3(3,2), of False_lit "[]"] obtain st5 where
    5: "add_assign alloc err (mExit (bRoot st)) False_lit [] st4 = Inr st5"
      "extended st3 (insert (err, mExit (bRoot st), AssignTransition False_lit []) {?a}) st5" by auto
  have exit: "mExit (bRoot st4) = mExit (bRoot st)" using 4(2) g(7) st3 by (simp add: extended_def)
  have run: "initializeErrorField alloc first st = Inr (True, st5)"
    using 4(1) 5(1) exit g(1,2,6) assms(5) none
    by (simp add: initializeErrorField_def VariableAssignment_Create_def err_def [symmetric] st1_def [symmetric] st3_def [symmetric] st3 Let_def)
  have f: "mError st5 = err" "mErrorFieldVariable st5 = v"
    using 5(2) st3 unfolding extended_def by (metis bmc.surjective bmc.update_convs(3) bmc.select_convs(7,8))+
  have "snd ` arcs (bRoot st5) = insert (err, mExit (bRoot st), AssignTransition False_lit []) (insert ?a (snd ` arcs (bRoot st)))"
  proof -
    have "arcs (bRoot st5) = arcs (bRoot st) \<union> (arcs (bRoot st5) - arcs (bRoot st))"
      using 5(2) g(8) st3 by (auto simp: extended_def added_def)
    then have "snd ` arcs (bRoot st5) = snd ` arcs (bRoot st) \<union> snd ` (arcs (bRoot st5) - arcs (bRoot st))" by (metis image_Un)
    then show ?thesis using 5(2) g(8) st3 by (auto simp: extended_def added_def)
  qed
  with run f g(4,7) 5(2) st3 show thesis by (intro that [of st5]) (auto simp: extended_def cfa_ok_def)
qed

text \<open>
  C33: for a root without error locations, whose system has errors elsewhere, the goal is a dummy. If
  the type of the error codes is not the 16-bit one, \<open>initializeErrorField\<close> fails, because the code of
  the dummy is a 16-bit literal. Otherwise it returns. If in addition no transition of the root leads to its entry or leaves its exit,
  then after \<open>removeIrrelevantLocations\<close> only transitions from the entry to the goal, from the goal to the exit and directly from
  the entry to the exit are left: every call that passes another location is removed, and the errors of the automata called there are
  not found; a call that leads directly from the entry to the exit stays.
\<close>

theorem dummy_goal_drops_calls:
  assumes "table_room 1 (bRoot st) (bTable st)" and "fresh_alloc alloc" and "Suc (mLocationIdx (bRoot st)) < 2 ^ 32"
    and "\<forall>l \<in> set (mNodes (bRoot st)). \<not> isError (bRoot st) l"
    and "other_error_type first (bSystem st) (mAutomata (bSystem st)) = Some T"
    and "\<forall>(e, s, t, tr) \<in> arcs (bRoot st). t \<noteq> mEntry (bRoot st) \<and> s \<noteq> mExit (bRoot st)"
  shows "(\<not> type_equals T (BvType 16) \<longrightarrow> initializeErrorField alloc first st = Inl AssertFail)
    \<and> (T = BvType 16 \<longrightarrow> (\<exists>st'. initializeErrorField alloc first st = Inr (True, st')
         \<and> (\<forall>visited. idf_visits st' visited \<longrightarrow>
              (\<exists>root. removeIrrelevantLocations visited st' = Inr (st'\<lparr>bRoot := root\<rparr>)
                 \<and> (\<forall>(e, s, t, tr) \<in> arcs root. (s, t) \<in> {(mEntry (bRoot st), mError st'), (mError st', mExit (bRoot st)),
                      (mEntry (bRoot st), mExit (bRoot st))})))))"
proof (intro conjI impI)
  assume ty: "\<not> type_equals T (BvType 16)"
  define err where "err = alloc (mNodes (bRoot st))"
  define st1 where "st1 = st\<lparr>bRoot := createErrorLocation err (bRoot st), mError := err\<rparr>"
  obtain v root tbl where "created_local ''__error_field'' T st1 = Inr (v, st1\<lparr>bRoot := root, bTable := tbl\<rparr>)" "var_type v = T"
    by (rule goal_created [OF assms(1-3) err_def st1_def, where t = T])
  moreover have "filter (isError (bRoot st)) (mNodes (bRoot st)) = []" using assms(4) by (simp add: filter_empty_conv)
  ultimately show "initializeErrorField alloc first st = Inl AssertFail"
    using assms(5) ty by (simp add: initializeErrorField_def VariableAssignment_Create_def err_def [symmetric] st1_def [symmetric] Let_def)
next
  assume "T = BvType 16"
  with assms(5) have "other_error_type first (bSystem st) (mAutomata (bSystem st)) = Some (BvType 16)" by simp
  then obtain st' where c: "initializeErrorField alloc first st = Inr (True, st')" "graph_ok (bRoot st')"
    "mError st' \<notin> set (mNodes (bRoot st))" "mExit (bRoot st') = mExit (bRoot st)"
    "snd ` arcs (bRoot st') = insert (mError st', mExit (bRoot st), AssignTransition False_lit [])
       (insert (mEntry (bRoot st), mError st', AssignTransition False_lit [VarAssign (mErrorFieldVariable st') (BvLit (APInt 16 0))])
         (snd ` arcs (bRoot st)))"
    by (rule dummy_goal_created [OF assms(1-4)])
  have old: "s \<in> set (mNodes (bRoot st)) \<and> t \<in> set (mNodes (bRoot st))" if "(e, s, t, tr) \<in> arcs (bRoot st)" for e s t tr
    using that assms(1) by (auto simp: arcs_def table_room_def cfa_ok_def dest: graph_okD(7,8))
  have dir: "t \<noteq> mEntry (bRoot st) \<and> s \<noteq> mExit (bRoot st)" if "(e, s, t, tr) \<in> arcs (bRoot st)" for e s t tr
    using that assms(6) by fast
  have cases: "(s = mEntry (bRoot st) \<and> t = mError st') \<or> (s = mError st' \<and> t = mExit (bRoot st)) \<or>
      (t \<noteq> mEntry (bRoot st) \<and> t \<noteq> mError st' \<and> s \<noteq> mExit (bRoot st) \<and> s \<noteq> mError st')"
    if "(e, s, t, tr) \<in> arcs (bRoot st')" for e s t tr
  proof -
    have "(s, t, tr) \<in> snd ` arcs (bRoot st')" using that by force
    then show ?thesis unfolding c(5) using old dir c(3) by fastforce
  qed
  have "\<exists>root. removeIrrelevantLocations visited st' = Inr (st'\<lparr>bRoot := root\<rparr>)
     \<and> (\<forall>(e, s, t, tr) \<in> arcs root. (s, t) \<in> {(mEntry (bRoot st), mError st'), (mError st', mExit (bRoot st)),
          (mEntry (bRoot st), mExit (bRoot st))})" if "idf_visits st' visited" for visited
  proof -
    obtain root where r: "removeIrrelevantLocations visited st' = Inr (st'\<lparr>bRoot := root\<rparr>)"
      "arcs root = {(e, s, t, tr) \<in> arcs (bRoot st'). (visited s \<or> s = mExit (bRoot st')) \<and> (visited t \<or> t = mExit (bRoot st'))}"
      by (rule removeIrrelevant_arcs [OF c(2)])
    have "l = mError st' \<or> l = mEntry (bRoot st)" if "visited l" for l
      using that \<open>idf_visits st' visited\<close> dummy_visits [of "bRoot st'" "mEntry (bRoot st)" "mError st'" "mExit (bRoot st)" l] cases
      unfolding idf_visits_def by blast
    then have "(s, t) \<in> {(mEntry (bRoot st), mError st'), (mError st', mExit (bRoot st)), (mEntry (bRoot st), mExit (bRoot st))}"
      if "(e, s, t, tr) \<in> arcs root" for e s t tr
      using that cases [of e s t tr] unfolding r(2) c(4) by auto
    with r(1) show ?thesis by blast
  qed
  with c(1) show "\<exists>st'. initializeErrorField alloc first st = Inr (True, st')
         \<and> (\<forall>visited. idf_visits st' visited \<longrightarrow>
              (\<exists>root. removeIrrelevantLocations visited st' = Inr (st'\<lparr>bRoot := root\<rparr>)
                 \<and> (\<forall>(e, s, t, tr) \<in> arcs root. (s, t) \<in> {(mEntry (bRoot st), mError st'), (mError st', mExit (bRoot st)),
                      (mEntry (bRoot st), mExit (bRoot st))})))" by blast
qed

text \<open>A root that only calls the automaton with the error location: the call is removed.\<close>

definition quiet_root :: cfa where
  "quiet_root = addTransition 11 5 4 (AssignTransition True_lit []) (addTransition 10 3 5 (CallTransition True_lit 100 [] [])
     (createLocation 5 (Cfa_new ''main'' 3 4)))"

definition quiet_bmc :: bmc where
  "quiet_bmc = sample_bmc\<lparr>bRoot := quiet_root,
     bSystem := \<lparr>mAutomata = [99, 100], mCfa = (\<lambda>_. quiet_root)(100 := failing_root), mMainAutomaton = Some 99\<rparr>\<rparr>"

definition first_key :: "(nat \<rightharpoonup> expr) \<Rightarrow> nat option" where
  "first_key m = (if m 5 = None then None else Some 5)"

lemma quiet_arcs: "arcs quiet_root = {(11, 5, 4, AssignTransition True_lit []), (10, 3, 5, CallTransition True_lit 100 [] [])}"
  unfolding quiet_root_def by (simp add: arcs_addTransition)

lemma quiet_room: "table_room 1 (bRoot quiet_bmc) (bTable quiet_bmc)"
proof -
  have "cfa_ok (Cfa_new ''main'' 3 4) [''f/x'' \<mapsto> x_var, ''f/y'' \<mapsto> y_var]" using Cfa_new_ok [of 3 4] sample_table_ok by simp
  then have "cfa_ok quiet_root [''f/x'' \<mapsto> x_var, ''f/y'' \<mapsto> y_var]"
    unfolding quiet_root_def by (intro addTransition_ok createLocation_ok) simp_all
  then show ?thesis by (simp add: table_room_def quiet_bmc_def sample_bmc_def quiet_root_def)
qed

theorem dummy_goal_drops_calls_witness:
  "\<exists>st' visited root. initializeErrorField next_address first_key quiet_bmc = Inr (True, st') \<and> idf_visits st' visited
     \<and> removeIrrelevantLocations visited st' = Inr (st'\<lparr>bRoot := root\<rparr>) \<and> 5 \<notin> fst ` snd ` arcs root"
proof -
  have q: "mEntry quiet_root = 3" "mExit quiet_root = 4" "mNodes quiet_root = [3, 4, 5]" "mLocationIdx quiet_root = 3"
    "\<not> isError quiet_root l" "mErrorFieldExprs quiet_root = Map.empty" for l
    by (simp_all add: quiet_root_def addTransition_def createEdge_def createLocation_def createNode_def Cfa_new_def empty_cfa_def
        Let_def isError_def u32_def)
  have b: "bRoot quiet_bmc = quiet_root" by (simp add: quiet_bmc_def)
  have "mErrorFieldExprs failing_root = [5 \<mapsto> BvLit (APInt 16 7)]" by (simp add: failing_root_def)
  then have "other_error_type first_key (bSystem quiet_bmc) (mAutomata (bSystem quiet_bmc)) = Some (BvType 16)"
    by (simp add: quiet_bmc_def q first_key_def)
  note t = this
  have h: "Suc (mLocationIdx (bRoot quiet_bmc)) < 2 ^ 32" "\<forall>l \<in> set (mNodes (bRoot quiet_bmc)). \<not> isError (bRoot quiet_bmc) l"
    "\<forall>(e, s, t, tr) \<in> arcs (bRoot quiet_bmc). t \<noteq> mEntry (bRoot quiet_bmc) \<and> s \<noteq> mExit (bRoot quiet_bmc)"
    unfolding b by (auto simp: q quiet_arcs)
  note d = conjunct2 [OF dummy_goal_drops_calls [OF quiet_room next_address_fresh h(1,2) t h(3)], THEN mp, OF refl, unfolded b q]
  from d obtain st' where
    st': "initializeErrorField next_address first_key quiet_bmc = Inr (True, st')"
    "\<forall>visited. idf_visits st' visited \<longrightarrow> (\<exists>root. removeIrrelevantLocations visited st' = Inr (st'\<lparr>bRoot := root\<rparr>)
        \<and> (\<forall>(e, s, t, tr) \<in> arcs root. (s, t) \<in> {(3, mError st'), (mError st', 4), (3, 4)}))"
    by (elim exE conjE) (rule that)
  let ?v = "\<lambda>l. (l, mError st') \<in> (edge_rel (bRoot st'))\<^sup>*"
  have v: "idf_visits st' ?v" by (simp add: idf_visits_def)
  have "mError st' \<noteq> 5"
    by (rule dummy_goal_created [OF quiet_room next_address_fresh, where first = first_key])
      (use st'(1) t in \<open>auto simp: b q\<close>)
  with st'(2) [rule_format, OF v] obtain root where "removeIrrelevantLocations ?v st' = Inr (st'\<lparr>bRoot := root\<rparr>)" "5 \<notin> fst ` snd ` arcs root" by fastforce
  with st'(1) v show ?thesis by (intro exI conjI)
qed

end
