(* ===== verification/GazerBmcCex.thy ===== *)
theory GazerBmcCex
  imports GazerBmcGoal
begin

text \<open>
  Counterexamples of the bounded model checker. The iterator over a counterexample goes back from the
  goal: the expression that the path condition stored for a location evaluates to the number of the
  predecessor, the location is found by its number and the transition by its source. For a model of
  the path condition this ends and yields the locations of a path on which the transitions hold; the
  transition it reports is the first one between the two locations.
\<close>

text \<open>The states of a counterexample from a location back to the start: each transition connects the
  locations, and one between them holds.\<close>

fun cex_path :: "cfa \<Rightarrow> (nat \<Rightarrow> nat \<Rightarrow> bool) \<Rightarrow> nat \<Rightarrow> (nat \<times> nat) list \<Rightarrow> nat \<Rightarrow> bool" where
  "cex_path c ok v [] s = (v = s)"
| "cex_path c ok v ((u, e) # xs) s = (e \<in> set (mIncoming c v) \<and> mSource c e = Some u
     \<and> (\<exists>e' \<in> set (mIncoming c v). mSource c e' = Some u \<and> ok v e') \<and> cex_path c ok u xs s)"

definition ids_ok :: "cfa \<Rightarrow> nat list \<Rightarrow> bool" where
  "ids_ok c topo \<longleftrightarrow> (\<forall>u \<in> set topo. findLocationById c (mID c u) = Some u \<and> mID c u < 2 ^ 32)"

lemma cex_advance_step:
  assumes "preds v = Some x" and "ev x = Inr (ALit (IntLiteral (int (mID c u))))"
    and "findLocationById c (mID c u) = Some u" "mID c u < 2 ^ 32"
    and "e' \<in> set (mIncoming c v)" "mSource c e' = Some u"
  shows "\<exists>e. cex_advance preds ev c v = Inr (Some (u, e)) \<and> e \<in> set (mIncoming c v) \<and> mSource c e = Some u"
proof -
  have id: "u32 (nat (int (mID c u) mod 2 ^ 64)) = mID c u" using assms(4) by (simp add: u32_def nat_mod_distrib)
  obtain e where e: "find (\<lambda>e. mSource c e = Some u) (mIncoming c v) = Some e"
    using assms(5,6) by (metis (mono_tags, lifting) find_None_iff2 not_Some_eq)
  then have "e \<in> set (mIncoming c v)" "mSource c e = Some u" by (auto simp: find_Some_iff)
  then show ?thesis using e assms(1-3) id by (simp add: cex_advance_def check_def)
qed

lemma cex_walk:
  assumes t: "topo_ok c topo index" and ids: "ids_ok c topo" and start: "preds s = None"
    and preds: "\<And>u e v. path_by c ok s u \<Longrightarrow> e \<in> set (mIncoming c v) \<Longrightarrow> mSource c e = Some u \<Longrightarrow> ok v e \<Longrightarrow> v \<in> set topo \<Longrightarrow>
        index v \<le> m \<Longrightarrow> index s < index v \<Longrightarrow> \<exists>x. preds v = Some x \<and> ev x = Inr (ALit (IntLiteral (int (mID c u))))"
    and p: "path_by c ok s v" and v: "v \<in> set topo" "index v \<le> m"
  shows "\<exists>xs. cex_from preds ev c v = Some (Inr xs) \<and> cex_path c ok v xs s"
  using p v
proof (induction rule: path_by.induct)
  case path_refl
  then show ?case using start by (simp add: cex_from.simps cex_advance_def)
next
  case (path_step u e v)
  obtain u' where u: "mSource c e = Some u'" "u' \<in> set topo" "index u' < index v"
    using topo_source [OF t path_step.prems(1) path_step.hyps(2)] by blast
  then have u': "u' = u" "u \<in> set topo" "index u \<le> m" using path_step by auto
  have "index s \<le> index u" using path_in_topo [OF t path_step.hyps(1) u'(2)] by blast
  then have "index s < index v" using u(3) u' by simp
  from preds [OF path_step.hyps path_step.prems this] obtain x where
    x: "preds v = Some x" "ev x = Inr (ALit (IntLiteral (int (mID c u))))" by blast
  have "findLocationById c (mID c u) = Some u" "mID c u < 2 ^ 32" using ids u'(2) by (auto simp: ids_ok_def)
  from cex_advance_step [where preds = preds and ev = ev, OF x this path_step.hyps(2,3)] obtain e2 where
    e2: "cex_advance preds ev c v = Inr (Some (u, e2))" "e2 \<in> set (mIncoming c v)" "mSource c e2 = Some u" by blast
  from path_step.IH [OF u'(2,3)] obtain xs where "cex_from preds ev c u = Some (Inr xs)" "cex_path c ok u xs s" by blast
  then show ?case using e2 path_step.hyps
    by (intro exI [of _ "(u, e2) # xs"]) (subst cex_from.simps, auto)
qed

text \<open>What the path condition stores, for a valuation under which it is true.\<close>

lemma stored_predecessors:
  assumes en: "encodable L \<sigma> calls c topo index source target st" and ok: "calls_ok L \<sigma> c topo index (index source) n new"
    and keys: "fst ` set new = {l \<in> (\<lambda>j. topo ! (j + index source)) ` {1..<index target - index source + 1}.
         region c index (index source) l \<noteq> []}"
  shows "map_of (rev new) source = None"
    and "path_by c ok' source u \<Longrightarrow> e \<in> set (mIncoming c v) \<Longrightarrow> mSource c e = Some u \<Longrightarrow>
      takes True L \<sigma> calls c topo index (index source) n v e \<Longrightarrow> v \<in> set topo \<Longrightarrow> index v \<le> index target \<Longrightarrow> index source < index v \<Longrightarrow>
      \<exists>x. map_of (rev new) v = Some x \<and> eval L \<sigma> x = Inr (ALit (IntLiteral (int (mID c u))))"
proof -
  have t: "topo_ok c topo index" "index source < length topo" "index target < length topo" "topo ! index source = source"
    using en topo_nth by (auto simp: encodable_def)
  have "source \<notin> fst ` set new"
  proof
    assume "source \<in> fst ` set new"
    then obtain j where "1 \<le> j" "j + index source \<le> index target" "source = topo ! (j + index source)" unfolding keys by auto
    moreover have "index (topo ! (j + index source)) = j + index source" using t calculation(2) by (simp add: topo_ok_def)
    ultimately show False by simp
  qed
  then show "map_of (rev new) source = None" by (simp add: map_of_eq_None_iff)
  assume p: "path_by c ok' source u" "e \<in> set (mIncoming c v)" "mSource c e = Some u"
    "takes True L \<sigma> calls c topo index (index source) n v e" "v \<in> set topo" "index v \<le> index target" "index source < index v"
  have "u \<in> set topo" using topo_source [OF t(1) p(5,2)] p(3) by auto
  then have "index source \<le> index u" using path_in_topo [OF t(1) p(1)] by blast
  then have reg: "e \<in> set (region c index (index source) v)" using p(2,3) by (simp add: region_def)
  have "v = topo ! ((index v - index source) + index source)" using topo_nth [OF t(1) p(5)] p(7) by simp
  then have "v \<in> (\<lambda>j. topo ! (j + index source)) ` {1..<index target - index source + 1}"
    by (rule image_eqI) (use p(6,7) in auto)
  then have "v \<in> fst ` set new" unfolding keys using reg by auto
  then obtain x where x: "map_of (rev new) v = Some x"
    by (metis map_of_eq_None_iff not_Some_eq set_rev rev_map set_map)
  then have "(v, x) \<in> set new" using map_of_SomeD [of "rev new" v x] by simp
  then have "has_val L \<sigma> x (IntLiteral (int (mID c (the (mSource c e)))))"
    using ok reg p(4) unfolding calls_ok_def takes_def by fast
  then show "\<exists>x. map_of (rev new) v = Some x \<and> eval L \<sigma> x = Inr (ALit (IntLiteral (int (mID c u))))"
    using x p(3) by (auto simp: has_val_def)
qed

text \<open>
  C8: a model of the path condition from the source to the target gives a counterexample. The
  predecessors that \<open>encode\<close> stores in a new scope of the cache let the iterator go back from the
  target; it ends at the source without a failed assertion, and the locations it passes are those of a
  path on which all transitions hold.
\<close>

theorem counterexample_of_model:
  assumes "trackable L \<sigma> calls c topo index source target st" and "ids_ok c topo" and "mPredCalls st = []"
    and "same_program \<sigma> \<sigma>'" "valuation_ok \<sigma>'" "disc_ok \<sigma>'"
    and "encode (folding_builder L) calls True c topo index source target st = Inr (f, st')" and "bool_val L \<sigma>' f True"
  shows "\<exists>xs. cex_from (cache_get (insert_all (mPredCalls st') (cache_push cache_new))) (eval L \<sigma>') c target = Some (Inr xs)
    \<and> cex_path c (\<lambda>v. transition_holds L \<sigma> calls c) target xs source"
proof -
  let ?ok = "takes True L \<sigma>' calls c topo index (index source) (mPredIdx st)"
  from encode_tracked [OF folding_paths.path_builder_axioms assms(1,4-6)] assms(3,7) obtain new where
    n: "bool_val L \<sigma>' f (path_by c ?ok source target)" "mPredCalls st' = new"
      "calls_ok L \<sigma>' c topo index (index source) (mPredIdx st) new"
      "fst ` set new = {l \<in> (\<lambda>j. topo ! (j + index source)) ` {1..<index target - index source + 1}.
         region c index (index source) l \<noteq> []}" by auto
  have path: "path_by c ?ok source target" using n(1) assms(8) has_val_unique by fastforce
  have en: "encodable L \<sigma>' calls c topo index source target st" using assms(1,4,5) unfolding trackable_def by blast
  then have t: "topo_ok c topo index" "target \<in> set topo" by (simp_all add: encodable_def)
  have cache: "cache_get (insert_all (mPredCalls st') (cache_push cache_new)) = map_of (rev new)"
    by (auto simp: n(2) cache_push_def cache_new_def insert_all_top fun_eq_iff split: option.splits)
  note s = stored_predecessors(1) [OF en n(3,4)] stored_predecessors(2) [where ok' = ?ok, OF en n(3,4)]
  have "\<exists>xs. cex_from (map_of (rev new)) (eval L \<sigma>') c target = Some (Inr xs) \<and> cex_path c ?ok target xs source"
  proof (rule cex_walk [where m = "index target", OF t(1) assms(2)])
    show "map_of (rev new) source = None" by (rule s(1))
  qed (use path t(2) s(2) in auto)
  then obtain xs where xs: "cex_from (map_of (rev new)) (eval L \<sigma>') c target = Some (Inr xs)" "cex_path c ?ok target xs source"
    by blast
  have "?ok v e \<Longrightarrow> transition_holds L \<sigma> calls c e" for v e
    using assms(1,4) by (simp add: takes_def trackable_def)
  then have "cex_path c ?ok v ys s \<Longrightarrow> cex_path c (\<lambda>v. transition_holds L \<sigma> calls c) v ys s" for v ys s
    by (induction c ?ok v ys s rule: cex_path.induct) auto
  with xs show ?thesis unfolding cache by blast
qed

lemma two_edges_ids: "ids_ok two_edges [3, 4]"
  by (simp add: ids_ok_def findLocationById_def two_edges_def addTransition_def createEdge_def Cfa_new_def createLocation_def
      createNode_def empty_cfa_def Let_def u32_def)

theorem counterexample_of_model_witness:
  "\<exists>f st' \<sigma>' xs. encode (folding_builder doc_llvm) (\<lambda>e. True_lit) True two_edges [3, 4] (\<lambda>l. l - 3) 3 4 new_pcc = Inr (f, st')
     \<and> cex_from (cache_get (insert_all (mPredCalls st') (cache_push cache_new))) (eval doc_llvm \<sigma>') two_edges 4 = Some (Inr xs)
     \<and> cex_path two_edges (\<lambda>v. transition_holds doc_llvm p_valuation (\<lambda>e. True_lit) two_edges) 4 xs 3"
proof -
  from encode_sat [OF folding_paths.path_builder_axioms two_edges_trackable] two_edges_path [of "\<lambda>e. True_lit"]
  obtain f st' \<sigma>' where e: "encode (folding_builder doc_llvm) (\<lambda>e. True_lit) True two_edges [3, 4] (\<lambda>l. l - 3) 3 4 new_pcc = Inr (f, st')"
    "same_program p_valuation \<sigma>'" "disc_ok \<sigma>'" "bool_val doc_llvm \<sigma>' f True" by blast
  have "mPredCalls new_pcc = []" by (simp add: new_pcc_def)
  from counterexample_of_model [OF two_edges_trackable two_edges_ids this e(2) has_val_laws(2) [OF e(4)] e(3,1,4)] e(1)
  show ?thesis by blast
qed

text \<open>The reported transition is the first one with the right source, although only the second one holds.\<close>

lemma cex_parallel_transitions:
  assumes "preds 4 = Some (IntLit 0)" and "\<sigma> (Variable ''p'' BoolType) = Some (BoolLiteral False)"
  shows "cex_advance preds (eval L \<sigma>) two_edges 4 = Inr (Some (3, 10)) \<and> \<not> transition_holds L \<sigma> calls two_edges 10"
proof -
  have "findLocationById two_edges 0 = Some 3" using two_edges_ids
    by (simp add: ids_ok_def findLocationById_def two_edges_def addTransition_def createEdge_def Cfa_new_def createLocation_def
      createNode_def empty_cfa_def Let_def u32_def)
  then show ?thesis using assms
    by (simp add: cex_advance_def check_def two_edges_simps u32_def transition_holds_def getVariableValue_def)
qed

end
