(* ===== verification/GazerBmcCheck.thy ===== *)
theory GazerBmcCheck
  imports GazerBmcCex
begin

text \<open>
  The search of the bounded model checker: \<open>BoundedModelCheckerImpl::check\<close>, \<open>createFailResult\<close> and the solver
  as they use it (\<^verbatim>\<open>tools/gazer-bmc/Verifier/BoundedModelChecker.cpp\<close>, \<^verbatim>\<open>BmcTrace.cpp\<close>,
  \<^verbatim>\<open>include/gazer/Core/Solver/Solver.h\<close>), with the verdicts of \<^verbatim>\<open>Trace/VerificationResult.h\<close>.

  The environment collects what is not part of the repository or of no concern to the search: the
  addresses of new objects, LLVM's iterators, the order of a hash set, the answers of the solver for
  a stack of assertions, and the builder. Times and messages are left out.
\<close>

section \<open>Verdicts, settings and the solver\<close>

datatype verification_result =
    Success
  | Fail (getErrorID: nat) (getTrace: "nat list \<times> (variable \<times> atomic) list list")
  | Timeout
  | Unknown
  | BoundReached
  | InternalError string

definition CreateFail :: "int \<Rightarrow> nat list \<times> (variable \<times> atomic) list list \<Rightarrow> verification_result" where
  "CreateFail ec trace = Fail (nat (ec mod 2 ^ 32)) trace"

datatype solver_status = SAT | UNSAT | UNKNOWN

record bmc_settings =
  sTrace :: bool
  maxBound :: nat
  eagerUnroll :: nat
  noDomPush :: bool
  noPostDomPush :: bool
  simplifyExpr :: bool

record bmc_env =
  eAlloc :: "nat list \<Rightarrow> nat"
  eFirst :: "(nat \<rightharpoonup> expr) \<Rightarrow> nat option"
  eVisited :: "cfa \<Rightarrow> nat \<Rightarrow> nat \<Rightarrow> bool"
  ePostOrder :: "cfa \<Rightarrow> nat list"
  eSetOrder :: "nat list \<Rightarrow> nat list"
  eRun :: "expr list list \<Rightarrow> solver_status"
  eModel :: "expr list list \<Rightarrow> expr \<Rightarrow> atomic res"
  eBuilder :: expr_builder
  eApi :: llvm_api

record bmc_stats =
  NumInlined :: nat
  NumBeginLocs :: nat
  NumEndLocs :: nat
  NumBeginLocals :: nat
  NumEndLocals :: nat

text \<open>The state of a run: the assertions of the solver by scope, the innermost first, the stored
  predecessors, the open calls, the counter of the path conditions and that of the inlined calls.\<close>

record checker =
  cBmc :: bmc
  mSolver :: "expr list list"
  mPredecessors :: "(nat, expr) scoped_cache"
  mOpenCalls :: "nat list"
  cPredIdx :: nat
  cTmp :: nat
  mStats :: bmc_stats

definition solver_add :: "expr \<Rightarrow> checker \<Rightarrow> checker res" where
  "solver_add f st = check (isBoolType (getType f)) AssertFail
     (Inr (st\<lparr>mSolver := (case mSolver st of [] \<Rightarrow> [[f]] | s # ss \<Rightarrow> (s @ [f]) # ss)\<rparr>))"

definition push :: "checker \<Rightarrow> checker" where
  "push st = st\<lparr>mSolver := [] # mSolver st, mPredecessors := cache_push (mPredecessors st)\<rparr>"

definition pop :: "checker \<Rightarrow> checker res" where
  "pop st = rbind (cache_pop (mPredecessors st)) (\<lambda>c. Inr (st\<lparr>mPredecessors := c, mSolver := tl (mSolver st)\<rparr>))"

definition runSolver :: "bmc_env \<Rightarrow> checker \<Rightarrow> solver_status" where
  "runSolver E st = eRun E (mSolver st)"

section \<open>Path conditions of the root\<close>

definition call_approx :: "bmc \<Rightarrow> nat \<Rightarrow> expr" where
  "call_approx b e = (case map_of (mCalls b) e of None \<Rightarrow> False_lit | Some i \<Rightarrow> overApprox i)"

text \<open>A call without an entry in \<open>mCalls\<close> would get a null formula.\<close>

definition encode_lookups :: "nat \<Rightarrow> nat \<Rightarrow> bmc \<Rightarrow> bool" where
  "encode_lookups source target b = (source = target \<or> have_numbers b [source, target]
     \<and> ends_have_numbers b (mIncoming (bRoot b)) (mSource (bRoot b)) (loc_number b source) (loc_number b target))"

definition path_condition :: "bmc_env \<Rightarrow> nat \<Rightarrow> nat \<Rightarrow> checker \<Rightarrow> (expr \<times> checker) res" where
  "path_condition E source target st =
     (let b = cBmc st in
      check (encode_lookups source target b) AssertFail
      (check (list_all (\<lambda>e. live (bRoot b) e \<and> isCall (mTransition (bRoot b) e) \<longrightarrow> map_of (mCalls b) e \<noteq> None) (mEdges (bRoot b))) NullDeref
      (rbind (encode (eBuilder E) (call_approx b) True (bRoot b) (mTopo b) (loc_number b) source target
                \<lparr>pVariables = bTable b, mPredIdx = cPredIdx st, mPredCalls = []\<rparr>) (\<lambda>(f, p).
         Inr (f, st\<lparr>cBmc := b\<lparr>bTable := pVariables p\<rparr>, cPredIdx := mPredIdx p,
                     mPredecessors := insert_all (mPredCalls p) (mPredecessors st)\<rparr>)))))"

definition add_path :: "bmc_env \<Rightarrow> nat \<Rightarrow> nat \<Rightarrow> checker \<Rightarrow> checker res" where
  "add_path E source target st = rbind (path_condition E source target st) (\<lambda>(f, st'). solver_add f st')"

section \<open>The failure result\<close>

definition original_location :: "bmc \<Rightarrow> nat \<Rightarrow> nat" where
  "original_location b l = (case mInlinedLocations b l of None \<Rightarrow> l | Some l' \<Rightarrow> l')"

definition original_variable :: "bmc \<Rightarrow> variable \<Rightarrow> variable" where
  "original_variable b v = (case mInlinedVariables b v of None \<Rightarrow> v | Some v' \<Rightarrow> v')"

definition trace_action :: "(expr \<Rightarrow> atomic res) \<Rightarrow> bmc \<Rightarrow> nat \<Rightarrow> (variable \<times> atomic) list res" where
  "trace_action ev b e = check (isAssign (mTransition (bRoot b) e)) AssertFail
     (res_map (\<lambda>a. rbind (ev (VarRefExpr (va_variable a))) (\<lambda>x. Inr (original_variable b (va_variable a), x)))
       (mAssignments (mTransition (bRoot b) e)))"

definition build_trace :: "(expr \<Rightarrow> atomic res) \<Rightarrow> bmc \<Rightarrow> (nat \<times> nat) list \<Rightarrow> (nat list \<times> (variable \<times> atomic) list list) res" where
  "build_trace ev b cex = rbind (res_map (\<lambda>(l, e). trace_action ev b e) cex) (\<lambda>actions.
     Inr (rev (map (original_location b) (mError b # map fst cex)), rev actions))"

definition error_code :: "llvm_api \<Rightarrow> atomic \<Rightarrow> int res" where
  "error_code L a = (case a of AUndef t \<Rightarrow> Inl AssertFail
   | ALit (BvLiteral v) \<Rightarrow> Inr (int (apLimited L v))
   | ALit (IntLiteral v) \<Rightarrow> Inr v
   | ALit _ \<Rightarrow> Inl Unreachable)"

definition createFailResult :: "bmc_env \<Rightarrow> bmc_settings \<Rightarrow> checker \<Rightarrow> verification_result res option" where
  "createFailResult E S st =
     (let b = cBmc st; ev = eModel E (mSolver st) in
      Option.bind (if sTrace S then
             map_option (\<lambda>r. rbind r (build_trace ev b)) (cex_from (cache_get (mPredecessors st)) ev (bRoot b) (mError b))
           else Some (Inr ([], [])))
        (\<lambda>t. Some (rbind t (\<lambda>trace. rbind (ev (VarRefExpr (mErrorFieldVariable b))) (\<lambda>a.
               rbind (error_code (eApi E) a) (\<lambda>ec. Inr (CreateFail ec trace)))))))"

section \<open>Approximation and inlining of calls\<close>

definition approximate :: "(call_info \<Rightarrow> expr) \<Rightarrow> checker \<Rightarrow> checker" where
  "approximate f st = st\<lparr>cBmc := (cBmc st)\<lparr>mCalls := map (\<lambda>(e, i). (e, i\<lparr>overApprox := f i\<rparr>)) (mCalls (cBmc st))\<rparr>\<rparr>"

text \<open>The calls within the bound are opened, the others closed and counted.\<close>

definition open_within :: "nat \<Rightarrow> checker \<Rightarrow> nat list" where
  "open_within bound st = map fst (filter (\<lambda>(e, i). getCost i \<le> bound) (mCalls (cBmc st)))"

definition num_unhandled :: "nat \<Rightarrow> checker \<Rightarrow> nat" where
  "num_unhandled bound st = u32 (length (filter (\<lambda>(e, i). bound < getCost i) (mCalls (cBmc st))))"

definition over_approximate :: "nat \<Rightarrow> checker \<Rightarrow> checker" where
  "over_approximate bound st =
     (approximate (\<lambda>i. if bound < getCost i then False_lit else True_lit) st)\<lparr>mOpenCalls := open_within bound st\<rparr>"

definition inline_one :: "bmc_env \<Rightarrow> nat \<Rightarrow> checker \<Rightarrow> (nat list \<times> checker) res" where
  "inline_one E call st = rbind (inline_call (eAlloc E) (eBuilder E) call (''_call'' @ dec_digits (cTmp st)) (cBmc st)) (\<lambda>(new, b).
     Inr (new, st\<lparr>cBmc := b, cTmp := u32 (Suc (cTmp st))\<rparr>))"

definition call_cost :: "checker \<Rightarrow> nat \<Rightarrow> nat" where
  "call_cost st e = (case map_of (mCalls (cBmc st)) e of None \<Rightarrow> 0 | Some i \<Rightarrow> getCost i)"

text \<open>The worklist of the calls to inline; the last one is taken first.\<close>

partial_function (option) inline_calls :: "bmc_env \<Rightarrow> nat \<Rightarrow> nat list \<Rightarrow> checker \<Rightarrow> checker res option" where
  "inline_calls E bound work st =
     (if work = [] then Some (Inr st)
      else (case inline_one E (last work) (st\<lparr>mStats := (mStats st)\<lparr>NumInlined := u32 (Suc (NumInlined (mStats st)))\<rparr>\<rparr>) of
              Inl err \<Rightarrow> Some (Inl err)
            | Inr (new, st1) \<Rightarrow>
                inline_calls E bound (butlast work @ filter (\<lambda>e. call_cost st1 e \<le> bound) new)
                  (st1\<lparr>mOpenCalls := removeAll (last work) (mOpenCalls st1)\<rparr>)))"

definition clear_root :: "checker \<Rightarrow> checker" where
  "clear_root st = st\<lparr>cBmc := (cBmc st)\<lparr>bRoot := clearDisconnectedElements (bRoot (cBmc st))\<rparr>\<rparr>"

definition end_stats :: "checker \<Rightarrow> checker" where
  "end_stats st = st\<lparr>mStats := (mStats st)\<lparr>NumEndLocs := u32 (length (mNodes (bRoot (cBmc st)))),
     NumEndLocals := u32 (length (mLocals (bRoot (cBmc st))))\<rparr>\<rparr>"

section \<open>One round of the search\<close>

datatype search_step =
    Finished verification_result checker
  | Refined nat nat checker
  | RaiseBound nat nat checker

text \<open>The under-approximation: all calls are replaced by \<open>False\<close>.\<close>

definition under_approximation :: "bmc_env \<Rightarrow> bmc_settings \<Rightarrow> nat \<Rightarrow> nat \<Rightarrow> checker \<Rightarrow> (verification_result option \<times> checker) res option" where
  "under_approximation E S start target st =
     (case path_condition E start target (approximate (\<lambda>i. False_lit) st) of Inl err \<Rightarrow> Some (Inl err)
      | Inr (f, st1) \<Rightarrow> (case solver_add f (push st1) of Inl err \<Rightarrow> Some (Inl err)
          | Inr st2 \<Rightarrow>
             (if runSolver E st2 = SAT then map_option (\<lambda>r. rbind r (\<lambda>res. Inr (Some res, st2))) (createFailResult E S st2)
              else Some (rbind (pop st2) (\<lambda>st3. Inr (None, st3))))))"

text \<open>The new start and target points, in a new scope; \<open>None\<close> if the two parts are inconsistent.\<close>

definition move_points :: "bmc_env \<Rightarrow> bmc_settings \<Rightarrow> nat \<Rightarrow> nat \<Rightarrow> checker \<Rightarrow> ((nat \<times> nat) option \<times> checker) res" where
  "move_points E S start target st =
     rbind (findCommonCallAncestor (noDomPush S) (noPostDomPush S) start target (cBmc st)) (\<lambda>lca.
       (case lca of
          (None, _) \<Rightarrow> Inr (Some (start, target), push st)
        | (Some d, None) \<Rightarrow> Inl AssertFail
        | (Some d, Some p) \<Rightarrow>
            rbind (add_path E start d (push st)) (\<lambda>st1.
            rbind (add_path E p target st1) (\<lambda>st2.
              Inr (if runSolver E st2 = UNSAT then None else Some (d, p), st2)))))"

text \<open>The over-approximation and the refinement of a counterexample by inlining.\<close>

definition over_approximation :: "bmc_env \<Rightarrow> bmc_settings \<Rightarrow> nat \<Rightarrow> nat \<Rightarrow> nat \<Rightarrow> checker \<Rightarrow> search_step res option" where
  "over_approximation E S bound d p st =
     (case add_path E d p (push (over_approximate bound st)) of Inl err \<Rightarrow> Some (Inl err)
      | Inr st1 \<Rightarrow>
         (case runSolver E st1 of
            SAT \<Rightarrow>
              Option.bind (findOpenCallsInCex (cache_get (mPredecessors st1)) (eModel E (mSolver st1)) (mOpenCalls st1) (cBmc st1)) (\<lambda>r.
                (case r of Inl err \<Rightarrow> Some (Inl err)
                 | Inr work \<Rightarrow> map_option (\<lambda>r. rbind r (\<lambda>st2. rbind (pop (end_stats (clear_root st2))) (\<lambda>st3. Inr (Refined d p st3))))
                     (inline_calls E bound work st1)))
          | UNSAT \<Rightarrow>
              Some (if num_unhandled bound st = 0 then Inr (Finished Success (end_stats st1))
                    else if bound = maxBound S then Inr (Finished BoundReached (end_stats st1))
                    else rbind (pop st1) (\<lambda>st2. Inr (RaiseBound d p st2)))
          | UNKNOWN \<Rightarrow> Some (Inl Unreachable)))"

definition search_round :: "bmc_env \<Rightarrow> bmc_settings \<Rightarrow> nat \<Rightarrow> bool \<Rightarrow> nat \<Rightarrow> nat \<Rightarrow> checker \<Rightarrow> search_step res option" where
  "search_round E S bound skip start target st =
     Option.bind (if skip then Some (Inr (None, st)) else under_approximation E S start target st) (\<lambda>u.
       (case u of
          Inl err \<Rightarrow> Some (Inl err)
        | Inr (Some res, st1) \<Rightarrow> Some (Inr (Finished res st1))
        | Inr (None, st1) \<Rightarrow>
            (case move_points E S start target st1 of
               Inl err \<Rightarrow> Some (Inl err)
             | Inr (None, st2) \<Rightarrow> Some (Inr (Finished Success st2))
             | Inr (Some (d, p), st2) \<Rightarrow> over_approximation E S bound d p st2)))"

text \<open>The two nested loops over the bounds and the rounds.\<close>

partial_function (option) search :: "bmc_env \<Rightarrow> bmc_settings \<Rightarrow> nat \<Rightarrow> bool \<Rightarrow> nat \<Rightarrow> nat \<Rightarrow> checker \<Rightarrow>
    (verification_result \<times> checker) res option" where
  "search E S bound skip start target st =
     (if maxBound S < bound then Some (Inr (BoundReached, st))
      else Option.bind (search_round E S bound skip start target st) (\<lambda>r.
        (case r of
           Inl err \<Rightarrow> Some (Inl err)
         | Inr (Finished res st') \<Rightarrow> Some (Inr (res, st'))
         | Inr (Refined d p st') \<Rightarrow> search E S bound False d p st'
         | Inr (RaiseBound d p st') \<Rightarrow> search E S (Suc bound) True d p st')))"

section \<open>The whole run\<close>

definition eager_round :: "bmc_env \<Rightarrow> nat \<Rightarrow> checker \<Rightarrow> checker res" where
  "eager_round E bound st = for_each (\<lambda>call s. rbind (inline_one E call s) (\<lambda>(new, s'). Inr s'))
     (eSetOrder E (open_within bound st)) (st\<lparr>mOpenCalls := open_within bound st\<rparr>)"

definition begin_stats :: "checker \<Rightarrow> checker" where
  "begin_stats st = st\<lparr>mStats := (mStats st)\<lparr>NumBeginLocs := u32 (length (mNodes (bRoot (cBmc st)))),
     NumBeginLocals := u32 (length (mLocals (bRoot (cBmc st))))\<rparr>\<rparr>"

definition BoundedModelCheckerImpl_new :: "automata_system \<Rightarrow> variable_table \<Rightarrow> checker res" where
  "BoundedModelCheckerImpl_new sys tbl = rbind (getMainAutomaton sys) (\<lambda>p.
     Inr \<lparr>cBmc = \<lparr>bSystem = sys, bRootPtr = p, bRoot = mCfa sys p, bTable = tbl, mTopo = [], mLocNumbers = Map.empty,
            mError = 0, mErrorFieldVariable = Variable [] BoolType, mCalls = [], mTopoSortMap = (\<lambda>_. []),
            mInlinedLocations = Map.empty, mInlinedVariables = Map.empty\<rparr>,
          mSolver = [[]], mPredecessors = cache_new, mOpenCalls = [], cPredIdx = 0, cTmp = 0,
          mStats = \<lparr>NumInlined = 0, NumBeginLocs = 0, NumEndLocs = 0, NumBeginLocals = 0, NumEndLocals = 0\<rparr>\<rparr>)"

text \<open>Everything before the search; \<open>None\<close> if there is nothing to verify.\<close>

definition prepare :: "bmc_env \<Rightarrow> checker \<Rightarrow> checker option res" where
  "prepare E st = rbind (initializeErrorField (eAlloc E) (eFirst E) (cBmc st)) (\<lambda>(has, b1).
     if \<not> has then Inr None
     else rbind (removeIrrelevantLocations (eVisited E (bRoot b1) (mError b1)) b1) (\<lambda>b2.
       Inr (Some (st\<lparr>cBmc := initial_calls (createTopologicalSorts (ePostOrder E) b2)\<rparr>))))"

definition bmc_check :: "bmc_env \<Rightarrow> bmc_settings \<Rightarrow> automata_system \<Rightarrow> variable_table \<Rightarrow> (verification_result \<times> checker) res option" where
  "bmc_check E S sys tbl =
     (case BoundedModelCheckerImpl_new sys tbl of Inl err \<Rightarrow> Some (Inl err)
      | Inr st \<Rightarrow> (case prepare E st of Inl err \<Rightarrow> Some (Inl err)
          | Inr None \<Rightarrow> Some (Inr (Success, st))
          | Inr (Some st1) \<Rightarrow>
             (if maxBound S < eagerUnroll S then Some (Inr (Unknown, st1))
              else (case for_each (eager_round E) [1..<Suc (eagerUnroll S)] st1 of Inl err \<Rightarrow> Some (Inl err)
                | Inr st2 \<Rightarrow> search E S (Suc (eagerUnroll S)) False (mEntry (bRoot (cBmc st2))) (mError (cBmc st2)) (begin_stats st2)))))"

definition BoundedModelChecker_check :: "bmc_env \<Rightarrow> bmc_settings \<Rightarrow> automata_system \<Rightarrow> variable_table \<Rightarrow>
    (verification_result \<times> checker) res option" where
  "BoundedModelChecker_check E S sys tbl =
     bmc_check (E\<lparr>eBuilder := (if simplifyExpr S then folding_builder (eApi E) else plain_builder)\<rparr>) S sys tbl"

end
