(* ===== verification/GazerBmcUnroll.thy ===== *)
theory GazerBmcUnroll
  imports GazerBmcCheck
begin

text \<open>
  The bound of the unrolling. The cost of a call is the number of times its automaton occurs in the chain
  of calls that led to it, and only calls within the bound are inlined. The worklist of \<open>check\<close> ends for
  every bound, although an automaton may call itself: a chain holds every automaton at most as often
  as the bound allows, so that the lengths of the chains are bounded, and a weight that is exponential
  in the remaining length decreases with every call that is inlined.
\<close>

section \<open>What inlining does to the list of calls\<close>

lemma bmc_clone_input_grows: "bmc_clone_input callee tr sfx v st = Inr st' \<Longrightarrow> grows (cRoot st) (cRoot st')"
  by (auto simp: bmc_clone_input_def rbind_eq_Inr grows_refl dest!: cloned_local_grows split: if_splits option.splits)

text \<open>The entries of the calls that have been copied: new edges, with the chain of the call that is
  inlined, extended by a callee of the copied automaton.\<close>

definition new_calls_ok :: "cfa \<Rightarrow> cfa \<Rightarrow> nat list \<Rightarrow> cfa \<Rightarrow> (nat \<times> call_info) list \<Rightarrow> bool" where
  "new_calls_ok root0 callee chain root calls \<longleftrightarrow> grows root0 root \<and> distinct (map fst calls)
     \<and> (\<forall>(e, i) \<in> set calls. e \<in> set (mEdges root) - set (mEdges root0) \<and> callChain i = chain @ [mCallee (mTransition root e)]
          \<and> mCallee (mTransition root e) \<in> callees callee)"

lemma new_calls_grow:
  "new_calls_ok root0 callee chain root calls \<Longrightarrow> grows root root' \<Longrightarrow> new_calls_ok root0 callee chain root' calls"
  unfolding new_calls_ok_def by (intro conjI; (elim conjE)?) (rule grows_trans, assumption+, auto simp: grows_def)

lemma bmc_clone_edge_calls:
  assumes "fresh_alloc alloc" and "bmc_clone_edge alloc B sys callee chain x (cl, calls) = Inr (cl', calls')"
    and "x \<in> set (mEdges callee)" and "new_calls_ok root0 callee chain (cRoot cl) calls"
  shows "new_calls_ok root0 callee chain (cRoot cl') calls' \<and> length calls' \<le> Suc (length calls)"
proof (cases "isAssign (mTransition callee x)")
  case True
  then have "grows (cRoot cl) (cRoot cl')" "calls' = calls"
    using assms(2) by (auto simp: bmc_clone_edge_def Let_def rbind_eq_Inr clone_assign_edge_def
        dest: createAssign_grows [OF assms(1)])
  with assms(4) show ?thesis by (simp add: new_calls_grow)
next
  case False
  let ?e = "alloc (mEdges (cRoot cl))" and ?f = "mCallee (mTransition callee x)"
  obtain s t g ins outs where r: "cRoot cl' = addTransition ?e s t (CallTransition g ?f ins outs) (cRoot cl)"
    "calls' = calls @ [(?e, \<lparr>overApprox = False_lit, callChain = chain @ [?f]\<rparr>)]"
    using assms(2) False by (auto simp: bmc_clone_edge_def Let_def rbind_eq_Inr clone_call_edge_def createCallTransition_def check_eq_Inr)
  have e: "?e \<notin> set (mEdges (cRoot cl))" using assms(1) by (simp add: fresh_alloc_def)
  have "new_calls_ok root0 callee chain (cRoot cl') calls" using assms(4) r(1) grows_add [OF e] by (simp add: new_calls_grow)
  moreover have "?e \<notin> fst ` set calls" "?e \<notin> set (mEdges root0)"
    using assms(4) e by (auto simp: new_calls_ok_def grows_def)
  moreover have "?f \<in> callees callee" unfolding callees_def
    using assms(3) False by (intro imageI CollectI conjI) (auto simp: isAssign_def isCall_def split: transition.splits)
  ultimately show ?thesis unfolding r(2) by (simp add: new_calls_ok_def r(1) edges_add)
qed

lemma bmc_clone_edges_calls:
  assumes "fresh_alloc alloc" and "for_each (bmc_clone_edge alloc B sys callee chain) xs (cl, calls) = Inr (cl', calls')"
    and "set xs \<subseteq> set (mEdges callee)" and "new_calls_ok root0 callee chain (cRoot cl) calls"
  shows "new_calls_ok root0 callee chain (cRoot cl') calls' \<and> length calls' \<le> length calls + length xs"
  using assms(2-4)
proof (induction xs arbitrary: cl calls)
  case (Cons x xs)
  then obtain cl1 calls1 where 1: "bmc_clone_edge alloc B sys callee chain x (cl, calls) = Inr (cl1, calls1)"
    "for_each (bmc_clone_edge alloc B sys callee chain) xs (cl1, calls1) = Inr (cl', calls')" by (auto simp: rbind_eq_Inr)
  have "new_calls_ok root0 callee chain (cRoot cl1) calls1 \<and> length calls1 \<le> Suc (length calls)"
    by (rule bmc_clone_edge_calls [OF assms(1) 1(1)]) (use Cons.prems in auto)
  with Cons.IH [OF 1(2)] Cons.prems show ?case by fastforce
qed simp

lemma clone_callee_calls:
  assumes "fresh_alloc alloc" and "clone_callee alloc B tr chain sfx st = Inr (cl, calls)"
  shows "new_calls_ok (bRoot st) (mCfa (bSystem st) (mCallee tr)) chain (cRoot cl) calls
    \<and> length calls \<le> length (mEdges (mCfa (bSystem st) (mCallee tr)))"
proof -
  let ?callee = "mCfa (bSystem st) (mCallee tr)"
  obtain cl1 cl2 cl3 cl4 where
    1: "for_each (clone_local ?callee sfx) (mLocals ?callee) (clone_of_root st) = Inr cl1"
       "for_each (bmc_clone_input ?callee tr sfx) (mInputs ?callee) cl1 = Inr cl2"
       "for_each (clone_output tr) (mOutputs ?callee) cl2 = Inr cl3"
       "for_each (clone_location alloc ?callee (mError st) (mErrorFieldVariable st)) (mNodes ?callee) cl3 = Inr cl4"
       "for_each (bmc_clone_edge alloc B (bSystem st) ?callee chain) (mEdges ?callee) (cl4, []) = Inr (cl, calls)"
    using assms(2) by (auto simp: clone_callee_def Let_def rbind_eq_Inr)
  have "grows (bRoot st) (cRoot cl4)"
    using for_each_grows [OF 1(1), of cRoot] for_each_grows [OF 1(2), of cRoot] for_each_grows [OF 1(3), of cRoot]
      for_each_grows [OF 1(4), of cRoot] clone_variable_grows bmc_clone_input_grows clone_location_grows [OF assms(1)]
    by (simp add: clone_of_root_def) (meson grows_trans)
  then have "new_calls_ok (bRoot st) ?callee chain (cRoot cl4) []" by (simp add: new_calls_ok_def)
  from bmc_clone_edges_calls [OF assms(1) 1(5) subset_refl this] show ?thesis by simp
qed

lemma inline_call_calls:
  assumes "fresh_alloc alloc" and "inline_call alloc B call sfx st = Inr (new, st')"
  obtains info calls where "map_of (mCalls st) call = Some info" "new = map fst calls"
    "mCalls st' = filter (\<lambda>p. fst p \<noteq> call) (mCalls st @ calls)" "bSystem st' = bSystem st"
    "new_calls_ok (bRoot st) (mCfa (bSystem st) (mCallee (mTransition (bRoot st) call))) (callChain info) (bRoot st') calls"
    "length calls \<le> length (mEdges (mCfa (bSystem st) (mCallee (mTransition (bRoot st) call))))"
proof -
  let ?tr = "mTransition (bRoot st) call"
  let ?callee = "mCfa (bSystem st) (mCallee ?tr)"
  obtain st1 where 1: "inlineCallIntoRoot alloc B call sfx st = Inr (new, st1)"
    "st' = st1\<lparr>mCalls := filter (\<lambda>p. fst p \<noteq> call) (mCalls st1)\<rparr>" using assms(2) by (auto simp: inline_call_def rbind_eq_Inr)
  obtain info before after where 2: "map_of (mCalls st) call = Some info" "mSource (bRoot st) call = Some before"
    "mTarget (bRoot st) call = Some after"
    using 1(1) by (auto simp: inlineCallIntoRoot_def Let_def check_eq_Inr split: option.splits)
  obtain cl calls root1 locs root2 where 3: "clone_callee alloc B ?tr (callChain info) sfx st = Inr (cl, calls)"
    "connect_clone alloc ?callee ?tr before after cl = Inr root1" "disconnectEdge call root1 = Inr root2"
    "new = map fst calls" "bRoot st1 = root2" "bSystem st1 = bSystem st" "mCalls st1 = mCalls st @ calls"
    using 1(1) 2 by (auto simp: inlineCallIntoRoot_def Let_def check_eq_Inr rbind_eq_Inr)
  have "grows (cRoot cl) root1"
    using 3(2) unfolding connect_clone_def rbind_eq_Inr by (elim exE conjE) (meson createAssign_grows [OF assms(1)] grows_trans)
  then have "grows (cRoot cl) root2" using disconnectEdge_grows [OF 3(3)] grows_trans by blast
  with clone_callee_calls [OF assms(1) 3(1)] have
    "new_calls_ok (bRoot st) ?callee (callChain info) root2 calls" "length calls \<le> length (mEdges ?callee)"
    using new_calls_grow by blast+
  with 1(2) 2(1) 3 show thesis by (intro that [of info calls]) simp_all
qed

section \<open>The worklist ends\<close>

text \<open>The automata that can be called, and the list of calls: edges of the root, whose chains lead through
  these automata.\<close>

definition unroll_ok :: "nat set \<Rightarrow> checker \<Rightarrow> bool" where
  "unroll_ok A st \<longleftrightarrow> finite A \<and> (\<forall>a \<in> A. callees (mCfa (bSystem (cBmc st)) a) \<subseteq> A) \<and> distinct (map fst (mCalls (cBmc st)))
     \<and> (\<forall>(e, i) \<in> set (mCalls (cBmc st)). e \<in> set (mEdges (bRoot (cBmc st))) \<and> set (callChain i) \<subseteq> A
          \<and> mCallee (mTransition (bRoot (cBmc st)) e) \<in> A)"

definition within :: "nat \<Rightarrow> call_info \<Rightarrow> bool" where
  "within bound i \<longleftrightarrow> (\<forall>a. count_list (callChain i) a \<le> bound)"

definition work_ok :: "nat \<Rightarrow> nat list \<Rightarrow> checker \<Rightarrow> bool" where
  "work_ok bound work st \<longleftrightarrow> set work \<subseteq> set (mEdges (bRoot (cBmc st)))
     \<and> (\<forall>e \<in> set work. \<forall>i. map_of (mCalls (cBmc st)) e = Some i \<longrightarrow> within bound i)"

definition weight :: "nat \<Rightarrow> nat \<Rightarrow> checker \<Rightarrow> nat \<Rightarrow> nat" where
  "weight K D st e = (case map_of (mCalls (cBmc st)) e of None \<Rightarrow> 0 | Some i \<Rightarrow> Suc K ^ (D - length (callChain i)))"

lemma within_length:
  assumes "within bound i" and "finite A" "set (callChain i) \<subseteq> A"
  shows "length (callChain i) \<le> bound * card A"
proof -
  have "length (callChain i) = sum (count_list (callChain i)) A" using assms(2,3) by (simp add: sum_count_set)
  also have "\<dots> \<le> of_nat (card A) * bound" using assms(1) by (intro sum_bounded_above) (simp add: within_def)
  finally show ?thesis by (simp add: mult.commute)
qed

lemma map_of_without: "map_of (filter (\<lambda>p. fst p \<noteq> k) xs) e = (if e = k then None else map_of xs e)"
  by (induction xs) auto

lemma sum_list_const: "(\<And>x. x \<in> set xs \<Longrightarrow> f x = c) \<Longrightarrow> sum_list (map f xs) = length xs * (c :: nat)"
  by (induction xs) auto

lemma sum_list_butlast: "xs \<noteq> [] \<Longrightarrow> sum_list (map f xs) = sum_list (map f (butlast xs)) + (f (last xs) :: nat)"
  by (induction xs rule: rev_induct) auto

text \<open>One call of the worklist.\<close>

lemma inline_one_step:
  assumes "fresh_alloc (eAlloc E)" and "unroll_ok A st" and "work_ok bound work st" "work \<noteq> []" and "Suc bound < 2 ^ 32"
    and "inline_one E (last work) st = Inr (new, st1)"
    and K: "\<forall>a \<in> A. length (mEdges (mCfa (bSystem (cBmc st)) a)) \<le> K" and D: "D = bound * card A"
  defines "work1 \<equiv> butlast work @ filter (\<lambda>e. call_cost st1 e \<le> bound) new"
  shows "unroll_ok A st1" and "work_ok bound work1 st1"
    and "sum_list (map (weight K D st1) work1) < sum_list (map (weight K D st) work)"
    and "\<forall>(e, i) \<in> set (mCalls (cBmc st1)). e \<notin> set work1 \<longrightarrow> (e, i) \<in> set (mCalls (cBmc st)) \<and> e \<notin> set work \<or> bound < getCost i"
proof -
  let ?b = "cBmc st" and ?call = "last work"
  note u = assms(2) [unfolded unroll_ok_def]
  obtain b1 where b1: "inline_call (eAlloc E) (eBuilder E) ?call (''_call'' @ dec_digits (cTmp st)) ?b = Inr (new, b1)" "cBmc st1 = b1"
    using assms(6) by (auto simp: inline_one_def rbind_eq_Inr)
  let ?callee = "mCfa (bSystem ?b) (mCallee (mTransition (bRoot ?b) ?call))"
  obtain info calls where c: "map_of (mCalls ?b) ?call = Some info" "new = map fst calls"
    "mCalls b1 = filter (\<lambda>p. fst p \<noteq> ?call) (mCalls ?b @ calls)" "bSystem b1 = bSystem ?b"
    "new_calls_ok (bRoot ?b) ?callee (callChain info) (bRoot b1) calls" "length calls \<le> length (mEdges ?callee)"
    by (rule inline_call_calls [OF assms(1) b1(1)])
  have in_calls: "(?call, info) \<in> set (mCalls ?b)" using c(1) by (rule map_of_SomeD)
  with u have fA: "finite A" "callees ?callee \<subseteq> A" "set (callChain info) \<subseteq> A" "length (mEdges ?callee) \<le> K"
    "?call \<in> set (mEdges (bRoot ?b))" using K by auto
  note nc = c(5) [unfolded new_calls_ok_def]
  have new: "e \<in> set (mEdges (bRoot b1))" "e \<notin> set (mEdges (bRoot ?b))" "callChain i = callChain info @ [mCallee (mTransition (bRoot b1) e)]"
    "mCallee (mTransition (bRoot b1) e) \<in> A" if "(e, i) \<in> set calls" for e i
    using nc that fA(2) by blast+
  have old: "e \<in> set (mEdges (bRoot b1))" "mTransition (bRoot b1) e = mTransition (bRoot ?b) e" if "e \<in> set (mEdges (bRoot ?b))" for e
    using nc that by (auto simp: grows_def)
  have dist: "distinct (map fst (mCalls ?b @ calls))"
    using u nc new(2) by (fastforce simp: distinct_append)
  then have dist1: "distinct (map fst (mCalls b1))" unfolding c(3) by (rule distinct_map_filter)
  show "unroll_ok A st1"
    using u new old dist1 fA unfolding unroll_ok_def b1(2) c(4) by (auto simp: c(3))
  have look_old: "map_of (mCalls b1) e = (if e = ?call then None else map_of (mCalls ?b) e)" if "e \<in> set (mEdges (bRoot ?b))" for e
  proof -
    have "map_of calls e = None" using that new(2) by (force simp: map_of_eq_None_iff)
    then show ?thesis by (auto simp: c(3) map_of_without map_add_def split: option.splits)
  qed
  have look_new: "map_of (mCalls b1) e = Some i" if "(e, i) \<in> set calls" for e i
    using that dist1 new(2) [OF that] fA(5) by (intro map_of_is_SomeI) (auto simp: c(3))
  have "within bound info" using assms(3) last_in_set [OF assms(4)] c(1) unfolding work_ok_def by blast
  then have wi: "count_list (callChain info) a \<le> bound" for a by (simp add: within_def)
  have cost: "getCost i = Suc (count_list (callChain info) (mCallee (mTransition (bRoot b1) e)))" if "(e, i) \<in> set calls" for e i
  proof -
    have "Suc (count_list (callChain info) (mCallee (mTransition (bRoot b1) e))) < 2 ^ 32"
      using wi [of "mCallee (mTransition (bRoot b1) e)"] assms(5) by linarith
    then show ?thesis by (simp add: getCost_def u32_def new(3) [OF that])
  qed
  have cheap: "within bound i" if "(e, i) \<in> set calls" "getCost i \<le> bound" for e i
    using cost [OF that(1)] that(2) wi by (simp add: within_def new(3) [OF that(1)])
  have kept: "\<exists>i. (e, i) \<in> set calls \<and> within bound i" if e: "e \<in> set new" "call_cost st1 e \<le> bound" for e
  proof -
    obtain i where i: "(e, i) \<in> set calls" using e(1) c(2) by auto
    then have "getCost i \<le> bound" using e(2) look_new [OF i] by (simp add: call_cost_def b1(2))
    with i cheap show ?thesis by blast
  qed
  have rest: "set (butlast work) \<subseteq> set work" using in_set_butlastD by fast
  then have wold: "set (butlast work) \<subseteq> set (mEdges (bRoot ?b))" using assms(3) by (auto simp: work_ok_def)
  show "work_ok bound work1 st1"
    unfolding work_ok_def b1(2)
  proof (intro conjI ballI allI impI)
    show "set work1 \<subseteq> set (mEdges (bRoot b1))" using wold old(1) new(1) c(2) by (fastforce simp: work1_def)
    fix e i assume e: "e \<in> set work1" "map_of (mCalls b1) e = Some i"
    show "within bound i"
    proof (cases "e \<in> set (butlast work)")
      case True
      then have "e \<in> set work" "e \<in> set (mEdges (bRoot ?b))" using wold rest by auto
      then have "map_of (mCalls ?b) e = Some i" using e(2) look_old by (simp split: if_splits)
      with \<open>e \<in> set work\<close> assms(3) show ?thesis unfolding work_ok_def by blast
    next
      case False
      then show ?thesis using e kept [of e] look_new by (fastforce simp: work1_def)
    qed
  qed
  let ?w = "Suc K ^ (D - length (callChain info))"
  have "sum_list (map (weight K D st1) (filter (\<lambda>e. call_cost st1 e \<le> bound) new)) < ?w"
  proof (cases "filter (\<lambda>e. call_cost st1 e \<le> bound) new = []")
    case False
    have each: "weight K D st1 e = Suc K ^ (D - Suc (length (callChain info))) \<and> Suc (length (callChain info)) \<le> D"
      if e: "e \<in> set (filter (\<lambda>e. call_cost st1 e \<le> bound) new)" for e
    proof -
      obtain i where i: "(e, i) \<in> set calls" "within bound i" using kept [of e] e by auto
      have "set (callChain i) \<subseteq> A" using new(3,4) [OF i(1)] fA(3) by simp
      with within_length [OF i(2) fA(1)] new(3) [OF i(1)] look_new [OF i(1)] show ?thesis by (simp add: weight_def b1(2) D)
    qed
    then have "sum_list (map (weight K D st1) (filter (\<lambda>e. call_cost st1 e \<le> bound) new)) =
        length (filter (\<lambda>e. call_cost st1 e \<le> bound) new) * Suc K ^ (D - Suc (length (callChain info)))"
      by (intro sum_list_const) blast
    also have "\<dots> \<le> K * Suc K ^ (D - Suc (length (callChain info)))"
      by (intro mult_le_mono1 order_trans [OF length_filter_le]) (use c(2,6) fA(4) in simp)
    also have "\<dots> < Suc K * Suc K ^ (D - Suc (length (callChain info)))" by simp
    also have "\<dots> = ?w"
    proof -
      have "Suc (length (callChain info)) \<le> D" using each False by (metis list.set_intros(1) neq_Nil_conv)
      then have "D - length (callChain info) = Suc (D - Suc (length (callChain info)))" by simp
      then show ?thesis by simp
    qed
    finally show ?thesis .
  qed simp
  moreover have "sum_list (map (weight K D st1) (butlast work)) \<le> sum_list (map (weight K D st) (butlast work))"
    using look_old wold by (intro sum_list_mono) (auto simp: weight_def b1(2))
  moreover have "sum_list (map (weight K D st) work) = sum_list (map (weight K D st) (butlast work)) + ?w"
    using c(1) by (simp add: sum_list_butlast [OF assms(4)]) (simp add: weight_def)
  ultimately show "sum_list (map (weight K D st1) work1) < sum_list (map (weight K D st) work)" by (simp add: work1_def)
  have split: "set work = insert ?call (set (butlast work))"
    using assms(4) by (metis append_butlast_last_id list.simps(15) rotate1.simps(2) set_rotate1)
  show "\<forall>(e, i) \<in> set (mCalls (cBmc st1)). e \<notin> set work1 \<longrightarrow> (e, i) \<in> set (mCalls (cBmc st)) \<and> e \<notin> set work \<or> bound < getCost i"
  proof (intro ballI, clarify)
    fix e i assume e: "(e, i) \<in> set (mCalls (cBmc st1))" "e \<notin> set work1" and c': "\<not> bound < getCost i"
    have "(e, i) \<notin> set calls"
    proof
      assume i: "(e, i) \<in> set calls"
      then have "e \<in> set new" "call_cost st1 e = getCost i" using c(2) look_new [OF i] by (force, simp add: call_cost_def b1(2))
      with e(2) c' show False by (simp add: work1_def)
    qed
    with e show "(e, i) \<in> set (mCalls (cBmc st)) \<and> e \<notin> set work" unfolding split by (auto simp: b1(2) c(3) work1_def)
  qed
qed

lemma inline_calls_run:
  assumes "fresh_alloc (eAlloc E)" and "unroll_ok A st" and "work_ok bound work st" and "Suc bound < 2 ^ 32"
  shows "\<exists>r. inline_calls E bound work st = Some r \<and> (\<forall>st'. r = Inr st' \<longrightarrow> unroll_ok A st'
    \<and> (\<forall>(e, i) \<in> set (mCalls (cBmc st')). (e, i) \<in> set (mCalls (cBmc st)) \<and> e \<notin> set work \<or> bound < getCost i))"
  using assms(2,3)
proof (induction "sum_list (map (weight (\<Sum>a \<in> A. length (mEdges (mCfa (bSystem (cBmc st)) a))) (bound * card A) st) work)"
    arbitrary: st work rule: less_induct)
  case less
  let ?K = "\<Sum>a \<in> A. length (mEdges (mCfa (bSystem (cBmc st)) a))"
  let ?st = "st\<lparr>mStats := (mStats st)\<lparr>NumInlined := u32 (Suc (NumInlined (mStats st)))\<rparr>\<rparr>"
  show ?case
  proof (cases "work = [] \<or> (\<exists>err. inline_one E (last work) ?st = Inl err)")
    case True
    then show ?thesis using less.prems(1) by (subst inline_calls.simps) auto
  next
    case False
    then obtain new st1 where one: "work \<noteq> []" "inline_one E (last work) ?st = Inr (new, st1)"
      by (cases "inline_one E (last work) ?st") auto
    let ?work1 = "butlast work @ filter (\<lambda>e. call_cost st1 e \<le> bound) new"
    let ?st1 = "st1\<lparr>mOpenCalls := removeAll (last work) (mOpenCalls st1)\<rparr>"
    have fin: "finite A" using less.prems(1) by (simp add: unroll_ok_def)
    have K: "\<forall>a \<in> A. length (mEdges (mCfa (bSystem (cBmc ?st)) a)) \<le> ?K" using fin by (auto intro: member_le_sum)
    have pre: "unroll_ok A ?st" "work_ok bound work ?st" using less.prems by (simp_all add: unroll_ok_def work_ok_def)
    note step = inline_one_step [OF assms(1) pre one(1) assms(4) one(2) K refl]
    have sys: "bSystem (cBmc st1) = bSystem (cBmc st)"
    proof -
      obtain b1 where "inline_call (eAlloc E) (eBuilder E) (last work) (''_call'' @ dec_digits (cTmp st)) (cBmc st) = Inr (new, b1)"
        "cBmc st1 = b1" using one(2) by (auto simp: inline_one_def rbind_eq_Inr)
      then show ?thesis by (auto elim: inline_call_calls [OF assms(1)])
    qed
    have w: "weight K D ?st = weight K D st" "weight K D ?st1 = weight K D st1" for K D by (simp_all add: weight_def fun_eq_iff)
    have ok1: "unroll_ok A ?st1" "work_ok bound ?work1 ?st1" using step(1,2) by (simp_all add: unroll_ok_def work_ok_def)
    have "sum_list (map (weight (\<Sum>a \<in> A. length (mEdges (mCfa (bSystem (cBmc ?st1)) a))) (bound * card A) ?st1) ?work1)
        < sum_list (map (weight ?K (bound * card A) st) work)"
      using step(3) unfolding w by (simp add: sys)
    from less.hyps [OF this ok1] obtain r where r: "inline_calls E bound ?work1 ?st1 = Some r"
      "\<forall>st'. r = Inr st' \<longrightarrow> unroll_ok A st' \<and> (\<forall>(e, i) \<in> set (mCalls (cBmc st')).
         (e, i) \<in> set (mCalls (cBmc st1)) \<and> e \<notin> set ?work1 \<or> bound < getCost i)" by auto
    have "inline_calls E bound work st = Some r" using one r(1) by (subst inline_calls.simps) simp
    moreover have "(e, i) \<in> set (mCalls (cBmc st)) \<and> e \<notin> set work \<or> bound < getCost i"
      if "r = Inr st'" "(e, i) \<in> set (mCalls (cBmc st'))" for st' e i
      using that r(2) step(4) by auto
    ultimately show ?thesis using r(2) by blast
  qed
qed

text \<open>
  C4: the inlining loop of \<open>check\<close> ends for every bound below the maximum of \<open>unsigned\<close>, also for automata
  that call themselves. If it succeeds, then every call that is left either was there before and was
  not to be inlined, or is above the bound: nothing within the bound stays open.
\<close>

theorem inlining_ends:
  assumes "fresh_alloc (eAlloc E)" and "unroll_ok A st" and "work_ok bound work st" and "Suc bound < 2 ^ 32"
  shows "\<exists>r. inline_calls E bound work st = Some r \<and> (\<forall>st'. r = Inr st' \<longrightarrow> unroll_ok A st'
    \<and> (\<forall>(e, i) \<in> set (mCalls (cBmc st')). (e, i) \<in> set (mCalls (cBmc st)) \<and> e \<notin> set work \<or> bound < getCost i))"
  by (rule inline_calls_run [OF assms])

text \<open>An automaton that calls itself, with the bound 2.\<close>

definition rec_callee :: cfa where
  "rec_callee = addTransition 20 3 4 (CallTransition True_lit 100 [] []) (Cfa_new ''f'' 3 4)"

definition rec_bmc :: bmc where
  "rec_bmc = sample_bmc\<lparr>bSystem := \<lparr>mAutomata = [99, 100], mCfa = (\<lambda>_. sample_root)(100 := rec_callee), mMainAutomaton = Some 99\<rparr>\<rparr>"

definition plain_env :: bmc_env where
  "plain_env = \<lparr>eAlloc = next_address, eFirst = (\<lambda>_. None), eVisited = (\<lambda>_ _ _. True), ePostOrder = mNodes, eSetOrder = (\<lambda>xs. xs),
     eRun = (\<lambda>_. UNSAT), eModel = (\<lambda>_ x. Inl NullDeref), eBuilder = plain_builder, eApi = doc_llvm\<rparr>"

definition run_of :: "bmc \<Rightarrow> checker" where
  "run_of b = \<lparr>cBmc = b, mSolver = [[]], mPredecessors = cache_new, mOpenCalls = [], cPredIdx = 0, cTmp = 0,
     mStats = \<lparr>NumInlined = 0, NumBeginLocs = 0, NumEndLocs = 0, NumBeginLocals = 0, NumEndLocals = 0\<rparr>\<rparr>"

theorem inlining_ends_witness:
  "\<exists>r. inline_calls plain_env 2 [10] (run_of rec_bmc) = Some r"
proof -
  have calls: "mCalls (cBmc (run_of rec_bmc)) = [(10, \<lparr>overApprox = False_lit, callChain = [100]\<rparr>)]"
    by (simp add: run_of_def rec_bmc_def sample_bmc_def)
  have edges: "10 \<in> set (mEdges (bRoot (cBmc (run_of rec_bmc))))" "mCallee (mTransition (bRoot (cBmc (run_of rec_bmc))) 10) = 100"
    by (simp_all add: run_of_def rec_bmc_def sample_bmc_def sample_root_def addTransition_def createEdge_def Let_def)
  have "callees (mCfa (bSystem (cBmc (run_of rec_bmc))) 100) \<subseteq> {100}"
    by (auto simp: callees_def run_of_def rec_bmc_def rec_callee_def edges_add addTransition_def createEdge_def Let_def)
  then have "unroll_ok {100} (run_of rec_bmc)" using calls edges by (simp add: unroll_ok_def)
  moreover have "work_ok 2 [10] (run_of rec_bmc)" using calls edges by (simp add: work_ok_def within_def)
  moreover have "fresh_alloc (eAlloc plain_env)" using next_address_fresh by (simp add: plain_env_def)
  ultimately show ?thesis using inlining_ends [of plain_env "{100}" "run_of rec_bmc" 2 "[10]"] by auto
qed

end
