(* ===== verification/GazerBmcSafe.thy ===== *)
theory GazerBmcSafe
  imports GazerBmcUnroll
begin

text \<open>
  The verdict of the bounded model checker for a program without calls, from the automaton to the result:
  the run returns, it reports a failure exactly if there is a valuation of the variables under which a
  path leads from the entry to an error location, and the reported code is the code of such a location.
  The solver is assumed to decide the formulas it is given.
\<close>

section \<open>Programs and their paths\<close>

text \<open>The valuations over which the solver ranges: well-typed, and defined on all variables whose type the
  evaluator compares.\<close>

definition value_type :: "gtype \<Rightarrow> bool" where
  "value_type t \<longleftrightarrow> eq_type t \<and> t \<noteq> BvType 0"

definition total_valuation :: "valuation \<Rightarrow> bool" where
  "total_valuation \<sigma> \<longleftrightarrow> valuation_ok \<sigma> \<and> disc_ok \<sigma>
     \<and> (\<forall>v. (\<forall>n. var_name v \<noteq> pred_name n) \<longrightarrow> value_type (var_type v) \<longrightarrow> \<sigma> v \<noteq> None)"

text \<open>An expression that reads the variables of a table only and has a value under every valuation.\<close>

definition expr_ready :: "llvm_api \<Rightarrow> variable_table \<Rightarrow> expr \<Rightarrow> bool" where
  "expr_ready L tbl x \<longleftrightarrow> (\<forall>\<sigma> \<sigma>'. (\<forall>v \<in> ran tbl. \<sigma>' v = \<sigma> v) \<longrightarrow> eval L \<sigma>' x = eval L \<sigma> x)
     \<and> (\<forall>\<sigma>. total_valuation \<sigma> \<longrightarrow> (\<exists>l. has_val L \<sigma> x l))"

definition assignment_ready :: "llvm_api \<Rightarrow> variable_table \<Rightarrow> variable_assignment \<Rightarrow> bool" where
  "assignment_ready L tbl a \<longleftrightarrow> va_variable a \<in> ran tbl \<and> value_type (var_type (va_variable a))
     \<and> (getKind (va_value a) = Undef \<or> expr_ready L tbl (va_value a) \<and> getType (va_value a) = var_type (va_variable a))"

definition transition_ready :: "llvm_api \<Rightarrow> variable_table \<Rightarrow> transition \<Rightarrow> bool" where
  "transition_ready L tbl tr \<longleftrightarrow> isAssign tr \<and> expr_ready L tbl (mGuard tr) \<and> getType (mGuard tr) = BoolType
     \<and> list_all (assignment_ready L tbl) (mAssignments tr)"

definition holds :: "llvm_api \<Rightarrow> valuation \<Rightarrow> transition \<Rightarrow> bool" where
  "holds L \<sigma> tr \<longleftrightarrow> eval L \<sigma> (mGuard tr) = Inr (ALit (BoolLiteral True)) \<and> list_all (assignment_holds L \<sigma>) (mAssignments tr)"

text \<open>The steps that are possible under a valuation.\<close>

definition feasible :: "llvm_api \<Rightarrow> valuation \<Rightarrow> cfa \<Rightarrow> (nat \<times> nat) set" where
  "feasible L \<sigma> c = {(u, v). \<exists>e tr. (e, u, v, tr) \<in> arcs c \<and> isAssign tr \<and> holds L \<sigma> tr}"

lemma holds_transition:
  "isAssign (mTransition c e) \<Longrightarrow> transition_holds L \<sigma> calls c e \<longleftrightarrow> holds L \<sigma> (mTransition c e)"
  by (cases "mTransition c e") (auto simp: transition_holds_def holds_def isAssign_def)

lemma total_same_program: "total_valuation \<sigma> \<Longrightarrow> same_program \<sigma> \<sigma>' \<Longrightarrow> valuation_ok \<sigma>' \<Longrightarrow> disc_ok \<sigma>' \<Longrightarrow> total_valuation \<sigma>'"
  by (auto simp: total_valuation_def same_program_def)

lemma total_value:
  assumes "total_valuation \<sigma>" and "\<forall>n. var_name v \<noteq> pred_name n" and "value_type (var_type v)"
  shows "\<exists>x. \<sigma> v = Some x \<and> lit_type x = var_type v \<and> lit_ok x"
  using assms unfolding total_valuation_def valuation_ok_def by (metis option.exhaust)

lemma total_read:
  assumes "total_valuation \<sigma>" and "\<forall>n. var_name v \<noteq> pred_name n" and "value_type (var_type v)" and "llvm_laws L"
  shows "\<exists>x. has_val L \<sigma> (VarRefExpr v) x \<and> lit_type x = var_type v \<and> \<sigma> v = Some x"
proof -
  have "function_free (var_type v)" using assms(3) by (cases "var_type v") (auto simp: value_type_def)
  then show ?thesis using total_value [OF assms(1-3)] assms(1,4) has_val_var unfolding total_valuation_def by blast
qed

definition base_valuation :: valuation where
  "base_valuation v = (case var_type v of BoolType \<Rightarrow> Some (BoolLiteral False) | IntType \<Rightarrow> Some (IntLiteral 0)
     | BvType w \<Rightarrow> if w = 0 then None else Some (BvLiteral (APInt w 0)) | _ \<Rightarrow> None)"

lemma base_total: "total_valuation base_valuation"
  by (auto simp: total_valuation_def base_valuation_def valuation_ok_def disc_ok_def in_int64_def value_type_def apint_ok_def split: gtype.splits if_splits)

lemma ready_defined:
  assumes "transition_ready L tbl (mTransition c e)" and "total_valuation \<sigma>"
    and "\<forall>v \<in> ran tbl. \<forall>n. var_name v \<noteq> pred_name n" and "llvm_laws L"
  shows "transition_defined L \<sigma> calls c e"
proof -
  note r = assms(1) [unfolded transition_ready_def]
  obtain g as where tr: "mTransition c e = AssignTransition g as" using r by (auto simp: isAssign_def split: transition.splits)
  have "\<exists>l. has_val L \<sigma> g l" using r assms(2) tr by (auto simp: expr_ready_def)
  then obtain l where l: "has_val L \<sigma> g l" by blast
  then have "lit_type l = BoolType" using has_val_type r tr by fastforce
  with l have "\<exists>b. bool_val L \<sigma> g b" by (cases l) auto
  moreover have "assignment_defined L \<sigma> a" if "a \<in> set as" for a
  proof -
    have ra: "assignment_ready L tbl a" using r tr that by (simp add: list_all_iff)
    let ?v = "va_variable a"
    obtain x where v: "has_val L \<sigma> (VarRefExpr ?v) x" "lit_type x = var_type ?v"
      using total_read [OF assms(2) _ _ assms(4), of ?v] ra assms(3) by (auto simp: assignment_ready_def)
    have "\<exists>y. has_val L \<sigma> (va_value a) y \<and> lit_type y = var_type ?v" if "getKind (va_value a) \<noteq> Undef"
      using ra that assms(2) has_val_type unfolding assignment_ready_def expr_ready_def by metis
    moreover have "eq_type (lit_type x)" using ra v(2) by (simp add: assignment_ready_def value_type_def)
    ultimately show ?thesis using v unfolding assignment_defined_def by metis
  qed
  ultimately show ?thesis by (simp add: transition_defined_def tr list_all_iff)
qed

lemma ready_indep:
  assumes "transition_ready L tbl tr" and "\<forall>v \<in> ran tbl. \<sigma>' v = \<sigma> v"
  shows "holds L \<sigma>' tr = holds L \<sigma> tr"
proof -
  have "eval L \<sigma>' (mGuard tr) = eval L \<sigma> (mGuard tr)" using assms unfolding transition_ready_def expr_ready_def by blast
  moreover have "assignment_holds L \<sigma>' a = assignment_holds L \<sigma> a" if "a \<in> set (mAssignments tr)" for a
  proof -
    have ra: "assignment_ready L tbl a" using assms(1) that by (simp add: transition_ready_def list_all_iff)
    then have "\<sigma>' (va_variable a) = \<sigma> (va_variable a)" using assms(2) by (simp add: assignment_ready_def)
    then have "eval L \<sigma>' (VarRefExpr (va_variable a)) = eval L \<sigma> (VarRefExpr (va_variable a))" by (simp add: getVariableValue_def)
    moreover have "eval L \<sigma>' (va_value a) = eval L \<sigma> (va_value a)" if "getKind (va_value a) \<noteq> Undef"
      using ra that assms(2) unfolding assignment_ready_def expr_ready_def by blast
    ultimately show ?thesis by (auto simp: assignment_holds_def)
  qed
  ultimately show ?thesis by (auto simp: holds_def list_all_iff)
qed

text \<open>Paths as the path conditions see them.\<close>

lemma path_feasible:
  assumes "graph_ok c" and "\<forall>(e, u, v, tr) \<in> arcs c. isAssign tr"
  shows "path_by c (\<lambda>v. transition_holds L \<sigma> calls c) s v \<longleftrightarrow> (s, v) \<in> (feasible L \<sigma> c)\<^sup>*"
proof
  have arc: "(e, u, v, mTransition c e) \<in> arcs c \<and> isAssign (mTransition c e)" if "e \<in> set (mIncoming c v)" "mSource c e = Some u" for e u v
  proof -
    have "(e, u, v, mTransition c e) \<in> arcs c" using that graph_okD(6) [OF assms(1), of v] by (auto simp: arcs_def)
    with assms(2) show ?thesis by fast
  qed
  show "(s, v) \<in> (feasible L \<sigma> c)\<^sup>*" if "path_by c (\<lambda>v. transition_holds L \<sigma> calls c) s v"
    using that
  proof (induction rule: path_by.induct)
    case (path_step u e v)
    have "(u, v) \<in> feasible L \<sigma> c"
      unfolding feasible_def mem_Collect_eq prod.case
      using arc [OF path_step(2,3)] path_step(4) by (intro exI [of _ e] exI [of _ "mTransition c e"]) (simp add: holds_transition)
    then show ?case by (rule rtrancl_into_rtrancl [OF path_step.IH])
  qed simp
  show "path_by c (\<lambda>v. transition_holds L \<sigma> calls c) s v" if "(s, v) \<in> (feasible L \<sigma> c)\<^sup>*"
    using that
  proof (induction rule: rtrancl_induct)
    case (step u v)
    then obtain e where e: "(e, u, v, mTransition c e) \<in> arcs c" "isAssign (mTransition c e)" "holds L \<sigma> (mTransition c e)"
      by (auto simp: feasible_def arcs_def)
    then have "e \<in> set (mIncoming c v)" "mSource c e = Some u" unfolding graph_okD(6) [OF assms(1)] by (auto simp: arcs_def)
    then show ?case by (rule path_by.path_step [OF step.IH]) (use e holds_transition in blast)
  qed (rule path_by.path_refl)
qed

section \<open>The search without calls\<close>

text \<open>The state in which the search starts: an ordered and numbered root without calls, whose transitions
  read and write the variables of a table that has no discriminators.\<close>

definition prepared :: "llvm_api \<Rightarrow> variable_table \<Rightarrow> bmc \<Rightarrow> bool" where
  "prepared L tbl b \<longleftrightarrow> graph_ok (bRoot b) \<and> numbered (mTopo b) (mLocNumbers b) \<and> ordered_in (mTopo b) (bRoot b)
     \<and> mEntry (bRoot b) \<in> set (mTopo b) \<and> mError b \<in> set (mTopo b) \<and> loc_number b (mEntry (bRoot b)) < loc_number b (mError b)
     \<and> (\<forall>l. mID (bRoot b) l < 2 ^ 32) \<and> ids_ok (bRoot b) (mTopo b) \<and> mCalls b = []
     \<and> (\<forall>(e, s, t, tr) \<in> arcs (bRoot b). transition_ready L tbl tr) \<and> (\<forall>v \<in> ran tbl. \<forall>n. var_name v \<noteq> pred_name n)
     \<and> mErrorFieldVariable b \<in> ran tbl \<and> value_type (var_type (mErrorFieldVariable b))"

text \<open>The solver decides: a model is a valuation that satisfies all assertions.\<close>

definition satisfies :: "llvm_api \<Rightarrow> valuation \<Rightarrow> expr list list \<Rightarrow> bool" where
  "satisfies L \<sigma> ss \<longleftrightarrow> total_valuation \<sigma> \<and> (\<forall>f \<in> set (concat ss). bool_val L \<sigma> f True)"

definition solver_decides :: "bmc_env \<Rightarrow> bool" where
  "solver_decides E \<longleftrightarrow> (\<forall>ss. (case eRun E ss of
       SAT \<Rightarrow> \<exists>\<sigma>. satisfies (eApi E) \<sigma> ss \<and> eModel E ss = eval (eApi E) \<sigma>
     | UNSAT \<Rightarrow> \<nexists>\<sigma>. satisfies (eApi E) \<sigma> ss
     | UNKNOWN \<Rightarrow> False))"

lemma prepared_topo:
  assumes "prepared L tbl b"
  shows "topo_ok (bRoot b) (mTopo b) (loc_number b)" "encode_lookups (mEntry (bRoot b)) (mError b) b"
    "l \<in> set (mTopo b) \<Longrightarrow> e \<in> set (mIncoming (bRoot b) l) \<Longrightarrow> transition_ready L tbl (mTransition (bRoot b) e)"
    "live (bRoot b) e \<Longrightarrow> transition_ready L tbl (mTransition (bRoot b) e)"
proof -
  note p = assms [unfolded prepared_def]
  show t: "topo_ok (bRoot b) (mTopo b) (loc_number b)"
    using p ordered_topo [of "bRoot b" "mTopo b" "mLocNumbers b" "loc_number b"] by (simp add: loc_number_def fun_eq_iff)
  have num: "mLocNumbers b l \<noteq> None" if "l \<in> set (mTopo b)" for l
    using numbered_mem [of "mTopo b" "mLocNumbers b" l] that p by (metis option.distinct(1))
  have "have_numbers b (List.map_filter (mSource (bRoot b)) (mIncoming (bRoot b) l))" if "l \<in> set (mTopo b)" for l
    using topo_source [OF t that] num unfolding have_numbers_def List.map_filter_def by (fastforce simp: list_all_iff)
  then show "encode_lookups (mEntry (bRoot b)) (mError b) b"
    using p num by (auto simp: encode_lookups_def ends_have_numbers_def have_numbers_def list_all_iff dest!: in_set_takeD in_set_dropD)
  show live: "live (bRoot b) e \<Longrightarrow> transition_ready L tbl (mTransition (bRoot b) e)" for e
    using p by (auto simp: arcs_def live_def)
  show "l \<in> set (mTopo b) \<Longrightarrow> e \<in> set (mIncoming (bRoot b) l) \<Longrightarrow> transition_ready L tbl (mTransition (bRoot b) e)"
    using p live graph_okD(6) [of "bRoot b" l] by blast
qed

definition taken :: "llvm_api \<Rightarrow> valuation \<Rightarrow> nat \<Rightarrow> bmc \<Rightarrow> bool" where
  "taken L \<sigma> n b \<longleftrightarrow> path_by (bRoot b) (takes True L \<sigma> (call_approx b) (bRoot b) (mTopo b) (loc_number b)
     (loc_number b (mEntry (bRoot b))) n) (mEntry (bRoot b)) (mError b)"

definition counter_ok :: "nat \<Rightarrow> checker \<Rightarrow> bool" where
  "counter_ok k st \<longleftrightarrow> cPredIdx st + k * length (mTopo (cBmc st)) < 2 ^ 32
     \<and> (\<forall>n \<ge> cPredIdx st. bTable (cBmc st) (pred_name n) = None)"

text \<open>The formula for the whole root.\<close>

lemma root_formula:
  assumes p: "prepared L tbl (cBmc st)" and B: "path_builder (eBuilder E) L" and L: "llvm_laws L" and k: "counter_ok (Suc k) st"
  obtains f st1 new where "path_condition E (mEntry (bRoot (cBmc st))) (mError (cBmc st)) st = Inr (f, st1)"
    "cBmc st1 = (cBmc st)\<lparr>bTable := bTable (cBmc st1)\<rparr>" "counter_ok k st1" "mSolver st1 = mSolver st" "mOpenCalls st1 = mOpenCalls st"
    "mPredecessors st1 = insert_all new (mPredecessors st)"
    "\<forall>\<sigma>. total_valuation \<sigma> \<longrightarrow> bool_val L \<sigma> f (taken L \<sigma> (cPredIdx st) (cBmc st))"
    "\<forall>\<sigma>. total_valuation \<sigma> \<longrightarrow> calls_ok L \<sigma> (bRoot (cBmc st)) (mTopo (cBmc st)) (loc_number (cBmc st))
       (loc_number (cBmc st) (mEntry (bRoot (cBmc st)))) (cPredIdx st) new"
    "fst ` set new = {l \<in> (\<lambda>j. mTopo (cBmc st) ! (j + loc_number (cBmc st) (mEntry (bRoot (cBmc st))))) `
         {1..<loc_number (cBmc st) (mError (cBmc st)) - loc_number (cBmc st) (mEntry (bRoot (cBmc st))) + 1}.
         region (bRoot (cBmc st)) (loc_number (cBmc st)) (loc_number (cBmc st) (mEntry (bRoot (cBmc st)))) l \<noteq> []}"
proof -
  let ?b = "cBmc st"
  let ?c = "bRoot ?b" and ?s = "mEntry (bRoot ?b)" and ?p = "\<lparr>pVariables = bTable ?b, mPredIdx = cPredIdx st, mPredCalls = []\<rparr>"
  note P = p [unfolded prepared_def] and T = prepared_topo [OF p] and K = k [unfolded counter_ok_def]
  have val: "\<exists>f st' new. encode (eBuilder E) (call_approx ?b) True ?c (mTopo ?b) (loc_number ?b) ?s (mError ?b) ?p = Inr (f, st')
    \<and> bool_val L \<sigma> f (taken L \<sigma> (cPredIdx st) ?b) \<and> mPredCalls st' = new
    \<and> calls_ok L \<sigma> ?c (mTopo ?b) (loc_number ?b) (loc_number ?b ?s) (cPredIdx st) new
    \<and> fst ` set new = {l \<in> (\<lambda>j. mTopo ?b ! (j + loc_number ?b ?s)) ` {1..<loc_number ?b (mError ?b) - loc_number ?b ?s + 1}.
         region ?c (loc_number ?b) (loc_number ?b ?s) l \<noteq> []}
    \<and> mPredIdx st' \<le> cPredIdx st + length (mTopo ?b) \<and> (\<forall>k. mPredIdx st' \<le> k \<longrightarrow> pVariables st' (pred_name k) = None)"
    if "total_valuation \<sigma>" for \<sigma>
  proof -
    have \<sigma>: "valuation_ok \<sigma>" "disc_ok \<sigma>" using that by (simp_all add: total_valuation_def)
    have def: "transition_defined L \<sigma> (call_approx ?b) ?c e" if "l \<in> set (mTopo ?b)" "e \<in> set (mIncoming ?c l)" for l e
      using ready_defined [OF T(3) [OF that] \<open>total_valuation \<sigma>\<close> _ L] P by blast
    show ?thesis
      using path_builder.encode_val [OF B T(1), of ?s "mError ?b" \<sigma> True "call_approx ?b" ?p] P \<sigma> def L K
      by (simp add: taken_def)
  qed
  obtain f st' new where e: "encode (eBuilder E) (call_approx ?b) True ?c (mTopo ?b) (loc_number ?b) ?s (mError ?b) ?p = Inr (f, st')"
    "mPredCalls st' = new"
    "fst ` set new = {l \<in> (\<lambda>j. mTopo ?b ! (j + loc_number ?b ?s)) ` {1..<loc_number ?b (mError ?b) - loc_number ?b ?s + 1}.
         region ?c (loc_number ?b) (loc_number ?b ?s) l \<noteq> []}"
    "mPredIdx st' \<le> cPredIdx st + length (mTopo ?b)" "\<forall>k. mPredIdx st' \<le> k \<longrightarrow> pVariables st' (pred_name k) = None"
    using val [OF base_total] by (elim exE conjE) (rule that)
  let ?st1 = "st\<lparr>cBmc := ?b\<lparr>bTable := pVariables st'\<rparr>, cPredIdx := mPredIdx st', mPredecessors := insert_all new (mPredecessors st)\<rparr>"
  have no_calls: "\<not> (live ?c x \<and> isCall (mTransition ?c x))" for x
    using T(4) [of x] by (auto simp: transition_ready_def isAssign_def isCall_def split: transition.splits)
  then have known: "list_all (\<lambda>x. live ?c x \<and> isCall (mTransition ?c x) \<longrightarrow> map_of (mCalls ?b) x \<noteq> None) (mEdges ?c)"
    unfolding list_all_iff by blast
  show thesis
  proof (rule that [of f ?st1 new])
    show "path_condition E ?s (mError ?b) st = Inr (f, ?st1)"
      using e(1,2) T(2) known by (simp add: path_condition_def Let_def)
    show "counter_ok k ?st1" using e(4,5) K by (simp add: counter_ok_def)
    show "\<forall>\<sigma>. total_valuation \<sigma> \<longrightarrow> bool_val L \<sigma> f (taken L \<sigma> (cPredIdx st) ?b)"
      "\<forall>\<sigma>. total_valuation \<sigma> \<longrightarrow> calls_ok L \<sigma> ?c (mTopo ?b) (loc_number ?b) (loc_number ?b ?s) (cPredIdx st) new"
      using val e(1,2) by auto
  qed (use e(3) in simp_all)
qed

lemma taken_feasible:
  assumes p: "prepared L tbl b"
  shows "taken L \<sigma> n b \<Longrightarrow> (mEntry (bRoot b), mError b) \<in> (feasible L \<sigma> (bRoot b))\<^sup>*"
    and "total_valuation \<sigma> \<Longrightarrow> (mEntry (bRoot b), mError b) \<in> (feasible L \<sigma> (bRoot b))\<^sup>* \<Longrightarrow>
      \<exists>\<sigma>'. total_valuation \<sigma>' \<and> taken L \<sigma>' n b"
proof -
  let ?c = "bRoot b" and ?s = "mEntry (bRoot b)"
  note P = p [unfolded prepared_def] and T = prepared_topo [OF p]
  have assign: "\<forall>(e, u, v, tr) \<in> arcs ?c. isAssign tr" using P unfolding transition_ready_def by fast
  have pf: "path_by ?c (\<lambda>v. transition_holds L \<sigma> (call_approx b) ?c) ?s (mError b) \<longleftrightarrow> (?s, mError b) \<in> (feasible L \<sigma> ?c)\<^sup>*" for \<sigma>
    using P assign by (intro path_feasible) auto
  have err: "mError b \<in> set (mTopo b)" using P by blast
  show "(?s, mError b) \<in> (feasible L \<sigma> ?c)\<^sup>*" if "taken L \<sigma> n b"
    unfolding pf [symmetric] by (rule path_by_mono [OF T(1) that [unfolded taken_def] err]) (simp add: takes_def)
  assume \<sigma>: "total_valuation \<sigma>" "(?s, mError b) \<in> (feasible L \<sigma> ?c)\<^sup>*"
  have same: "\<forall>v \<in> ran tbl. \<sigma>' v = \<sigma> v" if "same_program \<sigma> \<sigma>'" for \<sigma>' using that P by (simp add: same_program_def)
  have "\<exists>\<sigma>'. same_program \<sigma> \<sigma>' \<and> disc_ok \<sigma>' \<and> valuation_ok \<sigma>'
      \<and> path_by ?c (takes True L \<sigma>' (call_approx b) ?c (mTopo b) (loc_number b) (loc_number b ?s) n) ?s (mError b)"
  proof (rule select_path [OF T(1) _ _ _ _ \<sigma>(2) [folded pf] err])
    fix \<sigma>' l e assume a: "same_program \<sigma> \<sigma>'" "l \<in> set (mTopo b)" "e \<in> set (mIncoming ?c l)"
    note r = T(3) [OF a(2,3)]
    then have "isAssign (mTransition ?c e)" by (simp add: transition_ready_def)
    then show "transition_holds L \<sigma>' (call_approx b) ?c e = transition_holds L \<sigma> (call_approx b) ?c e"
      using ready_indep [OF r same [OF a(1)]] by (simp add: holds_transition)
  qed (use P \<sigma>(1) in \<open>auto simp: total_valuation_def\<close>)
  then show "\<exists>\<sigma>'. total_valuation \<sigma>' \<and> taken L \<sigma>' n b" using total_same_program [OF \<sigma>(1)] unfolding taken_def by blast
qed

text \<open>The result for a model.\<close>

lemma cex_path_incoming: "cex_path c ok v xs s \<Longrightarrow> (u, e) \<in> set xs \<Longrightarrow> \<exists>w. e \<in> set (mIncoming c w)"
  by (induction xs arbitrary: v) auto

definition error_value :: "llvm_api \<Rightarrow> valuation \<Rightarrow> variable \<Rightarrow> nat \<Rightarrow> bool" where
  "error_value L \<sigma> v ec \<longleftrightarrow> (\<exists>x k. \<sigma> v = Some x \<and> error_code L (ALit x) = Inr k \<and> ec = nat (k mod 2 ^ 32))"

lemma code_value:
  assumes "total_valuation \<sigma>" and "\<forall>n. var_name v \<noteq> pred_name n" and "value_type (var_type v)" "var_type v \<noteq> BoolType"
  shows "\<exists>x k. \<sigma> v = Some x \<and> error_code L (ALit x) = Inr k"
proof -
  obtain x where x: "\<sigma> v = Some x" "lit_type x = var_type v" using total_value [OF assms(1-3)] by blast
  then have "eq_type (lit_type x)" "lit_type x \<noteq> BoolType" using assms(3,4) by (simp_all add: value_type_def)
  then have "\<exists>k. error_code L (ALit x) = Inr k" by (cases x) (auto simp: error_code_def)
  with x show ?thesis by blast
qed

lemma trace_action_total:
  assumes "isAssign (mTransition (bRoot b) e)"
  shows "trace_action (eval L \<sigma>) b e = Inr (map (\<lambda>a. (original_variable b (va_variable a), getVariableValue \<sigma> (va_variable a)))
    (mAssignments (mTransition (bRoot b) e)))"
  unfolding trace_action_def using assms by (simp add: res_map_Inr [where g = "\<lambda>a. (original_variable b (va_variable a), getVariableValue \<sigma> (va_variable a))"])

lemma fail_result:
  assumes p: "prepared L tbl (cBmc st)" and L: "llvm_laws L" "L = eApi E" and \<sigma>: "total_valuation \<sigma>" "taken L \<sigma> n (cBmc st)"
    and m: "eModel E (mSolver st) = eval L \<sigma>" "cache_get (mPredecessors st) = map_of (rev new)"
    and new: "calls_ok L \<sigma> (bRoot (cBmc st)) (mTopo (cBmc st)) (loc_number (cBmc st))
       (loc_number (cBmc st) (mEntry (bRoot (cBmc st)))) n new"
      "fst ` set new = {l \<in> (\<lambda>j. mTopo (cBmc st) ! (j + loc_number (cBmc st) (mEntry (bRoot (cBmc st))))) `
         {1..<loc_number (cBmc st) (mError (cBmc st)) - loc_number (cBmc st) (mEntry (bRoot (cBmc st))) + 1}.
         region (bRoot (cBmc st)) (loc_number (cBmc st)) (loc_number (cBmc st) (mEntry (bRoot (cBmc st)))) l \<noteq> []}"
    and n: "n + length (mTopo (cBmc st)) < 2 ^ 32" and ty: "var_type (mErrorFieldVariable (cBmc st)) \<noteq> BoolType"
  shows "\<exists>ec trace. createFailResult E S st = Some (Inr (Fail ec trace)) \<and> error_value L \<sigma> (mErrorFieldVariable (cBmc st)) ec"
proof -
  let ?b = "cBmc st"
  let ?c = "bRoot ?b" and ?s = "mEntry (bRoot ?b)" and ?i = "loc_number ?b" and ?t = "mTopo ?b"
  let ?ok = "takes True L \<sigma> (call_approx ?b) ?c ?t ?i (?i ?s) n"
  let ?p = "\<lparr>pVariables = bTable ?b, mPredIdx = n, mPredCalls = []\<rparr>"
  note P = p [unfolded prepared_def] and T = prepared_topo [OF p]
  have def: "transition_defined L \<sigma> (call_approx ?b) ?c e" if "l \<in> set ?t" "e \<in> set (mIncoming ?c l)" for l e
    using ready_defined [OF T(3) [OF that] \<sigma>(1) _ L(1)] P by blast
  then have en: "encodable L \<sigma> (call_approx ?b) ?c ?t ?i ?s (mError ?b) ?p"
    using P T(1) L(1) \<sigma>(1) n by (auto simp: encodable_def total_valuation_def)
  have err: "mError ?b \<in> set ?t" and ids: "ids_ok ?c ?t" using P by auto
  note sp = stored_predecessors(1) [OF en new] stored_predecessors(2) [where ok' = ?ok, OF en new]
  have "\<exists>xs. cex_from (map_of (rev new)) (eval L \<sigma>) ?c (mError ?b) = Some (Inr xs) \<and> cex_path ?c ?ok (mError ?b) xs ?s"
  proof (rule cex_walk [where m = "?i (mError ?b)" and index = ?i, OF T(1) ids])
    show "map_of (rev new) ?s = None" by (rule sp(1))
    show "path_by ?c ?ok ?s (mError ?b)" using \<sigma>(2) by (simp add: taken_def)
  qed (use err sp(2) in auto)
  then obtain xs where xs: "cex_from (map_of (rev new)) (eval L \<sigma>) ?c (mError ?b) = Some (Inr xs)" "cex_path ?c ?ok (mError ?b) xs ?s" by blast
  have assign: "isAssign (mTransition ?c e)" if ue: "(u, e) \<in> set xs" for u e
  proof -
    obtain w where "e \<in> set (mIncoming ?c w)" using cex_path_incoming [OF xs(2) ue] by blast
    then have "live ?c e" using P graph_okD(6) [of ?c w] by blast
    then show ?thesis using T(4) by (simp add: transition_ready_def)
  qed
  have "\<exists>tr. build_trace (eval L \<sigma>) ?b xs = Inr tr"
  proof -
    have "res_map (\<lambda>(l, e). trace_action (eval L \<sigma>) ?b e) xs = Inr (map (\<lambda>(l, e). map (\<lambda>a. (original_variable ?b (va_variable a),
        getVariableValue \<sigma> (va_variable a))) (mAssignments (mTransition ?c e))) xs)"
      by (rule res_map_Inr) (auto simp: trace_action_total assign)
    then show ?thesis by (simp add: build_trace_def)
  qed
  then obtain tr where tr: "build_trace (eval L \<sigma>) ?b xs = Inr tr" by blast
  obtain x k where code: "\<sigma> (mErrorFieldVariable ?b) = Some x" "error_code L (ALit x) = Inr k"
    using code_value [OF \<sigma>(1) _ _ ty] P by blast
  then have "createFailResult E S st = Some (Inr (Fail (nat (k mod 2 ^ 32)) (if sTrace S then tr else ([], []))))"
    using xs(1) tr m L(2) by (simp add: createFailResult_def Let_def CreateFail_def getVariableValue_def)
  with code show ?thesis unfolding error_value_def by blast
qed

text \<open>What a verdict means for the path from a location to another one.\<close>

definition verdict :: "llvm_api \<Rightarrow> cfa \<Rightarrow> nat \<Rightarrow> nat \<Rightarrow> variable \<Rightarrow> verification_result \<Rightarrow> bool" where
  "verdict L c s t v res = (case res of
       Fail ec trace \<Rightarrow> \<exists>\<sigma>. total_valuation \<sigma> \<and> (s, t) \<in> (feasible L \<sigma> c)\<^sup>* \<and> error_value L \<sigma> v ec
     | Success \<Rightarrow> \<nexists>\<sigma>. total_valuation \<sigma> \<and> (s, t) \<in> (feasible L \<sigma> c)\<^sup>*
     | _ \<Rightarrow> False)"

lemma number_frame [simp]: "loc_number (b\<lparr>bTable := x\<rparr>) = loc_number b" "call_approx (b\<lparr>bTable := x\<rparr>) = call_approx b"
  by (simp_all add: loc_number_def call_approx_def fun_eq_iff)

lemma table_frame [simp]:
  "taken L \<sigma> n (b\<lparr>bTable := x\<rparr>) = taken L \<sigma> n b" "prepared L tbl (b\<lparr>bTable := x\<rparr>) = prepared L tbl b"
  by (simp_all add: taken_def prepared_def)

lemma approximate_none: "mCalls (cBmc st) = [] \<Longrightarrow> approximate f st = st"
  by (simp add: approximate_def)

lemma no_ancestor: "mCalls b = [] \<Longrightarrow> findCommonCallAncestor False False s t b = Inr (None, None)"
  by (simp add: findCommonCallAncestor_def dominator_lookups_def postdominator_lookups_def findLowestCommonDominator_def
      findHighestCommonPostDominator_def)

lemma solver_cases:
  assumes "solver_decides E"
  obtains \<sigma> where "eRun E ss = SAT" "satisfies (eApi E) \<sigma> ss" "eModel E ss = eval (eApi E) \<sigma>"
  | "eRun E ss = UNSAT" "\<nexists>\<sigma>. satisfies (eApi E) \<sigma> ss"
  using assms [unfolded solver_decides_def, THEN spec, of ss] by (cases "eRun E ss") auto

text \<open>The step from a stack of assertions to the next one, for the formula of the root.\<close>

lemma add_formula: "bool_val L \<sigma> f x \<Longrightarrow> mSolver st = s # ss \<Longrightarrow> solver_add f st = Inr (st\<lparr>mSolver := (s @ [f]) # ss\<rparr>)"
  using has_val_type by (fastforce simp: solver_add_def isBoolType_iff)

lemma search_verdict:
  assumes p: "prepared L tbl (cBmc st)" and B: "path_builder (eBuilder E) L" and L: "llvm_laws L" "L = eApi E"
    and sol: "solver_decides E" and k: "counter_ok 2 st" and ty: "var_type (mErrorFieldVariable (cBmc st)) \<noteq> BoolType"
    and S: "\<not> noDomPush S" "\<not> noPostDomPush S" "bound \<le> maxBound S"
    and init: "mSolver st = [[]]" "mPredecessors st = cache_new"
  shows "\<exists>res st'. search E S bound False (mEntry (bRoot (cBmc st))) (mError (cBmc st)) st = Some (Inr (res, st'))
    \<and> verdict L (bRoot (cBmc st)) (mEntry (bRoot (cBmc st))) (mError (cBmc st)) (mErrorFieldVariable (cBmc st)) res"
proof -
  let ?b = "cBmc st"
  let ?c = "bRoot ?b" and ?s = "mEntry (bRoot ?b)" and ?t = "mError ?b"
  have calls: "mCalls ?b = []" using p by (simp add: prepared_def)
  have k2: "counter_ok (Suc 1) st" using k by (simp add: numeral_2_eq_2)
  obtain f st1 new where 1: "path_condition E ?s ?t st = Inr (f, st1)" "cBmc st1 = ?b\<lparr>bTable := bTable (cBmc st1)\<rparr>" "counter_ok 1 st1"
    "mSolver st1 = mSolver st" "mOpenCalls st1 = mOpenCalls st" "mPredecessors st1 = insert_all new (mPredecessors st)"
    and val: "\<forall>\<sigma>. total_valuation \<sigma> \<longrightarrow> bool_val L \<sigma> f (taken L \<sigma> (cPredIdx st) ?b)"
    and ok: "\<forall>\<sigma>. total_valuation \<sigma> \<longrightarrow> calls_ok L \<sigma> ?c (mTopo ?b) (loc_number ?b) (loc_number ?b ?s) (cPredIdx st) new"
    and keys: "fst ` set new = {l \<in> (\<lambda>j. mTopo ?b ! (j + loc_number ?b ?s)) ` {1..<loc_number ?b ?t - loc_number ?b ?s + 1}.
         region ?c (loc_number ?b) (loc_number ?b ?s) l \<noteq> []}"
    by (rule root_formula [OF p B L(1) k2])
  note val = val [rule_format] and ok = ok [rule_format]
  obtain tb where tb: "cBmc st1 = ?b\<lparr>bTable := tb\<rparr>" using 1(2) by metis
  define st2 where "st2 = (push st1)\<lparr>mSolver := [[f], []]\<rparr>"
  have add: "solver_add f (push st1) = Inr st2"
    using add_formula [OF val [OF base_total], of "push st1" "[]" "[[]]"] 1(4) init by (simp add: st2_def push_def)
  have two: "cBmc st2 = ?b\<lparr>bTable := tb\<rparr>" "mSolver st2 = [[f], []]" "mPredecessors st2 = [Map.empty, map_of (rev new)]"
    using tb 1(6) init by (simp_all add: st2_def push_def cache_push_def cache_new_def insert_all_top)
  have under: "under_approximation E S ?s ?t st = (if runSolver E st2 = SAT
      then map_option (\<lambda>r. rbind r (\<lambda>res. Inr (Some res, st2))) (createFailResult E S st2)
      else Some (rbind (pop st2) (\<lambda>st3. Inr (None, st3))))"
    using 1(1) add approximate_none [OF calls] by (simp add: under_approximation_def)
  have sat_iff: "satisfies L \<sigma> (mSolver st2) \<longleftrightarrow> total_valuation \<sigma> \<and> taken L \<sigma> (cPredIdx st) ?b" for \<sigma>
    using val [of \<sigma>] has_val_unique by (fastforce simp: satisfies_def two)
  consider (sat) \<sigma> where "eRun E (mSolver st2) = SAT" "satisfies L \<sigma> (mSolver st2)" "eModel E (mSolver st2) = eval L \<sigma>"
    | (unsat) "eRun E (mSolver st2) = UNSAT" "\<nexists>\<sigma>. satisfies L \<sigma> (mSolver st2)"
    using solver_cases [OF sol, of "mSolver st2"] L(2) by metis
  then show ?thesis
  proof cases
    case sat
    then have \<sigma>: "total_valuation \<sigma>" "taken L \<sigma> (cPredIdx st) ?b" by (simp_all add: sat_iff)
    have pre: "prepared L tbl (cBmc st2)" "taken L \<sigma> (cPredIdx st) (cBmc st2)"
      "calls_ok L \<sigma> (bRoot (cBmc st2)) (mTopo (cBmc st2)) (loc_number (cBmc st2)) (loc_number (cBmc st2) (mEntry (bRoot (cBmc st2)))) (cPredIdx st) new"
      "cPredIdx st + length (mTopo (cBmc st2)) < 2 ^ 32" "var_type (mErrorFieldVariable (cBmc st2)) \<noteq> BoolType"
      "cache_get (mPredecessors st2) = map_of (rev new)"
      using p \<sigma>(2) ok [OF \<sigma>(1)] ty k by (simp_all add: two counter_ok_def fun_eq_iff split: option.splits)
    have "\<exists>ec trace. createFailResult E S st2 = Some (Inr (Fail ec trace)) \<and> error_value L \<sigma> (mErrorFieldVariable (cBmc st2)) ec"
      by (rule fail_result [OF pre(1) L \<sigma>(1) pre(2) sat(3) pre(6,3) _ pre(4,5)]) (use keys in \<open>simp add: two\<close>)
    then obtain ec trace where r: "createFailResult E S st2 = Some (Inr (Fail ec trace))" "error_value L \<sigma> (mErrorFieldVariable ?b) ec"
      by (auto simp: two)
    have "search E S bound False ?s ?t st = Some (Inr (Fail ec trace, st2))"
      using under r(1) sat(1) S(3) by (subst search.simps) (simp add: search_round_def runSolver_def)
    moreover have "(?s, ?t) \<in> (feasible L \<sigma> ?c)\<^sup>*" by (rule taken_feasible(1) [OF p \<sigma>(2)])
    ultimately show ?thesis using r(2) \<sigma>(1) unfolding verdict_def by (intro exI conjI) auto
  next
    case unsat
    have none: "\<nexists>\<sigma>. total_valuation \<sigma> \<and> (?s, ?t) \<in> (feasible L \<sigma> ?c)\<^sup>*"
      using unsat(2) taken_feasible(2) [OF p, of _ "cPredIdx st"] unfolding sat_iff by blast
    define st4 where "st4 = push ((push (st2\<lparr>mPredecessors := [map_of (rev new)], mSolver := [[]]\<rparr>))\<lparr>mOpenCalls := []\<rparr>)"
    have pop: "pop st2 = Inr (st2\<lparr>mPredecessors := [map_of (rev new)], mSolver := [[]]\<rparr>)"
      by (simp add: pop_def cache_pop_def two)
    have 4: "cBmc st4 = ?b\<lparr>bTable := tb\<rparr>" "mSolver st4 = [[], [], []]" "counter_ok (Suc 0) st4"
      using 1(3) tb two(1) by (simp_all add: st4_def push_def counter_ok_def st2_def)
    have p4: "prepared L tbl (cBmc st4)" using p by (simp add: 4)
    obtain f' st5 new' where 5: "path_condition E ?s ?t st4 = Inr (f', st5)" "mSolver st5 = mSolver st4"
      and val': "\<forall>\<sigma>. total_valuation \<sigma> \<longrightarrow> bool_val L \<sigma> f' (taken L \<sigma> (cPredIdx st4) ?b)"
      by (rule root_formula [OF p4 B L(1) 4(3)]) (simp add: 4)
    note val' = val' [rule_format]
    have add': "add_path E ?s ?t st4 = Inr (st5\<lparr>mSolver := [[f'], [], []]\<rparr>)"
      using 5 add_formula [OF val' [OF base_total], of st5 "[]" "[[], []]"] by (simp add: add_path_def 4)
    have "\<not> satisfies L \<sigma> [[f'], [], []]" for \<sigma>
      using none val' [of \<sigma>] taken_feasible(1) [OF p, of \<sigma> "cPredIdx st4"] has_val_unique
      by (fastforce simp: satisfies_def)
    then have run: "eRun E [[f'], [], []] = UNSAT" using solver_cases [OF sol, of "[[f'], [], []]"] L(2) by metis
    have move: "move_points E S ?s ?t (st2\<lparr>mPredecessors := [map_of (rev new)], mSolver := [[]]\<rparr>) =
        Inr (Some (?s, ?t), push (st2\<lparr>mPredecessors := [map_of (rev new)], mSolver := [[]]\<rparr>))"
      using S(1,2) calls no_ancestor by (simp add: move_points_def two)
    have over: "over_approximation E S bound ?s ?t (push (st2\<lparr>mPredecessors := [map_of (rev new)], mSolver := [[]]\<rparr>)) =
        Some (Inr (Finished Success (end_stats (st5\<lparr>mSolver := [[f'], [], []]\<rparr>))))"
    proof -
      let ?st = "push (st2\<lparr>mPredecessors := [map_of (rev new)], mSolver := [[]]\<rparr>)"
      have "mCalls (cBmc ?st) = []" using calls by (simp add: push_def two)
      then have "push (over_approximate bound ?st) = st4" "num_unhandled bound ?st = 0"
        by (simp_all add: over_approximate_def approximate_none open_within_def st4_def num_unhandled_def u32_def)
      then show ?thesis using add' run by (simp add: over_approximation_def runSolver_def)
    qed
    have "search E S bound False ?s ?t st = Some (Inr (Success, end_stats (st5\<lparr>mSolver := [[f'], [], []]\<rparr>)))"
      using under unsat(1) pop move over S(3) by (subst search.simps) (simp add: search_round_def runSolver_def)
    then show ?thesis using none unfolding verdict_def by (intro exI conjI) auto
  qed
qed

section \<open>Preparing a program without calls\<close>

text \<open>A program: an automaton without cycles and calls, in which all locations but the exit are reachable
  from the entry, with an error location, whose expressions have values.\<close>

definition program_ok :: "llvm_api \<Rightarrow> variable_table \<Rightarrow> gtype \<Rightarrow> cfa \<Rightarrow> bool" where
  "program_ok L tbl T c \<longleftrightarrow> table_room 1 c tbl \<and> (\<forall>l. mID c l < 2 ^ 32) \<and> Suc (mLocationIdx c) < 2 ^ 32
     \<and> 2 * Suc (length (mNodes c)) < 2 ^ 32
     \<and> value_type T \<and> T \<noteq> BoolType \<and> (\<exists>l \<in> set (mNodes c). isError c l)
     \<and> (\<forall>l \<in> set (mNodes c). isError c l \<longrightarrow> (\<exists>x. mErrorFieldExprs c l = Some x \<and> expr_ready L tbl x \<and> getType x = T))
     \<and> (\<forall>(e, s, t, tr) \<in> arcs c. transition_ready L tbl tr \<and> s \<noteq> mExit c)
     \<and> (\<forall>v \<in> ran tbl. \<forall>n. var_name v \<noteq> pred_name n)
     \<and> acyclic (edge_rel c) \<and> (\<forall>l \<in> set (mNodes c). l = mExit c \<or> (mEntry c, l) \<in> (edge_rel c)\<^sup>*) \<and> \<not> isError c (mExit c)"

text \<open>What the iterators of LLVM do, and the iteration over a set.\<close>

definition post_order :: "cfa \<Rightarrow> nat list \<Rightarrow> bool" where
  "post_order c po \<longleftrightarrow> distinct po \<and> set po = {l. (mEntry c, l) \<in> (edge_rel c)\<^sup>*}
     \<and> (\<forall>(u, v) \<in> edge_rel c. u \<in> set po \<longrightarrow> subseq [v, u] po)"

definition env_ok :: "bmc_env \<Rightarrow> bool" where
  "env_ok E \<longleftrightarrow> fresh_alloc (eAlloc E) \<and> (\<forall>c. acyclic (edge_rel c) \<longrightarrow> post_order c (ePostOrder E c))
     \<and> (\<forall>c err l. eVisited E c err l \<longleftrightarrow> (l, err) \<in> (edge_rel c)\<^sup>*) \<and> (\<forall>xs. set (eSetOrder E xs) = set xs)
     \<and> llvm_laws (eApi E)"

lemma ready_mono:
  assumes "ran tbl \<subseteq> ran tbl'"
  shows "expr_ready L tbl x \<Longrightarrow> expr_ready L tbl' x" "transition_ready L tbl tr \<Longrightarrow> transition_ready L tbl' tr"
proof -
  show e: "expr_ready L tbl x \<Longrightarrow> expr_ready L tbl' x" for x
    using assms unfolding expr_ready_def by (meson subsetD)
  show "transition_ready L tbl tr \<Longrightarrow> transition_ready L tbl' tr"
    using e assms unfolding transition_ready_def list_all_iff assignment_ready_def by blast
qed

lemma literal_ready:
  assumes "llvm_laws L"
  shows "expr_ready L tbl True_lit" "expr_ready L tbl False_lit"
proof -
  have "has_val L \<sigma> (LiteralExpr (BoolLiteral x)) (BoolLiteral x)" if "total_valuation \<sigma>" for \<sigma> x
    using that assms by (simp add: bool_lit_val total_valuation_def)
  then show "expr_ready L tbl True_lit" "expr_ready L tbl False_lit" unfolding expr_ready_def by auto
qed

lemma undef_not_node: "\<not> well_typed (NonNullaryExpr Undef t ops d)"
proof
  assume "well_typed (NonNullaryExpr Undef t ops d)"
  then show False by (cases rule: well_typed.cases) (auto simp: kind_sets)
qed

lemma ready_not_undef: "expr_ready L tbl x \<Longrightarrow> getKind x \<noteq> Undef"
  using base_total undef_not_node unfolding expr_ready_def has_val_def by (cases x) auto

text \<open>The root after the goal has been added and the irrelevant locations have been removed.\<close>

definition goal_arcs :: "cfa \<Rightarrow> nat \<Rightarrow> variable \<Rightarrow> (nat \<times> nat \<times> transition) set" where
  "goal_arcs c err v = insert (err, mExit c, AssignTransition False_lit []) (error_arcs c err v (\<lambda>l. l) (mNodes c))"

definition sliced :: "cfa \<Rightarrow> nat \<Rightarrow> variable \<Rightarrow> cfa \<Rightarrow> cfa \<Rightarrow> bool" where
  "sliced c err v c1 r \<longleftrightarrow> added c c1 (goal_arcs c err v) \<and> err \<notin> set (mNodes c)
     \<and> mEntry r = mEntry c \<and> mExit r = mExit c \<and> graph_ok r
     \<and> arcs r = {(e, s, t, tr) \<in> arcs c1. ((s, err) \<in> (edge_rel c1)\<^sup>* \<or> s = mExit c) \<and> ((t, err) \<in> (edge_rel c1)\<^sup>* \<or> t = mExit c)}"

lemma arc_nodes:
  assumes "graph_ok c" and "(e, s, t, tr) \<in> arcs c"
  shows "s \<in> set (mNodes c)" "t \<in> set (mNodes c)" "(s, t) \<in> edge_rel c"
  using assms graph_okD(7,8) [OF assms(1)] by (auto simp: arcs_def edge_rel_def)

lemma sliced_arcs:
  assumes s: "sliced c err v c1 r" and ok: "program_ok L tbl T c" and a: "(e, u, w, tr) \<in> arcs c1"
  obtains (old) "(e, u, w, tr) \<in> arcs c" "u \<noteq> mExit c" "u \<noteq> err" "w \<noteq> err" "transition_ready L tbl tr"
  | (error) x where "w = err" "u \<in> set (mNodes c)" "isError c u" "u \<noteq> mExit c" "mErrorFieldExprs c u = Some x" "tr = AssignTransition True_lit [VarAssign v x]"
      "expr_ready L tbl x" "getType x = T"
  | (exit) "u = err" "w = mExit c" "tr = AssignTransition False_lit []"
proof -
  note S = s [unfolded sliced_def] and P = ok [unfolded program_ok_def]
  have g: "graph_ok c" using P by (simp add: table_room_def cfa_ok_def)
  show thesis
  proof (cases "(e, u, w, tr) \<in> arcs c")
    case True
    have "u \<noteq> err" "w \<noteq> err" using S arc_nodes [OF g True] by auto
    moreover have "transition_ready L tbl tr \<and> u \<noteq> mExit c" using P True by fast
    ultimately show ?thesis using True by (intro old) auto
  next
    case False
    have "snd ` (arcs c1 - arcs c) = goal_arcs c err v" using S unfolding added_def by blast
    moreover have "(u, w, tr) \<in> snd ` (arcs c1 - arcs c)" using False a by (intro image_eqI [of _ _ "(e, u, w, tr)"]) auto
    ultimately have "(u, w, tr) \<in> goal_arcs c err v" by simp
    then consider "u = err" "w = mExit c" "tr = AssignTransition False_lit []"
      | x where "u \<in> set (mNodes c)" "isError c u" "w = err" "mErrorFieldExprs c u = Some x" "tr = AssignTransition True_lit [VarAssign v x]"
      by (auto simp: goal_arcs_def error_arcs_def)
    then show ?thesis
    proof cases
      case (2 x)
      then obtain y where "mErrorFieldExprs c u = Some y" "expr_ready L tbl y" "getType y = T" using P by blast
      moreover have "u \<noteq> mExit c" using 2 P by blast
      ultimately show ?thesis using 2 by (intro error [of x]) simp_all
    qed (rule exit)
  qed
qed

lemma sliced_reach:
  assumes s: "sliced c err v c1 r" and ok: "program_ok L tbl T c"
  shows "(mEntry c, l) \<in> (edge_rel c)\<^sup>* \<Longrightarrow> (l, err) \<in> (edge_rel c1)\<^sup>* \<Longrightarrow> (mEntry c, l) \<in> (edge_rel r)\<^sup>*"
    and "(mEntry c, err) \<in> (edge_rel r)\<^sup>*" and "(e, u, w, tr) \<in> arcs r \<Longrightarrow> (mEntry c, u) \<in> (edge_rel r)\<^sup>*"
proof -
  note S = s [unfolded sliced_def] and P = ok [unfolded program_ok_def]
  have sub: "arcs c \<subseteq> arcs c1" "arcs r = {(e, s, t, tr) \<in> arcs c1. ((s, err) \<in> (edge_rel c1)\<^sup>* \<or> s = mExit c) \<and> ((t, err) \<in> (edge_rel c1)\<^sup>* \<or> t = mExit c)}"
    using S by (auto simp: added_def)
  show reach: "(mEntry c, l) \<in> (edge_rel r)\<^sup>*" if "(mEntry c, l) \<in> (edge_rel c)\<^sup>*" "(l, err) \<in> (edge_rel c1)\<^sup>*" for l
    using that
  proof (induction rule: rtrancl_induct)
    case (step y z)
    then obtain e tr where a: "(e, y, z, tr) \<in> arcs c1" using sub(1) by (auto simp: edge_rel_arcs)
    then have y: "(y, err) \<in> (edge_rel c1)\<^sup>*" using step.prems by (auto simp: edge_rel_arcs intro: converse_rtrancl_into_rtrancl)
    have "(e, y, z, tr) \<in> arcs r" using a y step.prems by (simp add: sub(2))
    then have "(y, z) \<in> edge_rel r" by (auto simp: edge_rel_arcs)
    then show ?case by (rule rtrancl_into_rtrancl [OF step.IH [OF y]])
  qed simp
  have from_c: "(mEntry c, l) \<in> (edge_rel c)\<^sup>*" if "l \<in> set (mNodes c)" "l \<noteq> mExit c" for l using that P by blast
  show err: "(mEntry c, err) \<in> (edge_rel r)\<^sup>*"
  proof -
    obtain l x where l: "l \<in> set (mNodes c)" "isError c l" "mErrorFieldExprs c l = Some x" using P by blast
    then have "(l, err, AssignTransition True_lit [VarAssign v x]) \<in> snd ` (arcs c1 - arcs c)"
      using S by (auto simp: added_def goal_arcs_def error_arcs_def)
    then obtain e where a: "(e, l, err, AssignTransition True_lit [VarAssign v x]) \<in> arcs c1" by auto
    then have vis: "(l, err) \<in> (edge_rel c1)\<^sup>*" by (auto simp: edge_rel_arcs)
    then have "(l, err) \<in> edge_rel r" using a unfolding edge_rel_arcs [of r] sub(2) by blast
    moreover have "l \<noteq> mExit c" using l P by blast
    ultimately show ?thesis using rtrancl_into_rtrancl [OF reach [OF from_c [OF l(1)] vis]] by blast
  qed
  assume a: "(e, u, w, tr) \<in> arcs r"
  then have a1: "(e, u, w, tr) \<in> arcs c1" "(u, err) \<in> (edge_rel c1)\<^sup>* \<or> u = mExit c" unfolding sub(2) by auto
  show "(mEntry c, u) \<in> (edge_rel r)\<^sup>*"
  proof (cases rule: sliced_arcs [OF s ok a1(1)])
    case 1
    then have "u \<in> set (mNodes c)" using P arc_nodes by (fastforce simp: table_room_def cfa_ok_def)
    then show ?thesis using 1 a1(2) reach from_c by blast
  next
    case (2 x)
    then show ?thesis using a1(2) reach from_c by blast
  next
    case 3
    then show ?thesis using err by simp
  qed
qed

lemma sliced_acyclic:
  assumes s: "sliced c err v c1 r" and ok: "program_ok L tbl T c"
  shows "acyclic (edge_rel r)"
proof -
  note S = s [unfolded sliced_def] and P = ok [unfolded program_ok_def]
  have g: "graph_ok c" "mExit c \<in> set (mNodes c)" using P by (auto simp: table_room_def cfa_ok_def locations_ok_def)
  then have ne: "err \<noteq> mExit c" using S by blast
  have c_nodes: "x \<noteq> err \<and> y \<noteq> err" if "(x, y) \<in> edge_rel c" for x y
    using that S arc_nodes [OF g(1)] unfolding edge_rel_arcs by blast
  have edge: "(x, y) \<in> edge_rel c \<or> y = err \<and> x \<noteq> err \<or> x = err \<and> y = mExit c" "x \<noteq> mExit c" if xy: "(x, y) \<in> edge_rel c1" for x y
  proof -
    obtain e tr where a: "(e, x, y, tr) \<in> arcs c1" using xy by (auto simp: edge_rel_arcs)
    have "((x, y) \<in> edge_rel c \<or> y = err \<and> x \<noteq> err \<or> x = err \<and> y = mExit c) \<and> x \<noteq> mExit c"
      by (rule sliced_arcs [OF s ok a]) (use S ne in \<open>auto simp: edge_rel_arcs\<close>)
    then show "(x, y) \<in> edge_rel c \<or> y = err \<and> x \<noteq> err \<or> x = err \<and> y = mExit c" "x \<noteq> mExit c" by auto
  qed
  have path: "(x, y) \<in> (edge_rel c)\<^sup>+ \<or> y = err \<and> x \<noteq> err \<or> y = mExit c \<and> x \<noteq> mExit c" if "(x, y) \<in> (edge_rel c1)\<^sup>+" for x y
    using that
  proof (induction rule: trancl_induct)
    case (base y)
    then show ?case using edge [OF base] by blast
  next
    case (step y z)
    have x: "x \<noteq> mExit c" using tranclD [OF step.hyps(1)] edge(2) by blast
    from step.IH show ?case
    proof (elim disjE)
      assume xy: "(x, y) \<in> (edge_rel c)\<^sup>+"
      then have "x \<noteq> err" "y \<noteq> err" using tranclD [OF xy] tranclD2 [OF xy] c_nodes by blast+
      then have "(y, z) \<in> edge_rel c \<or> z = err" using edge(1) [OF step.hyps(2)] by blast
      then show ?thesis using trancl_into_trancl [OF xy] \<open>x \<noteq> err\<close> by blast
    next
      assume "y = err \<and> x \<noteq> err"
      then show ?thesis using edge(1) [OF step.hyps(2)] c_nodes x by blast
    next
      assume "y = mExit c \<and> x \<noteq> mExit c"
      then show ?thesis using edge(2) [OF step.hyps(2)] by blast
    qed
  qed
  have "acyclic (edge_rel c)" using P by blast
  then have "acyclic (edge_rel c1)" unfolding acyclic_def using path by blast
  moreover have "edge_rel r \<subseteq> edge_rel c1" using S by (auto simp: edge_rel_arcs)
  ultimately show ?thesis by (rule acyclic_subset)
qed

text \<open>The paths to the goal are the paths to an error location, with the code in the new variable.\<close>

definition fails_at :: "llvm_api \<Rightarrow> valuation \<Rightarrow> cfa \<Rightarrow> nat \<Rightarrow> expr \<Rightarrow> bool" where
  "fails_at L \<sigma> c l x \<longleftrightarrow> l \<in> set (mNodes c) \<and> isError c l \<and> mErrorFieldExprs c l = Some x \<and> (mEntry c, l) \<in> (feasible L \<sigma> c)\<^sup>*"

lemma feasibleI: "(e, u, w, tr) \<in> arcs c \<Longrightarrow> isAssign tr \<Longrightarrow> holds L \<sigma> tr \<Longrightarrow> (u, w) \<in> feasible L \<sigma> c"
  unfolding feasible_def by blast

lemma holds_goal:
  "getKind x \<noteq> Undef \<Longrightarrow> holds L \<sigma> (AssignTransition True_lit [VarAssign v x]) \<longleftrightarrow> eval L \<sigma> (VarRefExpr v) = eval L \<sigma> x"
  "\<not> holds L \<sigma> (AssignTransition False_lit as)"
  by (auto simp: holds_def assignment_holds_def)

lemma sliced_sound:
  assumes s: "sliced c err v c1 r" and ok: "program_ok L tbl T c" and p: "(mEntry c, err) \<in> (feasible L \<sigma> r)\<^sup>*"
  shows "\<exists>l x. fails_at L \<sigma> c l x \<and> eval L \<sigma> (VarRefExpr v) = eval L \<sigma> x"
proof -
  note S = s [unfolded sliced_def] and P = ok [unfolded program_ok_def]
  have entry: "mEntry c \<noteq> err" using P S by (auto simp: table_room_def cfa_ok_def locations_ok_def)
  have "w \<noteq> err \<and> (mEntry c, w) \<in> (feasible L \<sigma> c)\<^sup>* \<or> w = err \<and> (\<exists>l x. fails_at L \<sigma> c l x \<and> eval L \<sigma> (VarRefExpr v) = eval L \<sigma> x)"
    if "(mEntry c, w) \<in> (feasible L \<sigma> r)\<^sup>*" for w
    using that
  proof (induction rule: rtrancl_induct)
    case (step y z)
    then obtain e tr where a: "(e, y, z, tr) \<in> arcs r" "isAssign tr" "holds L \<sigma> tr" by (auto simp: feasible_def)
    then have a1: "(e, y, z, tr) \<in> arcs c1" using S by auto
    show ?case
    proof (cases rule: sliced_arcs [OF s ok a1])
      case 1
      have "(y, z) \<in> feasible L \<sigma> c" using feasibleI [OF 1(1) a(2,3)] .
      then show ?thesis using step.IH 1 rtrancl_into_rtrancl by (metis (no_types, lifting))
    next
      case (2 x)
      have "y \<noteq> err" using 2 S by blast
      then have "fails_at L \<sigma> c y x" using step.IH 2 by (auto simp: fails_at_def)
      moreover have "eval L \<sigma> (VarRefExpr v) = eval L \<sigma> x"
        using a(3) holds_goal(1) [OF ready_not_undef [OF 2(7)]] 2(6) by simp
      ultimately show ?thesis using 2(1) by blast
    next
      case 3
      then show ?thesis using a(3) holds_goal(2) by simp
    qed
  qed (use entry in simp)
  from this [OF p] show ?thesis by blast
qed

lemma sliced_complete:
  assumes s: "sliced c err v c1 r" and ok: "program_ok L tbl T c" and l: "fails_at L \<sigma> c l x" and x: "eval L \<sigma> (VarRefExpr v) = eval L \<sigma> x"
  shows "(mEntry c, err) \<in> (feasible L \<sigma> r)\<^sup>*"
proof -
  note S = s [unfolded sliced_def] and P = ok [unfolded program_ok_def] and F = l [unfolded fails_at_def]
  have sub: "arcs c \<subseteq> arcs c1" "arcs r = {(e, s, t, tr) \<in> arcs c1. ((s, err) \<in> (edge_rel c1)\<^sup>* \<or> s = mExit c) \<and> ((t, err) \<in> (edge_rel c1)\<^sup>* \<or> t = mExit c)}"
    using S by (auto simp: added_def)
  let ?tr = "AssignTransition True_lit [VarAssign v x]"
  have "(l, err, ?tr) \<in> snd ` (arcs c1 - arcs c)" using S F by (auto simp: added_def goal_arcs_def error_arcs_def)
  then obtain e where a: "(e, l, err, ?tr) \<in> arcs c1" by auto
  then have vis: "(l, err) \<in> (edge_rel c1)\<^sup>*" by (auto simp: edge_rel_arcs)
  have "getKind x \<noteq> Undef" using P F ready_not_undef by fastforce
  then have "(l, err) \<in> feasible L \<sigma> r"
    using a vis x by (intro feasibleI [of e _ _ ?tr]) (auto simp: sub(2) holds_goal isAssign_def)
  moreover have "(mEntry c, w) \<in> (feasible L \<sigma> r)\<^sup>*" if "(mEntry c, w) \<in> (feasible L \<sigma> c)\<^sup>*" "(w, err) \<in> (edge_rel c1)\<^sup>*" for w
    using that
  proof (induction rule: rtrancl_induct)
    case (step y z)
    then obtain e tr where b: "(e, y, z, tr) \<in> arcs c1" "isAssign tr" "holds L \<sigma> tr" using sub(1) by (auto simp: feasible_def)
    then have y: "(y, err) \<in> (edge_rel c1)\<^sup>*" using step.prems by (auto simp: edge_rel_arcs intro: converse_rtrancl_into_rtrancl)
    have "(y, z) \<in> feasible L \<sigma> r" using b y step.prems by (intro feasibleI [of e]) (auto simp: sub(2))
    then show ?case by (rule rtrancl_into_rtrancl [OF step.IH [OF y]])
  qed simp
  ultimately show ?thesis using F vis rtrancl_into_rtrancl by metis
qed

section \<open>The whole run\<close>

lemma post_order_topo:
  assumes "post_order r po" and "\<forall>(e, u, w, tr) \<in> arcs r. (mEntry r, u) \<in> (edge_rel r)\<^sup>*"
  shows "numbered (rev po) (number_from (rev po) 0 m)" "ordered_in (rev po) r"
proof -
  note po = assms(1) [unfolded post_order_def]
  show "numbered (rev po) (number_from (rev po) 0 m)" using po by (auto simp: numbered_def number_from_nth)
  have "subseq [u, w] (rev po)" if "(e, u, w, tr) \<in> arcs r" for e u w tr
  proof -
    have "(u, w) \<in> edge_rel r" "u \<in> set po" using that assms(2) po by (auto simp: edge_rel_arcs)
    then have "subseq [w, u] po" using po by auto
    then obtain i j where ij: "i < j" "j < length po" "po ! i = w" "po ! j = u" using subseq_pair_nth po by metis
    then have "rev po ! (length po - Suc j) = u" "rev po ! (length po - Suc i) = w" "length po - Suc j < length po - Suc i"
      by (simp_all add: rev_nth)
    moreover have "distinct (rev po)" using po by simp
    ultimately show ?thesis unfolding subseq_pair_nth [OF \<open>distinct (rev po)\<close>]
      using ij(1,2) by (intro exI [of _ "length po - Suc j"] exI [of _ "length po - Suc i"]) simp
  qed
  then show "ordered_in (rev po) r" by (auto simp: ordered_in_def)
qed

lemma ordered_less:
  assumes "numbered topo m" and "ordered_in topo c" and "(u, w) \<in> edge_rel c"
  shows "with_default (m u) < with_default (m w)"
proof -
  obtain e tr where "(e, u, w, tr) \<in> arcs c" using assms(3) by (auto simp: edge_rel_arcs)
  then have "subseq [u, w] topo" using assms(2) by (auto simp: ordered_in_def)
  then obtain a b where "m u = Some a" "m w = Some b" "a < b" by (rule subseq_numbers [OF assms(1)])
  then show ?thesis by (simp add: with_default_def)
qed

lemma dec_digits_chars: "CHR ''/'' \<notin> set (dec_digits n)"
proof (induction n rule: dec_digits.induct)
  case (1 n)
  have "CHR ''/'' \<noteq> char_of (48 + k)" if "k < 10" for k :: nat
  proof
    assume "CHR ''/'' = char_of (48 + k)"
    then have "(of_char (CHR ''/'') :: nat) = 48 + k" using digit_value [OF that] by simp
    then show False by simp
  qed
  then show ?case using 1 by (subst dec_digits.simps) auto
qed

lemma pred_name_chars: "CHR ''/'' \<notin> set (pred_name n)"
  using dec_digits_chars by (simp add: pred_name_def)

lemma sliced_ready:
  assumes s: "sliced c err v c1 r" and ok: "program_ok L tbl T c" and v: "tbl (var_name v) = None" "var_type v = T" and L: "llvm_laws L"
    and a: "(e, u, w, tr) \<in> arcs r"
  shows "transition_ready L (tbl(var_name v \<mapsto> v)) tr"
proof -
  let ?tbl = "tbl(var_name v \<mapsto> v)"
  have ran: "ran tbl \<subseteq> ran ?tbl" "v \<in> ran ?tbl" using v(1) by (auto simp: ran_map_upd)
  have T: "value_type T" using ok by (simp add: program_ok_def)
  have a1: "(e, u, w, tr) \<in> arcs c1" using a s by (auto simp: sliced_def)
  show ?thesis
  proof (cases rule: sliced_arcs [OF s ok a1])
    case 1
    then show ?thesis using ready_mono(2) [OF ran(1)] by blast
  next
    case (2 x)
    then show ?thesis using ready_mono(1) [OF ran(1) 2(7)] literal_ready [OF L] T v(2) ran(2)
      by (simp add: transition_ready_def assignment_ready_def isAssign_def)
  next
    case 3
    then show ?thesis using literal_ready [OF L] by (simp add: transition_ready_def isAssign_def)
  qed
qed

text \<open>The state after \<open>prepare\<close>.\<close>

lemma prepare_run:
  assumes ok: "program_ok L tbl T (bRoot (cBmc st))" and E: "env_ok E" "L = eApi E"
    and st: "bTable (cBmc st) = tbl" "mTopo (cBmc st) = []" "mLocNumbers (cBmc st) = Map.empty" "cPredIdx st = 0"
  obtains b c1 where "prepare E st = Inr (Some (st\<lparr>cBmc := b\<rparr>))" "sliced (bRoot (cBmc st)) (mError b) (mErrorFieldVariable b) c1 (bRoot b)"
    "prepared L (tbl(var_name (mErrorFieldVariable b) \<mapsto> mErrorFieldVariable b)) b" "counter_ok 2 (st\<lparr>cBmc := b\<rparr>)"
    "var_type (mErrorFieldVariable b) = T" "tbl (var_name (mErrorFieldVariable b)) = None" "\<forall>n. var_name (mErrorFieldVariable b) \<noteq> pred_name n"
proof -
  let ?b0 = "cBmc st"
  let ?c = "bRoot ?b0"
  note P = ok [unfolded program_ok_def] and V = E(1) [unfolded env_ok_def]
  obtain l where l: "l \<in> set (mNodes ?c)" "isError ?c l" using P by blast
  have codes: "codes_typed ?c T" unfolding codes_typed_def using P by blast
  have room: "table_room 1 (bRoot ?b0) (bTable ?b0)" "fresh_alloc (eAlloc E)" "Suc (mLocationIdx (bRoot ?b0)) < 2 ^ 32" using P V st by auto
  obtain b1 where g: "initializeErrorField (eAlloc E) (eFirst E) ?b0 = Inr (True, b1)" "cfa_ok (bRoot b1) (bTable b1)"
    "mError b1 \<notin> set (mNodes ?c)" "mNodes (bRoot b1) = mNodes ?c @ [mError b1]" "var_type (mErrorFieldVariable b1) = T"
    "added ?c (bRoot b1) (goal_arcs ?c (mError b1) (mErrorFieldVariable b1))"
    "mEntry (bRoot b1) = mEntry ?c" "mExit (bRoot b1) = mExit ?c"
    "bTable b1 = (bTable ?b0)(var_name (mErrorFieldVariable b1) \<mapsto> mErrorFieldVariable b1)"
    "bTable ?b0 (var_name (mErrorFieldVariable b1)) = None" "CHR ''/'' \<in> set (var_name (mErrorFieldVariable b1))"
    "b1 = ?b0\<lparr>bRoot := bRoot b1, bTable := bTable b1, mError := mError b1, mErrorFieldVariable := mErrorFieldVariable b1\<rparr>"
    "mID (bRoot b1) = (mID ?c)(mError b1 := mLocationIdx ?c)"
    by (rule goal_run [OF room codes l, where first = "eFirst E"]) (simp add: goal_arcs_def)
  define v err c1 where "v = mErrorFieldVariable b1" and "err = mError b1" and "c1 = bRoot b1"
  let ?tbl = "tbl(var_name v \<mapsto> v)"
  have gok: "graph_ok (bRoot b1)" "locations_ok (bRoot b1)" using g(2) by (auto simp: cfa_ok_def)
  obtain r where r: "removeIrrelevantLocations (eVisited E (bRoot b1) (mError b1)) b1 = Inr (b1\<lparr>bRoot := r\<rparr>)" "graph_ok r"
    "arcs r = {(e, s, t, tr) \<in> arcs (bRoot b1). (eVisited E (bRoot b1) (mError b1) s \<or> s = mExit (bRoot b1))
       \<and> (eVisited E (bRoot b1) (mError b1) t \<or> t = mExit (bRoot b1))}"
    "set (mNodes r) = {l. \<exists>e s t tr. (e, s, t, tr) \<in> arcs r \<and> (l = s \<or> l = t)}" "graph.more r = graph.more (bRoot b1)"
    "\<forall>e \<in> set (mEdges r). live r e"
    by (rule removeIrrelevant_arcs [OF gok(1)])
  note more = more_cfa [OF r(5)]
  have vis: "eVisited E (bRoot b1) (mError b1) s \<longleftrightarrow> (s, mError b1) \<in> (edge_rel (bRoot b1))\<^sup>*" for s using V by blast
  have sl: "sliced ?c err v c1 r" unfolding sliced_def err_def v_def c1_def using g(3,6-8) more r(2,3) vis by simp
  define topo where "topo = rev (ePostOrder E r)"
  define b where "b = initial_calls (createTopologicalSorts (ePostOrder E) (b1\<lparr>bRoot := r\<rparr>))"
  have entry: "mEntry r = mEntry ?c" using sl by (simp add: sliced_def)
  have po: "post_order r (ePostOrder E r)" using V sliced_acyclic [OF sl ok] by blast
  have tv: "tbl (var_name v) = None" "var_type v = T" "llvm_laws L" using g(5,10) st(1) V E(2) by (simp_all add: v_def)
  note ready = sliced_ready [OF sl ok tv]
  have nocalls: "filter (\<lambda>e. isCall (mTransition r e)) (mEdges r) = []"
  proof -
    have "\<not> isCall (mTransition r e)" if e: "e \<in> set (mEdges r)" for e
    proof -
      obtain u w where "(e, u, w, mTransition r e) \<in> arcs r" using r(6) e by (auto simp: arcs_def live_def)
      from ready [OF this] show ?thesis by (auto simp: transition_ready_def isAssign_def isCall_def split: transition.splits)
    qed
    then show ?thesis by (simp add: filter_empty_conv)
  qed
  have b: "bRoot b = r" "mTopo b = topo" "mLocNumbers b = number_from topo 0 Map.empty" "mCalls b = []" "mError b = err"
    "mErrorFieldVariable b = v" "bTable b = ?tbl"
  proof -
    obtain rt bt where b1: "b1 = ?b0\<lparr>bRoot := rt, bTable := bt, mError := err, mErrorFieldVariable := v\<rparr>" using g(12) err_def v_def by metis
    have "mTopo b1 = []" "mLocNumbers b1 = Map.empty" unfolding b1 using st by simp_all
    then show "bRoot b = r" "mTopo b = topo" "mLocNumbers b = number_from topo 0 Map.empty" "mCalls b = []" "mError b = err"
      "mErrorFieldVariable b = v" "bTable b = ?tbl"
      using nocalls g(9) st(1) by (simp_all add: b_def initial_calls_def createTopologicalSorts_def createTopologicalSort_def topo_def Let_def err_def v_def)
  qed
  have reach: "\<forall>(e, u, w, tr) \<in> arcs r. (mEntry r, u) \<in> (edge_rel r)\<^sup>*" using sliced_reach(3) [OF sl ok] entry by auto
  have num: "numbered topo (mLocNumbers b)" "ordered_in topo r" unfolding topo_def b(3) using post_order_topo [OF po reach] by blast+
  have mem: "set topo = {l. (mEntry r, l) \<in> (edge_rel r)\<^sup>*}" using po by (simp add: topo_def post_order_def)
  have inside: "mEntry r \<in> set topo" "err \<in> set topo" using sliced_reach(2) [OF sl ok] entry by (simp_all add: mem)
  have v: "\<forall>n. var_name v \<noteq> pred_name n" using g(11) pred_name_chars unfolding v_def by metis
  moreover have old: "\<forall>x \<in> ran tbl. \<forall>n. var_name x \<noteq> pred_name n" using P by blast
  ultimately have names: "\<forall>x \<in> ran ?tbl. \<forall>n. var_name x \<noteq> pred_name n" using tv(1) by (simp add: ran_map_upd)
  have nodes: "set topo \<subseteq> set (mNodes (bRoot b1))"
  proof -
    have "mEntry r \<in> set (mNodes (bRoot b1))" using gok(2) more by (simp add: locations_ok_def)
    moreover have "w \<in> set (mNodes (bRoot b1))" if "(u, w) \<in> edge_rel r" for u w
    proof -
      obtain e tr where "(e, u, w, tr) \<in> arcs (bRoot b1)" using \<open>(u, w) \<in> edge_rel r\<close> r(3) by (auto simp: edge_rel_arcs)
      then show ?thesis using arc_nodes(2) [OF gok(1)] by blast
    qed
    ultimately show ?thesis unfolding mem by (auto elim: rtranclE)
  qed
  have ids: "\<forall>l. mID r l < 2 ^ 32" "ids_ok r topo"
  proof -
    show ids: "\<forall>l. mID r l < 2 ^ 32" using P g(13) more by auto
    show "ids_ok r topo" using nodes gok(2) more ids by (auto simp: ids_ok_def findLocationById_def locations_ok_def)
  qed
  have less: "loc_number b x < loc_number b y" if "(x, y) \<in> (edge_rel r)\<^sup>+" for x y
    using that
  proof (induction rule: trancl_induct)
    case (base y)
    then show ?case using ordered_less [OF num] by (auto simp: loc_number_def)
  next
    case (step y z)
    then show ?case using ordered_less [OF num step(2)] by (auto simp: loc_number_def)
  qed
  have "mEntry r \<noteq> err" using sl P entry by (auto simp: sliced_def table_room_def cfa_ok_def locations_ok_def)
  then have "(mEntry r, err) \<in> (edge_rel r)\<^sup>+" using sliced_reach(2) [OF sl ok] entry by (metis rtranclD)
  then have lt: "loc_number b (mEntry r) < loc_number b err" by (rule less)
  have all_ready: "\<forall>(e, s, t, tr) \<in> arcs r. transition_ready L ?tbl tr" using ready by fast
  have "prepared L ?tbl b"
    unfolding prepared_def b using r(2) num inside lt ids all_ready names tv(1,2) P by (simp add: b(3) ran_map_upd)
  moreover have "counter_ok 2 (st\<lparr>cBmc := b\<rparr>)"
  proof -
    have "length topo = card (set topo)" using num(1) by (simp add: numbered_def distinct_card)
    also have "\<dots> \<le> card (set (mNodes (bRoot b1)))" using nodes by (intro card_mono) auto
    also have "\<dots> \<le> Suc (length (mNodes ?c))" using g(4) card_length [of "mNodes (bRoot b1)"] by simp
    finally have "length topo \<le> Suc (length (mNodes ?c))" .
    moreover have "2 * Suc (length (mNodes ?c)) < 2 ^ 32" using P by blast
    ultimately have len: "2 * length topo < 2 ^ 32" by (meson le_less_trans mult_le_mono2)
    have tbl_ok: "table_ok tbl" using P by (simp add: table_room_def cfa_ok_def variables_ok_def)
    have "?tbl (pred_name n) = None" for n
    proof (cases "tbl (pred_name n)")
      case None
      moreover have "pred_name n \<noteq> var_name v" using v by metis
      ultimately show ?thesis by simp
    next
      case (Some x)
      then have "x \<in> ran tbl" "var_name x = pred_name n" using tbl_ok by (auto simp: table_ok_def ran_def)
      then show ?thesis using old by blast
    qed
    then show ?thesis using len st(4) by (simp add: counter_ok_def b)
  qed
  moreover have "prepare E st = Inr (Some (st\<lparr>cBmc := b\<rparr>))" using g(1) r(1) by (simp add: prepare_def b_def)
  ultimately show thesis using sl tv v by (intro that [of b c1]) (simp_all add: b)
qed

lemma eager_rounds_none:
  assumes "mCalls (cBmc st) = []" and "\<forall>xs. set (eSetOrder E xs) = set xs"
  shows "\<exists>ks. for_each (eager_round E) ns st = Inr (st\<lparr>mOpenCalls := ks\<rparr>)"
  using assms(1)
proof (induction ns arbitrary: st)
  case Nil
  then show ?case by (intro exI [of _ "mOpenCalls st"]) simp
next
  case (Cons n ns)
  have "eSetOrder E [] = []" using assms(2) by (metis set_empty)
  then have "eager_round E n st = Inr (st\<lparr>mOpenCalls := []\<rparr>)" using Cons.prems by (simp add: eager_round_def open_within_def)
  then show ?case using Cons.IH [of "st\<lparr>mOpenCalls := []\<rparr>"] Cons.prems by simp
qed

text \<open>The valuation that gives the new variable the code of an error location.\<close>

lemma extend_valuation:
  assumes "total_valuation \<sigma>" and "\<forall>n. var_name v \<noteq> pred_name n" and "lit_type x = var_type v" "lit_ok x"
  shows "total_valuation (\<sigma>(v \<mapsto> x))"
proof -
  have "v \<noteq> Variable (pred_name n) t" for n t using assms(2) by auto
  then show ?thesis using assms by (auto simp: total_valuation_def valuation_ok_def disc_ok_def)
qed

lemma fails_code:
  assumes "program_ok L tbl T c" and "fails_at L \<sigma> c l x"
  shows "expr_ready L tbl x \<and> getType x = T"
proof -
  have "l \<in> set (mNodes c)" "isError c l" "mErrorFieldExprs c l = Some x" using assms(2) by (simp_all add: fails_at_def)
  moreover from this obtain z where "mErrorFieldExprs c l = Some z" "expr_ready L tbl z" "getType z = T"
    using assms(1) unfolding program_ok_def by blast
  ultimately show ?thesis by simp
qed

lemma fails_extend:
  assumes ok: "program_ok L tbl T c" and new: "tbl (var_name v) = None" and f: "fails_at L \<sigma> c l x"
  shows "fails_at L (\<sigma>(v \<mapsto> y)) c l x \<and> eval L (\<sigma>(v \<mapsto> y)) x = eval L \<sigma> x"
proof -
  note P = ok [unfolded program_ok_def]
  have "table_ok tbl" using P by (simp add: table_room_def cfa_ok_def variables_ok_def)
  then have "v \<notin> ran tbl" using new by (auto simp: ran_def table_ok_def)
  then have same: "\<forall>u \<in> ran tbl. (\<sigma>(v \<mapsto> y)) u = \<sigma> u" by auto
  have arcs: "transition_ready L tbl tr" if "(e, u, w, tr) \<in> arcs c" for e u w tr using that P by fast
  have h: "holds L (\<sigma>(v \<mapsto> y)) tr = holds L \<sigma> tr" if "(e, u, w, tr) \<in> arcs c" for e u w tr
    by (rule ready_indep [OF arcs [OF that] same])
  have "feasible L (\<sigma>(v \<mapsto> y)) c = feasible L \<sigma> c" unfolding feasible_def using h by blast
  moreover have "expr_ready L tbl x" using fails_code [OF ok f] by simp
  ultimately show ?thesis using f same unfolding fails_at_def expr_ready_def by auto
qed

lemma bmc_check_verdict:
  assumes "mMainAutomaton sys = Some p" and "program_ok (eApi E) tbl T (mCfa sys p)" and "env_ok E" and "solver_decides E"
    and "\<not> noDomPush S" "\<not> noPostDomPush S" "eagerUnroll S < maxBound S" and "path_builder (eBuilder E) (eApi E)"
  shows "\<exists>res st. bmc_check E S sys tbl = Some (Inr (res, st)) \<and>
    (if \<exists>\<sigma> l x. total_valuation \<sigma> \<and> fails_at (eApi E) \<sigma> (mCfa sys p) l x
     then \<exists>ec trace \<sigma> l x y k. res = Fail ec trace \<and> total_valuation \<sigma> \<and> fails_at (eApi E) \<sigma> (mCfa sys p) l x
       \<and> eval (eApi E) \<sigma> x = Inr (ALit y) \<and> error_code (eApi E) (ALit y) = Inr k \<and> ec = nat (k mod 2 ^ 32)
     else res = Success)"
proof -
  let ?L = "eApi E" and ?c = "mCfa sys p"
  obtain st where st: "BoundedModelCheckerImpl_new sys tbl = Inr st" "bRoot (cBmc st) = ?c" "bTable (cBmc st) = tbl" "mTopo (cBmc st) = []"
    "mLocNumbers (cBmc st) = Map.empty" "cPredIdx st = 0" "mSolver st = [[]]" "mPredecessors st = cache_new"
    using assms(1) by (simp add: BoundedModelCheckerImpl_new_def getMainAutomaton_def)
  have ok: "program_ok ?L tbl T (bRoot (cBmc st))" using assms(2) st(2) by simp
  obtain b c1 where pr: "prepare E st = Inr (Some (st\<lparr>cBmc := b\<rparr>))" "sliced (bRoot (cBmc st)) (mError b) (mErrorFieldVariable b) c1 (bRoot b)"
    "prepared ?L (tbl(var_name (mErrorFieldVariable b) \<mapsto> mErrorFieldVariable b)) b" "counter_ok 2 (st\<lparr>cBmc := b\<rparr>)"
    "var_type (mErrorFieldVariable b) = T" "tbl (var_name (mErrorFieldVariable b)) = None" "\<forall>n. var_name (mErrorFieldVariable b) \<noteq> pred_name n"
    by (rule prepare_run [OF ok assms(3) refl st(3-6)])
  let ?v = "mErrorFieldVariable b"
  have sl: "sliced ?c (mError b) ?v c1 (bRoot b)" using pr(2) st(2) by simp
  then have entry: "mEntry (bRoot b) = mEntry ?c" by (simp add: sliced_def)
  note V = assms(3) [unfolded env_ok_def]
  have T: "T \<noteq> BoolType" using assms(2) by (simp add: program_ok_def)
  have calls: "mCalls (cBmc (st\<lparr>cBmc := b\<rparr>)) = []" using pr(3) by (simp add: prepared_def)
  from eager_rounds_none [OF calls, of E "[1..<Suc (eagerUnroll S)]"] V obtain ks where
    eager: "for_each (eager_round E) [1..<Suc (eagerUnroll S)] (st\<lparr>cBmc := b\<rparr>) = Inr (st\<lparr>cBmc := b, mOpenCalls := ks\<rparr>)" by auto
  let ?st = "begin_stats (st\<lparr>cBmc := b, mOpenCalls := ks\<rparr>)"
  have b: "cBmc ?st = b" "mSolver ?st = [[]]" "mPredecessors ?st = cache_new" using st by (simp_all add: begin_stats_def)
  have k: "counter_ok 2 ?st" using pr(4) by (simp add: counter_ok_def begin_stats_def)
  have "\<exists>res st'. search E S (Suc (eagerUnroll S)) False (mEntry (bRoot (cBmc ?st))) (mError (cBmc ?st)) ?st = Some (Inr (res, st'))
      \<and> verdict ?L (bRoot (cBmc ?st)) (mEntry (bRoot (cBmc ?st))) (mError (cBmc ?st)) (mErrorFieldVariable (cBmc ?st)) res"
    by (rule search_verdict [OF _ _ _ refl assms(4) k _ assms(5,6) _ b(2,3)]) (use pr(3,5) T V assms(7,8) in \<open>simp_all add: b\<close>)
  then obtain res st' where s: "search E S (Suc (eagerUnroll S)) False (mEntry (bRoot b)) (mError b) ?st = Some (Inr (res, st'))"
    and ver: "verdict ?L (bRoot b) (mEntry ?c) (mError b) ?v res" by (auto simp: b(1) entry)
  have run: "bmc_check E S sys tbl = Some (Inr (res, st'))"
    using st(1) pr(1) eager s assms(7) by (simp add: bmc_check_def)
  consider (fail) ec trace \<sigma> where "res = Fail ec trace" "total_valuation \<sigma>" "(mEntry ?c, mError b) \<in> (feasible ?L \<sigma> (bRoot b))\<^sup>*"
      "error_value ?L \<sigma> ?v ec"
    | (success) "res = Success" "\<nexists>\<sigma>. total_valuation \<sigma> \<and> (mEntry ?c, mError b) \<in> (feasible ?L \<sigma> (bRoot b))\<^sup>*"
    using ver by (cases res) (auto simp: verdict_def)
  then show ?thesis
  proof cases
    case fail
    from sliced_sound [OF sl assms(2) fail(3)] obtain l x where
      l: "fails_at ?L \<sigma> ?c l x" "eval ?L \<sigma> (VarRefExpr ?v) = eval ?L \<sigma> x" by blast
    obtain y j where y: "\<sigma> ?v = Some y" "error_code ?L (ALit y) = Inr j" "ec = nat (j mod 2 ^ 32)" using fail(4) unfolding error_value_def by blast
    then have "eval ?L \<sigma> x = Inr (ALit y)" using l(2) by (simp add: getVariableValue_def)
    then have "\<exists>ec trace \<sigma> l x y k. res = Fail ec trace \<and> total_valuation \<sigma> \<and> fails_at ?L \<sigma> ?c l x
       \<and> eval ?L \<sigma> x = Inr (ALit y) \<and> error_code ?L (ALit y) = Inr k \<and> ec = nat (k mod 2 ^ 32)"
      using fail(1,2) l(1) y(2,3) by (intro exI conjI)
    moreover have "\<exists>\<sigma> l x. total_valuation \<sigma> \<and> fails_at ?L \<sigma> ?c l x" using fail(2) l(1) by blast
    ultimately show ?thesis using run by auto
  next
    case success
    have "\<not> fails_at ?L \<sigma> ?c l x" if \<sigma>: "total_valuation \<sigma>" for \<sigma> l x
    proof
      assume f: "fails_at ?L \<sigma> ?c l x"
      obtain y where y: "has_val ?L \<sigma> x y" "getType x = T"
        using fails_code [OF assms(2) f] \<sigma> unfolding expr_ready_def by blast
      have "lit_type y = var_type ?v" "lit_ok y" using has_val_type [OF y(1)] has_val_lit_ok [OF y(1)] y(2) pr(5) by simp_all
      then have "total_valuation (\<sigma>(?v \<mapsto> y))" by (rule extend_valuation [OF \<sigma> pr(7)])
      moreover note ext = fails_extend [OF assms(2) pr(6) f, of y]
      then have "eval ?L (\<sigma>(?v \<mapsto> y)) (VarRefExpr ?v) = eval ?L (\<sigma>(?v \<mapsto> y)) x"
        using y(1) by (simp add: has_val_def getVariableValue_def)
      then have "(mEntry ?c, mError b) \<in> (feasible ?L (\<sigma>(?v \<mapsto> y)) (bRoot b))\<^sup>*"
        using ext by (intro sliced_complete [OF sl assms(2)]) auto
      ultimately show False using success(2) by blast
    qed
    then show ?thesis using run success(1) by auto
  qed
qed

text \<open>The choice of the builder.\<close>

lemma chosen_builder:
  "env_ok (E\<lparr>eBuilder := B\<rparr>) = env_ok E" "solver_decides (E\<lparr>eBuilder := B\<rparr>) = solver_decides E"
  "path_builder (if x then folding_builder L else plain_builder) L"
proof -
  obtain a fst v po so r m B' L' where E: "E = \<lparr>eAlloc = a, eFirst = fst, eVisited = v, ePostOrder = po, eSetOrder = so,
     eRun = r, eModel = m, eBuilder = B', eApi = L'\<rparr>" by (cases E)
  show "env_ok (E\<lparr>eBuilder := B\<rparr>) = env_ok E" by (simp add: env_ok_def)
  show "solver_decides (E\<lparr>eBuilder := B\<rparr>) = solver_decides E" unfolding E solver_decides_def bmc_env.simps ..
  show "path_builder (if x then folding_builder L else plain_builder) L"
    using folding_paths.path_builder_axioms plain_paths.path_builder_axioms by simp
qed

text \<open>
  C1: the verdict for an acyclic program without calls that has an error location, whose locations are reached from the entry (the exit excepted) and
  whose expressions have values under all valuations of the variables. For a solver that decides its
  formulas, a bound that is larger than the eager one, and the default search for dominators and post-dominators, the run of the bounded model checker returns without a failed assertion.
  It reports \<open>Success\<close> exactly if no valuation of the variables makes a path from the entry to an error
  location possible; otherwise it reports a failure, and its number is the code of an error location
  that is reached, as \<open>unsigned\<close>.
\<close>

theorem call_free_verdict:
  assumes "mMainAutomaton sys = Some p" and "program_ok (eApi E) tbl T (mCfa sys p)" and "env_ok E" and "solver_decides E"
    and "\<not> noDomPush S" "\<not> noPostDomPush S" "eagerUnroll S < maxBound S"
  shows "\<exists>res st. BoundedModelChecker_check E S sys tbl = Some (Inr (res, st)) \<and>
    (if \<exists>\<sigma> l x. total_valuation \<sigma> \<and> fails_at (eApi E) \<sigma> (mCfa sys p) l x
     then \<exists>ec trace \<sigma> l x y k. res = Fail ec trace \<and> total_valuation \<sigma> \<and> fails_at (eApi E) \<sigma> (mCfa sys p) l x
       \<and> eval (eApi E) \<sigma> x = Inr (ALit y) \<and> error_code (eApi E) (ALit y) = Inr k \<and> ec = nat (k mod 2 ^ 32)
     else res = Success)"
proof -
  let ?B = "if simplifyExpr S then folding_builder (eApi E) else plain_builder"
  let ?E = "E\<lparr>eBuilder := ?B\<rparr>"
  have api: "eApi ?E = eApi E" "eBuilder ?E = ?B" by simp_all
  have E: "program_ok (eApi ?E) tbl T (mCfa sys p)" "env_ok ?E" "solver_decides ?E"
    using assms(2-4) unfolding api chosen_builder by simp_all
  have B: "path_builder (eBuilder ?E) (eApi ?E)" unfolding api by (rule chosen_builder(3))
  show ?thesis unfolding BoundedModelChecker_check_def
    by (rule bmc_check_verdict [OF assms(1) E assms(5-7) B, unfolded api])
qed

section \<open>An environment and a program\<close>

text \<open>A post-order from the number of predecessors, and a solver defined by what it decides.\<close>

definition rank :: "cfa \<Rightarrow> nat \<Rightarrow> nat" where
  "rank c v = card {u. (u, v) \<in> (edge_rel c)\<^sup>+}"

definition ranked_order :: "cfa \<Rightarrow> nat list" where
  "ranked_order c = rev (sort_key (rank c) (filter (\<lambda>l. (mEntry c, l) \<in> (edge_rel c)\<^sup>*)
     (remdups (mEntry c # List.map_filter (mTarget c) (mEdges c)))))"

lemma finite_edge_rel: "finite (edge_rel c)"
proof -
  have "edge_rel c \<subseteq> (\<lambda>e. (the (mSource c e), the (mTarget c e))) ` set (mEdges c)" by (force simp: edge_rel_def live_def image_iff)
  then show ?thesis by (rule finite_subset) simp
qed

lemma rank_less:
  assumes "acyclic (edge_rel c)" and "(u, v) \<in> edge_rel c"
  shows "rank c u < rank c v"
proof -
  have fin: "finite {u. (u, v) \<in> (edge_rel c)\<^sup>+}" for v
    by (rule finite_subset [OF _ finite_Domain [OF finite_edge_rel [of c]]]) (auto dest: tranclD)
  have "{w. (w, u) \<in> (edge_rel c)\<^sup>+} \<subseteq> {w. (w, v) \<in> (edge_rel c)\<^sup>+}" using assms(2) by (auto intro: trancl_into_trancl)
  moreover have "u \<in> {w. (w, v) \<in> (edge_rel c)\<^sup>+}" "u \<notin> {w. (w, u) \<in> (edge_rel c)\<^sup>+}"
    using assms by (auto simp: acyclic_def)
  ultimately have "{w. (w, u) \<in> (edge_rel c)\<^sup>+} \<subset> {w. (w, v) \<in> (edge_rel c)\<^sup>+}" by blast
  then show ?thesis unfolding rank_def by (rule psubset_card_mono [OF fin])
qed

lemma ranked_post_order:
  assumes "acyclic (edge_rel c)"
  shows "post_order c (ranked_order c)"
proof -
  define xs where "xs = sort_key (rank c) (filter (\<lambda>l. (mEntry c, l) \<in> (edge_rel c)\<^sup>*) (remdups (mEntry c # List.map_filter (mTarget c) (mEdges c))))"
  have d: "distinct xs" "sorted (map (rank c) xs)" by (simp_all add: xs_def)
  have set: "set xs = {l. (mEntry c, l) \<in> (edge_rel c)\<^sup>*}"
  proof -
    have "l = mEntry c \<or> l \<in> set (List.map_filter (mTarget c) (mEdges c))" if "(mEntry c, l) \<in> (edge_rel c)\<^sup>*" for l
      using that by (cases rule: rtranclE) (force simp: edge_rel_def live_def List.map_filter_def image_iff)+
    then show ?thesis by (auto simp: xs_def)
  qed
  have "subseq [v, u] (rev xs)" if e: "(u, v) \<in> edge_rel c" and u: "u \<in> set xs" for u v
  proof -
    have "v \<in> set xs" using e u unfolding set by (auto intro: rtrancl_into_rtrancl)
    then obtain i j where ij: "i < length xs" "xs ! i = u" "j < length xs" "xs ! j = v" using u by (auto simp: in_set_conv_nth)
    have "\<not> j \<le> i" using sorted_nth_mono [OF d(2), of j i] ij rank_less [OF assms e] by auto
    then have "length xs - Suc j < length xs - Suc i" using ij by simp
    moreover have "rev xs ! (length xs - Suc j) = v" "rev xs ! (length xs - Suc i) = u" using ij by (simp_all add: rev_nth)
    moreover have "distinct (rev xs)" using d(1) by simp
    ultimately show ?thesis unfolding subseq_pair_nth [OF \<open>distinct (rev xs)\<close>]
      using ij by (intro exI [of _ "length xs - Suc j"] exI [of _ "length xs - Suc i"]) simp
  qed
  then have "\<forall>(u, v) \<in> edge_rel c. u \<in> set (rev xs) \<longrightarrow> subseq [v, u] (rev xs)" by auto
  then show ?thesis unfolding post_order_def ranked_order_def xs_def [symmetric] using d(1) set by simp
qed

definition ideal_env :: bmc_env where
  "ideal_env = \<lparr>eAlloc = next_address, eFirst = (\<lambda>_. None), eVisited = (\<lambda>c err l. (l, err) \<in> (edge_rel c)\<^sup>*), ePostOrder = ranked_order,
     eSetOrder = (\<lambda>xs. xs), eRun = (\<lambda>ss. if \<exists>\<sigma>. satisfies doc_llvm \<sigma> ss then SAT else UNSAT),
     eModel = (\<lambda>ss. eval doc_llvm (SOME \<sigma>. satisfies doc_llvm \<sigma> ss)), eBuilder = folding_builder doc_llvm, eApi = doc_llvm\<rparr>"

lemma ideal_env_ok: "env_ok ideal_env" "solver_decides ideal_env"
proof -
  show "env_ok ideal_env"
    using next_address_fresh ranked_post_order doc_llvm_laws by (simp add: env_ok_def ideal_env_def)
  show "solver_decides ideal_env"
  proof -
    have "satisfies doc_llvm (SOME \<sigma>. satisfies doc_llvm \<sigma> ss) ss" if "\<exists>\<sigma>. satisfies doc_llvm \<sigma> ss" for ss
      using that by (rule someI_ex)
    then show ?thesis unfolding solver_decides_def ideal_env_def by auto
  qed
qed

text \<open>A program that fails with the code 7 if \<open>p\<close> is true.\<close>

definition p_var :: variable where "p_var = Variable ''main/p'' BoolType"

definition p_table :: variable_table where "p_table = [''main/p'' \<mapsto> p_var]"

definition guarded_root :: cfa where
  "guarded_root = addTransition 11 3 4 (AssignTransition True_lit [])
     (addTransition 10 3 5 (AssignTransition (VarRefExpr p_var) []) failing_root)"

definition guarded_system :: automata_system where
  "guarded_system = \<lparr>mAutomata = [99], mCfa = (\<lambda>_. guarded_root), mMainAutomaton = Some 99\<rparr>"

lemma guarded_simps:
  "mEntry guarded_root = 3" "mExit guarded_root = 4" "mNodes guarded_root = [3, 4, 5]" "mLocationIdx guarded_root = 3"
  "isError guarded_root l \<longleftrightarrow> l = 5" "mErrorFieldExprs guarded_root = [5 \<mapsto> BvLit (APInt 16 7)]" "mID guarded_root l < 3" "mTmp guarded_root = 0"
  by (simp_all add: guarded_root_def failing_root_def addTransition_def createEdge_def createErrorLocation_def createLocation_def createNode_def
      Cfa_new_def empty_cfa_def Let_def isError_def u32_def)

lemma guarded_arcs:
  "arcs guarded_root = {(11, 3, 4, AssignTransition True_lit []), (10, 3, 5, AssignTransition (VarRefExpr p_var) [])}"
proof -
  have "arcs failing_root = {}" "mEdges failing_root = []"
    by (simp_all add: arcs_def live_def failing_root_def createErrorLocation_def createLocation_def createNode_def Cfa_new_def empty_cfa_def Let_def)
  then show ?thesis by (simp add: guarded_root_def arcs_addTransition edges_add)
qed

lemma guarded_rel: "edge_rel guarded_root = {(3, 4), (3, 5)}"
  by (auto simp: edge_rel_arcs guarded_arcs)

lemma p_not_pred: "\<forall>n. var_name p_var \<noteq> pred_name n"
proof (intro allI notI)
  fix n assume "var_name p_var = pred_name n"
  moreover have "CHR ''/'' \<in> set (var_name p_var)" by (simp add: p_var_def)
  ultimately show False using pred_name_chars [of n] by simp
qed

lemma guarded_ready: "expr_ready doc_llvm p_table (VarRefExpr p_var)" "expr_ready doc_llvm p_table (BvLit (APInt 16 7))"
proof -
  have "\<exists>l. has_val doc_llvm \<sigma> (VarRefExpr p_var) l" if "total_valuation \<sigma>" for \<sigma>
    using total_read [OF that p_not_pred _ doc_llvm_laws] by (auto simp: p_var_def value_type_def)
  then show "expr_ready doc_llvm p_table (VarRefExpr p_var)"
    by (auto simp: expr_ready_def p_table_def getVariableValue_def)
  have "has_val doc_llvm \<sigma> (BvLit (APInt 16 7)) (BvLiteral (APInt 16 7))" if "total_valuation \<sigma>" for \<sigma>
    using that doc_llvm_laws by (simp add: has_val_def total_valuation_def apint_ok_def)
  then show "expr_ready doc_llvm p_table (BvLit (APInt 16 7))" unfolding expr_ready_def by auto
qed

lemma guarded_room: "table_room 1 guarded_root p_table"
proof -
  have "table_ok p_table" by (simp add: table_ok_def p_table_def p_var_def)
  then have "cfa_ok (Cfa_new ''main'' 3 4) p_table" using Cfa_new_ok [of 3 4] by simp
  then have "cfa_ok (createErrorLocation 5 (Cfa_new ''main'' 3 4)) p_table" by (intro createLocation_ok) simp_all
  then have "cfa_ok failing_root p_table"
    unfolding failing_root_def
    by (rule cfa_step_ok [OF cfa_step.error_code [of 5 _ "BvLit (APInt 16 7)"], unfolded fst_conv snd_conv, rotated -1])
       (simp_all add: addErrorCode_def createErrorLocation_def isError_def Let_def empty_cfa_def Cfa_new_def createLocation_def createNode_def)
  then have "cfa_ok guarded_root p_table"
    unfolding guarded_root_def
    by (intro addTransition_ok) (simp_all add: edges_add p_var_def failing_root_def addTransition_def createEdge_def Let_def)
  then show ?thesis by (simp add: table_room_def guarded_simps p_table_def)
qed

lemma guarded_program: "program_ok doc_llvm p_table (BvType 16) guarded_root"
proof -
  have "acyclic (edge_rel guarded_root)"
  proof -
    have "acyclic ({} :: (nat \<times> nat) set)" by (simp add: acyclic_def)
    then show ?thesis by (simp add: guarded_rel acyclic_insert rtrancl_insert)
  qed
  moreover have "(3, l) \<in> {(3, 4), (3, 5)}\<^sup>*" if "l \<in> {3, 5}" for l :: nat using that by auto
  moreover have "mID guarded_root l < 2 ^ 32" for l using guarded_simps(7) [of l] by simp
  ultimately show ?thesis
    using guarded_room guarded_ready literal_ready [OF doc_llvm_laws] p_not_pred
    by (auto simp: program_ok_def guarded_simps guarded_arcs guarded_rel value_type_def transition_ready_def isAssign_def p_table_def p_var_def)
qed

theorem call_free_verdict_witness:
  "\<exists>trace st. BoundedModelChecker_check ideal_env \<lparr>sTrace = True, maxBound = 1, eagerUnroll = 0, noDomPush = False, noPostDomPush = False, simplifyExpr = True\<rparr>
     guarded_system p_table = Some (Inr (Fail 7 trace, st))"
proof -
  let ?S = "\<lparr>sTrace = True, maxBound = 1, eagerUnroll = 0, noDomPush = False, noPostDomPush = False, simplifyExpr = True\<rparr>"
  have api: "eApi ideal_env = doc_llvm" by (simp add: ideal_env_def)
  have sys: "mMainAutomaton guarded_system = Some 99" "mCfa guarded_system 99 = guarded_root" by (simp_all add: guarded_system_def)
  have prog: "program_ok (eApi ideal_env) p_table (BvType 16) (mCfa guarded_system 99)" using guarded_program by (simp add: api sys)
  have S: "\<not> noDomPush ?S" "\<not> noPostDomPush ?S" "eagerUnroll ?S < maxBound ?S" by simp_all
  obtain res st where r: "BoundedModelChecker_check ideal_env ?S guarded_system p_table = Some (Inr (res, st))"
    "if \<exists>\<sigma> l x. total_valuation \<sigma> \<and> fails_at doc_llvm \<sigma> guarded_root l x
     then \<exists>ec trace \<sigma> l x y k. res = Fail ec trace \<and> total_valuation \<sigma> \<and> fails_at doc_llvm \<sigma> guarded_root l x
       \<and> eval doc_llvm \<sigma> x = Inr (ALit y) \<and> error_code doc_llvm (ALit y) = Inr k \<and> ec = nat (k mod 2 ^ 32)
     else res = Success"
    using call_free_verdict [OF sys(1) prog ideal_env_ok S, unfolded api sys(2)] by (elim exE conjE) (rule that)
  let ?\<sigma> = "base_valuation(p_var \<mapsto> BoolLiteral True)"
  have "total_valuation ?\<sigma>" by (rule extend_valuation [OF base_total p_not_pred]) (simp_all add: p_var_def)
  moreover have "(3, 5) \<in> feasible doc_llvm ?\<sigma> guarded_root"
    by (rule feasibleI [of 10 _ _ "AssignTransition (VarRefExpr p_var) []"]) (simp_all add: guarded_arcs isAssign_def holds_def getVariableValue_def)
  then have "fails_at doc_llvm ?\<sigma> guarded_root 5 (BvLit (APInt 16 7))" by (auto simp: fails_at_def guarded_simps)
  ultimately obtain ec trace \<sigma> l x y k where f: "res = Fail ec trace" "fails_at doc_llvm \<sigma> guarded_root l x"
    "eval doc_llvm \<sigma> x = Inr (ALit y)" "error_code doc_llvm (ALit y) = Inr k" "ec = nat (k mod 2 ^ 32)"
    using r(2) by (auto split: if_splits)
  have "x = BvLit (APInt 16 7)" using f(2) by (auto simp: fails_at_def guarded_simps split: if_splits)
  then have "ec = 7" using f(3-5) llvm_limited [OF doc_llvm_laws, of "APInt 16 7"] by (auto simp: error_code_def)
  then show ?thesis using r(1) f(1) by blast
qed

text \<open>
  C34: the eager bound, for acyclic programs without calls that have an error location. A run whose eager bound is larger than the maximum is given up as \<open>Unknown\<close>. With equal
  bounds the search does not start either: the verdict is \<open>BoundReached\<close> for every program without
  calls, whether or not it has an error, and whatever the solver would answer.
\<close>

theorem eager_bound_verdict:
  assumes "mMainAutomaton sys = Some p" and "program_ok (eApi E) tbl T (mCfa sys p)" and "env_ok E"
  shows "(maxBound S < eagerUnroll S \<longrightarrow> (\<exists>st. BoundedModelChecker_check E S sys tbl = Some (Inr (Unknown, st))))
    \<and> (eagerUnroll S = maxBound S \<longrightarrow> (\<exists>st. BoundedModelChecker_check E S sys tbl = Some (Inr (BoundReached, st))))"
proof -
  let ?E = "E\<lparr>eBuilder := (if simplifyExpr S then folding_builder (eApi E) else plain_builder)\<rparr>"
  have E: "env_ok ?E" "eApi E = eApi ?E" using assms(3) chosen_builder(1) by simp_all
  obtain st where st: "BoundedModelCheckerImpl_new sys tbl = Inr st" "bRoot (cBmc st) = mCfa sys p" "bTable (cBmc st) = tbl" "mTopo (cBmc st) = []"
    "mLocNumbers (cBmc st) = Map.empty" "cPredIdx st = 0"
    using assms(1) by (simp add: BoundedModelCheckerImpl_new_def getMainAutomaton_def)
  have ok: "program_ok (eApi E) tbl T (bRoot (cBmc st))" using assms(2) st(2) by simp
  obtain b c1 where pr: "prepare ?E st = Inr (Some (st\<lparr>cBmc := b\<rparr>))" "prepared (eApi E) (tbl(var_name (mErrorFieldVariable b) \<mapsto> mErrorFieldVariable b)) b"
    by (rule prepare_run [OF ok E st(3-6)])
  have "mCalls (cBmc (st\<lparr>cBmc := b\<rparr>)) = []" using pr(2) by (simp add: prepared_def)
  from eager_rounds_none [OF this, of ?E "[1..<Suc (eagerUnroll S)]"] E(1) obtain ks where
    eager: "for_each (eager_round ?E) [1..<Suc (eagerUnroll S)] (st\<lparr>cBmc := b\<rparr>) = Inr (st\<lparr>cBmc := b, mOpenCalls := ks\<rparr>)"
    by (auto simp: env_ok_def)
  have none: "search ?E S (Suc (maxBound S)) False u v s = Some (Inr (BoundReached, s))" for u v s
    by (subst search.simps) simp
  show ?thesis using st(1) pr(1) eager none by (auto simp: BoundedModelChecker_check_def bmc_check_def)
qed

theorem eager_bound_verdict_witness:
  "(\<exists>st. BoundedModelChecker_check ideal_env \<lparr>sTrace = True, maxBound = 1, eagerUnroll = 2, noDomPush = False, noPostDomPush = False, simplifyExpr = True\<rparr>
       guarded_system p_table = Some (Inr (Unknown, st)))
   \<and> (\<exists>st. BoundedModelChecker_check ideal_env \<lparr>sTrace = True, maxBound = 2, eagerUnroll = 2, noDomPush = False, noPostDomPush = False, simplifyExpr = True\<rparr>
       guarded_system p_table = Some (Inr (BoundReached, st)))"
proof -
  have sys: "mMainAutomaton guarded_system = Some 99" "program_ok (eApi ideal_env) p_table (BvType 16) (mCfa guarded_system 99)"
    using guarded_program by (simp_all add: guarded_system_def ideal_env_def)
  note e = eager_bound_verdict [OF sys ideal_env_ok(1)]
  show ?thesis
    using e [of "\<lparr>sTrace = True, maxBound = 1, eagerUnroll = 2, noDomPush = False, noPostDomPush = False, simplifyExpr = True\<rparr>"]
      e [of "\<lparr>sTrace = True, maxBound = 2, eagerUnroll = 2, noDomPush = False, noPostDomPush = False, simplifyExpr = True\<rparr>"] by simp
qed

end
