(* ===== verification/GazerRecursive.thy ===== *)
theory GazerRecursive
  imports GazerInline "HOL-Library.Multiset"
begin

text \<open>
  The call graph (\<^verbatim>\<open>src/Automaton/CallGraph.cpp\<close>) and the transformation of tail recursion into loops
  (\<^verbatim>\<open>src/Automaton/RecursiveToCyclicCfa.cpp\<close>), which prepares an automaton for the Theta back end: calls of
  tail-recursive automata are inlined, and a recursive call becomes a transition back to the entry of the
  copy. The loops that copy the called automaton are those of GazerInline.
\<close>

section \<open>The call graph\<close>

record call_node =
  mCallsToOthers :: "(nat \<times> nat) list"
  mCallsToThis :: "nat list"

type_synonym call_graph = "nat \<rightharpoonup> call_node"

definition addCall :: "nat \<Rightarrow> nat \<Rightarrow> nat \<Rightarrow> call_graph \<Rightarrow> call_graph res" where
  "addCall caller call callee g = (case (g caller, g callee) of
     (Some n, Some _) \<Rightarrow>
       (let g1 = g(caller \<mapsto> n\<lparr>mCallsToOthers := mCallsToOthers n @ [(call, callee)]\<rparr>); m = the (g1 callee)
        in Inr (g1(callee \<mapsto> m\<lparr>mCallsToThis := mCallsToThis m @ [call]\<rparr>)))
   | (None, _) \<Rightarrow> Inl NullDeref
   | (_, None) \<Rightarrow> Inl AssertFail)"

definition add_calls_of :: "automata_system \<Rightarrow> nat \<Rightarrow> call_graph \<Rightarrow> call_graph res" where
  "add_calls_of sys p = for_each (\<lambda>e g. if isCall (mTransition (mCfa sys p) e)
     then addCall p e (mCallee (mTransition (mCfa sys p) e)) g else Inr g) (mEdges (mCfa sys p))"

definition CallGraph_new :: "automata_system \<Rightarrow> call_graph res" where
  "CallGraph_new sys = for_each (add_calls_of sys) (mAutomata sys)
     (\<lambda>p. if p \<in> set (mAutomata sys) then Some \<lparr>mCallsToOthers = [], mCallsToThis = []\<rparr> else None)"

text \<open>The loop leaves at the first recursive call that does not lead to the exit.\<close>

fun tail_recursive_loop :: "cfa \<Rightarrow> nat \<Rightarrow> (nat \<times> nat) list \<Rightarrow> bool \<Rightarrow> bool" where
  "tail_recursive_loop c p [] isRecursive = isRecursive"
| "tail_recursive_loop c p ((call, n) # calls) isRecursive =
     (if mCallee (mTransition c call) = p then
        (if mTarget c call \<noteq> Some (mExit c) then False else tail_recursive_loop c p calls True)
      else tail_recursive_loop c p calls isRecursive)"

definition isTailRecursive :: "(nat \<Rightarrow> cfa) \<Rightarrow> call_graph \<Rightarrow> nat \<Rightarrow> bool res" where
  "isTailRecursive automaton g p = (case g p of None \<Rightarrow> Inl NullDeref
   | Some n \<Rightarrow> Inr (tail_recursive_loop (automaton p) p (mCallsToOthers n) False))"

section \<open>The transformation\<close>

record transformer =
  tSystem :: automata_system
  mRoot :: nat
  tRoot :: cfa
  tTable :: variable_table
  mCallGraph :: call_graph
  mTailRecursiveCalls :: "nat list"
  tError :: nat
  tErrorFieldVariable :: variable
  tInlinedLocations :: "nat \<rightharpoonup> nat"
  tInlinedVariables :: "variable \<rightharpoonup> variable"
  mInlineCnt :: nat

text \<open>The automaton at an address; the root is the one that is being changed.\<close>

definition automaton :: "transformer \<Rightarrow> nat \<Rightarrow> cfa" where
  "automaton st p = (if p = mRoot st then tRoot st else mCfa (tSystem st) p)"

definition clone_input :: "cfa \<Rightarrow> string \<Rightarrow> variable \<Rightarrow> clone \<times> variable list \<Rightarrow> (clone \<times> variable list) res" where
  "clone_input callee sfx v s = (case s of (st, temps) \<Rightarrow> if isOutput callee v then Inr (st, temps)
     else rbind (clone_local callee sfx v st) (\<lambda>st1.
       rbind (returned (createLocal (var_name v @ sfx @ ''_'') (var_type v) (cRoot st1) (cTable st1))) (\<lambda>(t, root, tbl).
         Inr (st1\<lparr>cRoot := root, cTable := tbl\<rparr>, temps @ [t]))))"

definition temp_at :: "variable list \<Rightarrow> nat \<Rightarrow> variable res" where
  "temp_at temps i = check (i < length temps) OutOfRange (Inr (temps ! i))"

text \<open>The value passed for an input; the optional of \<open>getInputArgument\<close> is dereferenced.\<close>

definition argument_value :: "transition \<Rightarrow> variable \<Rightarrow> expr res" where
  "argument_value call v = (case getInputArgument call v of None \<Rightarrow> Inl NullDeref | Some a \<Rightarrow> Inr (va_value a))"

text \<open>The two loops over the inputs at a recursive call: the temporaries are assigned, then the inputs.\<close>

fun temp_assignments :: "clone \<Rightarrow> transition \<Rightarrow> variable list \<Rightarrow> nat \<Rightarrow> variable list \<Rightarrow> variable_assignment list res" where
  "temp_assignments cl call temps i [] = Inr []"
| "temp_assignments cl call temps i (v # vs) = rbind (temp_at temps i) (\<lambda>t.
     rbind (argument_value call v) (\<lambda>a. rbind (returned (rewrite plain_builder (cRewrite cl) a)) (\<lambda>x.
     rbind (if VarRefExpr t \<noteq> x then rbind (VariableAssignment_Create t x) (\<lambda>y. Inr [y]) else Inr []) (\<lambda>ys.
     rbind (temp_assignments cl call temps (Suc i) vs) (\<lambda>zs. Inr (ys @ zs))))))"

fun input_assignments :: "clone \<Rightarrow> variable list \<Rightarrow> nat \<Rightarrow> variable list \<Rightarrow> variable_assignment list res" where
  "input_assignments cl temps i [] = Inr []"
| "input_assignments cl temps i (v # vs) = rbind (temp_at temps i) (\<lambda>t.
     (case oldVarToNew cl v of None \<Rightarrow> Inl NullDeref
      | Some nv \<Rightarrow> rbind (VariableAssignment_Create nv (VarRefExpr t)) (\<lambda>y.
          rbind (input_assignments cl temps (Suc i) vs) (\<lambda>zs. Inr (y # zs)))))"

definition back_edge :: "(nat list \<Rightarrow> nat) \<Rightarrow> cfa \<Rightarrow> variable list \<Rightarrow> nat \<Rightarrow> transition \<Rightarrow> clone \<Rightarrow> clone res" where
  "back_edge alloc callee temps s tr cl =
     rbind (temp_assignments cl tr temps 0 (mInputs callee)) (\<lambda>as1.
     rbind (input_assignments cl temps 0 (mInputs callee)) (\<lambda>as2.
     rbind (copy_of cl (Some (mEntry callee))) (\<lambda>entry.
     rbind (createAssignTransition (alloc (mEdges (cRoot cl))) s entry (Some (mGuard tr)) (as1 @ as2) (cRoot cl)) (\<lambda>root.
       Inr (cl\<lparr>cRoot := root\<rparr>)))))"

text \<open>The copy of a transition, and the worklist.\<close>

definition cyclic_clone_edge :: "(nat list \<Rightarrow> nat) \<Rightarrow> transformer \<Rightarrow> nat \<Rightarrow> variable list \<Rightarrow> nat \<Rightarrow> clone \<times> nat list \<Rightarrow> (clone \<times> nat list) res" where
  "cyclic_clone_edge alloc st p temps e s = (case s of (cl, work) \<Rightarrow>
     (let callee = automaton st p; tr = mTransition callee e in
      rbind (copy_of cl (mSource callee e)) (\<lambda>u.
        if isAssign tr then rbind (copy_of cl (mTarget callee e)) (\<lambda>v.
          rbind (clone_assign_edge alloc plain_builder u v tr cl) (\<lambda>cl'. Inr (cl', work)))
        else if mCallee tr = p then rbind (back_edge alloc callee temps u tr cl) (\<lambda>cl'. Inr (cl', work))
        else rbind (copy_of cl (mTarget callee e)) (\<lambda>v.
          rbind (clone_call_edge alloc plain_builder (tSystem st) u v tr cl) (\<lambda>cl'.
          rbind (isTailRecursive (automaton st) (mCallGraph st) (mCallee tr)) (\<lambda>tail.
            Inr (cl', if tail then work @ [alloc (mEdges (cRoot cl))] else work)))))))"

definition passed_argument :: "clone \<Rightarrow> transition \<Rightarrow> variable \<Rightarrow> variable_assignment res" where
  "passed_argument cl call v = rbind (argument_value call v) (\<lambda>x.
     (case oldVarToNew cl v of None \<Rightarrow> Inl NullDeref | Some nv \<Rightarrow> VariableAssignment_Create nv x))"

definition clone_of_transformer :: "transformer \<Rightarrow> clone" where
  "clone_of_transformer st = \<lparr>cRoot = tRoot st, cTable = tTable st, oldVarToNew = Map.empty, cRewrite = Map.empty,
     cInlinedVars = tInlinedVariables st, locToLocMap = Map.empty, cInlinedLocs = tInlinedLocations st\<rparr>"

text \<open>An automaton that is inlined into itself is changed while its variables are iterated over.\<close>

definition cyclic_inlineCallIntoRoot :: "(nat list \<Rightarrow> nat) \<Rightarrow> nat \<Rightarrow> string \<Rightarrow> transformer \<Rightarrow> transformer res" where
  "cyclic_inlineCallIntoRoot alloc call sfx st =
     (let tr = mTransition (tRoot st) call; callee = automaton st (mCallee tr) in
      check (isCall tr) BadCast (check (mCallee tr \<noteq> mRoot st) IteratorInvalid
      (case (mSource (tRoot st) call, mTarget (tRoot st) call) of
         (Some before, Some after) \<Rightarrow>
           rbind (for_each (clone_local callee sfx) (mLocals callee) (clone_of_transformer st)) (\<lambda>cl1.
           rbind (for_each (clone_input callee sfx) (mInputs callee) (cl1, [])) (\<lambda>(cl2, temps).
           rbind (for_each (clone_output tr) (mOutputs callee) cl2) (\<lambda>cl3.
           rbind (for_each (clone_location alloc callee (tError st) (tErrorFieldVariable st)) (mNodes callee) cl3) (\<lambda>cl4.
           rbind (for_each (cyclic_clone_edge alloc st (mCallee tr) temps) (mEdges callee) (cl4, mTailRecursiveCalls st)) (\<lambda>(cl5, work).
           rbind (res_map (passed_argument cl5 tr) (mInputs callee)) (\<lambda>ins.
           rbind (copy_of cl5 (Some (mEntry callee))) (\<lambda>entry.
           rbind (createAssignTransition (alloc (mEdges (cRoot cl5))) before entry (Some (mGuard tr)) ins (cRoot cl5)) (\<lambda>root1.
           rbind (copy_of cl5 (Some (mExit callee))) (\<lambda>exit.
           rbind (createAssignTransition (alloc (mEdges root1)) exit after (Some True_lit) [] root1) (\<lambda>root2.
           rbind (disconnectEdge call root2) (\<lambda>root3.
             Inr (st\<lparr>tRoot := root3, tTable := cTable cl5, mTailRecursiveCalls := work,
                     tInlinedLocations := cInlinedLocs cl5, tInlinedVariables := cInlinedVars cl5\<rparr>))))))))))))
       | _ \<Rightarrow> Inl AssertFail)))"

definition error_edge :: "(nat list \<Rightarrow> nat) \<Rightarrow> nat \<Rightarrow> expr \<Rightarrow> expr \<Rightarrow> transformer \<Rightarrow> transformer res" where
  "error_edge alloc l g x st = rbind (VariableAssignment_Create (tErrorFieldVariable st) x) (\<lambda>a.
     rbind (createAssignTransition (alloc (mEdges (tRoot st))) l (tError st) (Some g) [a] (tRoot st)) (\<lambda>root.
       Inr (st\<lparr>tRoot := root\<rparr>)))"

definition addUniqueErrorLocation :: "(nat list \<Rightarrow> nat) \<Rightarrow> transformer \<Rightarrow> transformer res" where
  "addUniqueErrorLocation alloc st =
     (let errors = filter (isError (tRoot st)) (mNodes (tRoot st)); err = alloc (mNodes (tRoot st)) in
      rbind (returned (createLocal ''__gazer_error_field'' IntType (createErrorLocation err (tRoot st)) (tTable st))) (\<lambda>(v, root, tbl).
        (let st1 = st\<lparr>tRoot := root, tTable := tbl, tError := err, tErrorFieldVariable := v\<rparr> in
         if errors = [] then error_edge alloc (mEntry root) False_lit (IntLit 0) st1
         else for_each (\<lambda>l s. rbind (getErrorFieldExpr (tRoot s) l) (\<lambda>x.
           check (isIntType (getType x)) AssertFail (error_edge alloc l True_lit x s))) errors st1)))"

text \<open>The calls of the root to tail-recursive automata.\<close>

definition collect_call :: "nat \<Rightarrow> transformer \<Rightarrow> transformer res" where
  "collect_call e st = (if isCall (mTransition (tRoot st) e) then
     rbind (isTailRecursive (automaton st) (mCallGraph st) (mCallee (mTransition (tRoot st) e))) (\<lambda>tail.
       Inr (if tail then st\<lparr>mTailRecursiveCalls := mTailRecursiveCalls st @ [e]\<rparr> else st)) else Inr st)"

text \<open>The worklist; the last call is taken first. \<open>None\<close> if it does not become empty.\<close>

partial_function (option) inline_tail_calls :: "(nat list \<Rightarrow> nat) \<Rightarrow> transformer \<Rightarrow> transformer res option" where
  "inline_tail_calls alloc st =
     (if mTailRecursiveCalls st = [] then Some (Inr st)
      else (case cyclic_inlineCallIntoRoot alloc (last (mTailRecursiveCalls st)) (''_inlined'' @ dec_digits (mInlineCnt st))
                   (st\<lparr>mTailRecursiveCalls := butlast (mTailRecursiveCalls st), mInlineCnt := u32 (Suc (mInlineCnt st))\<rparr>) of
              Inl err \<Rightarrow> Some (Inl err)
            | Inr st' \<Rightarrow> inline_tail_calls alloc st'))"

definition RecursiveToCyclicTransformer_new :: "automata_system \<Rightarrow> variable_table \<Rightarrow> nat \<Rightarrow> transformer res" where
  "RecursiveToCyclicTransformer_new sys tbl p = rbind (CallGraph_new sys) (\<lambda>g.
     Inr \<lparr>tSystem = sys, mRoot = p, tRoot = mCfa sys p, tTable = tbl, mCallGraph = g, mTailRecursiveCalls = [],
          tError = 0, tErrorFieldVariable = Variable [] BoolType, tInlinedLocations = Map.empty,
          tInlinedVariables = Map.empty, mInlineCnt = 0\<rparr>)"

definition transform :: "(nat list \<Rightarrow> nat) \<Rightarrow> transformer \<Rightarrow> transformer res option" where
  "transform alloc st = (case rbind (addUniqueErrorLocation alloc st) (\<lambda>st1. for_each collect_call (mEdges (tRoot st1)) st1) of
     Inl err \<Rightarrow> Some (Inl err)
   | Inr st2 \<Rightarrow> map_option (\<lambda>r. rbind r (\<lambda>st3. Inr (st3\<lparr>tRoot := clearDisconnectedElements (tRoot st3)\<rparr>)))
       (inline_tail_calls alloc st2))"

definition TransformRecursiveToCyclic :: "(nat list \<Rightarrow> nat) \<Rightarrow> automata_system \<Rightarrow> variable_table \<Rightarrow> nat \<Rightarrow> transformer res option" where
  "TransformRecursiveToCyclic alloc sys tbl p = (case RecursiveToCyclicTransformer_new sys tbl p of
     Inl err \<Rightarrow> Some (Inl err) | Inr st \<Rightarrow> transform alloc st)"

section \<open>The call graph is that of the system\<close>

definition calls_of :: "cfa \<Rightarrow> (nat \<times> nat) list" where
  "calls_of c = map (\<lambda>e. (e, mCallee (mTransition c e))) (filter (\<lambda>e. isCall (mTransition c e)) (mEdges c))"

definition tail_recursive :: "cfa \<Rightarrow> nat \<Rightarrow> bool" where
  "tail_recursive c p \<longleftrightarrow> p \<in> callees c
     \<and> (\<forall>e \<in> set (mEdges c). isCall (mTransition c e) \<and> mCallee (mTransition c e) = p \<longrightarrow> mTarget c e = Some (mExit c))"

definition others :: "call_graph \<Rightarrow> nat \<Rightarrow> (nat \<times> nat) list option" where
  "others g p = map_option mCallsToOthers (g p)"

lemma addCall_total:
  assumes "p \<in> dom g" and "q \<in> dom g"
  shows "\<exists>g'. addCall p e q g = Inr g' \<and> dom g' = dom g
    \<and> others g' = (others g)(p \<mapsto> the (others g p) @ [(e, q)])"
proof -
  obtain n m where n: "g p = Some n" "g q = Some m" using assms by blast
  let ?g1 = "g(p \<mapsto> n\<lparr>mCallsToOthers := mCallsToOthers n @ [(e, q)]\<rparr>)"
  let ?g = "?g1(q \<mapsto> (the (?g1 q))\<lparr>mCallsToThis := mCallsToThis (the (?g1 q)) @ [e]\<rparr>)"
  have "addCall p e q g = Inr ?g" using n by (simp add: addCall_def Let_def)
  moreover have "dom ?g = dom g" using n by auto
  moreover have "others ?g = (others g)(p \<mapsto> the (others g p) @ [(e, q)])" using n by (simp add: others_def fun_eq_iff)
  ultimately show ?thesis by blast
qed

abbreviation calls_step :: "cfa \<Rightarrow> nat \<Rightarrow> nat \<Rightarrow> call_graph \<Rightarrow> call_graph res" where
  "calls_step c p \<equiv> (\<lambda>e g. if isCall (mTransition c e) then addCall p e (mCallee (mTransition c e)) g else Inr g)"

lemma addCalls_total:
  assumes "p \<in> dom g" and "\<forall>e \<in> set es. isCall (mTransition c e) \<longrightarrow> mCallee (mTransition c e) \<in> dom g"
  shows "\<exists>g'. for_each (calls_step c p) es g = Inr g' \<and> dom g' = dom g \<and> others g' = (others g)(p \<mapsto> the (others g p) @
        map (\<lambda>e. (e, mCallee (mTransition c e))) (filter (\<lambda>e. isCall (mTransition c e)) es))"
  using assms
proof (induction es arbitrary: g)
  case Nil
  then show ?case by (auto simp: fun_eq_iff others_def)
next
  case (Cons e es)
  show ?case
  proof (cases "isCall (mTransition c e)")
    case True
    then have "mCallee (mTransition c e) \<in> dom g" using Cons.prems(2) by simp
    from addCall_total [OF Cons.prems(1) this, of e] obtain g1 where g1: "addCall p e (mCallee (mTransition c e)) g = Inr g1"
      "dom g1 = dom g" "others g1 = (others g)(p \<mapsto> the (others g p) @ [(e, mCallee (mTransition c e))])" by blast
    have "p \<in> dom g1" "\<forall>e \<in> set es. isCall (mTransition c e) \<longrightarrow> mCallee (mTransition c e) \<in> dom g1"
      using Cons.prems by (simp_all only: g1(2)) simp
    from Cons.IH [OF this] obtain g' where "for_each (calls_step c p) es g1 = Inr g'" "dom g' = dom g1"
      "others g' = (others g1)(p \<mapsto> the (others g1 p) @
         map (\<lambda>e. (e, mCallee (mTransition c e))) (filter (\<lambda>e. isCall (mTransition c e)) es))" by blast
    then show ?thesis using True g1 by (intro exI [of _ g']) simp
  next
    case False
    then show ?thesis using Cons by simp
  qed
qed

lemma addCalls_fail:
  assumes "p \<in> dom g" and "\<exists>e \<in> set es. isCall (mTransition c e) \<and> mCallee (mTransition c e) \<notin> dom g"
  shows "for_each (calls_step c p) es g = Inl AssertFail"
  using assms
proof (induction es arbitrary: g)
  case (Cons e es)
  show ?case
  proof (cases "isCall (mTransition c e) \<and> mCallee (mTransition c e) \<in> dom g")
    case True
    from addCall_total [OF Cons.prems(1) conjunct2 [OF True], of e] obtain g1 where
      g1: "addCall p e (mCallee (mTransition c e)) g = Inr g1" "dom g1 = dom g" by blast
    have "p \<in> dom g1" "\<exists>e \<in> set es. isCall (mTransition c e) \<and> mCallee (mTransition c e) \<notin> dom g1"
      using Cons.prems True by (simp_all only: g1(2)) auto
    from Cons.IH [OF this] show ?thesis using True g1(1) by simp
  next
    case False
    then show ?thesis using Cons by (cases "isCall (mTransition c e)") (auto simp: addCall_def split: option.splits)
  qed
qed simp

lemma callees_dom:
  "callees c \<subseteq> A \<longleftrightarrow> (\<forall>e \<in> set (mEdges c). isCall (mTransition c e) \<longrightarrow> mCallee (mTransition c e) \<in> A)"
  by (auto simp: callees_def)

lemma CallGraph_loop:
  assumes "\<forall>p \<in> set ps. p \<in> dom g \<and> callees (mCfa sys p) \<subseteq> dom g" and "distinct ps" and "\<forall>p \<in> set ps. others g p = Some []"
  shows "\<exists>g'. for_each (add_calls_of sys) ps g = Inr g' \<and> dom g' = dom g
    \<and> (\<forall>p. others g' p = (if p \<in> set ps then Some (calls_of (mCfa sys p)) else others g p))"
  using assms
proof (induction ps arbitrary: g)
  case (Cons p ps)
  have "p \<in> dom g" "\<forall>e \<in> set (mEdges (mCfa sys p)). isCall (mTransition (mCfa sys p) e) \<longrightarrow> mCallee (mTransition (mCfa sys p) e) \<in> dom g"
    using Cons.prems(1) by (simp_all add: callees_dom)
  from addCalls_total [OF this] Cons.prems(3) obtain g1 where g1: "add_calls_of sys p g = Inr g1" "dom g1 = dom g"
    "others g1 = (others g)(p \<mapsto> calls_of (mCfa sys p))" by (auto simp: add_calls_of_def calls_of_def)
  have "\<forall>q \<in> set ps. q \<in> dom g1 \<and> callees (mCfa sys q) \<subseteq> dom g1" using Cons.prems(1) by (simp add: g1(2))
  moreover have "distinct ps" "\<forall>q \<in> set ps. others g1 q = Some []" using Cons.prems(2,3) by (auto simp: g1(3))
  ultimately obtain g' where g': "for_each (add_calls_of sys) ps g1 = Inr g'" "dom g' = dom g1"
    "\<forall>q. others g' q = (if q \<in> set ps then Some (calls_of (mCfa sys q)) else others g1 q)" using Cons.IH by blast
  then show ?case using g1 by (intro exI [of _ g']) auto
qed auto

lemma CallGraph_fail:
  assumes "set ps \<subseteq> dom g" and "\<exists>p \<in> set ps. \<not> callees (mCfa sys p) \<subseteq> dom g"
  shows "for_each (add_calls_of sys) ps g = Inl AssertFail"
  using assms
proof (induction ps arbitrary: g)
  case (Cons p ps)
  have p: "p \<in> dom g" using Cons.prems(1) by simp
  show ?case
  proof (cases "callees (mCfa sys p) \<subseteq> dom g")
    case True
    from addCalls_total [OF p True [unfolded callees_dom]] obtain g1 where g1: "add_calls_of sys p g = Inr g1" "dom g1 = dom g"
      by (auto simp: add_calls_of_def)
    have "set ps \<subseteq> dom g1" "\<exists>p \<in> set ps. \<not> callees (mCfa sys p) \<subseteq> dom g1" using Cons.prems True by (simp_all only: g1(2)) auto
    from Cons.IH [OF this] show ?thesis using g1(1) by simp
  next
    case False
    then have "add_calls_of sys p g = Inl AssertFail"
      using addCalls_fail [OF p] unfolding add_calls_of_def callees_dom by blast
    then show ?thesis by simp
  qed
qed simp

lemma tail_recursive_loop_iff:
  "tail_recursive_loop c p calls r \<longleftrightarrow> (r \<or> (\<exists>e \<in> fst ` set calls. mCallee (mTransition c e) = p))
     \<and> (\<forall>e \<in> fst ` set calls. mCallee (mTransition c e) = p \<longrightarrow> mTarget c e = Some (mExit c))"
  by (induction c p calls r rule: tail_recursive_loop.induct) auto

lemma isTailRecursive_iff:
  assumes "others g p = Some (calls_of c)" and "auto p = c"
  shows "isTailRecursive auto g p = Inr (tail_recursive c p)"
proof -
  have "fst ` set (calls_of c) = {e \<in> set (mEdges c). isCall (mTransition c e)}" by (auto simp: calls_of_def image_iff)
  then have "tail_recursive_loop c p (calls_of c) False \<longleftrightarrow> tail_recursive c p"
    unfolding tail_recursive_loop_iff by (auto simp: tail_recursive_def callees_def)
  then show ?thesis using assms by (auto simp: isTailRecursive_def others_def split: option.splits)
qed

lemma call_graph_run:
  assumes "distinct (mAutomata sys)"
  shows "if \<forall>p \<in> set (mAutomata sys). callees (mCfa sys p) \<subseteq> set (mAutomata sys)
    then \<exists>g. CallGraph_new sys = Inr g \<and> dom g = set (mAutomata sys)
      \<and> (\<forall>p \<in> set (mAutomata sys). others g p = Some (calls_of (mCfa sys p))
           \<and> isTailRecursive (mCfa sys) g p = Inr (tail_recursive (mCfa sys p) p))
    else CallGraph_new sys = Inl AssertFail"
proof -
  define g0 :: call_graph where "g0 = (\<lambda>p. if p \<in> set (mAutomata sys) then Some \<lparr>mCallsToOthers = [], mCallsToThis = []\<rparr> else None)"
  have g0: "CallGraph_new sys = for_each (add_calls_of sys) (mAutomata sys) g0" "dom g0 = set (mAutomata sys)"
    "\<forall>p \<in> set (mAutomata sys). others g0 p = Some []"
    by (auto simp: CallGraph_new_def g0_def dom_def others_def)
  show ?thesis
  proof (cases "\<forall>p \<in> set (mAutomata sys). callees (mCfa sys p) \<subseteq> set (mAutomata sys)")
    case True
    then have "\<forall>p \<in> set (mAutomata sys). p \<in> dom g0 \<and> callees (mCfa sys p) \<subseteq> dom g0" by (simp add: g0(2))
    from CallGraph_loop [OF this assms g0(3)] obtain g where "CallGraph_new sys = Inr g" "dom g = set (mAutomata sys)"
      "\<forall>p \<in> set (mAutomata sys). others g p = Some (calls_of (mCfa sys p))" using g0(1,2) by auto
    then show ?thesis using True isTailRecursive_iff by auto
  next
    case False
    then show ?thesis using CallGraph_fail [of "mAutomata sys" g0] g0(1,2) by auto
  qed
qed

text \<open>
  C35: the call graph. For a system whose calls stay within it, the construction returns a graph with a node
  for every automaton that lists its calls in the order of its transitions, and an automaton is reported as tail-recursive
  exactly if it calls itself and all its calls to itself lead to its exit. A call of an automaton
  outside of the system fails an assertion.
\<close>

theorem call_graph_correct:
  assumes "distinct (mAutomata sys)"
  shows "if \<forall>p \<in> set (mAutomata sys). callees (mCfa sys p) \<subseteq> set (mAutomata sys)
    then \<exists>g. CallGraph_new sys = Inr g \<and> dom g = set (mAutomata sys)
      \<and> (\<forall>p \<in> set (mAutomata sys). others g p = Some (calls_of (mCfa sys p))
           \<and> isTailRecursive (mCfa sys) g p = Inr (tail_recursive (mCfa sys p) p))
    else CallGraph_new sys = Inl AssertFail"
  using assms by (rule call_graph_run)

section \<open>The worklist\<close>

text \<open>What the copy of the transitions \<open>es\<close> of the automaton \<open>p\<close> adds to the worklist: the new calls of
  tail-recursive automata, one at least for every such automaton that is called.\<close>

abbreviation tail_now :: "transformer \<Rightarrow> nat \<Rightarrow> bool" where
  "tail_now st q \<equiv> isTailRecursive (automaton st) (mCallGraph st) q = Inr True"

definition pushed :: "transformer \<Rightarrow> nat \<Rightarrow> nat list \<Rightarrow> cfa \<Rightarrow> nat list \<Rightarrow> bool" where
  "pushed st p es root new \<longleftrightarrow> grows (tRoot st) root
     \<and> set new = {e \<in> set (mEdges root) - set (mEdges (tRoot st)). isCall (mTransition root e) \<and> tail_now st (mCallee (mTransition root e))}
     \<and> (\<lambda>e. mCallee (mTransition root e)) ` set new =
         {q. tail_now st q \<and> q \<noteq> p \<and> (\<exists>e \<in> set es. isCall (mTransition (automaton st p) e) \<and> mCallee (mTransition (automaton st p) e) = q)}"

lemma pushedD:
  assumes "pushed st p es root new"
  shows "grows (tRoot st) root"
    "set new = {e \<in> set (mEdges root) - set (mEdges (tRoot st)). isCall (mTransition root e) \<and> tail_now st (mCallee (mTransition root e))}"
    "(\<lambda>e. mCallee (mTransition root e)) ` set new =
         {q. tail_now st q \<and> q \<noteq> p \<and> (\<exists>e \<in> set es. isCall (mTransition (automaton st p) e) \<and> mCallee (mTransition (automaton st p) e) = q)}"
  using assms unfolding pushed_def by (rule conjunct1, rule conjunct1 [OF conjunct2], rule conjunct2 [OF conjunct2])

text \<open>An automaton to which no call is added.\<close>

definition quiet :: "cfa \<Rightarrow> cfa \<Rightarrow> bool" where
  "quiet c c' \<longleftrightarrow> grows c c' \<and> (\<forall>e \<in> set (mEdges c') - set (mEdges c). \<not> isCall (mTransition c' e))"

lemma quiet_refl: "quiet c c"
  by (simp add: quiet_def grows_refl)

lemma quiet_trans: "quiet a b \<Longrightarrow> quiet b c \<Longrightarrow> quiet a c"
  unfolding quiet_def by (intro conjI; (elim conjE)?) (rule grows_trans, assumption+, auto simp: grows_def)

lemma quiet_same: "mEdges c' = mEdges c \<Longrightarrow> mTransition c' = mTransition c \<Longrightarrow> mSource c' = mSource c \<Longrightarrow> quiet c c'"
  by (simp add: quiet_def grows_same)

lemma quiet_add: "e \<notin> set (mEdges c) \<Longrightarrow> \<not> isCall tr \<Longrightarrow> quiet c (addTransition e s t tr c)"
  by (auto simp: quiet_def edges_add intro: grows_add)

lemma for_each_quiet:
  assumes "for_each f xs st = Inr st'" and "\<And>x st st'. f x st = Inr st' \<Longrightarrow> quiet (r st) (r st')"
  shows "quiet (r st) (r st')"
  using for_each_rule [where P = "\<lambda>_ s. quiet (r st) (r s)", OF assms(1) quiet_refl] assms(2) quiet_trans by blast

lemma createLocal_quiet: "createLocal n t c tbl = Some (Inr (v, c', tbl')) \<Longrightarrow> quiet c c'"
  by (auto simp: createLocal_def createMemberVariable_def rbind_eq_Inr Let_def intro!: quiet_same split: prod.splits)

lemma createAssign_quiet:
  "fresh_alloc alloc \<Longrightarrow> createAssignTransition (alloc (mEdges c)) s t g as c = Inr c' \<Longrightarrow> quiet c c'"
  by (auto simp: createAssignTransition_def check_eq_Inr isCall_def Let_def fresh_alloc_def intro!: quiet_add)

lemma clone_variable_quiet:
  "clone_local callee sfx v st = Inr st' \<Longrightarrow> quiet (cRoot st) (cRoot st')"
  "clone_input callee sfx v s = Inr s' \<Longrightarrow> quiet (cRoot (fst s)) (cRoot (fst s'))"
  "clone_output tr v st = Inr st' \<Longrightarrow> quiet (cRoot st) (cRoot st')"
proof -
  have 1: "quiet (cRoot st) (cRoot st')" if "clone_local callee sfx v st = Inr st'" for st st'
    using that by (auto simp: clone_local_def cloned_local_def rbind_eq_Inr returned_Inr quiet_refl dest!: createLocal_quiet split: if_splits)
  then show "clone_local callee sfx v st = Inr st' \<Longrightarrow> quiet (cRoot st) (cRoot st')" .
  show "clone_input callee sfx v s = Inr s' \<Longrightarrow> quiet (cRoot (fst s)) (cRoot (fst s'))"
    by (auto simp: clone_input_def rbind_eq_Inr returned_Inr quiet_refl dest!: 1 createLocal_quiet intro: quiet_trans split: if_splits prod.splits)
  show "clone_output tr v st = Inr st' \<Longrightarrow> quiet (cRoot st) (cRoot st')"
    by (auto simp: clone_output_def quiet_refl split: option.splits)
qed

lemma clone_location_quiet:
  assumes "fresh_alloc alloc" and "clone_location alloc callee err v l st = Inr st'"
  shows "quiet (cRoot st) (cRoot st')"
proof -
  let ?root = "createLocation (alloc (mNodes (cRoot st))) (cRoot st)"
  have "quiet (cRoot st) ?root" by (rule quiet_same) (simp_all add: createLocation_def createNode_def Let_def)
  moreover have "quiet ?root (cRoot st')"
    using assms by (auto simp: clone_location_def Let_def rbind_eq_Inr quiet_refl fresh_alloc_def isCall_def
        intro!: quiet_add split: if_splits)
  ultimately show ?thesis by (rule quiet_trans)
qed

lemma disconnectEdge_quiet: "disconnectEdge e (c :: cfa) = Inr c' \<Longrightarrow> quiet c c' \<and> mSource c' e = None"
  by (auto simp: quiet_def disconnectEdge_grows) (auto simp: disconnectEdge_def Let_def removeOutgoing_def removeIncoming_def split: option.splits)

lemma pushed_quiet:
  assumes "pushed st p es root new" and "quiet root root'"
  shows "pushed st p es root' new"
proof -
  have q: "grows root root'" "\<forall>e \<in> set (mEdges root') - set (mEdges root). \<not> isCall (mTransition root' e)" using assms(2) by (auto simp: quiet_def)
  have g: "grows (tRoot st) root'" using assms(1) q(1) unfolding pushed_def by (blast intro: grows_trans)
  have same: "mTransition root' e = mTransition root e" if "e \<in> set (mEdges root)" for e using q(1) that by (simp add: grows_def)
  have new: "set new \<subseteq> set (mEdges root)" using assms(1) unfolding pushed_def by blast
  have sub: "set (mEdges root) \<subseteq> set (mEdges root')" using q(1) by (simp add: grows_def)
  have "set new = {e \<in> set (mEdges root') - set (mEdges (tRoot st)). isCall (mTransition root' e) \<and> tail_now st (mCallee (mTransition root' e))}"
    (is "_ = ?N root'")
  proof -
    have "set new = ?N root" using assms(1) unfolding pushed_def by blast
    moreover have "e \<in> ?N root' \<longleftrightarrow> e \<in> ?N root" for e using q(2) same [of e] sub by (cases "e \<in> set (mEdges root)") auto
    ultimately show ?thesis by blast
  qed
  moreover have "(\<lambda>e. mCallee (mTransition root' e)) ` set new = (\<lambda>e. mCallee (mTransition root e)) ` set new"
    using new same by (intro image_cong) auto
  moreover have "(\<lambda>e. mCallee (mTransition root e)) ` set new = {q. tail_now st q \<and> q \<noteq> p
      \<and> (\<exists>e \<in> set es. isCall (mTransition (automaton st p) e) \<and> mCallee (mTransition (automaton st p) e) = q)}"
    using assms(1) unfolding pushed_def by blast
  ultimately show ?thesis using g unfolding pushed_def by (metis (no_types, lifting))
qed

lemma isCall_iff: "isCall tr \<longleftrightarrow> \<not> isAssign tr"
  by (cases tr) (simp_all add: isCall_def isAssign_def)

lemma cyclic_clone_edge_pushed:
  assumes "fresh_alloc alloc" and "pushed st p es (cRoot cl) new"
    and "cyclic_clone_edge alloc st p temps e (cl, work @ new) = Inr (cl', work')"
  shows "\<exists>new'. work' = work @ new' \<and> pushed st p (es @ [e]) (cRoot cl') new'"
proof -
  let ?tr = "mTransition (automaton st p) e"
  have more: "pushed st p (es @ [e]) c new" if "pushed st p es c new" "\<not> (isCall ?tr \<and> mCallee ?tr \<noteq> p \<and> tail_now st (mCallee ?tr))" for c
    using that unfolding pushed_def by auto
  consider (assign) s t as g where "\<not> isCall ?tr" "createAssignTransition (alloc (mEdges (cRoot cl))) s t g as (cRoot cl) = Inr (cRoot cl')" "work' = work @ new"
    | (loop) s t as g where "mCallee ?tr = p" "createAssignTransition (alloc (mEdges (cRoot cl))) s t g as (cRoot cl) = Inr (cRoot cl')" "work' = work @ new"
    | (call) s t g ins outs tail where "isCall ?tr" "mCallee ?tr \<noteq> p"
        "cRoot cl' = addTransition (alloc (mEdges (cRoot cl))) s t (CallTransition g (mCallee ?tr) ins outs) (cRoot cl)"
        "isTailRecursive (automaton st) (mCallGraph st) (mCallee ?tr) = Inr tail"
        "work' = (if tail then (work @ new) @ [alloc (mEdges (cRoot cl))] else work @ new)"
  proof (cases "isAssign ?tr")
    case True
    then show thesis using assms(3) that(1) by (auto simp: cyclic_clone_edge_def Let_def rbind_eq_Inr isCall_iff clone_assign_edge_def)
  next
    case False
    then have c: "isCall ?tr" by (simp add: isCall_iff)
    show thesis
    proof (cases "mCallee ?tr = p")
      case True
      then show thesis using assms(3) False that(2) by (auto simp: cyclic_clone_edge_def Let_def rbind_eq_Inr back_edge_def)
    next
      case other: False
      then obtain s t ins outs g tail where "work' = (if tail then (work @ new) @ [alloc (mEdges (cRoot cl))] else work @ new)"
        "isTailRecursive (automaton st) (mCallGraph st) (mCallee ?tr) = Inr tail"
        "cRoot cl' = addTransition (alloc (mEdges (cRoot cl))) s t (CallTransition g (mCallee ?tr) ins outs) (cRoot cl)"
        using assms(3) False by (auto simp: cyclic_clone_edge_def Let_def rbind_eq_Inr
          clone_call_edge_def createCallTransition_def check_eq_Inr)
      then show thesis using that(3) c other by blast
    qed
  qed
  then show ?thesis
  proof cases
    case assign
    then show ?thesis using more [OF pushed_quiet [OF assms(2) createAssign_quiet [OF assms(1) assign(2)]]] by auto
  next
    case loop
    then show ?thesis using more [OF pushed_quiet [OF assms(2) createAssign_quiet [OF assms(1) loop(2)]]] by auto
  next
    case call
    let ?e = "alloc (mEdges (cRoot cl))"
    have e: "?e \<notin> set (mEdges (cRoot cl))" using assms(1) by (simp add: fresh_alloc_def)
    have g: "grows (cRoot cl) (cRoot cl')" unfolding call(3) by (rule grows_add [OF e])
    have tr: "mTransition (cRoot cl') ?e = CallTransition g (mCallee ?tr) ins outs" "mEdges (cRoot cl') = mEdges (cRoot cl) @ [?e]"
      "\<And>x. x \<noteq> ?e \<Longrightarrow> mTransition (cRoot cl') x = mTransition (cRoot cl) x"
      unfolding call(3) by (simp_all add: edges_add) (simp add: addTransition_def createEdge_def Let_def)
    have "grows (tRoot st) (cRoot cl)" "set new \<subseteq> set (mEdges (cRoot cl))" using assms(2) unfolding pushed_def by blast+
    then have old: "?e \<notin> set (mEdges (tRoot st))" "?e \<notin> set new" "grows (tRoot st) (cRoot cl')"
      using e grows_trans [OF _ g] by (auto simp: grows_def [of "tRoot st" "cRoot cl"])
    have set: "set (if tail then new @ [?e] else new) = {e \<in> set (mEdges (cRoot cl')) - set (mEdges (tRoot st)).
        isCall (mTransition (cRoot cl') e) \<and> tail_now st (mCallee (mTransition (cRoot cl') e))}" (is "_ = ?new (cRoot cl')")
    proof -
      have "x \<in> ?new (cRoot cl') \<longleftrightarrow> x \<in> ?new (cRoot cl) \<union> (if tail then {?e} else {})" for x
        using tr(1) tr(3) [of x] old(1) e call(4) unfolding tr(2) by (cases "x = ?e") (simp_all add: isCall_def)
      then have "?new (cRoot cl') = ?new (cRoot cl) \<union> (if tail then {?e} else {})" by blast
      moreover have "set new = ?new (cRoot cl)" using assms(2) unfolding pushed_def by blast
      ultimately show ?thesis by auto
    qed
    have img: "(\<lambda>e. mCallee (mTransition (cRoot cl') e)) ` set (if tail then new @ [?e] else new) =
        (\<lambda>e. mCallee (mTransition (cRoot cl) e)) ` set new \<union> (if tail then {mCallee ?tr} else {})"
      using tr(1,3) old(2) by (auto simp: image_iff) (metis)+
    let ?Q = "\<lambda>es. {q. tail_now st q \<and> q \<noteq> p \<and> (\<exists>e \<in> set es. isCall (mTransition (automaton st p) e) \<and> mCallee (mTransition (automaton st p) e) = q)}"
    have "(\<lambda>e. mCallee (mTransition (cRoot cl) e)) ` set new = ?Q es" using assms(2) unfolding pushed_def by blast
    moreover have "?Q (es @ [e]) = ?Q es \<union> (if tail then {mCallee ?tr} else {})" using call(1,2,4) by auto
    ultimately have "(\<lambda>e. mCallee (mTransition (cRoot cl') e)) ` set (if tail then new @ [?e] else new) = ?Q (es @ [e])"
      unfolding img by (simp only:)
    then have "pushed st p (es @ [e]) (cRoot cl') (if tail then new @ [?e] else new)"
      unfolding pushed_def by (intro conjI old(3) set)
    then show ?thesis using call(5) by auto
  qed
qed

lemma cyclic_clone_edges_pushed:
  assumes "fresh_alloc alloc" and "pushed st p es (cRoot cl) new"
    and "for_each (cyclic_clone_edge alloc st p temps) ds (cl, work @ new) = Inr (cl', work')"
  shows "\<exists>new'. work' = work @ new' \<and> pushed st p (es @ ds) (cRoot cl') new'"
  using assms(2,3)
proof (induction ds arbitrary: es cl new)
  case (Cons d ds)
  obtain cl1 work1 where 1: "cyclic_clone_edge alloc st p temps d (cl, work @ new) = Inr (cl1, work1)"
    "for_each (cyclic_clone_edge alloc st p temps) ds (cl1, work1) = Inr (cl', work')"
    using Cons.prems(2) by (auto simp: rbind_eq_Inr)
  from cyclic_clone_edge_pushed [OF assms(1) Cons.prems(1) 1(1)] obtain new1 where
    "work1 = work @ new1" "pushed st p (es @ [d]) (cRoot cl1) new1" by blast
  with Cons.IH [of "es @ [d]" cl1 new1] 1(2) show ?case by simp
qed auto

lemma inline_pushed:
  assumes "fresh_alloc alloc" and "cyclic_inlineCallIntoRoot alloc call sfx st = Inr st'"
  shows "\<exists>new. mTailRecursiveCalls st' = mTailRecursiveCalls st @ new
    \<and> pushed st (mCallee (mTransition (tRoot st) call)) (mEdges (automaton st (mCallee (mTransition (tRoot st) call)))) (tRoot st') new
    \<and> mCallee (mTransition (tRoot st) call) \<noteq> mRoot st \<and> isCall (mTransition (tRoot st) call) \<and> mSource (tRoot st') call = None
    \<and> tSystem st' = tSystem st \<and> mRoot st' = mRoot st \<and> mCallGraph st' = mCallGraph st"
proof -
  let ?tr = "mTransition (tRoot st) call" and ?callee = "automaton st (mCallee (mTransition (tRoot st) call))"
  obtain before after cl1 cl2 temps cl3 cl4 cl5 work ins entry root1 exit root2 root3 where
    1: "for_each (clone_local ?callee sfx) (mLocals ?callee) (clone_of_transformer st) = Inr cl1"
       "for_each (clone_input ?callee sfx) (mInputs ?callee) (cl1, []) = Inr (cl2, temps)"
       "for_each (clone_output ?tr) (mOutputs ?callee) cl2 = Inr cl3"
       "for_each (clone_location alloc ?callee (tError st) (tErrorFieldVariable st)) (mNodes ?callee) cl3 = Inr cl4"
    and 2: "for_each (cyclic_clone_edge alloc st (mCallee ?tr) temps) (mEdges ?callee) (cl4, mTailRecursiveCalls st) = Inr (cl5, work)"
    and 3: "createAssignTransition (alloc (mEdges (cRoot cl5))) before entry (Some (mGuard ?tr)) ins (cRoot cl5) = Inr root1"
       "createAssignTransition (alloc (mEdges root1)) exit after (Some True_lit) [] root1 = Inr root2"
       "disconnectEdge call root2 = Inr root3"
    and 4: "st' = st\<lparr>tRoot := root3, tTable := cTable cl5, mTailRecursiveCalls := work,
                     tInlinedLocations := cInlinedLocs cl5, tInlinedVariables := cInlinedVars cl5\<rparr>"
       "isCall ?tr" "mCallee ?tr \<noteq> mRoot st"
    using assms(2) unfolding cyclic_inlineCallIntoRoot_def Let_def check_eq_Inr
    by (auto simp: rbind_eq_Inr split: option.splits)
  have "quiet (tRoot st) (cRoot cl1)"
    using for_each_quiet [OF 1(1), of cRoot] clone_variable_quiet(1) by (simp add: clone_of_transformer_def)
  moreover have "quiet (cRoot cl1) (cRoot cl2)"
    using for_each_quiet [OF 1(2), of "\<lambda>s. cRoot (fst s)"] clone_variable_quiet(2) by simp
  moreover have "quiet (cRoot cl2) (cRoot cl3)" by (rule for_each_quiet [OF 1(3) clone_variable_quiet(3)])
  moreover have "quiet (cRoot cl3) (cRoot cl4)" by (rule for_each_quiet [OF 1(4) clone_location_quiet [OF assms(1)]])
  ultimately have q: "quiet (tRoot st) (cRoot cl4)" by (blast intro: quiet_trans)
  have "pushed st (mCallee ?tr) [] (tRoot st) []" by (simp add: pushed_def grows_refl)
  from cyclic_clone_edges_pushed [OF assms(1) pushed_quiet [OF this q], of temps "mEdges ?callee" "mTailRecursiveCalls st" cl5 work] 2
  obtain new where new: "work = mTailRecursiveCalls st @ new" "pushed st (mCallee ?tr) (mEdges ?callee) (cRoot cl5) new"
    unfolding append_Nil append_Nil2 by blast
  have "quiet (cRoot cl5) root1" "quiet root1 root2" "quiet root2 root3" "mSource root3 call = None"
    using createAssign_quiet [OF assms(1) 3(1)] createAssign_quiet [OF assms(1) 3(2)] disconnectEdge_quiet [OF 3(3)] by auto
  then have "pushed st (mCallee ?tr) (mEdges ?callee) root3 new" "mSource root3 call = None"
    using new(2) by (blast intro: quiet_trans pushed_quiet)+
  with new(1) 4 show ?thesis by auto
qed

section \<open>The transformation ends\<close>

definition tail_in :: "automata_system \<Rightarrow> nat \<Rightarrow> bool" where
  "tail_in sys q \<longleftrightarrow> q \<in> set (mAutomata sys) \<and> tail_recursive (mCfa sys q) q"

abbreviation callee_of :: "cfa \<Rightarrow> nat \<Rightarrow> nat" where
  "callee_of c e \<equiv> mCallee (mTransition c e)"

text \<open>The invariant of the worklist: the call graph is that of the system, and the worklist holds the
  connected calls of tail-recursive automata.\<close>

definition graph_of :: "automata_system \<Rightarrow> call_graph \<Rightarrow> bool" where
  "graph_of sys g \<longleftrightarrow> dom g = set (mAutomata sys) \<and> (\<forall>p \<in> set (mAutomata sys). others g p = Some (calls_of (mCfa sys p)))"

definition work_inv :: "automata_system \<Rightarrow> nat \<Rightarrow> transformer \<Rightarrow> bool" where
  "work_inv sys rt st \<longleftrightarrow> tSystem st = sys \<and> mRoot st = rt \<and> graph_of sys (mCallGraph st)
     \<and> set (mTailRecursiveCalls st) \<subseteq> set (mEdges (tRoot st))
     \<and> (\<forall>e \<in> set (mTailRecursiveCalls st). callee_of (tRoot st) e = rt \<or> tail_in sys (callee_of (tRoot st) e))
     \<and> (\<forall>e \<in> set (mEdges (tRoot st)). isCall (mTransition (tRoot st) e) \<and> callee_of (tRoot st) e \<noteq> rt
          \<and> tail_in sys (callee_of (tRoot st) e) \<and> mSource (tRoot st) e \<noteq> None \<longrightarrow> e \<in> set (mTailRecursiveCalls st))"

lemma tail_now_iff:
  assumes "graph_of sys (mCallGraph st)" and "tSystem st = sys" and "q \<noteq> mRoot st"
  shows "tail_now st q \<longleftrightarrow> tail_in sys q"
proof (cases "q \<in> set (mAutomata sys)")
  case True
  then have "others (mCallGraph st) q = Some (calls_of (mCfa sys q))" using assms(1) by (simp add: graph_of_def)
  from isTailRecursive_iff [OF this, of "automaton st"] show ?thesis using assms(2,3) True by (simp add: automaton_def tail_in_def)
next
  case False
  then have "mCallGraph st q = None" using assms(1) by (auto simp: graph_of_def)
  then show ?thesis using False by (simp add: isTailRecursive_def tail_in_def)
qed

lemma inline_step:
  assumes "fresh_alloc alloc" and "work_inv sys rt st" and "mTailRecursiveCalls st = work @ [call]"
    and "cyclic_inlineCallIntoRoot alloc call sfx (st\<lparr>mTailRecursiveCalls := work, mInlineCnt := n\<rparr>) = Inr st'"
  obtains new where "mTailRecursiveCalls st' = work @ new" "grows (tRoot st) (tRoot st')" "work_inv sys rt st'"
    "callee_of (tRoot st) call \<noteq> rt"
    "callee_of (tRoot st') ` set new - {rt} = {q. tail_in sys q \<and> q \<noteq> callee_of (tRoot st) call \<and> q \<in> callees (mCfa sys (callee_of (tRoot st) call))} - {rt}"
proof -
  let ?st = "st\<lparr>mTailRecursiveCalls := work, mInlineCnt := n\<rparr>" and ?p = "callee_of (tRoot st) call"
  note inv = assms(2) [unfolded work_inv_def]
  obtain new where 1: "mTailRecursiveCalls st' = work @ new" "pushed ?st ?p (mEdges (automaton ?st ?p)) (tRoot st') new"
    "?p \<noteq> mRoot st" "mSource (tRoot st') call = None" "tSystem st' = tSystem st" "mRoot st' = mRoot st" "mCallGraph st' = mCallGraph st"
    using inline_pushed [OF assms(1,4)] by auto
  have sys: "tSystem st = sys" "mRoot st = rt" "graph_of sys (mCallGraph st)" using inv by blast+
  have tail: "tail_now ?st q \<longleftrightarrow> tail_in sys q" if "q \<noteq> rt" for q
    using tail_now_iff [of sys ?st q] sys that by simp
  have g: "grows (tRoot st) (tRoot st')" using 1(2) by (simp add: pushed_def)
  have new: "set new = {e \<in> set (mEdges (tRoot st')) - set (mEdges (tRoot st)). isCall (mTransition (tRoot st') e) \<and> tail_now ?st (callee_of (tRoot st') e)}"
    using 1(2) by (simp add: pushed_def)
  have img: "callee_of (tRoot st') ` set new = {q. tail_now ?st q \<and> q \<noteq> ?p \<and> (\<exists>e \<in> set (mEdges (mCfa sys ?p)). isCall (mTransition (mCfa sys ?p) e) \<and> callee_of (mCfa sys ?p) e = q)}"
  proof -
    have "automaton ?st ?p = mCfa sys ?p" using 1(3) sys(1) by (simp add: automaton_def)
    with pushedD(3) [OF 1(2)] show ?thesis by (simp only:)
  qed
  have callees: "q \<in> callees (mCfa sys ?p) \<longleftrightarrow> (\<exists>e \<in> set (mEdges (mCfa sys ?p)). isCall (mTransition (mCfa sys ?p) e) \<and> callee_of (mCfa sys ?p) e = q)" for q
    by (auto simp: callees_def)
  have same: "mTransition (tRoot st') e = mTransition (tRoot st) e" "mSource (tRoot st') e \<noteq> None \<Longrightarrow> mSource (tRoot st) e \<noteq> None"
    if "e \<in> set (mEdges (tRoot st))" for e using g that by (auto simp: grows_def)
  have old: "set work \<subseteq> set (mEdges (tRoot st))" "call \<in> set (mEdges (tRoot st))" "set (mEdges (tRoot st)) \<subseteq> set (mEdges (tRoot st'))"
    using inv g unfolding assms(3) by (auto simp: grows_def)
  have "e \<in> set (work @ new)" if e: "e \<in> set (mEdges (tRoot st'))" "isCall (mTransition (tRoot st') e)" "callee_of (tRoot st') e \<noteq> rt"
      "tail_in sys (callee_of (tRoot st') e)" "mSource (tRoot st') e \<noteq> None" for e
  proof (cases "e \<in> set (mEdges (tRoot st))")
    case True
    then have "e \<in> set (work @ [call])" using inv e same [OF True] unfolding assms(3) by simp
    then show ?thesis using 1(4) e(5) by auto
  next
    case False
    then show ?thesis using e new tail by simp
  qed
  moreover have "callee_of (tRoot st') e = rt \<or> tail_in sys (callee_of (tRoot st') e)" if "e \<in> set (work @ new)" for e
  proof (cases "e \<in> set new")
    case True
    then show ?thesis using new tail by blast
  next
    case False
    then have e: "e \<in> set work" using that by simp
    then have "mTransition (tRoot st') e = mTransition (tRoot st) e" using old(1) same(1) by blast
    moreover have "callee_of (tRoot st) e = rt \<or> tail_in sys (callee_of (tRoot st) e)" using inv e unfolding assms(3) by auto
    ultimately show ?thesis by simp
  qed
  moreover have "set (work @ new) \<subseteq> set (mEdges (tRoot st'))" using old(1,3) new by auto
  ultimately have "work_inv sys rt st'" using 1(1,5-7) sys unfolding work_inv_def by auto
  moreover have "callee_of (tRoot st') ` set new - {rt} = {q. tail_in sys q \<and> q \<noteq> ?p \<and> q \<in> callees (mCfa sys ?p)} - {rt}"
    unfolding img callees using tail by blast
  ultimately show thesis using that 1(1,3) g sys(2) by blast
qed

text \<open>The weights of the calls that are left.\<close>

definition call_weight :: "(nat \<Rightarrow> nat) \<Rightarrow> nat \<Rightarrow> transformer \<Rightarrow> nat \<Rightarrow> nat" where
  "call_weight rank rt st e = (if callee_of (tRoot st) e = rt then 0 else Suc (rank (callee_of (tRoot st) e)))"

definition weights :: "(nat \<Rightarrow> nat) \<Rightarrow> nat \<Rightarrow> transformer \<Rightarrow> nat multiset" where
  "weights rank rt st = image_mset (call_weight rank rt st) (mset (mTailRecursiveCalls st))"

definition descending :: "automata_system \<Rightarrow> nat \<Rightarrow> (nat \<Rightarrow> nat) \<Rightarrow> bool" where
  "descending sys rt rank \<longleftrightarrow> (\<forall>p q. tail_in sys p \<and> tail_in sys q \<and> p \<noteq> q \<and> p \<noteq> rt \<and> q \<noteq> rt \<and> q \<in> callees (mCfa sys p) \<longrightarrow> rank q < rank p)"

lemma inline_tail_calls_ends:
  assumes "fresh_alloc alloc" and "descending sys rt rank" and "work_inv sys rt st"
  shows "\<exists>r. inline_tail_calls alloc st = Some r \<and> (\<forall>st'. r = Inr st' \<longrightarrow> work_inv sys rt st' \<and> mTailRecursiveCalls st' = [])"
  using assms(3)
proof (induction "weights rank rt st" arbitrary: st rule: wf_induct_rule [OF wf_mult [OF wf_less_than]])
  case less: 1
  show ?case
  proof (cases "mTailRecursiveCalls st = []")
    case True
    then show ?thesis using less.prems by (subst inline_tail_calls.simps) simp
  next
    case False
    then obtain work call where w: "mTailRecursiveCalls st = work @ [call]" by (metis append_butlast_last_id)
    let ?r = "cyclic_inlineCallIntoRoot alloc call (''_inlined'' @ dec_digits (mInlineCnt st))
       (st\<lparr>mTailRecursiveCalls := work, mInlineCnt := u32 (Suc (mInlineCnt st))\<rparr>)"
    have step: "inline_tail_calls alloc st = (case ?r of Inl err \<Rightarrow> Some (Inl err) | Inr st' \<Rightarrow> inline_tail_calls alloc st')"
      using w by (subst inline_tail_calls.simps) simp
    show ?thesis
    proof (cases ?r)
      case (Inl err)
      then show ?thesis using step by simp
    next
      case (Inr st')
      obtain new where n: "mTailRecursiveCalls st' = work @ new" "grows (tRoot st) (tRoot st')" "work_inv sys rt st'"
        "callee_of (tRoot st) call \<noteq> rt" "callee_of (tRoot st') ` set new - {rt} =
           {q. tail_in sys q \<and> q \<noteq> callee_of (tRoot st) call \<and> q \<in> callees (mCfa sys (callee_of (tRoot st) call))} - {rt}"
        using inline_step [OF assms(1) less.prems w Inr] .
      let ?w = "call_weight rank rt"
      have inv: "set work \<subseteq> set (mEdges (tRoot st))" "callee_of (tRoot st) call = rt \<or> tail_in sys (callee_of (tRoot st) call)"
        using less.prems unfolding work_inv_def w by auto
      have "?w st' e = ?w st e" if "e \<in> set work" for e using that inv(1) n(2) by (auto simp: grows_def call_weight_def)
      then have work: "image_mset (?w st') (mset work) = image_mset (?w st) (mset work)" by (intro image_mset_cong) simp
      have "?w st' e < ?w st call" if "e \<in> set new" for e
      proof (cases "callee_of (tRoot st') e = rt")
        case False
        then have "tail_in sys (callee_of (tRoot st') e)" "callee_of (tRoot st') e \<noteq> callee_of (tRoot st) call"
          "callee_of (tRoot st') e \<in> callees (mCfa sys (callee_of (tRoot st) call))" using n(5) that by blast+
        then show ?thesis using False assms(2) inv(2) n(4) by (simp add: descending_def call_weight_def)
      qed (use n(4) in \<open>simp add: call_weight_def\<close>)
      then have "(weights rank rt st', weights rank rt st) \<in> mult less_than"
        unfolding weights_def n(1) w mset_append image_mset_union work by (intro one_step_implies_mult) auto
      from less.hyps [OF this n(3)] step Inr show ?thesis by simp
    qed
  qed
qed

text \<open>The preparation: the goal adds no call, and the calls of the root to tail-recursive automata are collected.\<close>

definition kept :: "transformer \<Rightarrow> transformer \<Rightarrow> bool" where
  "kept st st' \<longleftrightarrow> quiet (tRoot st) (tRoot st') \<and> tSystem st' = tSystem st \<and> mRoot st' = mRoot st
     \<and> mCallGraph st' = mCallGraph st \<and> mTailRecursiveCalls st' = mTailRecursiveCalls st"

lemma kept_trans: "kept a b \<Longrightarrow> kept b c \<Longrightarrow> kept a c"
  by (auto simp: kept_def intro: quiet_trans)

lemma error_edge_kept:
  assumes "fresh_alloc alloc" and "error_edge alloc l g x st = Inr st'"
  shows "kept st st'"
  using assms(2) by (auto simp: error_edge_def rbind_eq_Inr kept_def intro: createAssign_quiet [OF assms(1)])

lemma addUniqueErrorLocation_kept:
  assumes "fresh_alloc alloc" and "addUniqueErrorLocation alloc st = Inr st'"
  shows "kept st st'"
proof -
  let ?err = "alloc (mNodes (tRoot st))"
  obtain v root tbl where 1: "createLocal ''__gazer_error_field'' IntType (createErrorLocation ?err (tRoot st)) (tTable st) = Some (Inr (v, root, tbl))"
    using assms(2) by (auto simp: addUniqueErrorLocation_def Let_def rbind_eq_Inr returned_Inr)
  let ?st = "st\<lparr>tRoot := root, tTable := tbl, tError := ?err, tErrorFieldVariable := v\<rparr>"
  have "quiet (tRoot st) (createErrorLocation ?err (tRoot st))"
    by (rule quiet_same) (simp_all add: createErrorLocation_def createNode_def Let_def)
  then have k: "kept st ?st" using createLocal_quiet [OF 1] by (auto simp: kept_def intro: quiet_trans)
  have "kept ?st st'"
  proof (cases "filter (isError (tRoot st)) (mNodes (tRoot st)) = []")
    case True
    then have "error_edge alloc (mEntry root) False_lit (IntLit 0) ?st = Inr st'"
      using assms(2) 1 by (simp add: addUniqueErrorLocation_def Let_def returned_def)
    then show ?thesis by (rule error_edge_kept [OF assms(1)])
  next
    case False
    then have "for_each (\<lambda>l s. rbind (getErrorFieldExpr (tRoot s) l) (\<lambda>x. check (isIntType (getType x)) AssertFail (error_edge alloc l True_lit x s)))
        (filter (isError (tRoot st)) (mNodes (tRoot st))) ?st = Inr st'"
      using assms(2) 1 by (simp add: addUniqueErrorLocation_def Let_def returned_def)
    then show ?thesis
      by (rule for_each_rule [where P = "\<lambda>_ s. kept ?st s"])
         (auto simp: kept_def quiet_refl rbind_eq_Inr check_eq_Inr dest!: error_edge_kept [OF assms(1)] intro: quiet_trans)
  qed
  with k show ?thesis by (rule kept_trans)
qed

lemma automaton_work [simp]: "automaton (st\<lparr>mTailRecursiveCalls := w\<rparr>) = automaton st"
  by (simp add: automaton_def fun_eq_iff)

lemma collect_calls:
  assumes "for_each collect_call es st = Inr st'"
  shows "st' = st\<lparr>mTailRecursiveCalls := mTailRecursiveCalls st @
     filter (\<lambda>e. isCall (mTransition (tRoot st) e) \<and> tail_now st (callee_of (tRoot st) e)) es\<rparr>"
  using assms
proof (induction es arbitrary: st)
  case (Cons e es)
  obtain st1 where 1: "collect_call e st = Inr st1" "for_each collect_call es st1 = Inr st'" using Cons.prems by (auto simp: rbind_eq_Inr)
  then have "st1 = st\<lparr>mTailRecursiveCalls := mTailRecursiveCalls st @
      (if isCall (mTransition (tRoot st) e) \<and> tail_now st (callee_of (tRoot st) e) then [e] else [])\<rparr>"
    by (auto simp: collect_call_def rbind_eq_Inr split: if_splits)
  then show ?case using Cons.IH [OF 1(2)] by simp
qed simp

lemma prepared_inv:
  assumes "fresh_alloc alloc" and "RecursiveToCyclicTransformer_new sys tbl rt = Inr st0"
    and "distinct (mAutomata sys)" and "\<forall>p \<in> set (mAutomata sys). callees (mCfa sys p) \<subseteq> set (mAutomata sys)"
    and "rbind (addUniqueErrorLocation alloc st0) (\<lambda>st1. for_each collect_call (mEdges (tRoot st1)) st1) = Inr st"
  shows "work_inv sys rt st" "grows (mCfa sys rt) (tRoot st)"
    "\<forall>e \<in> set (mEdges (mCfa sys rt)). isCall (mTransition (mCfa sys rt) e) \<and> callee_of (mCfa sys rt) e \<noteq> rt
       \<and> tail_in sys (callee_of (mCfa sys rt) e) \<longrightarrow> e \<in> set (mTailRecursiveCalls st)"
proof -
  obtain g where g: "CallGraph_new sys = Inr g" "graph_of sys g"
    using call_graph_run [OF assms(3)] assms(4) by (auto simp: graph_of_def)
  have st0: "tSystem st0 = sys" "mRoot st0 = rt" "tRoot st0 = mCfa sys rt" "mCallGraph st0 = g" "mTailRecursiveCalls st0 = []"
    using assms(2) g(1) by (auto simp: RecursiveToCyclicTransformer_new_def)
  obtain st1 where 1: "addUniqueErrorLocation alloc st0 = Inr st1" "for_each collect_call (mEdges (tRoot st1)) st1 = Inr st"
    using assms(5) by (auto simp: rbind_eq_Inr)
  have k: "quiet (tRoot st0) (tRoot st1)" "tSystem st1 = sys" "mRoot st1 = rt" "mCallGraph st1 = g" "mTailRecursiveCalls st1 = []"
    using addUniqueErrorLocation_kept [OF assms(1) 1(1)] st0 by (auto simp: kept_def)
  have tail: "tail_now st1 q \<longleftrightarrow> tail_in sys q" if "q \<noteq> rt" for q
    using tail_now_iff [of sys st1 q] g(2) k that by simp
  note c = collect_calls [OF 1(2)]
  have st: "tRoot st = tRoot st1" "tSystem st = sys" "mRoot st = rt" "mCallGraph st = g"
    "set (mTailRecursiveCalls st) = {e \<in> set (mEdges (tRoot st1)). isCall (mTransition (tRoot st1) e) \<and> tail_now st1 (callee_of (tRoot st1) e)}"
    by (subst c; simp add: k)+
  show "work_inv sys rt st" unfolding work_inv_def st using g(2) tail by blast
  show gr: "grows (mCfa sys rt) (tRoot st)" using k(1) st(1) st0(3) by (simp add: quiet_def)
  show "\<forall>e \<in> set (mEdges (mCfa sys rt)). isCall (mTransition (mCfa sys rt) e) \<and> callee_of (mCfa sys rt) e \<noteq> rt
       \<and> tail_in sys (callee_of (mCfa sys rt) e) \<longrightarrow> e \<in> set (mTailRecursiveCalls st)"
    using gr tail unfolding st by (auto simp: grows_def)
qed

text \<open>
  C36: the transformation ends, unless tail-recursive automata call each other in a cycle. If the calls between
  different tail-recursive automata descend in some ranking, then the worklist becomes empty, whatever the automata
  are; and if no assertion fails, the calls that are left in the root are not calls of tail-recursive automata, the root itself excepted.
\<close>

theorem cyclic_transformation_ends:
  assumes "fresh_alloc alloc" and "distinct (mAutomata sys)" and "\<forall>p \<in> set (mAutomata sys). callees (mCfa sys p) \<subseteq> set (mAutomata sys)"
    and "\<And>p q. tail_in sys p \<Longrightarrow> tail_in sys q \<Longrightarrow> q \<in> callees (mCfa sys p) \<Longrightarrow> p \<noteq> q \<Longrightarrow> rank q < (rank p :: nat)"
  shows "\<exists>r. TransformRecursiveToCyclic alloc sys tbl rt = Some r \<and> (\<forall>st. r = Inr st \<longrightarrow>
    (\<forall>e \<in> set (mEdges (tRoot st)). isCall (mTransition (tRoot st) e) \<longrightarrow>
       mCallee (mTransition (tRoot st) e) = rt \<or> \<not> tail_in sys (mCallee (mTransition (tRoot st) e))))"
proof -
  obtain st0 where st0: "RecursiveToCyclicTransformer_new sys tbl rt = Inr st0"
    using call_graph_run [OF assms(2)] assms(3) by (auto simp: RecursiveToCyclicTransformer_new_def)
  show ?thesis
  proof (cases "rbind (addUniqueErrorLocation alloc st0) (\<lambda>st1. for_each collect_call (mEdges (tRoot st1)) st1)")
    case (Inl err)
    then show ?thesis using st0 by (simp add: TransformRecursiveToCyclic_def transform_def)
  next
    case (Inr st)
    have "descending sys rt rank" using assms(4) unfolding descending_def by blast
    from inline_tail_calls_ends [OF assms(1) this prepared_inv(1) [OF assms(1) st0 assms(2,3) Inr]] obtain r where
      r: "inline_tail_calls alloc st = Some r" "\<And>st'. r = Inr st' \<Longrightarrow> work_inv sys rt st' \<and> mTailRecursiveCalls st' = []" by blast
    have run: "TransformRecursiveToCyclic alloc sys tbl rt = Some (rbind r (\<lambda>st3. Inr (st3\<lparr>tRoot := clearDisconnectedElements (tRoot st3)\<rparr>)))"
      using st0 Inr r(1) by (simp add: TransformRecursiveToCyclic_def transform_def)
    have "callee_of (clearDisconnectedElements (tRoot st3)) e = rt \<or> \<not> tail_in sys (callee_of (clearDisconnectedElements (tRoot st3)) e)"
      if "r = Inr st3" "e \<in> set (mEdges (clearDisconnectedElements (tRoot st3)))" "isCall (mTransition (clearDisconnectedElements (tRoot st3)) e)" for st3 e
      using r(2) [OF that(1)] that(2,3) by (auto simp: work_inv_def clearDisconnectedElements_def)
    then show ?thesis unfolding run by (cases r) simp_all
  qed
qed

section \<open>Mutual recursion\<close>

lemma inline_tail_calls_loop:
  assumes "fresh_alloc alloc" and "rt \<notin> C" and "\<forall>p \<in> C. tail_in sys p \<and> (\<exists>q \<in> C. q \<noteq> p \<and> q \<in> callees (mCfa sys p))"
    and "inline_tail_calls alloc st = Some r" and "work_inv sys rt st" and "\<exists>e \<in> set (mTailRecursiveCalls st). callee_of (tRoot st) e \<in> C"
  shows "r \<noteq> Inr st'"
proof -
  define P where "P a st r \<longleftrightarrow> (a = alloc \<longrightarrow> work_inv sys rt st \<longrightarrow> (\<exists>e \<in> set (mTailRecursiveCalls st). callee_of (tRoot st) e \<in> C) \<longrightarrow>
    (\<forall>st'. r \<noteq> Inr st'))" for a st and r :: "transformer res"
  have "P alloc st r"
  proof (rule inline_tail_calls.raw_induct [where P = P, OF _ assms(4)])
    fix loop a st r
    assume IH: "\<And>a st r. loop a st = Some r \<Longrightarrow> P a st r"
      and body: "(if mTailRecursiveCalls st = [] then Some (Inr st)
        else (case cyclic_inlineCallIntoRoot a (last (mTailRecursiveCalls st)) (''_inlined'' @ dec_digits (mInlineCnt st))
                     (st\<lparr>mTailRecursiveCalls := butlast (mTailRecursiveCalls st), mInlineCnt := u32 (Suc (mInlineCnt st))\<rparr>) of
                Inl err \<Rightarrow> Some (Inl err) | Inr st' \<Rightarrow> loop a st')) = Some r"
    show "P a st r" unfolding P_def
    proof (intro impI allI)
      fix st' assume a: "a = alloc" and inv: "work_inv sys rt st" and e: "\<exists>e \<in> set (mTailRecursiveCalls st). callee_of (tRoot st) e \<in> C"
      obtain work call where w: "mTailRecursiveCalls st = work @ [call]" using e by (metis append_butlast_last_id empty_iff empty_set)
      let ?r = "cyclic_inlineCallIntoRoot alloc call (''_inlined'' @ dec_digits (mInlineCnt st))
         (st\<lparr>mTailRecursiveCalls := work, mInlineCnt := u32 (Suc (mInlineCnt st))\<rparr>)"
      have step: "(case ?r of Inl err \<Rightarrow> Some (Inl err) | Inr st1 \<Rightarrow> loop alloc st1) = Some r" using body w unfolding a by simp
      show "r \<noteq> Inr st'"
      proof (cases ?r)
        case (Inr st1)
        obtain new where n: "mTailRecursiveCalls st1 = work @ new" "grows (tRoot st) (tRoot st1)" "work_inv sys rt st1"
          "callee_of (tRoot st) call \<noteq> rt" "callee_of (tRoot st1) ` set new - {rt} =
             {q. tail_in sys q \<and> q \<noteq> callee_of (tRoot st) call \<and> q \<in> callees (mCfa sys (callee_of (tRoot st) call))} - {rt}"
          using inline_step [OF assms(1) inv w Inr] .
        have "\<exists>e \<in> set (mTailRecursiveCalls st1). callee_of (tRoot st1) e \<in> C"
        proof (cases "callee_of (tRoot st) call \<in> C")
          case True
          then obtain q where "q \<in> C" "q \<noteq> callee_of (tRoot st) call" "q \<in> callees (mCfa sys (callee_of (tRoot st) call))" "tail_in sys q"
            using assms(3) by blast
          then have "q \<in> callee_of (tRoot st1) ` set new - {rt}" unfolding n(5) using assms(2) by auto
          then show ?thesis using \<open>q \<in> C\<close> n(1) by auto
        next
          case False
          then obtain e where e: "e \<in> set work" "callee_of (tRoot st) e \<in> C" using e w by auto
          then have "mTransition (tRoot st1) e = mTransition (tRoot st) e"
            using inv n(2) unfolding work_inv_def w by (auto simp: grows_def)
          then show ?thesis using e n(1) by (intro bexI [of _ e]) simp_all
        qed
        moreover have "loop alloc st1 = Some r" using step Inr by simp
        ultimately show ?thesis using IH [of alloc st1 r] n(3) unfolding P_def by blast
      qed (use step in auto)
    qed
  qed
  with assms(5,6) show ?thesis unfolding P_def by blast
qed

text \<open>
  C37: mutual tail recursion. If the root calls a tail-recursive automaton from which calls of other tail-recursive
  automata lead on for ever, as with two automata that call themselves and each other at their
  exits, then the transformation never returns a result: every call that is inlined adds another one to the worklist.
\<close>

theorem mutual_recursion_diverges:
  assumes "fresh_alloc alloc" and "distinct (mAutomata sys)" and "\<forall>p \<in> set (mAutomata sys). callees (mCfa sys p) \<subseteq> set (mAutomata sys)"
    and "rt \<notin> C" and "\<forall>p \<in> C. tail_in sys p \<and> (\<exists>q \<in> C. q \<noteq> p \<and> q \<in> callees (mCfa sys p))" and "C \<inter> callees (mCfa sys rt) \<noteq> {}"
  shows "TransformRecursiveToCyclic alloc sys tbl rt \<noteq> Some (Inr st)"
proof
  assume run: "TransformRecursiveToCyclic alloc sys tbl rt = Some (Inr st)"
  obtain st0 where st0: "RecursiveToCyclicTransformer_new sys tbl rt = Inr st0"
    using call_graph_run [OF assms(2)] assms(3) by (auto simp: RecursiveToCyclicTransformer_new_def)
  obtain st2 r where st2: "rbind (addUniqueErrorLocation alloc st0) (\<lambda>st1. for_each collect_call (mEdges (tRoot st1)) st1) = Inr st2"
    "inline_tail_calls alloc st2 = Some r" "\<exists>st3. r = Inr st3"
    using run st0 by (auto simp: TransformRecursiveToCyclic_def transform_def rbind_eq_Inr split: sum.splits)
  note p = prepared_inv [OF assms(1) st0 assms(2,3) st2(1)]
  obtain e where e: "e \<in> set (mEdges (mCfa sys rt))" "isCall (mTransition (mCfa sys rt) e)" "callee_of (mCfa sys rt) e \<in> C"
    using assms(6) by (auto simp: callees_def)
  then have "tail_in sys (callee_of (mCfa sys rt) e)" "callee_of (mCfa sys rt) e \<noteq> rt" using assms(4,5) by auto
  then have "e \<in> set (mTailRecursiveCalls st2)" using p(3) e by blast
  moreover have "callee_of (tRoot st2) e \<in> C" using p(2) e by (simp add: grows_def)
  ultimately show False using inline_tail_calls_loop [OF assms(1,4,5) st2(2) p(1)] st2(3) by blast
qed

section \<open>Sample systems\<close>

text \<open>An automaton whose transitions are calls from the entry to the exit.\<close>

definition call_arc :: "nat \<Rightarrow> nat \<Rightarrow> cfa \<Rightarrow> cfa" where
  "call_arc e p c = addTransition e 3 4 (CallTransition True_lit p [] []) c"

definition tail_loop :: cfa where "tail_loop = call_arc 10 97 (Cfa_new ''f'' 3 4)"

definition ping :: cfa where "ping = call_arc 11 98 (call_arc 10 97 (Cfa_new ''f'' 3 4))"

definition pong :: cfa where "pong = call_arc 11 97 (call_arc 10 98 (Cfa_new ''g'' 3 4))"

definition calling_root :: cfa where "calling_root = call_arc 10 97 (Cfa_new ''main'' 3 4)"

definition loop_system :: automata_system where
  "loop_system = \<lparr>mAutomata = [97, 99], mCfa = (\<lambda>p. if p = 97 then tail_loop else calling_root), mMainAutomaton = Some 99\<rparr>"

definition ping_pong :: automata_system where
  "ping_pong = \<lparr>mAutomata = [97, 98, 99], mCfa = (\<lambda>p. if p = 97 then ping else if p = 98 then pong else calling_root), mMainAutomaton = Some 99\<rparr>"

lemma call_arc_simps:
  "mEdges (call_arc e p c) = mEdges c @ [e]" "mTransition (call_arc e p c) = (mTransition c)(e := CallTransition True_lit p [] [])"
  "mTarget (call_arc e p c) = (mTarget c)(e := Some 4)" "mExit (call_arc e p c) = mExit c"
  by (simp_all add: call_arc_def addTransition_def createEdge_def Let_def)

lemma callees_call_arc: "e \<notin> set (mEdges c) \<Longrightarrow> callees (call_arc e p c) = insert p (callees c)"
proof -
  assume e: "e \<notin> set (mEdges c)"
  then have "mTransition (call_arc e p c) ` set (mEdges (call_arc e p c)) = insert (CallTransition True_lit p [] []) (mTransition c ` set (mEdges c))"
    by (auto simp: call_arc_simps)
  moreover have "{tr \<in> insert (CallTransition True_lit p [] []) X. isCall tr} = insert (CallTransition True_lit p [] []) {tr \<in> X. isCall tr}" for X
    by (auto simp: isCall_def)
  ultimately show ?thesis by (simp add: callees_def)
qed

lemma callees_new: "callees (Cfa_new n a b) = {}"
  by (simp add: callees_def)

lemma sample_calls:
  "callees tail_loop = {97}" "callees ping = {97, 98}" "callees pong = {97, 98}" "callees calling_root = {97}"
  "tail_recursive tail_loop 97" "tail_recursive ping 97" "tail_recursive pong 98" "\<not> tail_recursive calling_root 99"
  by (auto simp: callees_call_arc callees_new tail_recursive_def tail_loop_def ping_def pong_def calling_root_def call_arc_simps)

theorem call_graph_correct_witness:
  "\<exists>g. CallGraph_new loop_system = Inr g \<and> isTailRecursive (mCfa loop_system) g 97 = Inr True \<and> isTailRecursive (mCfa loop_system) g 99 = Inr False"
proof -
  have "distinct (mAutomata loop_system)" by (simp add: loop_system_def)
  from call_graph_correct [OF this] show ?thesis by (auto simp: loop_system_def sample_calls)
qed

theorem cyclic_transformation_ends_witness:
  "\<exists>r. TransformRecursiveToCyclic next_address loop_system Map.empty 99 = Some r"
proof -
  have "(0 :: nat) < 0" if "tail_in loop_system p" "tail_in loop_system q" "p \<noteq> q" for p q
    using that by (auto simp: tail_in_def loop_system_def sample_calls)
  moreover have "distinct (mAutomata loop_system)" "\<forall>p \<in> set (mAutomata loop_system). callees (mCfa loop_system p) \<subseteq> set (mAutomata loop_system)"
    by (simp_all add: loop_system_def sample_calls)
  ultimately show ?thesis using cyclic_transformation_ends [OF next_address_fresh, of loop_system "\<lambda>_. 0" Map.empty 99] by (metis (no_types, lifting))
qed

theorem mutual_recursion_diverges_witness:
  "\<forall>st. TransformRecursiveToCyclic next_address ping_pong Map.empty 99 \<noteq> Some (Inr st)"
proof
  fix st
  have "distinct (mAutomata ping_pong)" "\<forall>p \<in> set (mAutomata ping_pong). callees (mCfa ping_pong p) \<subseteq> set (mAutomata ping_pong)"
    by (simp_all add: ping_pong_def sample_calls)
  moreover have "(99 :: nat) \<notin> {97, 98}" "{97, 98} \<inter> callees (mCfa ping_pong 99) \<noteq> {}"
    "\<forall>p \<in> {97, 98}. tail_in ping_pong p \<and> (\<exists>q \<in> {97, 98}. q \<noteq> p \<and> q \<in> callees (mCfa ping_pong p))"
    by (simp_all add: ping_pong_def sample_calls tail_in_def)
  ultimately show "TransformRecursiveToCyclic next_address ping_pong Map.empty 99 \<noteq> Some (Inr st)"
    by (intro mutual_recursion_diverges [OF next_address_fresh])
qed

end
