(* ===== verification/GazerStorage.thy ===== *)
theory GazerStorage
  imports GazerExpr "HOL-Library.Multiset"
begin

text \<open>
  The storage of expressions (\<open>ExprStorage\<close> in \<^verbatim>\<open>src/Core/GazerContextImpl.h\<close> and \<^verbatim>\<open>src/Core/GazerContext.cpp\<close>,
  the reference counts of \<^verbatim>\<open>include/gazer/Core/Expr.h\<close>): a hash table that keeps one object per expression.
  Objects are addresses in a heap; the list that starts in a bucket is the list of its addresses. The two
  Boolean literals belong to the context and are not in the table.

  The theorems justify that the other theories identify an expression with its tree: after any
  sequence of operations two objects are the same exactly if they denote the same tree, the objects in
  the heap are exactly those that can be reached from a reference that is held, and the load of the table
  stays below three quarters.

  Array literals, which hold references to other literals, are not modelled here. The hash functions of
  the libraries are a parameter, as is the address of a new object.
\<close>

section \<open>Objects\<close>

datatype shape =
    Leaf expr
  | Ops expr_kind gtype "nat list" subclass_data

record object =
  oShape :: shape
  mRefCount :: nat
  mHashCode :: nat

record storage =
  oHeap :: "nat \<rightharpoonup> object"
  mStorage :: "nat list list"
  mEntryCount :: nat
  TrueLit :: nat
  FalseLit :: nat

fun mOperands :: "shape \<Rightarrow> nat list" where
  "mOperands (Leaf x) = []"
| "mOperands (Ops k t ops d) = ops"

text \<open>The comparisons of the templates \<open>expr_hasher\<close>.\<close>

fun leaf_equals :: "expr \<Rightarrow> expr \<Rightarrow> bool" where
  "leaf_equals (UndefExpr s) (UndefExpr t) = type_equals s t"
| "leaf_equals (LiteralExpr l) (LiteralExpr m) = (type_equals (lit_type l) (lit_type m) \<and> l = m)"
| "leaf_equals (VarRefExpr v) (VarRefExpr w) = (v = w)"
| "leaf_equals _ _ = False"

fun hasher_equals :: "shape \<Rightarrow> shape \<Rightarrow> bool" where
  "hasher_equals (Leaf x) (Leaf y) = leaf_equals x y"
| "hasher_equals (Ops k s ops d) (Ops l t ops' d') = (k = l \<and> type_equals s t \<and> ops = ops' \<and> d = d')"
| "hasher_equals _ _ = False"

section \<open>Operations\<close>

definition mBucketCount :: "storage \<Rightarrow> nat" where
  "mBucketCount st = length (mStorage st)"

definition bucket_of :: "storage \<Rightarrow> nat \<Rightarrow> nat list" where
  "bucket_of st hash = mStorage st ! (hash mod mBucketCount st)"

definition needsRehash :: "storage \<Rightarrow> nat \<Rightarrow> bool" where
  "needsRehash st entries \<longleftrightarrow> mBucketCount st * 3 \<le> entries * 4"

definition object_at :: "storage \<Rightarrow> nat \<Rightarrow> object" where
  "object_at st a = the (oHeap st a)"

definition rehash_one :: "storage \<Rightarrow> nat \<Rightarrow> nat \<Rightarrow> nat list list \<Rightarrow> nat list list" where
  "rehash_one st n a bs = (let i = mHashCode (object_at st a) mod n in bs[i := a # bs ! i])"

definition rehashTable :: "nat \<Rightarrow> storage \<Rightarrow> storage" where
  "rehashTable n st = st\<lparr>mStorage := fold (rehash_one st n) (concat (mStorage st)) (replicate n [])\<rparr>"

definition add_ref :: "nat \<Rightarrow> storage \<Rightarrow> storage" where
  "add_ref a st = st\<lparr>oHeap := (oHeap st)(a \<mapsto> (object_at st a)\<lparr>mRefCount := u32 (Suc (mRefCount (object_at st a)))\<rparr>)\<rparr>"

text \<open>The constructor copies the references to the operands; the reference that is returned counts as well.\<close>

definition new_object :: "shape \<Rightarrow> nat \<Rightarrow> nat \<Rightarrow> storage \<Rightarrow> storage" where
  "new_object x hash a st = (let st1 = fold add_ref (mOperands x) st in
     st1\<lparr>oHeap := (oHeap st1)(a \<mapsto> \<lparr>oShape = x, mRefCount = 0, mHashCode = hash\<rparr>)\<rparr>)"

definition createIfNotExists :: "(nat list \<Rightarrow> nat) \<Rightarrow> (shape \<Rightarrow> nat) \<Rightarrow> shape \<Rightarrow> storage \<Rightarrow> nat \<times> storage" where
  "createIfNotExists alloc hash_value x st =
     (let hash = hash_value x in
      case find (\<lambda>a. hasher_equals (oShape (object_at st a)) x) (bucket_of st hash) of
        Some a \<Rightarrow> (a, add_ref a st)
      | None \<Rightarrow>
         (let st1 = (if needsRehash st (Suc (mEntryCount st)) then rehashTable (mBucketCount st * 2) st else st);
              a = alloc (TrueLit st1 # FalseLit st1 # concat (mStorage st1));
              st2 = new_object x hash a st1; i = hash mod mBucketCount st2
          in (a, add_ref a (st2\<lparr>mEntryCount := Suc (mEntryCount st2), mStorage := (mStorage st2)[i := a # mStorage st2 ! i]\<rparr>))))"

text \<open>\<open>removeFromList\<close> runs into the end of the list if the object is not in it.\<close>

definition removeFromList :: "nat \<Rightarrow> storage \<Rightarrow> storage res" where
  "removeFromList a st = (let i = mHashCode (object_at st a) mod mBucketCount st in
     check (a \<in> set (mStorage st ! i)) NullDeref (Inr (st\<lparr>mStorage := (mStorage st)[i := remove1 a (mStorage st ! i)]\<rparr>)))"

definition deallocate :: "nat \<Rightarrow> storage \<Rightarrow> storage" where
  "deallocate a st = st\<lparr>oHeap := (oHeap st)(a := None)\<rparr>"

definition set_refs :: "nat \<Rightarrow> nat \<Rightarrow> storage \<Rightarrow> storage" where
  "set_refs a n st = st\<lparr>oHeap := (oHeap st)(a \<mapsto> (object_at st a)\<lparr>mRefCount := n\<rparr>)\<rparr>"

definition forget :: "nat \<Rightarrow> storage \<Rightarrow> storage res" where
  "forget a st = rbind (removeFromList a st) (\<lambda>st1. Inr (st1\<lparr>mEntryCount := mEntryCount st1 - 1\<rparr>))"

text \<open>An operand of an object that is deleted: the last reference removes it, and it is queued if it has operands.\<close>

definition drop_operand :: "nat \<Rightarrow> storage \<times> nat list \<Rightarrow> (storage \<times> nat list) res" where
  "drop_operand child s = (case s of (st, queue) \<Rightarrow>
     (if mRefCount (object_at st child) = 1 then
        rbind (forget child st) (\<lambda>st1. Inr (case oShape (object_at st child) of
            Ops _ _ _ _ \<Rightarrow> (st1, queue @ [child])
          | Leaf _ \<Rightarrow> (deallocate child st1, queue)))
      else Inr (set_refs child (mRefCount (object_at st child) - 1) st, queue)))"

text \<open>The loop over the queue; \<open>dead\<close> are the objects whose operands have been dropped.\<close>

partial_function (option) destroy_loop :: "nat list \<Rightarrow> nat list \<Rightarrow> storage \<Rightarrow> (storage \<times> nat list) res option" where
  "destroy_loop queue dead st = (case queue of
     [] \<Rightarrow> Some (Inr (st, dead))
   | x # queue' \<Rightarrow> (case for_each drop_operand (mOperands (oShape (object_at st x))) (st, queue') of
        Inl err \<Rightarrow> Some (Inl err)
      | Inr (st1, queue1) \<Rightarrow> destroy_loop queue1 (dead @ [x]) st1))"

definition destroy :: "nat \<Rightarrow> storage \<Rightarrow> storage res option" where
  "destroy a st = (case forget a st of
     Inl err \<Rightarrow> Some (Inl err)
   | Inr st1 \<Rightarrow> (case oShape (object_at st1 a) of
        Leaf _ \<Rightarrow> Some (Inr (deallocate a st1))
      | Ops _ _ _ _ \<Rightarrow> map_option (\<lambda>r. rbind r (\<lambda>(st2, dead). Inr (fold deallocate dead st2))) (destroy_loop [a] [] st1)))"

definition is_bool_literal :: "shape \<Rightarrow> bool" where
  "is_bool_literal x = (case x of Leaf (LiteralExpr (BoolLiteral b)) \<Rightarrow> True | _ \<Rightarrow> False)"

definition release :: "nat \<Rightarrow> storage \<Rightarrow> storage res option" where
  "release a st =
     (if mRefCount (object_at st a) = 0 then Some (Inl AssertFail)
      else (let st1 = set_refs a (mRefCount (object_at st a) - 1) st in
        if mRefCount (object_at st1 a) = 0 then
          (if is_bool_literal (oShape (object_at st1 a)) then Some (Inr (deallocate a st1)) else destroy a st1)
        else Some (Inr st1)))"

text \<open>The context: 64 buckets and the Boolean literals, with the reference that the context holds.\<close>

definition storage_new :: "(shape \<Rightarrow> nat) \<Rightarrow> storage" where
  "storage_new hash_value = \<lparr>oHeap = [0 \<mapsto> \<lparr>oShape = Leaf True_lit, mRefCount = 1, mHashCode = hash_value (Leaf True_lit)\<rparr>,
       1 \<mapsto> \<lparr>oShape = Leaf False_lit, mRefCount = 1, mHashCode = hash_value (Leaf False_lit)\<rparr>],
     mStorage = replicate 64 [], mEntryCount = 0, TrueLit = 0, FalseLit = 1\<rparr>"

section \<open>The invariant\<close>

abbreviation shape_at :: "storage \<Rightarrow> nat \<Rightarrow> shape" where
  "shape_at st a \<equiv> oShape (object_at st a)"

abbreviation refs_at :: "storage \<Rightarrow> nat \<Rightarrow> nat" where
  "refs_at st a \<equiv> mRefCount (object_at st a)"

text \<open>The tree that an object denotes.\<close>

inductive denotes :: "storage \<Rightarrow> nat \<Rightarrow> expr \<Rightarrow> bool" for st where
  leaf: "shape_at st a = Leaf x \<Longrightarrow> denotes st a x"
| ops: "shape_at st a = Ops k t ops d \<Longrightarrow> list_all2 (denotes st) ops es \<Longrightarrow> denotes st a (NonNullaryExpr k t es d)"

text \<open>The references that the objects in \<open>A\<close> hold.\<close>

definition held :: "storage \<Rightarrow> nat set \<Rightarrow> nat \<Rightarrow> nat" where
  "held st A a = (\<Sum>b \<in> A. count_list (mOperands (shape_at st b)) a)"

fun shape_ok :: "shape \<Rightarrow> bool" where
  "shape_ok (Leaf (UndefExpr t)) = function_free t"
| "shape_ok (Leaf (LiteralExpr l)) = (case l of BoolLiteral b \<Rightarrow> False | ArrayLiteral i e m d \<Rightarrow> False | _ \<Rightarrow> True)"
| "shape_ok (Leaf (VarRefExpr v)) = True"
| "shape_ok (Leaf (NonNullaryExpr k t ops d)) = False"
| "shape_ok (Ops k t ops d) = (function_free t \<and> ops \<noteq> [])"

text \<open>The table holds the objects of \<open>A\<close>, each in its bucket.\<close>

definition table_of :: "nat set \<Rightarrow> storage \<Rightarrow> bool" where
  "table_of A st \<longleftrightarrow> 0 < mBucketCount st \<and> distinct (concat (mStorage st)) \<and> set (concat (mStorage st)) = A
     \<and> (\<forall>i < mBucketCount st. \<forall>a \<in> set (mStorage st ! i). mHashCode (object_at st a) mod mBucketCount st = i)
     \<and> mEntryCount st = length (concat (mStorage st)) \<and> mEntryCount st * 4 < mBucketCount st * 3"

text \<open>The invariant for the set \<open>A\<close> of the objects in use, the references \<open>ext\<close> that are held outside of the
  table, and the references \<open>X\<close> of objects that are being created or deleted.\<close>

definition storage_inv :: "(shape \<Rightarrow> nat) \<Rightarrow> (nat \<Rightarrow> nat) \<Rightarrow> (nat \<Rightarrow> nat) \<Rightarrow> nat set \<Rightarrow> storage \<Rightarrow> bool" where
  "storage_inv h ext X A st \<longleftrightarrow> finite A \<and> A \<subseteq> dom (oHeap st) \<and> TrueLit st \<noteq> FalseLit st
     \<and> TrueLit st \<in> A \<and> shape_at st (TrueLit st) = Leaf True_lit \<and> 0 < ext (TrueLit st)
     \<and> FalseLit st \<in> A \<and> shape_at st (FalseLit st) = Leaf False_lit \<and> 0 < ext (FalseLit st)
     \<and> (\<forall>a \<in> A - {TrueLit st, FalseLit st}. shape_ok (shape_at st a) \<and> mHashCode (object_at st a) = h (shape_at st a))
     \<and> (\<forall>a \<in> A. set (mOperands (shape_at st a)) \<subseteq> A) \<and> (\<forall>a \<in> A. \<exists>e. denotes st a e) \<and> inj_on (shape_at st) A
     \<and> table_of (A - {TrueLit st, FalseLit st}) st
     \<and> (\<forall>a \<in> A. refs_at st a = ext a + held st A a + X a \<and> 0 < refs_at st a \<and> refs_at st a < 2 ^ 32)
     \<and> (\<forall>a. a \<notin> A \<longrightarrow> ext a = 0 \<and> X a = 0)"

lemma storage_invD:
  assumes "storage_inv h ext X A st"
  shows "finite A" "A \<subseteq> dom (oHeap st)" "TrueLit st \<noteq> FalseLit st"
    "TrueLit st \<in> A" "shape_at st (TrueLit st) = Leaf True_lit" "0 < ext (TrueLit st)"
    "FalseLit st \<in> A" "shape_at st (FalseLit st) = Leaf False_lit" "0 < ext (FalseLit st)"
    "\<And>a. a \<in> A \<Longrightarrow> a \<noteq> TrueLit st \<Longrightarrow> a \<noteq> FalseLit st \<Longrightarrow> shape_ok (shape_at st a) \<and> mHashCode (object_at st a) = h (shape_at st a)"
    "\<And>a. a \<in> A \<Longrightarrow> set (mOperands (shape_at st a)) \<subseteq> A" "\<And>a. a \<in> A \<Longrightarrow> \<exists>e. denotes st a e" "inj_on (shape_at st) A"
    "table_of (A - {TrueLit st, FalseLit st}) st"
    "\<And>a. a \<in> A \<Longrightarrow> refs_at st a = ext a + held st A a + X a" "\<And>a. a \<in> A \<Longrightarrow> 0 < refs_at st a" "\<And>a. a \<in> A \<Longrightarrow> refs_at st a < 2 ^ 32"
    "\<And>a. a \<notin> A \<Longrightarrow> ext a = 0" "\<And>a. a \<notin> A \<Longrightarrow> X a = 0"
  using assms unfolding storage_inv_def by blast+

lemma storage_invI:
  assumes "finite A" "A \<subseteq> dom (oHeap st)" "TrueLit st \<noteq> FalseLit st"
    "TrueLit st \<in> A" "shape_at st (TrueLit st) = Leaf True_lit" "0 < ext (TrueLit st)"
    "FalseLit st \<in> A" "shape_at st (FalseLit st) = Leaf False_lit" "0 < ext (FalseLit st)"
    "\<And>a. a \<in> A \<Longrightarrow> a \<noteq> TrueLit st \<Longrightarrow> a \<noteq> FalseLit st \<Longrightarrow> shape_ok (shape_at st a) \<and> mHashCode (object_at st a) = h (shape_at st a)"
    "\<And>a. a \<in> A \<Longrightarrow> set (mOperands (shape_at st a)) \<subseteq> A" "\<And>a. a \<in> A \<Longrightarrow> \<exists>e. denotes st a e" "inj_on (shape_at st) A"
    "table_of (A - {TrueLit st, FalseLit st}) st"
    "\<And>a. a \<in> A \<Longrightarrow> refs_at st a = ext a + held st A a + X a" "\<And>a. a \<in> A \<Longrightarrow> 0 < refs_at st a" "\<And>a. a \<in> A \<Longrightarrow> refs_at st a < 2 ^ 32"
    "\<And>a. a \<notin> A \<Longrightarrow> ext a = 0" "\<And>a. a \<notin> A \<Longrightarrow> X a = 0"
  shows "storage_inv h ext X A st"
  unfolding storage_inv_def using assms by simp

lemma denotes_mono:
  assumes "denotes st a e" and "a \<in> A" and "\<And>b. b \<in> A \<Longrightarrow> set (mOperands (shape_at st b)) \<subseteq> A" and "\<And>b. b \<in> A \<Longrightarrow> shape_at st' b = shape_at st b"
  shows "denotes st' a e"
  using assms(1,2)
proof (induction)
  case (leaf a x)
  then show ?case using assms(4) by (simp add: denotes.leaf)
next
  case (ops a k t ops d es)
  have "set ops \<subseteq> A" using assms(3) [OF ops.prems] ops.hyps(1) by simp
  then have "list_all2 (denotes st') ops es" using ops.IH by (auto simp: list_all2_conv_all_nth subset_iff)
  moreover have "shape_at st' a = Ops k t ops d" using assms(4) ops.hyps(1) ops.prems by simp
  ultimately show ?case by (intro denotes.ops)
qed

lemma held_cong: "(\<And>b. b \<in> A \<Longrightarrow> shape_at st' b = shape_at st b) \<Longrightarrow> held st' A a = held st A a"
  by (simp add: held_def)

lemma held_zero: "finite A \<Longrightarrow> held st A a = 0 \<longleftrightarrow> (\<forall>b \<in> A. a \<notin> set (mOperands (shape_at st b)))"
  by (simp add: held_def count_list_0_iff)

lemma table_mem: "table_of A st \<Longrightarrow> i < mBucketCount st \<Longrightarrow> a \<in> set (mStorage st ! i) \<Longrightarrow> a \<in> A"
  using nth_mem [of i "mStorage st"] unfolding table_of_def mBucketCount_def by auto

text \<open>Changes that keep the shapes, the hash codes and the table: only the counts have to be checked.\<close>

lemma storage_inv_counts:
  assumes "storage_inv h ext X A st" and "\<And>a. a \<in> A \<Longrightarrow> shape_at st' a = shape_at st a \<and> mHashCode (object_at st' a) = mHashCode (object_at st a)"
    and "A \<subseteq> dom (oHeap st')" and "mStorage st' = mStorage st" "mEntryCount st' = mEntryCount st" "TrueLit st' = TrueLit st" "FalseLit st' = FalseLit st"
    and "\<And>a. a \<in> A \<Longrightarrow> refs_at st' a = ext' a + held st A a + X' a \<and> 0 < refs_at st' a \<and> refs_at st' a < 2 ^ 32"
    and "\<And>a. a \<notin> A \<Longrightarrow> ext' a = 0 \<and> X' a = 0" and "0 < ext' (TrueLit st)" "0 < ext' (FalseLit st)"
  shows "storage_inv h ext' X' A st'"
proof -
  note inv = storage_invD [OF assms(1)]
  have sh: "shape_at st' a = shape_at st a" "mHashCode (object_at st' a) = mHashCode (object_at st a)" if "a \<in> A" for a
    using assms(2) [OF that] by auto
  have held: "held st' A a = held st A a" for a using held_cong sh(1) by blast
  have c: "mBucketCount st' = mBucketCount st" by (simp add: mBucketCount_def assms(4))
  show ?thesis
  proof (rule storage_invI, unfold assms(6,7))
    show "\<exists>e. denotes st' a e" if "a \<in> A" for a
      using inv(12) [OF that] denotes_mono [OF _ that inv(11) sh(1)] by blast
    show "inj_on (shape_at st') A" using inv(13) sh(1) by (metis (no_types, lifting) inj_on_cong)
    have "mHashCode (object_at st' a) = mHashCode (object_at st a)" if "i < mBucketCount st" "a \<in> set (mStorage st ! i)" for i a
      using table_mem [OF inv(14) that] sh(2) by blast
    then show "table_of (A - {TrueLit st, FalseLit st}) st'" using inv(14) by (simp add: table_of_def c assms(4,5))
    show "refs_at st' a = ext' a + held st' A a + X' a" "0 < refs_at st' a" "refs_at st' a < 2 ^ 32" if "a \<in> A" for a
      using assms(8) [OF that] unfolding held by blast+
  qed (use inv(1-11) sh assms(3,9-11) in simp_all)
qed

section \<open>Removal\<close>

lemma concat_update: "i < length bs \<Longrightarrow> concat (bs[i := x]) = concat (take i bs) @ x @ concat (drop (Suc i) bs)"
  by (simp add: upd_conv_take_nth_drop)

lemma concat_nth: "i < length bs \<Longrightarrow> concat bs = concat (take i bs) @ bs ! i @ concat (drop (Suc i) bs)"
  by (metis concat_update list_update_id)

lemma table_bucket:
  assumes "table_of A st" and "a \<in> A"
  shows "a \<in> set (mStorage st ! (mHashCode (object_at st a) mod mBucketCount st))"
proof -
  obtain j where "j < mBucketCount st" "a \<in> set (mStorage st ! j)"
  proof -
    have "a \<in> set (concat (mStorage st))" using assms by (simp add: table_of_def)
    then obtain b where "b \<in> set (mStorage st)" "a \<in> set b" by auto
    then show thesis using that by (metis in_set_conv_nth mBucketCount_def)
  qed
  then show ?thesis using assms(1) by (auto simp: table_of_def)
qed

lemma table_remove:
  assumes "table_of A st" and "a \<in> A" and "i = mHashCode (object_at st a) mod mBucketCount st"
    and "mStorage st' = (mStorage st)[i := remove1 a (mStorage st ! i)]" and "mEntryCount st' = mEntryCount st - 1"
    and "\<And>b. b \<in> A - {a} \<Longrightarrow> mHashCode (object_at st' b) = mHashCode (object_at st b)"
  shows "table_of (A - {a}) st'"
proof -
  note t = assms(1) [unfolded table_of_def]
  let ?bs = "mStorage st"
  have i: "i < length ?bs" using t assms(3) by (auto simp: mBucketCount_def)
  have a: "a \<in> set (?bs ! i)" unfolding assms(3) by (rule table_bucket [OF assms(1,2)])
  have c: "mBucketCount st' = mBucketCount st" by (simp add: mBucketCount_def assms(4))
  note old = concat_nth [OF i] and new = concat_update [OF i, of "remove1 a (?bs ! i)"]
  have d: "distinct (concat (take i ?bs) @ ?bs ! i @ concat (drop (Suc i) ?bs))" using t old by simp
  then have s: "set (concat (mStorage st')) = A - {a}" "distinct (concat (mStorage st'))"
    using a t unfolding assms(4) new old by (auto simp: set_remove1_eq)
  have "length (remove1 a (?bs ! i)) = length (?bs ! i) - 1" "0 < length (?bs ! i)"
    using a length_pos_if_in_set [OF a] by (simp_all add: length_remove1)
  then have "length (concat (mStorage st')) = length (concat ?bs) - 1" unfolding assms(4) new old length_append by linarith
  moreover have "mHashCode (object_at st' b) mod mBucketCount st' = j" if "j < mBucketCount st'" "b \<in> set (mStorage st' ! j)" for j b
  proof -
    have "b \<in> set (?bs ! j)" using that i notin_set_remove1 unfolding assms(4) by (metis nth_list_update_eq nth_list_update_neq)
    moreover have "b \<in> set (concat (mStorage st'))" using that nth_mem [of j "mStorage st'"] by (auto simp: mBucketCount_def)
    ultimately have "b \<in> A - {a}" "mHashCode (object_at st b) mod mBucketCount st = j" using that(1) t s(1) unfolding c by blast+
    then show ?thesis using assms(6) by (simp add: c)
  qed
  ultimately show ?thesis using t s unfolding table_of_def c assms(5) by auto
qed

lemma held_remove:
  assumes "finite A" and "a \<in> A"
  shows "held st A b = held st (A - {a}) b + count_list (mOperands (shape_at st a)) b"
  unfolding held_def by (subst sum.remove [OF assms]) simp

lemma set_refs_simps [simp]:
  "oShape (object_at (set_refs a n st) b) = shape_at st b" "mHashCode (object_at (set_refs a n st) b) = mHashCode (object_at st b)"
  "refs_at (set_refs a n st) b = (if b = a then n else refs_at st b)" "mStorage (set_refs a n st) = mStorage st"
  "mEntryCount (set_refs a n st) = mEntryCount st" "TrueLit (set_refs a n st) = TrueLit st" "FalseLit (set_refs a n st) = FalseLit st"
  "dom (oHeap (set_refs a n st)) = insert a (dom (oHeap st))" "mBucketCount (set_refs a n st) = mBucketCount st"
  by (auto simp: set_refs_def object_at_def mBucketCount_def)

lemma forget_inv:
  assumes "storage_inv h ext X A st" and "a \<in> A" and "a \<noteq> TrueLit st" "a \<noteq> FalseLit st" and "held st A a = 0"
  obtains st1 where "forget a (set_refs a n st) = Inr st1" "oHeap st1 = oHeap (set_refs a n st)" "TrueLit st1 = TrueLit st" "FalseLit st1 = FalseLit st"
    "storage_inv h (ext(a := 0)) (\<lambda>b. if b = a then 0 else X b + count_list (mOperands (shape_at st a)) b) (A - {a}) st1"
proof -
  note inv = storage_invD [OF assms(1)]
  let ?A = "A - {TrueLit st, FalseLit st}" and ?i = "mHashCode (object_at st a) mod mBucketCount st"
  define st1 where "st1 = (set_refs a n st)\<lparr>mStorage := (mStorage st)[?i := remove1 a (mStorage st ! ?i)], mEntryCount := mEntryCount st - 1\<rparr>"
  have t: "table_of ?A st" "a \<in> ?A" "finite A" using inv(1,14) assms(2-4) by auto
  have run: "forget a (set_refs a n st) = Inr st1"
    using table_bucket [OF t(1,2)] by (simp add: forget_def removeFromList_def Let_def st1_def)
  have obj: "shape_at st1 b = shape_at st b" "mHashCode (object_at st1 b) = mHashCode (object_at st b)"
    "refs_at st1 b = (if b = a then n else refs_at st b)" for b by (simp_all add: object_at_def set_refs_def st1_def)
  have st1: "oHeap st1 = oHeap (set_refs a n st)" "TrueLit st1 = TrueLit st" "FalseLit st1 = FalseLit st"
    "mStorage st1 = (mStorage st)[?i := remove1 a (mStorage st ! ?i)]" "mEntryCount st1 = mEntryCount st - 1" by (simp_all add: st1_def)
  have closed: "set (mOperands (shape_at st b)) \<subseteq> A - {a}" if "b \<in> A" for b
    using inv(11) [OF that] that assms(5) unfolding held_zero [OF t(3)] by blast
  have held: "held st1 (A - {a}) b = held st (A - {a}) b" for b by (simp add: held_def obj(1))
  have "storage_inv h (ext(a := 0)) (\<lambda>b. if b = a then 0 else X b + count_list (mOperands (shape_at st a)) b) (A - {a}) st1"
  proof (rule storage_invI, unfold st1(2,3))
    show "A - {a} \<subseteq> dom (oHeap st1)" using inv(2) unfolding st1(1) by auto
    show "\<exists>e. denotes st1 b e" if "b \<in> A - {a}" for b
      using inv(12) [of b] denotes_mono [OF _ _ inv(11) obj(1)] that by blast
    show "inj_on (shape_at st1) (A - {a})" using inv(13) obj(1) by (simp add: inj_on_def)
    have "table_of (?A - {a}) st1" by (rule table_remove [OF t(1,2) refl st1(4,5) obj(2)])
    moreover have "?A - {a} = A - {a} - {TrueLit st, FalseLit st}" by blast
    ultimately show "table_of (A - {a} - {TrueLit st, FalseLit st}) st1" by simp
    show "refs_at st1 b = (ext(a := 0)) b + held st1 (A - {a}) b + (if b = a then 0 else X b + count_list (mOperands (shape_at st a)) b)"
      if "b \<in> A - {a}" for b using inv(15) [of b] that held_remove [OF t(3) assms(2), of st b] by (simp add: obj(3) held)
    show "(if b = a then 0 else X b + count_list (mOperands (shape_at st a)) b) = 0" if "b \<notin> A - {a}" for b
      using inv(19) [of b] closed [OF assms(2)] that by (auto simp: count_list_0_iff)
    show "0 < refs_at st1 b" "refs_at st1 b < 2 ^ 32" if "b \<in> A - {a}" for b
      using inv(16,17) [of b] that by (simp_all add: obj(3))
    show "(ext(a := 0)) b = 0" if "b \<notin> A - {a}" for b using inv(18) [of b] that by auto
    show "set (mOperands (shape_at st1 b)) \<subseteq> A - {a}" if "b \<in> A - {a}" for b using closed [of b] that by (simp add: obj(1))
  qed (use inv(1-10) assms(3,4) in \<open>simp_all add: obj\<close>)
  then show thesis by (rule that [OF run st1(1-3)])
qed

lemma deallocate_simps [simp]:
  "mStorage (deallocate a st) = mStorage st" "mEntryCount (deallocate a st) = mEntryCount st" "TrueLit (deallocate a st) = TrueLit st"
  "FalseLit (deallocate a st) = FalseLit st" "dom (oHeap (deallocate a st)) = dom (oHeap st) - {a}"
  "b \<noteq> a \<Longrightarrow> object_at (deallocate a st) b = object_at st b"
  by (auto simp: deallocate_def object_at_def)

lemma deallocate_inv:
  assumes "storage_inv h ext X A st" and "a \<notin> A"
  shows "storage_inv h ext X A (deallocate a st)"
proof (rule storage_inv_counts [OF assms(1)])
  have ne: "b \<noteq> a" if "b \<in> A" for b using assms(2) that by auto
  show "A \<subseteq> dom (oHeap (deallocate a st))" using storage_invD(2) [OF assms(1)] assms(2) by auto
  show "shape_at (deallocate a st) b = shape_at st b \<and> mHashCode (object_at (deallocate a st) b) = mHashCode (object_at st b)" if "b \<in> A" for b
    using ne [OF that] by simp
  show "refs_at (deallocate a st) b = ext b + held st A b + X b \<and> 0 < refs_at (deallocate a st) b \<and> refs_at (deallocate a st) b < 2 ^ 32"
    if "b \<in> A" for b using storage_invD(15,16,17) [OF assms(1) that] ne [OF that] by simp
qed (use storage_invD [OF assms(1)] in simp_all)

lemma deallocate_all_inv:
  "storage_inv h ext X A st \<Longrightarrow> set ds \<inter> A = {} \<Longrightarrow>
     storage_inv h ext X A (fold deallocate ds st) \<and> dom (oHeap (fold deallocate ds st)) = dom (oHeap st) - set ds"
proof (induction ds arbitrary: st)
  case (Cons d ds)
  then have "storage_inv h ext X A (deallocate d st)" by (intro deallocate_inv) auto
  with Cons show ?case by auto
qed simp

text \<open>The references that the objects of the queue still hold.\<close>

definition pending :: "storage \<Rightarrow> nat list \<Rightarrow> nat \<Rightarrow> nat" where
  "pending st q b = (\<Sum>x \<leftarrow> q. count_list (mOperands (shape_at st x)) b)"

lemma pending_cong: "(\<And>x. x \<in> set q \<Longrightarrow> shape_at st' x = shape_at st x) \<Longrightarrow> pending st' q = pending st q"
  unfolding pending_def by (intro ext arg_cong [of _ _ sum_list] map_cong) auto

text \<open>The state of the deletion: \<open>rest\<close> are the operands that are still to be dropped, \<open>q\<close> is the queue, \<open>R\<close> are the
  other objects that have been removed from the table.\<close>

definition dropping :: "(shape \<Rightarrow> nat) \<Rightarrow> (nat \<Rightarrow> nat) \<Rightarrow> nat list \<Rightarrow> nat list \<Rightarrow> nat set \<Rightarrow> nat set \<Rightarrow> storage \<Rightarrow> bool" where
  "dropping h ext rest q R A st \<longleftrightarrow> storage_inv h ext (\<lambda>b. count_list rest b + pending st q b) A st
     \<and> set q \<inter> A = {} \<and> R \<inter> A = {} \<and> dom (oHeap st) = A \<union> set q \<union> R"

lemma set_refs_same: "a \<in> dom (oHeap st) \<Longrightarrow> set_refs a (refs_at st a) st = st"
  by (auto simp: set_refs_def object_at_def map_upd_triv)

lemma drop_operand_inv:
  assumes "dropping h ext (child # rest) q R A st"
  shows "\<exists>st' q' A'. drop_operand child (st, q) = Inr (st', q') \<and> dropping h ext rest q' R A' st' \<and> A' \<subseteq> A
    \<and> TrueLit st' = TrueLit st \<and> FalseLit st' = FalseLit st
    \<and> 2 * card A' + length q' \<le> 2 * card A + length q \<and> (\<forall>b \<in> R. shape_at st' b = shape_at st b)"
proof -
  let ?X = "\<lambda>b. count_list (child # rest) b + pending st q b"
  have d: "storage_inv h ext ?X A st" "set q \<inter> A = {}" "R \<inter> A = {}" "dom (oHeap st) = A \<union> set q \<union> R"
    using assms by (auto simp: dropping_def)
  note inv = storage_invD [OF d(1)]
  have child: "child \<in> A" using inv(19) [of child] by (cases "child \<in> A") auto
  have refs: "refs_at st child = ext child + held st A child + Suc (count_list rest child + pending st q child)" using inv(15) [OF child] by simp
  show ?thesis
  proof (cases "refs_at st child = 1")
    case True
    then have z: "ext child = 0" "held st A child = 0" "count_list rest child = 0" "pending st q child = 0" using refs by simp_all
    then have tf: "child \<noteq> TrueLit st" "child \<noteq> FalseLit st" using inv(6,9) by auto
    obtain st1 where st1: "forget child st = Inr st1" "oHeap st1 = oHeap st" "TrueLit st1 = TrueLit st" "FalseLit st1 = FalseLit st"
      "storage_inv h (ext(child := 0)) (\<lambda>b. if b = child then 0 else ?X b + count_list (mOperands (shape_at st child)) b) (A - {child}) st1"
    proof -
      have same: "set_refs child (refs_at st child) st = st" by (rule set_refs_same) (use child inv(2) in blast)
      show thesis by (rule forget_inv [OF d(1) child tf z(2), of "refs_at st child", unfolded same]) (rule that)
    qed
    have self: "count_list (mOperands (shape_at st child)) child = 0"
      using z(2) child unfolding held_zero [OF inv(1)] by (simp add: count_list_0_iff)
    have X: "(\<lambda>b. if b = child then 0 else ?X b + count_list (mOperands (shape_at st child)) b) =
        (\<lambda>b. count_list rest b + (pending st q b + count_list (mOperands (shape_at st child)) b))"
      using z self by (auto simp: fun_eq_iff)
    have e: "ext(child := 0) = ext" using z(1) by (simp add: fun_eq_iff)
    have sh: "shape_at st1 b = shape_at st b" for b by (simp add: object_at_def st1(2))
    have pend: "pending st1 q' = pending st q'" for q' by (rule pending_cong) (simp add: sh)
    have card: "card A = Suc (card (A - {child}))" using inv(1) child by (metis card_Suc_Diff1)
    show ?thesis
    proof (cases "shape_at st child")
      case (Leaf x)
      then have "storage_inv h ext (\<lambda>b. count_list rest b + pending st q b) (A - {child}) (deallocate child st1)"
        using deallocate_inv [of h ext _ "A - {child}" st1 child] st1(5) unfolding X e by simp
      moreover have "child \<notin> set q" "child \<notin> R" using child d(2,3) by auto
      moreover have "pending (deallocate child st1) q = pending st q"
      proof (rule pending_cong)
        fix x assume "x \<in> set q"
        then have "x \<noteq> child" using \<open>child \<notin> set q\<close> by blast
        then show "shape_at (deallocate child st1) x = shape_at st x" by (simp add: sh)
      qed
      ultimately have "dropping h ext rest q R (A - {child}) (deallocate child st1)"
        using d(2-4) unfolding dropping_def by (auto simp: st1(2))
      moreover have "drop_operand child (st, q) = Inr (deallocate child st1, q)" using True Leaf st1(1) by (simp add: drop_operand_def)
      moreover have "shape_at (deallocate child st1) b = shape_at st b" if "b \<in> R" for b
      proof -
        have "b \<noteq> child" using that \<open>child \<notin> R\<close> by blast
        then show ?thesis by (simp add: sh)
      qed
      ultimately show ?thesis using card st1(3,4)
        by (intro exI [of _ "deallocate child st1"] exI [of _ q] exI [of _ "A - {child}"]) auto
    next
      case (Ops k t ops dt)
      have "pending st1 (q @ [child]) = (\<lambda>b. pending st q b + count_list (mOperands (shape_at st child)) b)"
        by (simp add: pending_def sh fun_eq_iff)
      then have "dropping h ext rest (q @ [child]) R (A - {child}) st1"
        using st1(2,5) d(2-4) child unfolding dropping_def X e by auto
      moreover have "drop_operand child (st, q) = Inr (st1, q @ [child])" using True Ops st1(1) by (simp add: drop_operand_def)
      ultimately show ?thesis using card st1(3,4) sh
        by (intro exI [of _ st1] exI [of _ "q @ [child]"] exI [of _ "A - {child}"]) auto
    qed
  next
    case False
    let ?st = "set_refs child (refs_at st child - 1) st"
    have pend: "pending ?st q = pending st q" by (rule pending_cong) simp
    have "storage_inv h ext (\<lambda>b. count_list rest b + pending st q b) A ?st"
    proof (rule storage_inv_counts [OF d(1)])
      show "refs_at ?st b = ext b + held st A b + (count_list rest b + pending st q b) \<and> 0 < refs_at ?st b \<and> refs_at ?st b < 2 ^ 32" if "b \<in> A" for b
      proof (cases "b = child")
        case True
        then show ?thesis using inv(16,17) [OF child] refs False by simp
      next
        case False
        then show ?thesis using inv(15,16,17) [OF that] by simp
      qed
      show "ext b = 0 \<and> count_list rest b + pending st q b = 0" if "b \<notin> A" for b using inv(18,19) [OF that] by (auto split: if_splits)
    qed (use inv(2,6,9) in auto)
    then have "dropping h ext rest q R A ?st" using d(2-4) child unfolding dropping_def pend by auto
    moreover have "drop_operand child (st, q) = Inr (?st, q)" using False by (simp add: drop_operand_def)
    ultimately show ?thesis by (intro exI [of _ ?st] exI [of _ q] exI [of _ A]) simp
  qed
qed

lemma drop_operands_inv:
  assumes "dropping h ext rest q R A st"
  shows "\<exists>st' q' A'. for_each drop_operand rest (st, q) = Inr (st', q') \<and> dropping h ext [] q' R A' st' \<and> A' \<subseteq> A
    \<and> TrueLit st' = TrueLit st \<and> FalseLit st' = FalseLit st \<and> 2 * card A' + length q' \<le> 2 * card A + length q"
  using assms
proof (induction rest arbitrary: st q A)
  case Nil
  then show ?case by auto
next
  case (Cons c rest)
  from drop_operand_inv [OF Cons.prems] obtain st1 q1 A1 where 1: "drop_operand c (st, q) = Inr (st1, q1)" "dropping h ext rest q1 R A1 st1" "A1 \<subseteq> A"
    "TrueLit st1 = TrueLit st" "FalseLit st1 = FalseLit st" "2 * card A1 + length q1 \<le> 2 * card A + length q" by blast
  from Cons.IH [OF 1(2)] obtain st' q' A' where 2: "for_each drop_operand rest (st1, q1) = Inr (st', q')" "dropping h ext [] q' R A' st'" "A' \<subseteq> A1"
    "TrueLit st' = TrueLit st1" "FalseLit st' = FalseLit st1" "2 * card A' + length q' \<le> 2 * card A1 + length q1" by blast
  with 1 show ?case by (intro exI [of _ st'] exI [of _ q'] exI [of _ A']) auto
qed

lemma destroy_loop_inv:
  assumes "dropping h ext [] q (set d) A st"
  shows "\<exists>st' d' A'. destroy_loop q d st = Some (Inr (st', d')) \<and> dropping h ext [] [] (set d') A' st' \<and> A' \<subseteq> A
    \<and> TrueLit st' = TrueLit st \<and> FalseLit st' = FalseLit st"
  using assms
proof (induction "2 * card A + length q" arbitrary: q d A st rule: less_induct)
  case less
  show ?case
  proof (cases q)
    case Nil
    then show ?thesis using less.prems by (subst destroy_loop.simps) auto
  next
    case (Cons x q1)
    have "(\<lambda>b. count_list (mOperands (shape_at st x)) b + pending st q1 b) = (\<lambda>b. count_list [] b + pending st q b)"
      by (simp add: Cons pending_def fun_eq_iff)
    then have "dropping h ext (mOperands (shape_at st x)) q1 (insert x (set d)) A st"
      using less.prems unfolding dropping_def Cons by auto
    from drop_operands_inv [OF this] obtain st1 q' A1 where 1: "for_each drop_operand (mOperands (shape_at st x)) (st, q1) = Inr (st1, q')"
      "dropping h ext [] q' (set (d @ [x])) A1 st1" "A1 \<subseteq> A" "TrueLit st1 = TrueLit st" "FalseLit st1 = FalseLit st"
      "2 * card A1 + length q' < 2 * card A + length q" by (auto simp: Cons)
    from less.hyps [OF 1(6,2)] obtain st' d' A' where "destroy_loop q' (d @ [x]) st1 = Some (Inr (st', d'))"
      "dropping h ext [] [] (set d') A' st'" "A' \<subseteq> A1" "TrueLit st' = TrueLit st1" "FalseLit st' = FalseLit st1" by blast
    then show ?thesis using 1 by (subst destroy_loop.simps) (auto simp: Cons)
  qed
qed

text \<open>The invariant between the operations.\<close>

definition consistent :: "(shape \<Rightarrow> nat) \<Rightarrow> (nat \<Rightarrow> nat) \<Rightarrow> storage \<Rightarrow> bool" where
  "consistent h ext st \<longleftrightarrow> storage_inv h ext (\<lambda>_. 0) (dom (oHeap st)) st"

lemma release_consistent:
  assumes "consistent h ext st" and "0 < ext a" and "a \<in> {TrueLit st, FalseLit st} \<Longrightarrow> 1 < ext a"
  shows "\<exists>st'. release a st = Some (Inr st') \<and> consistent h (ext(a := ext a - 1)) st' \<and> TrueLit st' = TrueLit st \<and> FalseLit st' = FalseLit st"
proof -
  let ?A = "dom (oHeap st)" and ?ext = "ext(a := ext a - 1)"
  let ?st = "set_refs a (refs_at st a - 1) st"
  have d: "storage_inv h ext (\<lambda>_. 0) ?A st" using assms(1) by (simp add: consistent_def)
  note inv = storage_invD [OF d]
  have a: "a \<in> ?A" using inv(18) [of a] assms(2) by auto
  have refs: "refs_at st a = ext a + held st ?A a" using inv(15) [OF a] by simp
  then have pos: "refs_at st a \<noteq> 0" using assms(2) by simp
  have tf: "0 < ?ext (TrueLit st)" "0 < ?ext (FalseLit st)" using inv(6,9) assms(3) by auto
  show ?thesis
  proof (cases "refs_at st a = 1")
    case False
    have "storage_inv h ?ext (\<lambda>_. 0) ?A ?st"
    proof (rule storage_inv_counts [OF d])
      show "refs_at ?st b = ?ext b + held st ?A b + 0 \<and> 0 < refs_at ?st b \<and> refs_at ?st b < 2 ^ 32" if "b \<in> ?A" for b
        using inv(15,16,17) [OF that] refs False assms(2) by (cases "b = a") auto
      show "?ext b = 0 \<and> (0 :: nat) = 0" if "b \<notin> ?A" for b using inv(18) [OF that] a that by auto
    qed (use tf in auto)
    moreover have "dom (oHeap ?st) = ?A" using a by auto
    moreover have "release a st = Some (Inr ?st)" using pos False by (simp add: release_def Let_def)
    ultimately show ?thesis by (simp add: consistent_def)
  next
    case True
    then have z: "ext a = 1" "held st ?A a = 0" using refs assms(2) by auto
    then have ne: "a \<noteq> TrueLit st" "a \<noteq> FalseLit st" using assms(3) by auto
    have nb: "\<not> is_bool_literal (shape_at st a)"
      using inv(10) [OF a ne] by (cases "shape_at st a" rule: shape_ok.cases) (auto simp: is_bool_literal_def split: literal.splits)
    obtain st1 where st1: "forget a (set_refs a 0 st) = Inr st1" "oHeap st1 = oHeap (set_refs a 0 st)" "TrueLit st1 = TrueLit st" "FalseLit st1 = FalseLit st"
      "storage_inv h (ext(a := 0)) (\<lambda>b. if b = a then 0 else 0 + count_list (mOperands (shape_at st a)) b) (?A - {a}) st1"
      using forget_inv [OF d a ne z(2)] .
    have sh: "shape_at st1 b = shape_at st b" for b
      using set_refs_simps(1) [of a 0 st b] by (simp only: object_at_def st1(2))
    have self: "count_list (mOperands (shape_at st a)) a = 0"
      using z(2) a unfolding held_zero [OF inv(1)] by (simp add: count_list_0_iff)
    have X: "(\<lambda>b. if b = a then 0 else 0 + count_list (mOperands (shape_at st a)) b) = count_list (mOperands (shape_at st a))"
      using self by (auto simp: fun_eq_iff)
    have e: "ext(a := 0) = ?ext" using z(1) by simp
    have run: "release a st = destroy a (set_refs a 0 st)" using True nb by (simp add: release_def Let_def)
    show ?thesis
    proof (cases "shape_at st a")
      case (Leaf x)
      then have "(\<lambda>b. 0) = count_list (mOperands (shape_at st a))" by (simp add: fun_eq_iff)
      then have "storage_inv h ?ext (\<lambda>_. 0) (?A - {a}) (deallocate a st1)"
        using deallocate_inv [of h ?ext _ "?A - {a}" st1 a] st1(5) unfolding X e by simp
      moreover have "dom (oHeap (deallocate a st1)) = ?A - {a}" using a by (simp add: st1(2))
      moreover have "release a st = Some (Inr (deallocate a st1))" unfolding run destroy_def using st1(1) Leaf by (simp add: sh)
      ultimately show ?thesis using st1(3,4) by (simp add: consistent_def)
    next
      case (Ops k t ops dt)
      have "pending st1 [a] = count_list (mOperands (shape_at st a))" by (simp add: pending_def sh fun_eq_iff)
      then have "dropping h ?ext [] [a] (set []) (?A - {a}) st1"
        using st1(2,5) a unfolding dropping_def X e by auto
      from destroy_loop_inv [OF this] obtain st2 d' A' where 2: "destroy_loop [a] [] st1 = Some (Inr (st2, d'))"
        "dropping h ?ext [] [] (set d') A' st2" "TrueLit st2 = TrueLit st1" "FalseLit st2 = FalseLit st1" by blast
      have "pending st2 [] = (\<lambda>_. 0)" by (simp add: pending_def fun_eq_iff)
      then have "storage_inv h ?ext (\<lambda>_. 0) A' st2" "set d' \<inter> A' = {}" "dom (oHeap st2) = A' \<union> set d'"
        using 2(2) by (auto simp: dropping_def)
      with deallocate_all_inv [OF this(1,2)] have 3: "storage_inv h ?ext (\<lambda>_. 0) A' (fold deallocate d' st2)" "dom (oHeap (fold deallocate d' st2)) = A'" by auto
      have "release a st = Some (Inr (fold deallocate d' st2))" unfolding run destroy_def using st1(1) Ops 2(1) by (simp add: sh)
      moreover have "TrueLit (fold deallocate d' st) = TrueLit st \<and> FalseLit (fold deallocate d' st) = FalseLit st" for st
        by (induction d' arbitrary: st) simp_all
      ultimately show ?thesis using 3 st1(3,4) 2(3,4) by (simp add: consistent_def)
    qed
  qed
qed

section \<open>Copies of references\<close>

lemma add_ref_set_refs: "refs_at st a < 2 ^ 32 - 1 \<Longrightarrow> add_ref a st = set_refs a (Suc (refs_at st a)) st"
  by (simp add: add_ref_def set_refs_def u32_def)

lemma add_ref_simps [simp]:
  "oShape (object_at (add_ref a st) b) = shape_at st b" "mHashCode (object_at (add_ref a st) b) = mHashCode (object_at st b)"
  "mStorage (add_ref a st) = mStorage st" "mEntryCount (add_ref a st) = mEntryCount st" "TrueLit (add_ref a st) = TrueLit st"
  "FalseLit (add_ref a st) = FalseLit st" "dom (oHeap (add_ref a st)) = insert a (dom (oHeap st))"
  "mBucketCount (add_ref a st) = mBucketCount st"
  by (auto simp: add_ref_def object_at_def mBucketCount_def)

lemma add_ref_inv:
  assumes "storage_inv h ext X A st" and "a \<in> A" and "Suc (refs_at st a) < 2 ^ 32"
    and "\<And>b. ext' b + X' b = ext b + X b + (if b = a then 1 else 0)" and "\<And>b. ext b \<le> ext' b"
  shows "storage_inv h ext' X' A (add_ref a st)"
proof (rule storage_inv_counts [OF assms(1)])
  note inv = storage_invD [OF assms(1)]
  have eq: "add_ref a st = set_refs a (Suc (refs_at st a)) st" by (rule add_ref_set_refs) (use assms(3) in simp)
  show "A \<subseteq> dom (oHeap (add_ref a st))" using inv(2) by auto
  show "refs_at (add_ref a st) b = ext' b + held st A b + X' b \<and> 0 < refs_at (add_ref a st) b \<and> refs_at (add_ref a st) b < 2 ^ 32" if "b \<in> A" for b
    using inv(15,16,17) [OF that] assms(3) assms(4) [of b] unfolding eq by (cases "b = a") auto
  show "ext' b = 0 \<and> X' b = 0" if "b \<notin> A" for b
  proof -
    have "b \<noteq> a" using that assms(2) by auto
    then show ?thesis using inv(18,19) [OF that] assms(4) [of b] by simp
  qed
  show "0 < ext' (TrueLit st)" "0 < ext' (FalseLit st)" using inv(6,9) assms(5) [of "TrueLit st"] assms(5) [of "FalseLit st"] by linarith+
qed simp_all

lemma add_refs_simps [simp]:
  "oShape (object_at (fold add_ref xs st) b) = shape_at st b" "mHashCode (object_at (fold add_ref xs st) b) = mHashCode (object_at st b)"
  "mStorage (fold add_ref xs st) = mStorage st" "mEntryCount (fold add_ref xs st) = mEntryCount st" "TrueLit (fold add_ref xs st) = TrueLit st"
  "FalseLit (fold add_ref xs st) = FalseLit st" "dom (oHeap (fold add_ref xs st)) = set xs \<union> dom (oHeap st)"
  "mBucketCount (fold add_ref xs st) = mBucketCount st"
  by (induction xs arbitrary: st) auto

lemma add_refs_inv:
  assumes "storage_inv h ext X A st" and "set xs \<subseteq> A" and "\<And>b. b \<in> A \<Longrightarrow> refs_at st b + count_list xs b < 2 ^ 32"
  shows "storage_inv h ext (\<lambda>b. X b + count_list xs b) A (fold add_ref xs st)"
  using assms
proof (induction xs arbitrary: X st)
  case (Cons x xs)
  have x: "Suc (refs_at st x) < 2 ^ 32" using Cons.prems(2) Cons.prems(3) [of x] by simp
  have eq: "add_ref x st = set_refs x (Suc (refs_at st x)) st" by (rule add_ref_set_refs) (use x in simp)
  have "storage_inv h ext (\<lambda>b. X b + (if b = x then 1 else 0)) A (add_ref x st)"
    by (rule add_ref_inv [OF Cons.prems(1) _ x]) (use Cons.prems(2) in auto)
  moreover have "refs_at (add_ref x st) b + count_list xs b < 2 ^ 32" if "b \<in> A" for b
    using Cons.prems(3) [OF that] unfolding eq by (auto split: if_splits)
  ultimately have "storage_inv h ext (\<lambda>b. X b + (if b = x then 1 else 0) + count_list xs b) A (fold add_ref xs (add_ref x st))"
    using Cons.prems(2) by (intro Cons.IH) auto
  moreover have "(\<lambda>b. X b + (if b = x then 1 else 0) + count_list xs b) = (\<lambda>b. X b + count_list (x # xs) b)" by auto
  ultimately show ?case by simp
qed simp

section \<open>Growth of the table\<close>

lemma rehash_fold:
  assumes "length bs = n" and "0 < n" and "\<forall>i < n. \<forall>a \<in> set (bs ! i). mHashCode (object_at st a) mod n = i"
  shows "length (fold (rehash_one st n) xs bs) = n \<and> mset (concat (fold (rehash_one st n) xs bs)) = mset xs + mset (concat bs)
    \<and> (\<forall>i < n. \<forall>a \<in> set (fold (rehash_one st n) xs bs ! i). mHashCode (object_at st a) mod n = i)"
  using assms
proof (induction xs arbitrary: bs)
  case (Cons x xs)
  let ?i = "mHashCode (object_at st x) mod n"
  have i: "?i < length bs" using Cons.prems(1,2) by simp
  have "mset (concat (rehash_one st n x bs)) = add_mset x (mset (concat bs))"
    using concat_update [OF i, of "x # bs ! ?i"] concat_nth [OF i] by (simp add: rehash_one_def Let_def)
  moreover have "length (rehash_one st n x bs) = n" using Cons.prems(1) by (simp add: rehash_one_def Let_def)
  moreover have "\<forall>i < n. \<forall>a \<in> set (rehash_one st n x bs ! i). mHashCode (object_at st a) mod n = i"
    using Cons.prems(1,3) by (auto simp: rehash_one_def Let_def nth_list_update)
  ultimately show ?case using Cons.IH [of "rehash_one st n x bs"] Cons.prems(2) by simp
qed simp

lemma rehash_table:
  assumes "table_of A st" and "mEntryCount st * 4 < n * 3"
  shows "table_of A (rehashTable n st)"
proof -
  note t = assms(1) [unfolded table_of_def]
  let ?bs = "fold (rehash_one st n) (concat (mStorage st)) (replicate n [])"
  have n: "0 < n" using assms(2) by (cases n) auto
  have f: "length ?bs = n" "mset (concat ?bs) = mset (concat (mStorage st))"
    "\<forall>i < n. \<forall>a \<in> set (?bs ! i). mHashCode (object_at st a) mod n = i"
    using rehash_fold [of "replicate n []" n st "concat (mStorage st)"] n by simp_all
  have "distinct (concat ?bs)" "set (concat ?bs) = A" "length (concat ?bs) = mEntryCount st"
    using mset_eq_imp_distinct_iff [OF f(2)] mset_eq_setD [OF f(2)] mset_eq_length [OF f(2)] t by simp_all
  then show ?thesis using n f(1,3) assms(2) by (simp add: table_of_def rehashTable_def mBucketCount_def object_at_def)
qed

lemma rehashTable_simps [simp]:
  "object_at (rehashTable n st) a = object_at st a" "oHeap (rehashTable n st) = oHeap st" "mEntryCount (rehashTable n st) = mEntryCount st"
  "TrueLit (rehashTable n st) = TrueLit st" "FalseLit (rehashTable n st) = FalseLit st"
  by (simp_all add: rehashTable_def object_at_def)

lemma rehash_inv:
  assumes "storage_inv h ext X A st" and "mEntryCount st * 4 < n * 3"
  shows "storage_inv h ext X A (rehashTable n st)"
proof -
  note inv = storage_invD [OF assms(1)]
  have den: "denotes (rehashTable n st) a e" if "denotes st a e" "a \<in> A" for a e
    using that inv(11) by (rule denotes_mono) simp_all
  have "held (rehashTable n st) A a = held st A a" for a by (rule held_cong) simp
  note held = this
  show ?thesis
  proof (rule storage_invI, unfold rehashTable_simps)
    show "table_of (A - {TrueLit st, FalseLit st}) (rehashTable n st)" by (rule rehash_table [OF inv(14) assms(2)])
    show "\<exists>e. denotes (rehashTable n st) a e" if "a \<in> A" for a using inv(12) [OF that] den that by blast
    show "refs_at st a = ext a + held (rehashTable n st) A a + X a" if "a \<in> A" for a using inv(15) [OF that] by (simp add: held)
  qed (fact inv)+
qed

section \<open>Creation\<close>

lemma hasher_equals_iff:
  assumes "shape_ok x" and "shape_ok y"
  shows "hasher_equals x y \<longleftrightarrow> x = y"
proof -
  have lit: "function_free (lit_type l)" if "shape_ok (Leaf (LiteralExpr l))" for l using that by (cases l) auto
  show ?thesis
  proof (cases x)
    case (Leaf e)
    then show ?thesis
    proof (cases y)
      case l: (Leaf f)
      then show ?thesis using assms Leaf lit by (cases e; cases f) (auto simp: type_equals_iff)
    qed simp
  next
    case (Ops k t ops d)
    then show ?thesis using assms(1) by (cases y) (auto simp: type_equals_iff)
  qed
qed

text \<open>What the address of a new object may be: not one that is in use.\<close>

definition fresh_address :: "(nat list \<Rightarrow> nat) \<Rightarrow> bool" where
  "fresh_address alloc \<longleftrightarrow> (\<forall>xs. alloc xs \<notin> set xs)"

lemma consistent_addresses:
  assumes "consistent h ext st"
  shows "dom (oHeap st) = {TrueLit st, FalseLit st} \<union> set (concat (mStorage st))"
proof -
  note inv = storage_invD [OF assms [unfolded consistent_def]]
  have "set (concat (mStorage st)) = dom (oHeap st) - {TrueLit st, FalseLit st}" using inv(14) by (simp only: table_of_def)
  then show ?thesis using inv(4,7) by blast
qed

text \<open>The search in the bucket finds the object of a shape if there is one.\<close>

lemma find_shape:
  assumes "consistent h ext st" and "shape_ok x"
  shows "find (\<lambda>a. hasher_equals (shape_at st a) x) (bucket_of st (h x)) = Some a \<Longrightarrow> a \<in> dom (oHeap st) \<and> shape_at st a = x"
    and "find (\<lambda>a. hasher_equals (shape_at st a) x) (bucket_of st (h x)) = None \<Longrightarrow> a \<in> dom (oHeap st) \<Longrightarrow> shape_at st a \<noteq> x"
proof -
  let ?A = "dom (oHeap st) - {TrueLit st, FalseLit st}"
  note inv = storage_invD [OF assms(1) [unfolded consistent_def]]
  have pos: "0 < mBucketCount st" using inv(14) by (simp only: table_of_def)
  have ok: "shape_ok (shape_at st b) \<and> b \<in> ?A" if "b \<in> set (bucket_of st (h x))" for b
    using table_mem [OF inv(14) _ that [unfolded bucket_of_def]] pos inv(10) by simp
  show "a \<in> dom (oHeap st) \<and> shape_at st a = x" if "find (\<lambda>a. hasher_equals (shape_at st a) x) (bucket_of st (h x)) = Some a"
  proof -
    have "a \<in> set (bucket_of st (h x))" "hasher_equals (shape_at st a) x" using that unfolding find_Some_iff by auto
    then show ?thesis using ok [of a] hasher_equals_iff [OF _ assms(2)] by auto
  qed
  show "shape_at st a \<noteq> x" if none: "find (\<lambda>a. hasher_equals (shape_at st a) x) (bucket_of st (h x)) = None" and a: "a \<in> dom (oHeap st)"
  proof
    assume x: "shape_at st a = x"
    have "a \<noteq> TrueLit st" "a \<noteq> FalseLit st" using x assms(2) inv(5,8) by auto
    then have "a \<in> set (bucket_of st (h x))" using table_bucket [OF inv(14), of a] inv(10) [OF a] a x by (simp add: bucket_of_def)
    then show False using none x hasher_equals_iff [OF assms(2,2)] by (auto simp: find_None_iff)
  qed
qed

lemma new_object_heap:
  assumes "a \<notin> set (mOperands x)"
  shows "oHeap (add_ref a (new_object x n a st\<lparr>mEntryCount := c, mStorage := bs\<rparr>)) =
      (oHeap (fold add_ref (mOperands x) st))(a \<mapsto> \<lparr>oShape = x, mRefCount = 1, mHashCode = n\<rparr>)"
  by (simp add: add_ref_def new_object_def Let_def object_at_def u32_def)

lemma table_insert:
  assumes "table_of A st" and "a \<notin> A" and "i = mHashCode (object_at st' a) mod mBucketCount st"
    and "mStorage st' = (mStorage st)[i := a # mStorage st ! i]" and "mEntryCount st' = Suc (mEntryCount st)"
    and "\<And>b. b \<in> A \<Longrightarrow> mHashCode (object_at st' b) = mHashCode (object_at st b)" and "\<not> needsRehash st (Suc (mEntryCount st))"
  shows "table_of (insert a A) st'"
proof -
  note t = assms(1) [unfolded table_of_def]
  let ?bs = "mStorage st"
  have i: "i < length ?bs" using t assms(3) by (auto simp: mBucketCount_def)
  have c: "mBucketCount st' = mBucketCount st" by (simp add: mBucketCount_def assms(4))
  have perm: "mset (concat (mStorage st')) = mset (a # concat ?bs)"
    using concat_update [OF i, of "a # ?bs ! i"] concat_nth [OF i] by (simp add: assms(4))
  have "distinct (concat (mStorage st'))" "set (concat (mStorage st')) = insert a A" "length (concat (mStorage st')) = Suc (mEntryCount st)"
    using mset_eq_imp_distinct_iff [OF perm] mset_eq_setD [OF perm] mset_eq_length [OF perm] t assms(2) by auto
  moreover have "mHashCode (object_at st' b) mod mBucketCount st = j" if "j < mBucketCount st" "b \<in> set (mStorage st' ! j)" for j b
  proof (cases "b = a \<and> j = i")
    case False
    then have b: "b \<in> set (?bs ! j)" using that i unfolding assms(4) by (cases "i = j") auto
    then have "b \<in> A" using table_mem [OF assms(1) that(1)] by blast
    then show ?thesis using t b that(1) assms(6) by simp
  qed (simp add: assms(3))
  ultimately show ?thesis using t assms(5,7) unfolding table_of_def c needsRehash_def by simp
qed

lemma create_new_inv:
  assumes "storage_inv h ext (\<lambda>_. 0) A st" and "a \<notin> A" and "shape_ok x" and "set (mOperands x) \<subseteq> A"
    and "\<And>b. b \<in> A \<Longrightarrow> refs_at st b + count_list (mOperands x) b < 2 ^ 32" and "\<And>b. b \<in> A \<Longrightarrow> shape_at st b \<noteq> x"
    and "\<not> needsRehash st (Suc (mEntryCount st))"
    and "st' = add_ref a (new_object x (h x) a st\<lparr>mEntryCount := Suc (mEntryCount st),
        mStorage := (mStorage st)[h x mod mBucketCount st := a # mStorage st ! (h x mod mBucketCount st)]\<rparr>)"
  shows "storage_inv h (ext(a := 1)) (\<lambda>_. 0) (insert a A) st'"
proof -
  let ?s = "fold add_ref (mOperands x) st" and ?tf = "{TrueLit st, FalseLit st}"
  have S: "storage_inv h ext (\<lambda>b. 0 + count_list (mOperands x) b) A ?s" by (rule add_refs_inv [OF assms(1,4,5)])
  note inv = storage_invD [OF S, unfolded add_refs_simps]
  have na: "a \<notin> set (mOperands x)" "a \<noteq> TrueLit st" "a \<noteq> FalseLit st" using assms(2,4) inv(4,7) by auto
  have heap: "oHeap st' = (oHeap ?s)(a \<mapsto> \<lparr>oShape = x, mRefCount = 1, mHashCode = h x\<rparr>)"
    unfolding assms(8) by (rule new_object_heap [OF na(1)])
  have new: "shape_at st' a = x" "refs_at st' a = 1" "mHashCode (object_at st' a) = h x" by (simp_all add: object_at_def heap)
  have obj: "object_at st' b = object_at ?s b" if "b \<noteq> a" for b using that by (simp add: object_at_def heap)
  have old: "object_at st' b = object_at ?s b" if "b \<in> A" for b using obj that assms(2) by metis
  have held: "held st' (insert a A) b = held ?s A b + count_list (mOperands x) b" for b
    using held_remove [of "insert a A" a st' b] held_cong [of A st' ?s b] inv(1) assms(2) old by (simp add: new(1))
  have st': "TrueLit st' = TrueLit st" "FalseLit st' = FalseLit st" "mEntryCount st' = Suc (mEntryCount st)"
    "mStorage st' = (mStorage st)[h x mod mBucketCount st := a # mStorage st ! (h x mod mBucketCount st)]"
    by (simp_all add: assms(8) new_object_def Let_def)
  have den: "denotes st' b e" if "denotes st b e" "b \<in> A" for b e
    using that inv(11) by (rule denotes_mono) (simp_all add: old)
  show ?thesis
  proof (rule storage_invI, unfold st'(1,2))
    show "insert a A \<subseteq> dom (oHeap st')" using inv(2) by (auto simp: heap)
    show "shape_ok (shape_at st' b) \<and> mHashCode (object_at st' b) = h (shape_at st' b)"
      if "b \<in> insert a A" "b \<noteq> TrueLit st" "b \<noteq> FalseLit st" for b
      using that inv(10) [of b] assms(3) new obj by (cases "b = a") auto
    show "set (mOperands (shape_at st' b)) \<subseteq> insert a A" if "b \<in> insert a A" for b
      using that inv(11) [of b] assms(4) new obj by (cases "b = a") auto
    show "\<exists>e. denotes st' b e" if "b \<in> insert a A" for b
    proof (cases "b = a")
      case True
      show ?thesis
      proof (cases x)
        case (Leaf y)
        then show ?thesis unfolding True using denotes.leaf [of st' a y] new(1) by blast
      next
        case (Ops k t ops d)
        have "\<forall>c \<in> set ops. \<exists>e. denotes st' c e"
          using storage_invD(12) [OF assms(1)] assms(4) den Ops by fastforce
        then have "\<exists>es. list_all2 (denotes st') ops es" by (induction ops) (auto intro: list_all2_Cons1 [THEN iffD2])
        then show ?thesis unfolding True using denotes.ops [of st' a k t ops d] new(1) Ops by blast
      qed
    next
      case False
      then show ?thesis using storage_invD(12) [OF assms(1), of b] den that by blast
    qed
    have "shape_at st' b = shape_at st b" if "b \<in> A" for b by (simp add: old [OF that])
    then have "inj_on (shape_at st') A" "x \<notin> shape_at st' ` A"
      using inv(13) assms(6) by (simp_all add: inj_on_def image_iff) metis
    then show "inj_on (shape_at st') (insert a A)" using new(1) by auto
    have "table_of (insert a (A - ?tf)) st'"
      by (rule table_insert [OF storage_invD(14) [OF assms(1)] _ _ st'(4,3) _ assms(7)]) (use assms(2) new(3) old in auto)
    moreover have "insert a (A - ?tf) = insert a A - ?tf" using na by blast
    ultimately show "table_of (insert a A - ?tf) st'" by simp
    show "refs_at st' b = (ext(a := 1)) b + held st' (insert a A) b + 0" if "b \<in> insert a A" for b
    proof (cases "b = a")
      case True
      have "held ?s A a = 0" using inv(11) assms(2) unfolding held_zero [OF inv(1)] by auto
      then show ?thesis using na(1) by (simp add: True new(2) held count_list_0_iff)
    next
      case False
      then show ?thesis using that inv(15) [of b] by (simp add: obj held)
    qed
    show "0 < refs_at st' b" "refs_at st' b < 2 ^ 32" if "b \<in> insert a A" for b
      using that inv(16,17) [of b] new(2) obj by (cases "b = a"; simp)+
  qed (use inv(1,3-9,18) na obj in auto)
qed

lemma create_consistent:
  assumes "consistent h ext st" and "shape_ok x" and "set (mOperands x) \<subseteq> dom (oHeap st)" and "fresh_address alloc"
    and "\<And>b. b \<in> dom (oHeap st) \<Longrightarrow> refs_at st b + Suc (count_list (mOperands x) b) < 2 ^ 32"
    and "createIfNotExists alloc h x st = (a, st')"
  shows "consistent h (ext(a := Suc (ext a))) st' \<and> shape_at st' a = x \<and> dom (oHeap st') = insert a (dom (oHeap st))
    \<and> (\<forall>b \<in> dom (oHeap st). shape_at st' b = shape_at st b) \<and> TrueLit st' = TrueLit st \<and> FalseLit st' = FalseLit st"
proof (cases "find (\<lambda>a. hasher_equals (shape_at st a) x) (bucket_of st (h x))")
  case (Some c)
  have run: "a = c" "st' = add_ref c st" using assms(6) Some by (auto simp: createIfNotExists_def Let_def)
  note found = find_shape(1) [OF assms(1,2) Some]
  have "storage_inv h (ext(a := Suc (ext a))) (\<lambda>_. 0) (dom (oHeap st)) st'"
    unfolding run by (rule add_ref_inv [OF assms(1) [unfolded consistent_def]]) (use found assms(5) [of c] in auto)
  then show ?thesis using found by (simp add: consistent_def run insert_absorb)
next
  case None
  let ?st1 = "if needsRehash st (Suc (mEntryCount st)) then rehashTable (mBucketCount st * 2) st else st" and ?A = "dom (oHeap st)"
  note S = assms(1) [unfolded consistent_def]
  note inv = storage_invD [OF S]
  note tab = inv(14) [unfolded table_of_def]
  have size: "0 < mBucketCount st" "mEntryCount st * 4 < mBucketCount st * 3" using tab by blast+
  have S1: "storage_inv h ext (\<lambda>_. 0) ?A ?st1" using rehash_inv [OF S, of "mBucketCount st * 2"] size S by simp
  have same: "oHeap ?st1 = oHeap st" "mEntryCount ?st1 = mEntryCount st" "TrueLit ?st1 = TrueLit st" "FalseLit ?st1 = FalseLit st"
    "object_at ?st1 b = object_at st b" for b by simp_all
  have grown: "\<not> needsRehash ?st1 (Suc (mEntryCount ?st1))"
  proof (cases "needsRehash st (Suc (mEntryCount st))")
    case True
    have "length (fold (rehash_one st n) xs bs) = length bs" for n xs bs
      by (induction xs arbitrary: bs) (simp_all add: rehash_one_def Let_def)
    then have "mBucketCount (rehashTable (mBucketCount st * 2) st) = mBucketCount st * 2" by (simp add: rehashTable_def mBucketCount_def)
    then have "\<not> needsRehash (rehashTable (mBucketCount st * 2) st) (Suc (mEntryCount st))" using size unfolding needsRehash_def by arith
    then show ?thesis using True by simp
  qed simp
  have C1: "consistent h ext ?st1" using S1 by (simp add: consistent_def same)
  have run: "a = alloc (TrueLit ?st1 # FalseLit ?st1 # concat (mStorage ?st1))"
    "st' = add_ref a (new_object x (h x) a ?st1\<lparr>mEntryCount := Suc (mEntryCount ?st1),
        mStorage := (mStorage ?st1)[h x mod mBucketCount ?st1 := a # mStorage ?st1 ! (h x mod mBucketCount ?st1)]\<rparr>)"
    using assms(6) None by (auto simp: createIfNotExists_def Let_def new_object_def mBucketCount_def)
  have fresh: "a \<notin> ?A"
  proof -
    have "a \<notin> set (TrueLit ?st1 # FalseLit ?st1 # concat (mStorage ?st1))" using assms(4) unfolding run(1) fresh_address_def by blast
    then show ?thesis using consistent_addresses [OF C1] by (simp add: same)
  qed
  have "storage_inv h (ext(a := 1)) (\<lambda>_. 0) (insert a ?A) st'"
  proof (rule create_new_inv [OF S1 fresh assms(2,3) _ _ grown run(2)])
    show "refs_at ?st1 b + count_list (mOperands x) b < 2 ^ 32" if "b \<in> ?A" for b using assms(5) [OF that] by (simp add: same)
    show "shape_at ?st1 b \<noteq> x" if "b \<in> ?A" for b using find_shape(2) [OF assms(1,2) None that] by (simp add: same)
  qed
  moreover have "ext(a := 1) = ext(a := Suc (ext a))" using inv(18) [OF fresh] by simp
  moreover have na: "a \<notin> set (mOperands x)" using fresh assms(3) by auto
  have heap: "oHeap st' = (oHeap (fold add_ref (mOperands x) ?st1))(a \<mapsto> \<lparr>oShape = x, mRefCount = 1, mHashCode = h x\<rparr>)"
    unfolding run(2) by (rule new_object_heap [OF na])
  have "shape_at st' b = shape_at (fold add_ref (mOperands x) ?st1) b" if "b \<noteq> a" for b using that by (simp add: object_at_def heap)
  then have "\<forall>b \<in> ?A. shape_at st' b = shape_at st b" using fresh by (metis add_refs_simps(1) same(5))
  moreover have "dom (oHeap st') = insert a ?A" using assms(3) by (auto simp: heap)
  moreover have "shape_at st' a = x" by (simp add: object_at_def heap)
  moreover have "TrueLit st' = TrueLit st" "FalseLit st' = FalseLit st" unfolding run(2) by (simp_all add: new_object_def Let_def)
  ultimately show ?thesis by (simp add: consistent_def)
qed

lemma start_consistent: "consistent h (\<lambda>a. if a < 2 then 1 else 0) (storage_new h)"
proof -
  let ?st = "storage_new h"
  have d: "dom (oHeap ?st) = {0, 1}" by (auto simp: storage_new_def)
  have o: "shape_at ?st 0 = Leaf True_lit" "shape_at ?st 1 = Leaf False_lit" "refs_at ?st 0 = 1" "refs_at ?st 1 = 1"
    "TrueLit ?st = 0" "FalseLit ?st = 1" by (simp_all add: storage_new_def object_at_def)
  have "held ?st {0, 1} a = 0" for a by (simp add: held_def o [unfolded One_nat_def])
  moreover have "table_of {} ?st" by (simp add: table_of_def storage_new_def mBucketCount_def)
  moreover have "\<exists>e. denotes ?st 0 e" "\<exists>e. denotes ?st 1 e" using o(1,2) denotes.leaf by blast+
  ultimately show ?thesis unfolding consistent_def d
    by (intro storage_invI) (use o in \<open>auto simp: d inj_on_def\<close>)
qed

section \<open>Histories\<close>

text \<open>The states that the clients can reach: they create expressions from operands that exist, copy references and
  give them up. \<open>ext a\<close> counts the references to \<open>a\<close> that are held outside of the table. The counters are 32 bits
  wide, so a reference may only be added while there is room.\<close>

inductive usage :: "(nat list \<Rightarrow> nat) \<Rightarrow> (shape \<Rightarrow> nat) \<Rightarrow> storage \<Rightarrow> (nat \<Rightarrow> nat) \<Rightarrow> bool" for alloc h where
  start: "usage alloc h (storage_new h) (\<lambda>a. if a < 2 then 1 else 0)"
| create: "usage alloc h st ext \<Longrightarrow> shape_ok x \<Longrightarrow> set (mOperands x) \<subseteq> dom (oHeap st) \<Longrightarrow>
    (\<And>b. b \<in> dom (oHeap st) \<Longrightarrow> refs_at st b + Suc (count_list (mOperands x) b) < 2 ^ 32) \<Longrightarrow>
    createIfNotExists alloc h x st = (a, st') \<Longrightarrow> usage alloc h st' (ext(a := Suc (ext a)))"
| copy: "usage alloc h st ext \<Longrightarrow> a \<in> dom (oHeap st) \<Longrightarrow> Suc (refs_at st a) < 2 ^ 32 \<Longrightarrow>
    usage alloc h (add_ref a st) (ext(a := Suc (ext a)))"
| drop: "usage alloc h st ext \<Longrightarrow> 0 < ext a \<Longrightarrow> (a \<in> {TrueLit st, FalseLit st} \<Longrightarrow> 1 < ext a) \<Longrightarrow>
    release a st = Some (Inr st') \<Longrightarrow> usage alloc h st' (ext(a := ext a - 1))"

lemma usage_consistent: "usage alloc h st ext \<Longrightarrow> fresh_address alloc \<Longrightarrow> consistent h ext st"
proof (induction rule: usage.induct)
  case start
  show ?case by (rule start_consistent)
next
  case (create st ext x a st')
  then show ?case using create_consistent [OF create.IH create.hyps(2,3) _ create.hyps(4,5)] by (simp add: fun_upd_def)
next
  case (copy st ext a)
  have "storage_inv h (ext(a := Suc (ext a))) (\<lambda>_. 0) (dom (oHeap st)) (add_ref a st)"
    by (rule add_ref_inv [OF copy.IH [unfolded consistent_def] copy.hyps(2,3)]) (use copy.prems in auto)
  then show ?case using copy.hyps(2) by (simp add: consistent_def insert_absorb fun_upd_def)
next
  case (drop st ext a st')
  then show ?case using release_consistent [OF drop.IH drop.hyps(2,3)] by (auto simp: fun_upd_def)
qed

text \<open>Different objects denote different trees.\<close>

lemma shape_ok_leaf: "shape_ok (Leaf x) \<Longrightarrow> x \<noteq> NonNullaryExpr k t es d"
  by (cases x) auto

lemma leaf_shapes:
  assumes "consistent h ext st" and "a \<in> dom (oHeap st)" and "shape_at st a = Leaf x"
  shows "x \<noteq> NonNullaryExpr k t es d"
proof -
  note inv = storage_invD [OF assms(1) [unfolded consistent_def]]
  show ?thesis
  proof (cases "a \<in> {TrueLit st, FalseLit st}")
    case True
    then show ?thesis using inv(5,8) assms(3) by auto
  next
    case False
    then have "shape_ok (Leaf x)" using inv(10) [OF assms(2)] assms(3) by auto
    then show ?thesis by (rule shape_ok_leaf)
  qed
qed

inductive_cases denotes_elim: "denotes st a e"

lemma denotes_unique: "denotes st a e \<Longrightarrow> denotes st a e' \<Longrightarrow> e = e'"
proof (induction arbitrary: e' rule: denotes.induct)
  case (leaf a x)
  then show ?case by (auto elim: denotes_elim)
next
  case (ops a k t ops d es)
  from ops.prems obtain es' where e': "e' = NonNullaryExpr k t es' d" "list_all2 (denotes st) ops es'"
    using ops.hyps(1) by (auto elim: denotes_elim)
  have "es = es'" using ops.IH e'(2) by (auto simp: list_all2_conv_all_nth intro: nth_equalityI)
  then show ?case using e'(1) by simp
qed

lemma denotes_inj:
  assumes "consistent h ext st"
  shows "denotes st a e \<Longrightarrow> denotes st b e \<Longrightarrow> a \<in> dom (oHeap st) \<Longrightarrow> b \<in> dom (oHeap st) \<Longrightarrow> a = b"
proof (induction arbitrary: b rule: denotes.induct)
  case (leaf a x)
  note inv = storage_invD [OF assms [unfolded consistent_def]]
  have "shape_at st b = Leaf x" using leaf.prems(1)
  proof cases
    case ops
    then show ?thesis using leaf_shapes [OF assms leaf.prems(2) leaf.hyps] by blast
  qed
  then show ?case using inv(13) leaf by (simp add: inj_on_def)
next
  case (ops a k t ops d es)
  note inv = storage_invD [OF assms [unfolded consistent_def]]
  obtain ops' where b: "shape_at st b = Ops k t ops' d" "list_all2 (denotes st) ops' es"
    using ops.prems(1)
  proof cases
    case leaf
    then show ?thesis using leaf_shapes [OF assms ops.prems(3)] by blast
  qed blast
  have "set ops \<subseteq> dom (oHeap st)" "set ops' \<subseteq> dom (oHeap st)"
    using inv(11) [OF ops.prems(2)] inv(11) [OF ops.prems(3)] ops.hyps(1) b(1) by simp_all
  then have "ops = ops'" using ops.IH b(2) by (auto simp: list_all2_conv_all_nth subset_iff intro!: nth_equalityI)
  then show ?case using inv(13) ops.prems ops.hyps(1) b(1) by (simp add: inj_on_def)
qed

text \<open>The objects that a reference leads to.\<close>

definition operand_rel :: "storage \<Rightarrow> (nat \<times> nat) set" where
  "operand_rel st = {(b, a). b \<in> dom (oHeap st) \<and> a \<in> set (mOperands (shape_at st b))}"

lemma operand_smaller:
  assumes "denotes st b e" and "a \<in> set (mOperands (shape_at st b))"
  obtains e' where "denotes st a e'" "size e' < size e"
  using assms(1)
proof cases
  case leaf
  then show ?thesis using assms(2) by simp
next
  case (ops k t ops d es)
  then obtain i where i: "i < length ops" "a = ops ! i" using assms(2) by (auto simp: in_set_conv_nth)
  then have "denotes st a (es ! i)" "es ! i \<in> set es" using ops by (auto simp: list_all2_conv_all_nth)
  then show ?thesis using that [of "es ! i"] size_list_estimation' [of "es ! i" es "size (es ! i)" size] ops(1) by simp
qed

lemma objects_reachable:
  assumes "consistent h ext st"
  shows "dom (oHeap st) = (operand_rel st)\<^sup>* `` {b. 0 < ext b}"
proof -
  note inv = storage_invD [OF assms [unfolded consistent_def]]
  define f where "f a = size (SOME e. denotes st a e)" for a
  have f: "f a < f b" if "(b, a) \<in> operand_rel st" for a b
  proof -
    have b: "b \<in> dom (oHeap st)" "a \<in> set (mOperands (shape_at st b))" using that by (simp_all add: operand_rel_def)
    then obtain e where e: "denotes st b e" using inv(12) by blast
    obtain e' where "denotes st a e'" "size e' < size e" by (rule operand_smaller [OF e b(2)])
    then show ?thesis unfolding f_def using e denotes_unique by (metis (mono_tags) someI)
  qed
  have sub: "operand_rel st \<subseteq> dom (oHeap st) \<times> dom (oHeap st)" using inv(11) by (auto simp: operand_rel_def)
  then have fin: "finite (operand_rel st)" using inv(1) by (meson finite_SigmaI finite_subset)
  have "wf ((operand_rel st)\<inverse>)" by (rule wf_subset [OF wf_measure [of f]]) (use f in auto)
  then have wf: "wf (operand_rel st)" using fin finite_acyclic_wf wf_acyclic acyclic_converse by blast
  have "a \<in> (operand_rel st)\<^sup>* `` {b. 0 < ext b}" if "a \<in> dom (oHeap st)" for a
    using wf that
  proof (induction a rule: wf_induct_rule)
    case (less a)
    show ?case
    proof (cases "ext a = 0")
      case False
      then show ?thesis by auto
    next
      case True
      then have "held st (dom (oHeap st)) a \<noteq> 0" using inv(15,16) [OF less.prems] by simp
      then obtain b where "b \<in> dom (oHeap st)" "(b, a) \<in> operand_rel st"
        unfolding held_zero [OF inv(1)] by (auto simp: operand_rel_def)
      then show ?thesis using less.IH by (meson Image_iff rtrancl.rtrancl_into_rtrancl)
    qed
  qed
  moreover have "a \<in> dom (oHeap st)" if "(b, a) \<in> (operand_rel st)\<^sup>*" "0 < ext b" for a b
    using that(1)
  proof cases
    case base
    then show ?thesis using inv(18) [of a] that(2) by (cases "a \<in> dom (oHeap st)") auto
  next
    case (step c)
    then show ?thesis using sub by blast
  qed
  ultimately show ?thesis by blast
qed

lemma entries_card:
  assumes "consistent h ext st"
  shows "card (dom (oHeap st)) = mEntryCount st + 2"
proof -
  note inv = storage_invD [OF assms [unfolded consistent_def]]
  have "distinct (concat (mStorage st))" "set (concat (mStorage st)) = dom (oHeap st) - {TrueLit st, FalseLit st}"
    "mEntryCount st = length (concat (mStorage st))" using inv(14) by (simp_all only: table_of_def)
  then have "card (dom (oHeap st) - {TrueLit st, FalseLit st}) = mEntryCount st" by (metis distinct_card)
  moreover have "card (dom (oHeap st)) = card (dom (oHeap st) - {TrueLit st, FalseLit st}) + card {TrueLit st, FalseLit st}"
    using inv(1,4,7) by (metis card_Diff_subset card_mono finite.emptyI finite_insert insert_subset empty_subsetI le_add_diff_inverse2)
  ultimately show ?thesis using inv(3) by simp
qed

section \<open>What the storage promises\<close>

text \<open>The trees that a shape stands for.\<close>

definition shape_denotes :: "storage \<Rightarrow> shape \<Rightarrow> expr \<Rightarrow> bool" where
  "shape_denotes st x e = (case x of Leaf y \<Rightarrow> e = y
     | Ops k t ops d \<Rightarrow> (\<exists>es. list_all2 (denotes st) ops es \<and> e = NonNullaryExpr k t es d))"

lemma denotes_iff: "denotes st a e \<longleftrightarrow> shape_denotes st (shape_at st a) e"
  by (cases "shape_at st a") (auto simp: shape_denotes_def elim: denotes_elim intro: denotes.intros)

lemma create_keeps:
  assumes "consistent h ext st" and "\<forall>b \<in> dom (oHeap st). shape_at st' b = shape_at st b" and "b \<in> dom (oHeap st)" and "denotes st b e"
  shows "denotes st' b e"
  by (rule denotes_mono [OF assms(4,3)]) (use storage_invD(11) [OF assms(1) [unfolded consistent_def]] assms(2) in auto)

lemma created_object:
  assumes "consistent h ext st" and "shape_ok x" and "set (mOperands x) \<subseteq> dom (oHeap st)" and "fresh_address alloc"
    and "\<And>b. b \<in> dom (oHeap st) \<Longrightarrow> refs_at st b + Suc (count_list (mOperands x) b) < 2 ^ 32"
    and "createIfNotExists alloc h x st = (a, st')" and "shape_denotes st x e"
  shows "denotes st' a e" and "b \<in> dom (oHeap st) \<Longrightarrow> denotes st b e \<Longrightarrow> a = b"
proof -
  from create_consistent [OF assms(1-6)] have new: "consistent h (ext(a := Suc (ext a))) st'" "shape_at st' a = x"
    "dom (oHeap st') = insert a (dom (oHeap st))" "\<forall>b \<in> dom (oHeap st). shape_at st' b = shape_at st b" by blast+
  note keep = create_keeps [OF assms(1) new(4)]
  show a: "denotes st' a e"
  proof (cases x)
    case (Ops k t ops d)
    then obtain es where es: "list_all2 (denotes st) ops es" "e = NonNullaryExpr k t es d" using assms(7) by (auto simp: shape_denotes_def)
    then have "list_all2 (denotes st') ops es" using keep assms(3) Ops by (auto simp: list_all2_conv_all_nth subset_iff)
    then show ?thesis using new(2) Ops es(2) denotes.ops by simp
  qed (use assms(7) new(2) denotes.leaf in \<open>simp add: shape_denotes_def\<close>)
  show "a = b" if "b \<in> dom (oHeap st)" "denotes st b e"
    using denotes_inj [OF new(1) a keep [OF that]] that(1) new(3) by blast
qed

text \<open>
  C14: After any sequence of operations two objects are the same exactly if they denote the same
  tree, so the comparison of the addresses, which the builders and the rewriters use for the equality
  of expressions, is the comparison of the trees. Creating an expression gives an object of the tree that
  was asked for, the old one if there is one, and changes the tree of no other object.
\<close>

theorem addresses_are_trees:
  assumes "usage alloc h st ext" and "fresh_address alloc"
  shows "(\<forall>a \<in> dom (oHeap st). \<forall>b \<in> dom (oHeap st). \<exists>e f. denotes st a e \<and> denotes st b f \<and> (a = b \<longleftrightarrow> e = f))
    \<and> (\<forall>x a st' e. shape_ok x \<longrightarrow> set (mOperands x) \<subseteq> dom (oHeap st) \<longrightarrow>
        (\<forall>b \<in> dom (oHeap st). refs_at st b + Suc (count_list (mOperands x) b) < 2 ^ 32) \<longrightarrow>
        createIfNotExists alloc h x st = (a, st') \<longrightarrow> shape_denotes st x e \<longrightarrow>
        denotes st' a e \<and> (\<forall>b \<in> dom (oHeap st). (denotes st b e \<longrightarrow> a = b) \<and> (\<forall>f. denotes st b f \<longrightarrow> denotes st' b f)))"
proof (intro conjI ballI allI impI)
  note C = usage_consistent [OF assms]
  note inv = storage_invD [OF C [unfolded consistent_def]]
  show "\<exists>e f. denotes st a e \<and> denotes st b f \<and> (a = b \<longleftrightarrow> e = f)" if ab: "a \<in> dom (oHeap st)" "b \<in> dom (oHeap st)" for a b
  proof -
    from inv(12) ab obtain e f where ef: "denotes st a e" "denotes st b f" by blast
    have "a = b \<longleftrightarrow> e = f" using denotes_unique [OF ef(1)] denotes_inj [OF C ef(1) _ ab] ef by blast
    with ef show ?thesis by blast
  qed
  fix x a st' e
  assume x: "shape_ok x" "set (mOperands x) \<subseteq> dom (oHeap st)" "createIfNotExists alloc h x st = (a, st')"
    and room: "\<forall>b \<in> dom (oHeap st). refs_at st b + Suc (count_list (mOperands x) b) < 2 ^ 32" and e: "shape_denotes st x e"
  note created = created_object [OF C x(1,2) assms(2) bspec [OF room] x(3) e]
  show "denotes st' a e" by (rule created(1))
  show "a = b" if "b \<in> dom (oHeap st)" "denotes st b e" for b by (rule created(2) [OF _ that])
  have "\<forall>b \<in> dom (oHeap st). shape_at st' b = shape_at st b"
    using create_consistent [OF C x(1,2) assms(2) bspec [OF room] x(3)] by blast
  then show "denotes st' b f" if "b \<in> dom (oHeap st)" "denotes st b f" for b f using create_keeps [OF C _ that] by blast
qed

text \<open>
  C15: No object leaks and none is deleted too early: the objects in the heap are exactly those that
  can be reached from a reference that is held. Giving up a reference returns, its assertion holds and the
  removal finds every object in its list; the iterative deletion leaves what can still be reached.
\<close>

theorem no_leak_no_dangling:
  assumes "usage alloc h st ext" and "fresh_address alloc"
  shows "dom (oHeap st) = (operand_rel st)\<^sup>* `` {b. 0 < ext b}
    \<and> (\<forall>a. 0 < ext a \<longrightarrow> (a \<in> {TrueLit st, FalseLit st} \<longrightarrow> 1 < ext a) \<longrightarrow>
        (\<exists>st'. release a st = Some (Inr st') \<and> dom (oHeap st') = (operand_rel st')\<^sup>* `` {b. 0 < (ext(a := ext a - 1)) b}))"
proof (intro conjI allI impI)
  note C = usage_consistent [OF assms]
  show "dom (oHeap st) = (operand_rel st)\<^sup>* `` {b. 0 < ext b}" by (rule objects_reachable [OF C])
  fix a assume "0 < ext a" and "a \<in> {TrueLit st, FalseLit st} \<longrightarrow> 1 < ext a"
  then obtain st' where st': "release a st = Some (Inr st')" "consistent h (ext(a := ext a - 1)) st'"
    using release_consistent [OF C, of a] by blast
  then show "\<exists>st'. release a st = Some (Inr st') \<and> dom (oHeap st') = (operand_rel st')\<^sup>* `` {b. 0 < (ext(a := ext a - 1)) b}"
    using objects_reachable [OF st'(2)] by blast
qed

text \<open>
  C39: The table counts its entries, all objects but the two Boolean literals, each in one bucket,
  and grows before it is three quarters full.
\<close>

theorem load_bound:
  assumes "usage alloc h st ext" and "fresh_address alloc"
  shows "mEntryCount st * 4 < mBucketCount st * 3
    \<and> mEntryCount st + 2 = card (dom (oHeap st)) \<and> distinct (concat (mStorage st)) \<and> mEntryCount st = length (concat (mStorage st))"
proof -
  note C = usage_consistent [OF assms]
  note tab = storage_invD(14) [OF C [unfolded consistent_def], unfolded table_of_def]
  show ?thesis using tab entries_card [OF C] by simp
qed

section \<open>A concrete history\<close>

text \<open>An undefined Boolean and its negation, with all objects in one bucket.\<close>

definition free_address :: "nat list \<Rightarrow> nat" where
  "free_address xs = Suc (fold max xs 0)"

definition one_bucket :: "shape \<Rightarrow> nat" where
  "one_bucket x = 0"

lemma free_address_fresh: "fresh_address free_address"
proof -
  have "y \<le> fold max xs 0" if "y \<in> set xs" for xs :: "nat list" and y
    using that Max_ge [of "set (0 # xs)" y] by (simp only: Max.set_eq_fold) simp
  then show ?thesis unfolding fresh_address_def free_address_def by (metis not_less_eq_eq order_refl)
qed

abbreviation undef_shape :: shape where
  "undef_shape \<equiv> Leaf (UndefExpr BoolType)"

abbreviation not_shape :: shape where
  "not_shape \<equiv> Ops NotK BoolType [2] NoData"

definition after_undef :: storage where
  "after_undef = snd (createIfNotExists free_address one_bucket undef_shape (storage_new one_bucket))"

definition after_not :: storage where
  "after_not = snd (createIfNotExists free_address one_bucket not_shape after_undef)"

lemma one_bucket_entries: "concat ((replicate 64 [])[0 := xs]) = xs"
  by (simp add: upd_conv_take_nth_drop)

lemma small_counts: "u32 (Suc 0) = Suc 0" "u32 (Suc (Suc 0)) = Suc (Suc 0)"
  by (simp_all add: u32_def)

lemma after_undef_eq:
  "createIfNotExists free_address one_bucket undef_shape (storage_new one_bucket) = (2, after_undef)"
  "after_undef = \<lparr>oHeap = [0 \<mapsto> \<lparr>oShape = Leaf True_lit, mRefCount = 1, mHashCode = 0\<rparr>, 1 \<mapsto> \<lparr>oShape = Leaf False_lit, mRefCount = 1, mHashCode = 0\<rparr>,
       2 \<mapsto> \<lparr>oShape = undef_shape, mRefCount = 1, mHashCode = 0\<rparr>],
     mStorage = (replicate 64 [])[0 := [2]], mEntryCount = 1, TrueLit = 0, FalseLit = 1\<rparr>"
  by (simp_all add: after_undef_def createIfNotExists_def storage_new_def one_bucket_def free_address_def bucket_of_def mBucketCount_def
      needsRehash_def new_object_def add_ref_def object_at_def Let_def small_counts numeral_2_eq_2)

lemma after_not_eq:
  "createIfNotExists free_address one_bucket not_shape after_undef = (3, after_not)"
  "after_not = \<lparr>oHeap = [0 \<mapsto> \<lparr>oShape = Leaf True_lit, mRefCount = 1, mHashCode = 0\<rparr>, 1 \<mapsto> \<lparr>oShape = Leaf False_lit, mRefCount = 1, mHashCode = 0\<rparr>,
       2 \<mapsto> \<lparr>oShape = undef_shape, mRefCount = 2, mHashCode = 0\<rparr>, 3 \<mapsto> \<lparr>oShape = not_shape, mRefCount = 1, mHashCode = 0\<rparr>],
     mStorage = (replicate 64 [])[0 := [3, 2]], mEntryCount = 2, TrueLit = 0, FalseLit = 1\<rparr>"
  by (simp_all add: after_not_def createIfNotExists_def one_bucket_def free_address_def bucket_of_def mBucketCount_def
      needsRehash_def new_object_def add_ref_def object_at_def Let_def small_counts after_undef_eq(2) one_bucket_entries numeral_2_eq_2 numeral_3_eq_3)

lemma usage_after_not: "usage free_address one_bucket after_not (\<lambda>a. if a < 4 then 1 else 0)"
proof -
  have "usage free_address one_bucket after_undef ((\<lambda>a. if a < 2 then 1 else 0)(2 := Suc (if 2 < (2::nat) then 1 else 0)))"
    by (rule usage.create [OF usage.start _ _ _ after_undef_eq(1)]) (auto simp: storage_new_def object_at_def split: if_splits)
  moreover have "(\<lambda>a :: nat. if a < 2 then 1 else 0)(2 := Suc (if 2 < (2::nat) then 1 else 0)) = (\<lambda>a. if a < 3 then 1 else 0 :: nat)" by auto
  ultimately have "usage free_address one_bucket after_undef (\<lambda>a. if a < 3 then 1 else 0)" by simp
  then have "usage free_address one_bucket after_not ((\<lambda>a. if a < 3 then 1 else 0)(3 := Suc (if 3 < (3::nat) then 1 else 0)))"
    by (rule usage.create [OF _ _ _ _ after_not_eq(1)]) (auto simp: after_undef_eq(2) object_at_def split: if_splits)
  moreover have "(\<lambda>a :: nat. if a < 3 then 1 else 0)(3 := Suc (if 3 < (3::nat) then 1 else 0)) = (\<lambda>a. if a < 4 then 1 else 0 :: nat)" by auto
  ultimately show ?thesis by simp
qed

lemma addresses_are_trees_witness:
  "\<exists>e f. denotes after_not 2 e \<and> denotes after_not 3 f \<and> e \<noteq> f"
proof -
  have "2 \<in> dom (oHeap after_not)" "3 \<in> dom (oHeap after_not)" by (simp_all add: after_not_eq(2))
  then have "\<exists>e f. denotes after_not 2 e \<and> denotes after_not 3 f \<and> ((2 :: nat) = 3 \<longleftrightarrow> e = f)"
    using conjunct1 [OF addresses_are_trees [OF usage_after_not free_address_fresh]] by blast
  then show ?thesis by simp
qed

lemma no_leak_no_dangling_witness:
  "\<exists>st'. release 3 after_not = Some (Inr st') \<and> dom (oHeap st') = (operand_rel st')\<^sup>* `` {0, 1, 2}"
proof -
  have "3 \<notin> {TrueLit after_not, FalseLit after_not}" by (simp add: after_not_eq(2))
  then obtain st' where "release 3 after_not = Some (Inr st')"
    "dom (oHeap st') = (operand_rel st')\<^sup>* `` {b. (0 :: nat) < ((\<lambda>a. if a < 4 then 1 else 0)(3 := (if 3 < (4 :: nat) then 1 else 0) - 1)) b}"
    using spec [OF conjunct2 [OF no_leak_no_dangling [OF usage_after_not free_address_fresh]], of 3] by auto
  moreover have "{b :: nat. (0 :: nat) < ((\<lambda>a. if a < 4 then 1 else 0)(3 := (if 3 < (4 :: nat) then 1 else 0) - 1)) b} = {0, 1, 2}"
    by auto
  ultimately show ?thesis by simp
qed

lemma load_bound_witness: "mEntryCount after_not * 4 < mBucketCount after_not * 3 \<and> card (dom (oHeap after_not)) = 4"
  using load_bound [OF usage_after_not free_address_fresh] by (simp add: after_not_eq(2))

end
