(* ===== verification/GazerSExpr.thy ===== *)
theory GazerSExpr
  imports GazerPrelude
begin

text \<open>
  S-expressions (\<^verbatim>\<open>include/gazer/Support/SExpr.h\<close>, \<^verbatim>\<open>src/Support/SExpr.cpp\<close>), in which the Theta back end reads
  its counterexamples: the reader, the printer and the comparison. Reading what has been printed gives
  back the value; the inputs on which the reader and the comparison go wrong are shown as well.
\<close>

datatype sexpr = SAtom string | SList "sexpr list"

definition isspace :: "char \<Rightarrow> bool" where
  "isspace c \<longleftrightarrow> c \<in> {CHR '' '', CHR 0x09, CHR 0x0A, CHR 0x0B, CHR 0x0C, CHR 0x0D}"

definition is_delimiter :: "char \<Rightarrow> bool" where
  "is_delimiter c \<longleftrightarrow> isspace c \<or> c = CHR ''('' \<or> c = CHR '')''"

text \<open>The end of an atom: the position of the first delimiter (past the end if there is none), or the last
  position of the input.\<close>

definition close_pos :: "string \<Rightarrow> nat" where
  "close_pos input = min (length (takeWhile (\<lambda>c. \<not> is_delimiter c) input)) (length input - 1)"

text \<open>The reader. \<open>doParse None\<close> is the function of that name, with the rest of the input as a second
  result; \<open>doParse (Some slist)\<close> is its loop over the elements of a list. A null pointer is returned only at
  the end of the input, where \<open>front()\<close> fails in the loop. \<open>None\<close> stands for a run that does not end.\<close>

partial_function (option) doParse :: "sexpr list option \<Rightarrow> string \<Rightarrow> (sexpr option \<times> string) res option" where
  "doParse m input = (case m of
     None \<Rightarrow> (let input = dropWhile isspace input in
       if input = [] then Some (Inr (None, input))
       else if hd input = CHR ''('' then doParse (Some []) (tl input)
       else (let k = close_pos input in Some (Inr (Some (SAtom (take k input)), drop k input))))
   | Some slist \<Rightarrow>
       (if input = [] then Some (Inl LibraryAssert)
        else if hd input = CHR '')'' then Some (Inr (Some (SList slist), tl input))
        else Option.bind (doParse None input) (\<lambda>r. (case r of
            Inl err \<Rightarrow> Some (Inl err)
          | Inr (None, _) \<Rightarrow> Some (Inl LibraryAssert)
          | Inr (Some v, input') \<Rightarrow> doParse (Some (slist @ [v])) input'))))"

definition trim :: "string \<Rightarrow> string" where
  "trim s = rev (dropWhile isspace (rev (dropWhile isspace s)))"

definition sexpr_parse :: "string \<Rightarrow> sexpr option res option" where
  "sexpr_parse input = (let trimmed = trim input in
     if trimmed = [] then Some (Inl LibraryAssert)
     else if hd trimmed \<noteq> CHR ''('' \<and> last trimmed \<noteq> CHR '')'' then Some (Inr None)
     else map_option (\<lambda>r. rbind r (\<lambda>(v, _). Inr v)) (doParse None trimmed))"

text \<open>The printer; for an empty list \<open>size() - 1\<close> wraps around and the loop reads past the end.\<close>

fun sexpr_print :: "sexpr \<Rightarrow> string res" and print_list :: "sexpr list \<Rightarrow> string res" where
  "sexpr_print (SAtom s) = Inr s"
| "sexpr_print (SList vs) = rbind (print_list vs) (\<lambda>s. Inr (''('' @ s @ '')''))"
| "print_list [] = Inl OutOfRange"
| "print_list [v] = sexpr_print v"
| "print_list (v # w # vs) = rbind (sexpr_print v) (\<lambda>s. rbind (print_list (w # vs)) (\<lambda>t. Inr (s @ '' '' @ t)))"

text \<open>The comparison; \<open>std::equal\<close> is given no end of the second list.\<close>

fun sexpr_eq :: "sexpr \<Rightarrow> sexpr \<Rightarrow> bool res" and list_eq :: "sexpr list \<Rightarrow> sexpr list \<Rightarrow> bool res" where
  "sexpr_eq (SAtom s) (SAtom t) = Inr (s = t)"
| "sexpr_eq (SList vs) (SList ws) = list_eq vs ws"
| "sexpr_eq _ _ = Inr False"
| "list_eq [] ws = Inr True"
| "list_eq (v # vs) [] = Inl OutOfRange"
| "list_eq (v # vs) (w # ws) = rbind (sexpr_eq v w) (\<lambda>b. if b then list_eq vs ws else Inr False)"

section \<open>Printing and reading\<close>

fun printable :: "sexpr \<Rightarrow> bool" where
  "printable (SAtom s) \<longleftrightarrow> s \<noteq> [] \<and> list_all (\<lambda>c. \<not> is_delimiter c) s"
| "printable (SList vs) \<longleftrightarrow> vs \<noteq> [] \<and> list_all printable vs"

text \<open>What may follow a value in the text of a list.\<close>

definition ended :: "string \<Rightarrow> bool" where
  "ended rest \<longleftrightarrow> rest \<noteq> [] \<and> is_delimiter (hd rest)"

lemma doParse_space: "isspace c \<Longrightarrow> doParse None (c # s) = doParse None s"
  by (subst (1 2) doParse.simps) simp

lemma doParse_atom:
  assumes "printable (SAtom s)" and "ended rest"
  shows "doParse None (s @ rest) = Some (Inr (Some (SAtom s), rest))"
proof -
  obtain c s' where s: "s = c # s'" "\<not> is_delimiter c" using assms(1) by (cases s) auto
  have "takeWhile (\<lambda>c. \<not> is_delimiter c) (s @ rest) = s" using assms by (cases rest) (auto simp: ended_def list_all_iff)
  then have "close_pos (s @ rest) = length s" using assms(2) by (cases rest) (auto simp: close_pos_def ended_def)
  moreover have "dropWhile isspace (s @ rest) = s @ rest" "hd (s @ rest) \<noteq> CHR ''(''" using s by (auto simp: is_delimiter_def)
  ultimately show ?thesis using s(1) by (subst doParse.simps) simp
qed

text \<open>The text of a value is not empty and does not start with a closing parenthesis or a space.\<close>

lemma print_total:
  "printable v \<Longrightarrow> \<exists>s. sexpr_print v = Inr s \<and> s \<noteq> [] \<and> hd s \<noteq> CHR '')'' \<and> \<not> isspace (hd s)"
  "vs \<noteq> [] \<Longrightarrow> list_all printable vs \<Longrightarrow> \<exists>s. print_list vs = Inr s \<and> s \<noteq> [] \<and> hd s \<noteq> CHR '')'' \<and> \<not> isspace (hd s)"
proof (induction v and vs rule: sexpr_print_print_list.induct)
  case (1 s)
  then show ?case by (cases s) (auto simp: is_delimiter_def)
next
  case (2 vs)
  then show ?case by (auto simp: isspace_def)
qed (auto simp: rbind_eq_Inr)

lemma doParse_print:
  "printable v \<Longrightarrow> sexpr_print v = Inr s \<Longrightarrow> ended rest \<Longrightarrow> doParse None (s @ rest) = Some (Inr (Some v, rest))"
  "vs \<noteq> [] \<Longrightarrow> list_all printable vs \<Longrightarrow> print_list vs = Inr s \<Longrightarrow>
     doParse (Some slist) (s @ CHR '')'' # rest) = Some (Inr (Some (SList (slist @ vs)), rest))"
proof (induction v and vs arbitrary: s rest and s slist rest rule: sexpr_print_print_list.induct)
  case (1 t)
  then show ?case by (auto intro: doParse_atom)
next
  case (2 vs)
  then obtain t where t: "print_list vs = Inr t" "s = CHR ''('' # t @ '')''" by (auto simp: rbind_eq_Inr)
  have "doParse None (s @ rest) = doParse (Some []) (t @ CHR '')'' # rest)"
    unfolding t(2) by (subst doParse.simps) (simp add: isspace_def)
  then show ?case using 2 t(1) by simp
next
  case (4 v)
  then have v: "printable v" "sexpr_print v = Inr s" by auto
  then have "s \<noteq> []" "hd s \<noteq> CHR '')''" using print_total(1) by fastforce+
  moreover have "doParse None (s @ CHR '')'' # rest) = Some (Inr (Some v, CHR '')'' # rest))"
    using 4 v by (simp add: ended_def is_delimiter_def)
  moreover have "doParse (Some (slist @ [v])) (CHR '')'' # rest) = Some (Inr (Some (SList (slist @ [v])), rest))"
    by (subst doParse.simps) simp
  ultimately show ?case by (subst doParse.simps) simp
next
  case (5 v w vs)
  then obtain t u where t: "sexpr_print v = Inr t" "print_list (w # vs) = Inr u" "s = t @ '' '' @ u" by (auto simp: rbind_eq_Inr)
  have v: "printable v" "t \<noteq> []" "hd t \<noteq> CHR '')''" using print_total(1) [of v] 5 t(1) by auto
  have 1: "doParse None (t @ '' '' @ u @ CHR '')'' # rest) = Some (Inr (Some v, '' '' @ u @ CHR '')'' # rest))"
    using 5 v t by (simp add: ended_def is_delimiter_def isspace_def)
  have u: "u \<noteq> []" "hd u \<noteq> CHR '')''" using print_total(2) [of "w # vs"] 5 t(2) by auto
  have "doParse (Some (slist @ [v])) ('' '' @ u @ CHR '')'' # rest) = doParse (Some (slist @ [v])) (u @ CHR '')'' # rest)"
    using u doParse_space [of "CHR '' ''" "u @ CHR '')'' # rest"] by (subst (1 2) doParse.simps) (simp add: isspace_def)
  also have "\<dots> = Some (Inr (Some (SList (slist @ v # w # vs)), rest))"
    using 5 t(1,2) by simp
  finally show ?case unfolding t(3) using v 1 by (subst doParse.simps) simp
qed simp_all

lemma trim_blanks:
  assumes "list_all isspace pre" and "list_all isspace post" and "s \<noteq> []" and "\<not> isspace (hd s)" and "\<not> isspace (last s)"
  shows "trim (pre @ s @ post) = s"
proof -
  have "dropWhile isspace (pre @ s @ post) = s @ post"
    using assms(1,3,4) by (subst dropWhile_append2) (auto simp: list_all_iff neq_Nil_conv)
  moreover have "dropWhile isspace (rev (s @ post)) = rev s"
    using assms(2,3,5) by (simp, subst dropWhile_append2) (auto simp: list_all_iff dropWhile_eq_self_iff hd_rev)
  ultimately show ?thesis by (simp add: trim_def)
qed

lemma sexpr_eq_refl: "sexpr_eq v v = Inr True" "list_eq vs vs = Inr True"
proof -
  have "sexpr_eq v v = Inr True" for v
  proof (induction v)
    case (SList vs)
    then have "list_eq vs vs = Inr True" by (induction vs) auto
    then show ?case by simp
  qed simp
  then show "sexpr_eq v v = Inr True" "list_eq vs vs = Inr True" by (auto, induction vs) auto
qed

text \<open>
  C38: reading what has been printed. A list whose atoms are not empty and hold neither blanks nor
  parentheses, and whose lists are not empty, is printed without failure, and reading the text, with any
  blanks around it, ends and gives back the value, which compares as equal to it.
\<close>

theorem sexpr_roundtrip:
  assumes "printable (SList vs)" and "list_all isspace pre" and "list_all isspace post"
  shows "\<exists>s. sexpr_print (SList vs) = Inr s \<and> sexpr_parse (pre @ s @ post) = Some (Inr (Some (SList vs)))
    \<and> sexpr_eq (SList vs) (SList vs) = Inr True"
proof -
  obtain t where t: "print_list vs = Inr t" using print_total(2) [of vs] assms(1) by auto
  let ?s = "''('' @ t @ '')''"
  have "trim (pre @ ?s @ post) = ?s" using assms(2,3) by (intro trim_blanks) (simp_all add: isspace_def)
  moreover have "doParse None ?s = doParse (Some []) (t @ CHR '')'' # [])" by (subst doParse.simps) (simp add: isspace_def)
  then have "doParse None ?s = Some (Inr (Some (SList vs), []))" using doParse_print(2) [OF _ _ t, of "[]" "[]"] assms(1) by simp
  ultimately show ?thesis using t by (simp add: sexpr_parse_def Let_def sexpr_eq_refl)
qed

theorem sexpr_roundtrip_witness:
  "sexpr_print (SList [SAtom ''a'', SList [SAtom ''b'', SAtom ''c'']]) = Inr ''(a (b c))''
   \<and> sexpr_parse '' (a (b c))'' = Some (Inr (Some (SList [SAtom ''a'', SList [SAtom ''b'', SAtom ''c'']])))"
  using sexpr_roundtrip [of "[SAtom ''a'', SList [SAtom ''b'', SAtom ''c'']]" "'' ''" "[]"]
  by (simp add: isspace_def is_delimiter_def)

section \<open>Departures\<close>

text \<open>An atom that is not followed by a delimiter loses its last character, and the loop reads it again
  and again.\<close>

lemma doParse_open: "doParse (Some slist) ''a'' = None"
proof -
  define P :: "sexpr list option \<Rightarrow> string \<Rightarrow> (sexpr option \<times> string) res \<Rightarrow> bool" where
    "P m i r \<longleftrightarrow> (i = ''a'' \<longrightarrow> (case m of None \<Rightarrow> r = Inr (Some (SAtom []), ''a'') | Some _ \<Rightarrow> False))" for m i r
  have run: "P m i r" if "doParse m i = Some r" for m i r
  proof (rule doParse.raw_induct [where P = P, OF _ that])
    fix f m i r
    assume IH: "\<And>m i r. f m i = Some r \<Longrightarrow> P m i r"
      and body: "(case m of None \<Rightarrow> (let input = dropWhile isspace i in
           if input = [] then Some (Inr (None, input))
           else if hd input = CHR ''('' then f (Some []) (tl input)
           else (let k = close_pos input in Some (Inr (Some (SAtom (take k input)), drop k input))))
       | Some slist \<Rightarrow>
           (if i = [] then Some (Inl LibraryAssert)
            else if hd i = CHR '')'' then Some (Inr (Some (SList slist), tl i))
            else Option.bind (f None i) (\<lambda>r. (case r of
                Inl err \<Rightarrow> Some (Inl err)
              | Inr (None, _) \<Rightarrow> Some (Inl LibraryAssert)
              | Inr (Some v, input') \<Rightarrow> f (Some (slist @ [v])) input')))) = Some r"
    show "P m i r" unfolding P_def
    proof
      assume i: "i = ''a''"
      show "case m of None \<Rightarrow> r = Inr (Some (SAtom []), ''a'') | Some _ \<Rightarrow> False"
      proof (cases m)
        case None
        then show ?thesis using body i by (simp add: isspace_def close_pos_def)
      next
        case (Some slist)
        then obtain r1 where r1: "f None ''a'' = Some r1" using body i by (cases "f None ''a''") auto
        then have "r1 = Inr (Some (SAtom []), ''a'')" using IH [OF r1] by (simp add: P_def)
        then have "f (Some (slist @ [SAtom []])) ''a'' = Some r" using body i r1 Some by simp
        from IH [OF this] show ?thesis by (simp add: P_def)
      qed
    qed
  qed
  show ?thesis
  proof (cases "doParse (Some slist) ''a''")
    case (Some r)
    from run [OF this] show ?thesis by (simp add: P_def)
  qed
qed

lemma doParse_close: "doParse (Some slist) (CHR '')'' # s) = Some (Inr (Some (SList slist), s))"
  by (subst doParse.simps) simp

text \<open>
  Inputs that go wrong. A blank before a closing parenthesis is read as an empty atom; an
  unclosed list is accepted by the check of the first and last characters, and reading it does not end; text before a
  closing parenthesis is accepted as an atom; the printer fails on an empty list, which the reader
  produces; a list compares as equal to every longer list that it starts, and the comparison with a shorter one
  reads past its end.
\<close>

theorem sexpr_departures:
  "sexpr_parse ''(a )'' = Some (Inr (Some (SList [SAtom ''a'', SAtom []])))
   \<and> sexpr_parse ''(a'' = None
   \<and> sexpr_parse ''a b)'' = Some (Inr (Some (SAtom ''a'')))
   \<and> sexpr_parse ''()'' = Some (Inr (Some (SList []))) \<and> sexpr_print (SList []) = Inl OutOfRange
   \<and> sexpr_eq (SList [SAtom ''a'']) (SList [SAtom ''a'', SAtom ''b'']) = Inr True
   \<and> sexpr_eq (SList [SAtom ''a'', SAtom ''b'']) (SList [SAtom ''a'']) = Inl OutOfRange"
proof (intro conjI)
  have open_paren: "doParse None (CHR ''('' # s) = doParse (Some []) s" for s
    by (subst doParse.simps) (simp add: isspace_def)
  have a: "doParse None ''a )'' = Some (Inr (Some (SAtom ''a''), '' )''))"
    using doParse_atom [of "''a''" "'' )''"] by (simp add: ended_def is_delimiter_def isspace_def)
  have blank: "doParse None '' )'' = Some (Inr (Some (SAtom []), '')''))"
    by (subst doParse.simps) (simp add: isspace_def close_pos_def is_delimiter_def)
  have "doParse (Some []) ''a )'' = doParse (Some [SAtom ''a'']) '' )''" using a by (subst doParse.simps) simp
  also have "\<dots> = doParse (Some [SAtom ''a'', SAtom []]) '')''" using blank by (subst doParse.simps) simp
  finally have "doParse None ''(a )'' = Some (Inr (Some (SList [SAtom ''a'', SAtom []]), []))"
    by (simp add: open_paren doParse_close)
  then show "sexpr_parse ''(a )'' = Some (Inr (Some (SList [SAtom ''a'', SAtom []])))"
    by (simp add: sexpr_parse_def trim_def isspace_def)
  show "sexpr_parse ''(a'' = None" by (simp add: sexpr_parse_def trim_def isspace_def open_paren doParse_open)
  have "doParse None ''a b)'' = Some (Inr (Some (SAtom ''a''), '' b)''))"
    using doParse_atom [of "''a''" "'' b)''"] by (simp add: ended_def is_delimiter_def isspace_def)
  then show "sexpr_parse ''a b)'' = Some (Inr (Some (SAtom ''a'')))" by (simp add: sexpr_parse_def trim_def isspace_def)
  show "sexpr_parse ''()'' = Some (Inr (Some (SList [])))" by (simp add: sexpr_parse_def trim_def isspace_def open_paren doParse_close)
qed simp_all

end
