(* ===== verification/GazerTheta.thy ===== *)
theory GazerTheta
  imports GazerRecursive GazerBmcCheck GazerSExpr
begin

text \<open>
  The Theta back end (\<^verbatim>\<open>tools/gazer-theta/lib\<close>): the printer of expressions, and the generator that translates an
  automaton into a process of Theta. The external checker itself, the command that runs it and the reader of the counterexamples that
  it returns are not modelled.

  A process is kept as its declarations and statements; its text is printed from them. The field with the
  unhandled expression of the printer is written but never read, and left out.
\<close>

section \<open>The printer of expressions\<close>

definition int_text :: "int \<Rightarrow> string" where
  "int_text v = (if v < 0 then ''-'' @ dec_digits (nat (- v)) else dec_digits (nat v))"

definition unhandled :: string where
  "unhandled = ''__UNHANDLED_EXPR__''"

fun theta_literal :: "literal \<Rightarrow> string" where
  "theta_literal (IntLiteral v) = (if v < 0 then ''('' @ int_text v @ '')'' else int_text v)"
| "theta_literal (BoolLiteral b) = (if b then ''true'' else ''false'')"
| "theta_literal (RealLiteral n d) = int_text n @ ''%'' @ int_text d"
| "theta_literal _ = unhandled"

text \<open>The methods of the binary operators differ in the operator only.\<close>

fun theta_infix :: "expr_kind \<Rightarrow> string option" where
  "theta_infix Add = Some '' + ''"
| "theta_infix Sub = Some '' - ''"
| "theta_infix Mul = Some '' * ''"
| "theta_infix Div = Some '' / ''"
| "theta_infix Mod = Some '' mod ''"
| "theta_infix Imply = Some '' imply ''"
| "theta_infix Eq = Some '' = ''"
| "theta_infix NotEq = Some '' /= ''"
| "theta_infix Lt = Some '' < ''"
| "theta_infix LtEq = Some '' <= ''"
| "theta_infix Gt = Some '' > ''"
| "theta_infix GtEq = Some '' >= ''"
| "theta_infix k = None"

fun theta_multiary :: "expr_kind \<Rightarrow> string option" where
  "theta_multiary And = Some '' and ''"
| "theta_multiary Or = Some '' or ''"
| "theta_multiary k = None"

definition theta_node :: "expr_kind \<Rightarrow> nat \<Rightarrow> string list \<Rightarrow> string res" where
  "theta_node k n vs = (case theta_multiary k of
     Some sep \<Rightarrow> rbind (res_map (getOperand vs) [0 ..< n]) (\<lambda>xs. Inr (''('' @ join_print xs sep @ '')''))
   | None \<Rightarrow> (case theta_infix k of
       Some op \<Rightarrow> rbind (getOperand vs 0) (\<lambda>x. rbind (getOperand vs 1) (\<lambda>y. Inr (''('' @ x @ op @ y @ '')'')))
     | None \<Rightarrow>
        (if k = NotK then rbind (getOperand vs 0) (\<lambda>x. Inr (''(not '' @ x @ '')''))
         else if k = Select then rbind (getOperand vs 0) (\<lambda>x. rbind (getOperand vs 1) (\<lambda>y. rbind (getOperand vs 2) (\<lambda>z.
           Inr (''(if '' @ x @ '' then '' @ y @ '' else '' @ z @ '')''))))
         else if k = ArrayRead then rbind (getOperand vs 0) (\<lambda>x. rbind (getOperand vs 1) (\<lambda>y. Inr (''('' @ x @ '')['' @ y @ '']'')))
         else if k = ArrayWrite then rbind (getOperand vs 0) (\<lambda>x. rbind (getOperand vs 1) (\<lambda>y. rbind (getOperand vs 2) (\<lambda>z.
           Inr (''('' @ x @ '')['' @ y @ '' <- '' @ z @ '']''))))
         else Inr unhandled)))"

fun theta_visit :: "(variable \<Rightarrow> string) \<Rightarrow> expr \<Rightarrow> string list \<Rightarrow> string res" where
  "theta_visit names (UndefExpr t) vs = Inr unhandled"
| "theta_visit names (LiteralExpr l) vs = Inr (theta_literal l)"
| "theta_visit names (VarRefExpr v) vs = Inr (if names v \<noteq> [] then names v else var_name v)"
| "theta_visit names (NonNullaryExpr k t ops d) vs = theta_node k (length ops) vs"

definition ThetaExprPrinter :: "(variable \<Rightarrow> string) \<Rightarrow> (string, unit) walker" where
  "ThetaExprPrinter names = \<lparr>w_default = [], w_shouldSkip = (\<lambda>_ _. None), w_handleResult = (\<lambda>s _ _. s),
     w_doVisit = (\<lambda>s e vs. rbind (theta_visit names e vs) (\<lambda>r. Inr (r, s)))\<rparr>"

definition printThetaExpr :: "(variable \<Rightarrow> string) \<Rightarrow> expr \<Rightarrow> string res option" where
  "printThetaExpr names e = map_option (\<lambda>r. rbind r (\<lambda>p. Inr (fst p))) (walk (ThetaExprPrinter names) e ())"

interpretation theta_printer: walker_client "ThetaExprPrinter names" "theta_visit names" "\<lambda>_. True"
  for names
  by unfold_locales (simp_all add: ThetaExprPrinter_def)

section \<open>The generator\<close>

definition ThetaKeywords :: "string list" where
  "ThetaKeywords = [''main'', ''process'', ''var'', ''loc'', ''assume'', ''init'', ''final'', ''error'', ''return'', ''havoc'',
     ''bool'', ''int'', ''rat'', ''if'', ''then'', ''else'', ''iff'', ''imply'', ''forall'', ''exists'', ''or'', ''and'', ''not'',
     ''mod'', ''rem'', ''true'', ''false'']"

datatype loc_flag = Loc_State | Loc_Init | Loc_Final | Loc_Error

datatype theta_stmt =
    Assume expr
  | Assign string expr
  | Havoc string

record theta_loc = tlName :: string  tlFlag :: loc_flag

record theta_edge =
  teSource :: string
  teTarget :: string
  teStmts :: "theta_stmt list"

record theta_process =
  pVars :: "(string \<times> string) list"
  pLocs :: "theta_loc list"
  pEdges :: "theta_edge list"

record name_mapping =
  nmLocations :: "string \<rightharpoonup> nat"
  nmVariables :: "string \<rightharpoonup> variable"
  nmErrorLocation :: nat
  nmErrorFieldVariable :: variable
  nmInlinedLocations :: "nat \<rightharpoonup> nat"
  nmInlinedVariables :: "variable \<rightharpoonup> variable"

fun typeName :: "gtype \<Rightarrow> string res" where
  "typeName IntType = Inr ''int''"
| "typeName RealType = Inr ''rat''"
| "typeName BoolType = Inr ''bool''"
| "typeName (ArrayType i e) = rbind (typeName i) (\<lambda>s. rbind (typeName e) (\<lambda>t. Inr (''['' @ s @ ''] -> '' @ t)))"
| "typeName t = Inl Unreachable"

text \<open>The regular expression replaces every character that is neither a letter, a digit nor an underscore.\<close>

definition is_word_char :: "char \<Rightarrow> bool" where
  "is_word_char c \<longleftrightarrow> (let n = of_char c :: nat in
     (65 \<le> n \<and> n \<le> 90) \<or> (97 \<le> n \<and> n \<le> 122) \<or> (48 \<le> n \<and> n \<le> 57) \<or> n = 95)"

definition sanitize :: "string \<Rightarrow> string" where
  "sanitize n = map (\<lambda>c. if is_word_char c then c else CHR ''_'') n"

definition unreserved :: "string \<Rightarrow> string" where
  "unreserved n = (if n \<in> set ThetaKeywords then n @ ''_gazer'' else n)"

text \<open>The name grows in every round; the counter is a member of the generator and wraps around.\<close>

definition validName :: "string \<Rightarrow> (string \<Rightarrow> bool) \<Rightarrow> nat \<Rightarrow> (string \<times> nat) option" where
  "validName n isUnique tmp = while_option (\<lambda>(n, k). \<not> isUnique n) (\<lambda>(n, k). (n @ dec_digits k, u32 (Suc k)))
     (unreserved (sanitize n), tmp)"

record generator =
  gVars :: "variable \<rightharpoonup> string \<times> string"
  gNames :: "string \<rightharpoonup> variable"
  mTmpCount :: nat

definition isValidVarName :: "generator \<Rightarrow> string \<Rightarrow> bool" where
  "isValidVarName g n \<longleftrightarrow> n \<notin> fst ` ran (gVars g)"

definition add_variable :: "variable \<Rightarrow> generator \<Rightarrow> generator res" where
  "add_variable v g = rbind (returned (map_option Inr (validName (var_name v) (isValidVarName g) (mTmpCount g)))) (\<lambda>(n, tmp).
     rbind (typeName (var_type v)) (\<lambda>t. Inr (g\<lparr>gVars := (case gVars g v of None \<Rightarrow> (gVars g)(v \<mapsto> (n, t)) | Some _ \<Rightarrow> gVars g),
       gNames := (gNames g)(n \<mapsto> v), mTmpCount := tmp\<rparr>)))"

definition loc_name :: "cfa \<Rightarrow> nat \<Rightarrow> string" where
  "loc_name c l = ''loc'' @ dec_digits (mID c l)"

definition loc_decl :: "cfa \<Rightarrow> nat \<Rightarrow> nat \<Rightarrow> theta_loc" where
  "loc_decl c err l = \<lparr>tlName = loc_name c l, tlFlag =
     (if l = err then Loc_Error else if mEntry c = l then Loc_Init else if mExit c = l then Loc_Final else Loc_State)\<rparr>"

text \<open>Looking up a variable without a declaration gives a null pointer.\<close>

definition declared_name :: "generator \<Rightarrow> variable \<Rightarrow> string res" where
  "declared_name g v = (case gVars g v of None \<Rightarrow> Inl NullDeref | Some (n, t) \<Rightarrow> Inr n)"

definition assignment_stmt :: "generator \<Rightarrow> variable_assignment \<Rightarrow> theta_stmt res" where
  "assignment_stmt g a = rbind (declared_name g (va_variable a)) (\<lambda>n.
     Inr (if isUndef (va_value a) then Havoc n else Assign n (va_value a)))"

definition edge_stmts :: "generator \<Rightarrow> transition \<Rightarrow> theta_stmt list res" where
  "edge_stmts g tr =
     rbind (if mGuard tr \<noteq> True_lit then check (isBoolType (getType (mGuard tr))) AssertFail (Inr [Assume (mGuard tr)]) else Inr [])
       (\<lambda>pre. case tr of
          AssignTransition _ as \<Rightarrow> rbind (res_map (assignment_stmt g) as) (\<lambda>ss. Inr (pre @ ss))
        | CallTransition _ _ _ _ \<Rightarrow> Inl Unreachable)"

definition declared_loc :: "cfa \<Rightarrow> nat option \<Rightarrow> string res" where
  "declared_loc c l = (case l of None \<Rightarrow> Inl NullDeref
     | Some l \<Rightarrow> check (l \<in> set (mNodes c)) NullDeref (Inr (loc_name c l)))"

definition edge_decl :: "cfa \<Rightarrow> generator \<Rightarrow> nat \<Rightarrow> theta_edge res" where
  "edge_decl c g e = rbind (declared_loc c (mSource c e)) (\<lambda>u. rbind (declared_loc c (mTarget c e)) (\<lambda>v.
     rbind (edge_stmts g (mTransition c e)) (\<lambda>ss. Inr \<lparr>teSource = u, teTarget = v, teStmts = ss\<rparr>)))"

text \<open>The translation; the inputs are printed before the locals.\<close>

definition generate :: "cfa \<Rightarrow> nat \<Rightarrow> nat \<Rightarrow> (theta_process \<times> generator \<times> (string \<rightharpoonup> nat)) res" where
  "generate c err tmp =
     rbind (for_each add_variable (mLocals c @ mInputs c) \<lparr>gVars = Map.empty, gNames = Map.empty, mTmpCount = tmp\<rparr>) (\<lambda>g.
     rbind (res_map (edge_decl c g) (mEdges c)) (\<lambda>edges.
       Inr (\<lparr>pVars = map (\<lambda>v. the (gVars g v)) (mInputs c @ mLocals c), pLocs = map (loc_decl c err) (mNodes c), pEdges = edges\<rparr>,
            g, foldl (\<lambda>m l. m(loc_name c l \<mapsto> l)) Map.empty (mNodes c))))"

section \<open>The text of a process\<close>

definition newline :: string where "newline = [CHR 0x0A]"

definition canonizeName :: "generator \<Rightarrow> variable \<Rightarrow> string" where
  "canonizeName g v = (case gVars g v of None \<Rightarrow> var_name v | Some (n, t) \<Rightarrow> n)"

fun print_stmt :: "(variable \<Rightarrow> string) \<Rightarrow> theta_stmt \<Rightarrow> string res" where
  "print_stmt names (Assume e) = rbind (returned (printThetaExpr names e)) (\<lambda>s. Inr (''assume '' @ s))"
| "print_stmt names (Assign x e) = rbind (returned (printThetaExpr names e)) (\<lambda>s. Inr (x @ '' := '' @ s))"
| "print_stmt names (Havoc x) = Inr (''havoc '' @ x)"

definition print_loc :: "theta_loc \<Rightarrow> string" where
  "print_loc l = (case tlFlag l of Loc_Init \<Rightarrow> ''init '' | Loc_Final \<Rightarrow> ''final '' | Loc_Error \<Rightarrow> ''error '' | Loc_State \<Rightarrow> '''')
     @ ''loc '' @ tlName l"

definition print_edge :: "(variable \<Rightarrow> string) \<Rightarrow> theta_edge \<Rightarrow> string res" where
  "print_edge names ed = rbind (res_map (print_stmt names) (teStmts ed)) (\<lambda>ss.
     Inr (''    '' @ teSource ed @ '' -> '' @ teTarget ed @ '' {'' @ newline
       @ concat (map (\<lambda>s. ''        '' @ s @ newline) ss) @ ''    }'' @ newline @ newline))"

definition print_process :: "(variable \<Rightarrow> string) \<Rightarrow> theta_process \<Rightarrow> string res" where
  "print_process names p = rbind (res_map (print_edge names) (pEdges p)) (\<lambda>es.
     Inr (''main process __gazer_main_process {'' @ newline
       @ concat (map (\<lambda>(n, t). ''    var '' @ n @ '' : '' @ t @ newline) (pVars p))
       @ concat (map (\<lambda>l. ''    '' @ print_loc l @ newline) (pLocs p)) @ concat es @ ''}'' @ newline))"

definition theta_write :: "(nat list \<Rightarrow> nat) \<Rightarrow> automata_system \<Rightarrow> variable_table \<Rightarrow> (string \<times> name_mapping) res option" where
  "theta_write alloc sys tbl = (case mMainAutomaton sys of
     None \<Rightarrow> Some (Inl NullDeref)
   | Some p \<Rightarrow> map_option (\<lambda>r. rbind r (\<lambda>st. rbind (generate (tRoot st) (tError st) 0) (\<lambda>(pr, g, locs).
       rbind (print_process (canonizeName g) pr) (\<lambda>text. Inr (text,
         \<lparr>nmLocations = locs, nmVariables = gNames g, nmErrorLocation = tError st, nmErrorFieldVariable = tErrorFieldVariable st,
          nmInlinedLocations = tInlinedLocations st, nmInlinedVariables = tInlinedVariables st\<rparr>)))))
       (TransformRecursiveToCyclic alloc sys tbl p))"

end
