(* ===== verification/GazerThetaText.thy ===== *)
theory GazerThetaText
  imports GazerTheta
begin

text \<open>
  What the text of an expression says. The printer returns for every well-typed expression; on the expressions that it
  supports two different expressions never have the same text, so that the text can be read in one way only.
\<close>

section \<open>The printed text\<close>

definition node_text :: "expr_kind \<Rightarrow> string list \<Rightarrow> string" where
  "node_text k vs = (case theta_multiary k of
     Some sep \<Rightarrow> ''('' @ join_print vs sep @ '')''
   | None \<Rightarrow> (case theta_infix k of
       Some op \<Rightarrow> ''('' @ vs ! 0 @ op @ vs ! 1 @ '')''
     | None \<Rightarrow>
        (if k = NotK then ''(not '' @ vs ! 0 @ '')''
         else if k = Select then ''(if '' @ vs ! 0 @ '' then '' @ vs ! 1 @ '' else '' @ vs ! 2 @ '')''
         else if k = ArrayRead then ''('' @ vs ! 0 @ '')['' @ vs ! 1 @ '']''
         else if k = ArrayWrite then ''('' @ vs ! 0 @ '')['' @ vs ! 1 @ '' <- '' @ vs ! 2 @ '']''
         else unhandled)))"

fun theta_text :: "(variable \<Rightarrow> string) \<Rightarrow> expr \<Rightarrow> string" where
  "theta_text names (UndefExpr t) = unhandled"
| "theta_text names (LiteralExpr l) = theta_literal l"
| "theta_text names (VarRefExpr v) = (if names v \<noteq> [] then names v else var_name v)"
| "theta_text names (NonNullaryExpr k t ops d) = node_text k (map (theta_text names) ops)"

definition arity_ok :: "expr_kind \<Rightarrow> nat \<Rightarrow> bool" where
  "arity_ok k n \<longleftrightarrow> (theta_infix k \<noteq> None \<longrightarrow> 2 \<le> n) \<and> (k = NotK \<longrightarrow> 1 \<le> n) \<and> (k = Select \<longrightarrow> 3 \<le> n)
     \<and> (k = ArrayRead \<longrightarrow> 2 \<le> n) \<and> (k = ArrayWrite \<longrightarrow> 3 \<le> n)"

lemma getOperands_all: "res_map (getOperand vs) [0 ..< length vs] = Inr vs"
  by (simp add: res_map_eq_Inr list_all2_conv_all_nth getOperand_def check_def)

lemma theta_node_text: "arity_ok k (length vs) \<Longrightarrow> theta_node k (length vs) vs = Inr (node_text k vs)"
  by (auto simp: theta_node_def node_text_def arity_ok_def getOperands_all getOperand_def check_def
      split: option.splits)

lemma well_typed_arity: "well_typed (NonNullaryExpr k t ops d) \<Longrightarrow> arity_ok k (length ops)"
  by (cases rule: well_typed.cases)
    (auto simp: arity_ok_def arith_kinds_def bv_kinds_def compare_kinds_def bv_compare_kinds_def)

lemma printThetaExpr_text:
  assumes "well_typed e"
  shows "printThetaExpr names e = Some (Inr (theta_text names e))"
proof -
  have "walk_rec (theta_visit names) e = Inr (theta_text names e)" using assms
  proof (induction e rule: expr.induct)
    case (NonNullaryExpr k t ops d)
    have "\<forall>x \<in> set ops. well_typed x" using well_typed_operands [OF NonNullaryExpr.prems] .
    then have "res_map (walk_rec (theta_visit names)) ops = Inr (map (theta_text names) ops)"
      using NonNullaryExpr.IH by (simp add: res_map_eq_Inr list_all2_map2 list_all2_same)
    moreover have "theta_node k (length ops) (map (theta_text names) ops) = Inr (node_text k (map (theta_text names) ops))"
      using theta_node_text [of k "map (theta_text names) ops"] well_typed_arity [OF NonNullaryExpr.prems] by simp
    ultimately show ?case by simp
  qed simp_all
  then show ?thesis
    using theta_printer.walk_correct [OF built_kinds_ok [OF assms], where s = "()" and names = names] by (simp add: printThetaExpr_def)
qed

section \<open>Tokens\<close>

definition is_token_char :: "char \<Rightarrow> bool" where
  "is_token_char c \<longleftrightarrow> is_word_char c \<or> c = CHR ''-'' \<or> c = CHR ''%''"

definition is_digit :: "char \<Rightarrow> bool" where
  "is_digit c \<longleftrightarrow> (48 :: nat) \<le> of_char c \<and> of_char c \<le> (57 :: nat)"

text \<open>What may follow an expression.\<close>

definition closed_by :: "string \<Rightarrow> bool" where
  "closed_by r \<longleftrightarrow> r = [] \<or> hd r \<in> {CHR '' '', CHR '')'', CHR '']''}"

lemma delimiters: "\<not> is_token_char (CHR '' '')" "\<not> is_token_char (CHR '')'')" "\<not> is_token_char (CHR '']'')" "\<not> is_token_char (CHR ''('')"
  by (simp_all add: is_token_char_def is_word_char_def)

lemma digit_token: "is_digit c \<Longrightarrow> is_token_char c"
  by (auto simp: is_digit_def is_token_char_def is_word_char_def)

lemma token_end:
  assumes "list_all is_token_char a" and "list_all is_token_char b" and "a @ r = b @ r'" and "closed_by r" "closed_by r'"
  shows "a = b \<and> r = r'"
proof -
  have take: "takeWhile is_token_char (x @ y) = x" if "list_all is_token_char x" "closed_by y" for x y
    using that delimiters by (cases y) (auto simp: closed_by_def list_all_iff)
  have "a = b" using take [OF assms(1,4)] take [OF assms(2,5)] assms(3) by simp
  then show ?thesis using assms(3) by simp
qed

lemma dec_digits_digits: "dec_digits n \<noteq> [] \<and> list_all is_digit (dec_digits n)"
proof (induction n rule: dec_digits.induct)
  case (1 n)
  have d: "is_digit (char_of (48 + m))" if "m < 10" for m :: nat using that by (simp add: is_digit_def digit_value)
  show ?case
  proof (cases "n < 10")
    case True
    then show ?thesis using d by (subst (1 2) dec_digits.simps) simp
  next
    case False
    then show ?thesis using 1 d [of "n mod 10"] by (subst (1 2) dec_digits.simps) simp
  qed
qed

lemma minus_not_digit: "\<not> is_digit (CHR ''-'')" "\<not> is_digit (CHR ''%'')"
  by (simp_all add: is_digit_def)

lemma int_text_inj: "int_text v = int_text w \<longleftrightarrow> v = w"
proof
  assume eq: "int_text v = int_text w"
  have ne: "CHR ''-'' # x \<noteq> dec_digits n" for x n using dec_digits_digits [of n] minus_not_digit by (cases "dec_digits n") auto
  show "v = w"
  proof (cases "v < 0"; cases "w < 0")
    show "v = w" if "v < 0" "w < 0" using eq that by (simp add: int_text_def)
    show "v = w" if "v < 0" "\<not> w < 0" using eq that ne by (simp add: int_text_def)
    show "v = w" if "\<not> v < 0" "w < 0" using eq that ne by (simp add: int_text_def) metis
    show "v = w" if "\<not> v < 0" "\<not> w < 0" using eq that by (simp add: int_text_def)
  qed
qed simp

lemma int_text_tokens: "int_text v \<noteq> [] \<and> list_all is_token_char (int_text v) \<and> CHR ''%'' \<notin> set (int_text v)"
proof -
  note d = dec_digits_digits
  have "list_all is_token_char (dec_digits n) \<and> CHR ''%'' \<notin> set (dec_digits n)" for n
    using d [of n] digit_token minus_not_digit by (auto simp: list_all_iff)
  then show ?thesis using d by (auto simp: int_text_def is_token_char_def)
qed

section \<open>Supported expressions\<close>

fun supported :: "expr \<Rightarrow> bool" where
  "supported (LiteralExpr l) = (case l of IntLiteral v \<Rightarrow> True | BoolLiteral b \<Rightarrow> True | RealLiteral n d \<Rightarrow> True | _ \<Rightarrow> False)"
| "supported (VarRefExpr v) = True"
| "supported (UndefExpr t) = False"
| "supported (NonNullaryExpr k t ops d) = ((theta_multiary k \<noteq> None \<and> 2 \<le> length ops
     \<or> theta_infix k \<noteq> None \<or> k \<in> {NotK, Select, ArrayRead, ArrayWrite}) \<and> list_all supported ops)"

text \<open>The names that are printed for the variables.\<close>

definition readable :: "string \<Rightarrow> bool" where
  "readable n \<longleftrightarrow> n \<noteq> [] \<and> list_all is_word_char n \<and> n \<notin> set ThetaKeywords \<and> \<not> is_digit (hd n)"

definition readable_names :: "(variable \<Rightarrow> string) \<Rightarrow> variable set \<Rightarrow> bool" where
  "readable_names names V \<longleftrightarrow> (\<forall>v \<in> V. readable (names v)) \<and> inj_on names V"

text \<open>An expression whose text is a single token.\<close>

fun is_token :: "expr \<Rightarrow> bool" where
  "is_token (LiteralExpr (IntLiteral v)) = (0 \<le> v)"
| "is_token (LiteralExpr l) = True"
| "is_token (VarRefExpr v) = True"
| "is_token (UndefExpr t) = True"
| "is_token (NonNullaryExpr k t ops d) = False"

lemma token_text:
  assumes "supported e" and "is_token e" and "readable_names names V" and "vars e \<subseteq> V"
  shows "theta_text names e \<noteq> [] \<and> list_all is_token_char (theta_text names e) \<and> theta_text names e \<notin> {''not'', ''if''}
    \<and> hd (theta_text names e) \<noteq> CHR ''('' \<and> (hd (theta_text names e) = CHR ''-'' \<longrightarrow> CHR ''%'' \<in> set (theta_text names e))"
proof (cases e)
  case (LiteralExpr l)
  have d: "is_digit (hd (dec_digits n)) \<and> dec_digits n \<noteq> []" for n using dec_digits_digits [of n] by (cases "dec_digits n") auto
  have "hd (dec_digits n) \<noteq> c" if "\<not> is_digit c" for n c using d that by metis
  note h = this [of "CHR ''n''"] this [of "CHR ''i''"] this [of "CHR ''-''"] this [of "CHR ''(''"]
  have i: "int_text v \<noteq> s" if "hd s \<in> {CHR ''n'', CHR ''i''}" for v s
    using that h(1,2) by (auto simp: int_text_def is_digit_def)
  have o: "hd (int_text v) \<noteq> CHR ''(''" for v using h(4) by (simp add: int_text_def is_digit_def)
  have r: "hd (int_text n @ x) = hd (int_text n)" for n x using int_text_tokens [of n] by simp
  show ?thesis
  proof (cases l)
    case (BoolLiteral b)
    then show ?thesis by (simp add: LiteralExpr is_token_char_def is_word_char_def)
  next
    case (IntLiteral v)
    then have "int_text v = dec_digits (nat v)" "\<not> v < 0" using assms(2) LiteralExpr by (simp_all add: int_text_def)
    then show ?thesis using int_text_tokens [of v] h(3) i [of "''not''" v] i [of "''if''" v] o [of v]
      by (simp add: LiteralExpr IntLiteral is_digit_def)
  next
    case (RealLiteral n m)
    have "int_text n @ ''%'' @ int_text m \<noteq> s" if "CHR ''%'' \<notin> set s" for s using that by auto
    then show ?thesis using int_text_tokens [of n] int_text_tokens [of m] o [of n]
      by (auto simp: LiteralExpr RealLiteral is_token_char_def)
  qed (use assms(1) LiteralExpr in simp_all)
next
  case (VarRefExpr v)
  then have n: "readable (names v)" using assms(3,4) by (simp add: readable_names_def)
  then have c: "names v \<noteq> []" "list_all is_word_char (names v)" "names v \<notin> set ThetaKeywords" by (simp_all add: readable_def)
  then have "hd (names v) \<noteq> CHR ''(''" "hd (names v) \<noteq> CHR ''-''" by (cases "names v"; auto simp: is_word_char_def)+
  moreover have "list_all is_token_char (names v)" using c(2) by (simp add: list_all_iff is_token_char_def)
  moreover have "names v \<notin> {''not'', ''if''}" using c(3) by (auto simp: ThetaKeywords_def)
  ultimately show ?thesis using c(1) by (simp add: VarRefExpr)
qed (use assms in simp_all)

lemma token_text_inj:
  assumes "supported e" "supported e'" and "is_token e" "is_token e'" and "readable_names names V" and "vars e \<subseteq> V" "vars e' \<subseteq> V"
    and "theta_text names e = theta_text names e'"
  shows "e = e'"
proof -
  have dig: "is_digit (hd (dec_digits n))" for n using dec_digits_digits [of n] by (cases "dec_digits n") auto
  have name: "names v \<noteq> theta_literal l" if "v \<in> V" "supported (LiteralExpr l)" "is_token (LiteralExpr l)" for v l
  proof -
    have n: "readable (names v)" using assms(5) that(1) by (simp add: readable_names_def)
    show ?thesis
    proof (cases l)
      case (BoolLiteral b)
      then show ?thesis using n by (auto simp: readable_def ThetaKeywords_def)
    next
      case (IntLiteral i)
      then show ?thesis using n dig [of "nat i"] that(3) by (auto simp: readable_def int_text_def)
    next
      case (RealLiteral a b)
      have "\<not> is_word_char (CHR ''%'')" by (simp add: is_word_char_def)
      then show ?thesis using n by (auto simp: RealLiteral readable_def list_all_iff)
    qed (use that(2) in simp_all)
  qed
  have split: "a = c \<and> b = d" if "int_text a @ CHR ''%'' # int_text b = int_text c @ CHR ''%'' # int_text d" for a b c d
  proof -
    have "takeWhile (\<lambda>x. x \<noteq> CHR ''%'') (int_text x @ CHR ''%'' # y) = int_text x" for x y
      using int_text_tokens [of x] by (subst takeWhile_append2) auto
    then have "int_text a = int_text c" using that by metis
    then show ?thesis using that int_text_inj by auto
  qed
  have lit: "l = m" if "theta_literal l = theta_literal m" "supported (LiteralExpr l)" "supported (LiteralExpr m)"
      "is_token (LiteralExpr l)" "is_token (LiteralExpr m)" for l m
  proof -
    have p: "CHR ''%'' \<notin> set (int_text i)" for i using int_text_tokens by blast
    have q: "int_text a @ CHR ''%'' # b \<noteq> int_text i" for a b i using p [of i] by (metis in_set_conv_decomp)
    have "dec_digits n \<noteq> c # s" if "\<not> is_digit c" for n c s using dig [of n] that by auto
    then have t: "int_text i \<noteq> ''true''" "int_text i \<noteq> ''false''" for i by (auto simp: int_text_def is_digit_def)
    have u: "int_text a @ CHR ''%'' # b \<noteq> s" if "CHR ''%'' \<notin> set s" for a b s using that by auto
    note tne = t [symmetric] u [of "''true''", symmetric] u [of "''false''", symmetric] u [of "''true''"] u [of "''false''"]
    show ?thesis
    proof (cases l)
      case l: (BoolLiteral b)
      then show ?thesis using that by (cases m) (simp_all add: t tne split: if_splits)
    next
      case l: (IntLiteral i)
      then show ?thesis using that by (cases m) (simp_all add: t q q [symmetric] int_text_inj split: if_splits)
    next
      case l: (RealLiteral a b)
      then show ?thesis using that split [of a b] by (cases m) (simp_all add: tne q split: if_splits)
    qed (use that(2) in simp_all)
  qed
  show ?thesis
  proof (cases e)
    case (LiteralExpr l)
    show ?thesis
    proof (cases e')
      case m: (LiteralExpr m)
      then show ?thesis using assms lit [of l m] LiteralExpr by simp
    next
      case v: (VarRefExpr v)
      then have "v \<in> V" "names v \<noteq> []" using assms(5,7) by (auto simp: readable_names_def readable_def)
      then show ?thesis using name [of v l] assms(1,3,8) LiteralExpr v by simp
    qed (use assms in simp_all)
  next
    case (VarRefExpr v)
    then have v: "v \<in> V" "names v \<noteq> []" using assms(5,6) by (auto simp: readable_names_def readable_def)
    show ?thesis
    proof (cases e')
      case l: (LiteralExpr l)
      then show ?thesis using name [OF v(1), of l] assms(2,4,8) v(2) VarRefExpr by simp
    next
      case w: (VarRefExpr w)
      then have "w \<in> V" "names w \<noteq> []" using assms(5,7) by (auto simp: readable_names_def readable_def)
      then show ?thesis using v assms(5,8) VarRefExpr w by (auto simp: readable_names_def inj_on_def)
    qed (use assms in simp_all)
  qed (use assms in simp_all)
qed

section \<open>Compound texts\<close>

text \<open>The text between the opening parenthesis and the first operand, the text before each of the other operands,
  and the end.\<close>

definition lead_text :: "expr_kind \<Rightarrow> string" where
  "lead_text k = (if k = NotK then ''not '' else if k = Select then ''if '' else [])"

fun separators :: "expr_kind \<Rightarrow> nat \<Rightarrow> string list" where
  "separators Select n = ['' then '', '' else '']"
| "separators ArrayRead n = ['')['']"
| "separators ArrayWrite n = ['')['', '' <- '']"
| "separators k n = (case theta_multiary k of Some s \<Rightarrow> replicate (n - 1) s
     | None \<Rightarrow> (case theta_infix k of Some s \<Rightarrow> [s] | None \<Rightarrow> []))"

definition ending :: "expr_kind \<Rightarrow> string" where
  "ending k = (if k \<in> {ArrayRead, ArrayWrite} then '']'' else '')'')"

definition rest_text :: "string list \<Rightarrow> string list \<Rightarrow> string" where
  "rest_text seps ts = concat (map2 (@) seps ts)"

definition all_separators :: "string list" where
  "all_separators = ['' then '', '' else '', '')['', '' <- '', '' and '', '' or '', '' + '', '' - '', '' * '', '' / '', '' mod '', '' imply '',
     '' = '', '' /= '', '' < '', '' <= '', '' > '', '' >= '']"

lemma rest_text_simps [simp]: "rest_text [] ts = []" "rest_text (s # seps) (t # ts) = s @ t @ rest_text seps ts"
  by (simp_all add: rest_text_def)

lemma join_rest: "join_print (x # xs) sep = x @ rest_text (replicate (length xs) sep) xs"
  by (induction xs arbitrary: x) auto

definition compound :: "expr_kind \<Rightarrow> nat \<Rightarrow> bool" where
  "compound k n \<longleftrightarrow> (theta_multiary k \<noteq> None \<and> 2 \<le> n) \<or> (theta_infix k \<noteq> None \<and> n = 2) \<or> (k = NotK \<and> n = 1)
     \<or> (k = Select \<and> n = 3) \<or> (k = ArrayRead \<and> n = 2) \<or> (k = ArrayWrite \<and> n = 3)"

lemma compound_length: "compound k n \<Longrightarrow> length (separators k n) = n - 1 \<and> 1 \<le> n"
  by (cases k) (auto simp: compound_def)

lemma compound_separators: "compound k n \<Longrightarrow> set (separators k n) \<subseteq> set all_separators"
  by (cases k) (auto simp: compound_def all_separators_def)

lemma list_of_length:
  "length xs = Suc 0 \<longleftrightarrow> (\<exists>x. xs = [x])" "length xs = 2 \<longleftrightarrow> (\<exists>x y. xs = [x, y])" "length xs = 3 \<longleftrightarrow> (\<exists>x y z. xs = [x, y, z])"
  by (auto simp: length_Suc_conv numeral_2_eq_2 numeral_3_eq_3)

lemma compound_text:
  assumes "compound k (length (t # ts))"
  shows "node_text k (t # ts) = ''('' @ lead_text k @ t @ rest_text (separators k (length (t # ts))) ts @ ending k"
proof (cases "theta_multiary k")
  case (Some s)
  then have "k = And \<or> k = Or" by (cases k) auto
  then show ?thesis using Some by (auto simp: node_text_def lead_text_def ending_def join_rest)
next
  case None
  have n: "length ts = 0 \<Longrightarrow> ts = []" "length ts = 1 \<Longrightarrow> \<exists>u. ts = [u]" "length ts = 2 \<Longrightarrow> \<exists>u v. ts = [u, v]"
    by (auto simp: list_of_length)
  show ?thesis using assms None n
    by (cases k) (auto simp: compound_def node_text_def lead_text_def ending_def)
qed

text \<open>A separator can be told from the text after it and from an end.\<close>

lemma separator_unique:
  "s \<in> set all_separators \<Longrightarrow> s' \<in> set all_separators \<Longrightarrow> s @ x = s' @ y \<Longrightarrow> s = s' \<and> x = y"
  unfolding all_separators_def list.set insert_iff by (elim disjE) simp_all

lemma separator_not_end:
  "s \<in> set all_separators \<Longrightarrow> closed_by r \<Longrightarrow> s @ x \<noteq> ending k @ r"
  by (auto simp: all_separators_def ending_def closed_by_def)

lemma separator_closes: "s \<in> set all_separators \<Longrightarrow> closed_by (s @ x)" "closed_by (ending k @ x)"
  by (auto simp: all_separators_def ending_def closed_by_def)

text \<open>What reading the text of the operands needs of each of them.\<close>

definition unambiguous :: "(expr \<Rightarrow> string) \<Rightarrow> expr \<Rightarrow> expr set \<Rightarrow> bool" where
  "unambiguous T e S \<longleftrightarrow> (\<forall>e' r r'. e' \<in> S \<longrightarrow> closed_by r \<longrightarrow> closed_by r' \<longrightarrow> T e @ r = T e' @ r' \<longrightarrow> e = e' \<and> r = r')"

lemma rest_closes: "length seps = length ts \<Longrightarrow> set seps \<subseteq> set all_separators \<Longrightarrow> closed_by (rest_text seps ts @ ending k @ r)"
  using separator_closes by (cases seps; cases ts) auto

lemma rest_unambiguous:
  assumes "length seps = length es" "length seps' = length es'" and "set seps \<subseteq> set all_separators" "set seps' \<subseteq> set all_separators"
    and "\<And>e. e \<in> set es \<Longrightarrow> unambiguous T e S" and "set es' \<subseteq> S" and "closed_by r" "closed_by r'"
    and "rest_text seps (map T es) @ ending k @ r = rest_text seps' (map T es') @ ending k' @ r'"
  shows "seps = seps' \<and> es = es' \<and> ending k @ r = ending k' @ r'"
  using assms
proof (induction seps arbitrary: es seps' es')
  case Nil
  then show ?case
  proof (cases seps')
    case (Cons s ss)
    then obtain e' f' where "es' = e' # f'" using Nil.prems(2) by (cases es') auto
    then have "s @ T e' @ rest_text ss (map T f') @ ending k' @ r' = ending k @ r" using Nil.prems(1,9) Cons by simp
    then show ?thesis using separator_not_end [of s r _ k] Nil.prems(4,7) Cons by force
  qed simp
next
  case (Cons s ss)
  then obtain e f where es: "es = e # f" by (cases es) auto
  note eq = Cons.prems(9)
  show ?case
  proof (cases seps')
    case Nil
    then have "s @ T e @ rest_text ss (map T f) @ ending k @ r = ending k' @ r'" using eq es Cons.prems(2) by simp
    then show ?thesis using separator_not_end [of s r' _ k'] Cons.prems(3,8) by force
  next
    case c: (Cons s' ss')
    then obtain e' f' where es': "es' = e' # f'" using Cons.prems(2) by (cases es') auto
    let ?R = "rest_text ss (map T f) @ ending k @ r" and ?R' = "rest_text ss' (map T f') @ ending k' @ r'"
    have "s @ T e @ ?R = s' @ T e' @ ?R'" using eq by (simp add: es es' c)
    then have s: "s = s'" and t: "T e @ ?R = T e' @ ?R'"
      using separator_unique [of s s' "T e @ ?R" "T e' @ ?R'"] Cons.prems(3,4) c by auto
    have "closed_by ?R" by (rule rest_closes) (use Cons.prems(1,3) es in auto)
    moreover have "closed_by ?R'" by (rule rest_closes) (use Cons.prems(2,4) es' c in auto)
    ultimately have e: "e = e'" and R: "?R = ?R'"
      using Cons.prems(5) [of e] Cons.prems(6) es es' t unfolding unambiguous_def by auto
    have "ss = ss' \<and> f = f' \<and> ending k @ r = ending k' @ r'"
      by (rule Cons.IH) (use Cons.prems R es es' c in auto)
    then show ?thesis using s e es es' c by simp
  qed
qed

text \<open>The kind and the type of a node can be told from its text and its operands.\<close>

definition operator_table :: "(string \<times> expr_kind) list" where
  "operator_table = [('' and '', And), ('' or '', Or), ('' + '', Add), ('' - '', Sub), ('' * '', Mul), ('' / '', Div), ('' mod '', Mod),
     ('' imply '', Imply), ('' = '', Eq), ('' /= '', NotEq), ('' < '', Lt), ('' <= '', LtEq), ('' > '', Gt), ('' >= '', GtEq)]"

definition kind_of_text :: "string \<Rightarrow> string list \<Rightarrow> string \<Rightarrow> expr_kind option" where
  "kind_of_text lead seps final = (if lead = ''not '' then Some NotK else if lead = ''if '' then Some Select
     else if final = '']'' then Some (if length seps = 1 then ArrayRead else ArrayWrite)
     else map_of operator_table (hd seps))"

lemma kind_of_compound: "compound k n \<Longrightarrow> kind_of_text (lead_text k) (separators k n) (ending k) = Some k"
  by (cases k) (auto simp: compound_def kind_of_text_def lead_text_def ending_def operator_table_def)

definition node_type :: "expr_kind \<Rightarrow> expr list \<Rightarrow> gtype" where
  "node_type k ops = (if k = ArrayRead then (case getType (hd ops) of ArrayType i e \<Rightarrow> e | t \<Rightarrow> t)
     else if k = Select then getType (ops ! 1)
     else if k \<in> {Add, Sub, Mul, Div, Mod, ArrayWrite} then getType (hd ops) else BoolType)"

lemma compound_type:
  assumes "well_typed (NonNullaryExpr k t ops d)" and "compound k (length ops)"
  shows "d = NoData \<and> t = node_type k ops"
  using assms
  by (cases rule: well_typed.cases)
    (auto simp: node_type_def compound_def arith_kinds_def bv_kinds_def compare_kinds_def bv_compare_kinds_def)

lemma supported_compound:
  assumes "well_typed (NonNullaryExpr k t ops d)" and "supported (NonNullaryExpr k t ops d)"
  shows "compound k (length ops)"
  using assms
  by (cases rule: well_typed.cases)
    (auto simp: compound_def arith_kinds_def bv_kinds_def compare_kinds_def bv_compare_kinds_def)

section \<open>The text determines the expression\<close>

definition printable_exprs :: "variable set \<Rightarrow> expr set" where
  "printable_exprs V = {e. supported e \<and> well_typed e \<and> vars e \<subseteq> V}"

lemma printable_operands:
  "NonNullaryExpr k t ops d \<in> printable_exprs V \<Longrightarrow> set ops \<subseteq> printable_exprs V"
  using well_typed_operands by (auto simp: printable_exprs_def list_all_iff)

lemma neg_text: "v < 0 \<Longrightarrow> theta_text names (LiteralExpr (IntLiteral v)) = ''('' @ int_text v @ '')''"
  by simp

lemma printable_cases:
  assumes "e \<in> printable_exprs V"
  obtains (token) "is_token e"
    | (negative) v where "e = LiteralExpr (IntLiteral v)" "v < 0"
    | (compound) k x xs where "e = NonNullaryExpr k (node_type k (x # xs)) (x # xs) NoData" "compound k (length (x # xs))"
        "\<And>names. theta_text names e = ''('' @ lead_text k @ theta_text names x
           @ rest_text (separators k (length (x # xs))) (map (theta_text names) xs) @ ending k"
proof (cases e)
  case (NonNullaryExpr k t ops d)
  then have wt: "well_typed (NonNullaryExpr k t ops d)" "supported (NonNullaryExpr k t ops d)" using assms by (simp_all add: printable_exprs_def)
  note c = supported_compound [OF wt]
  note ty = compound_type [OF wt(1) c]
  from compound_length [OF c] obtain x xs where ops: "ops = x # xs" by (cases ops) auto
  have "compound k (length (theta_text names x # map (theta_text names) xs))" for names using c ops by simp
  from compound_text [OF this] have "theta_text names e = ''('' @ lead_text k @ theta_text names x
      @ rest_text (separators k (length (x # xs))) (map (theta_text names) xs) @ ending k" for names
    by (simp add: NonNullaryExpr ops)
  then show thesis using ty c by (intro compound [of k x xs]) (simp_all add: NonNullaryExpr ops)
next
  case (LiteralExpr l)
  show thesis
  proof (cases "is_token e")
    case False
    then obtain v where "l = IntLiteral v" "v < 0" using LiteralExpr by (cases l) auto
    then show thesis using negative LiteralExpr by blast
  qed (rule token)
qed (use token in auto)

lemma kind_of_compound_unique:
  assumes "compound k n" "compound k' n'" and "lead_text k = lead_text k'" "separators k n = separators k' n'" "ending k = ending k'"
  shows "k = k'"
  using kind_of_compound [OF assms(1)] unfolding assms(3-5) kind_of_compound [OF assms(2)] by simp

lemma lead_cases: "lead_text k = ''not '' \<or> lead_text k = ''if '' \<or> lead_text k = []"
  by (simp add: lead_text_def)

text \<open>A text does not start like the lead of another one.\<close>

lemma text_not_lead:
  assumes "e \<in> printable_exprs V" and "readable_names names V" and "w \<in> {''not'', ''if''}" and "closed_by r"
  shows "theta_text names e @ r \<noteq> w @ CHR '' '' # x"
proof
  assume eq: "theta_text names e @ r = w @ CHR '' '' # x"
  show False using assms(1)
  proof (cases rule: printable_cases)
    case token
    then have t: "list_all is_token_char (theta_text names e)" "theta_text names e \<notin> {''not'', ''if''}"
      using token_text [of e names V] assms(1,2) by (simp_all add: printable_exprs_def)
    have "list_all is_token_char w" using assms(3) by (auto simp: is_token_char_def is_word_char_def)
    then have "theta_text names e = w" using token_end [OF t(1) _ eq assms(4)] by (simp add: closed_by_def)
    then show False using t(2) assms(3) by simp
  next
    case (negative v)
    then show False using eq assms(3) by auto
  next
    case (compound k y ys)
    then show False using eq assms(3) by auto
  qed
qed

lemma text_not_negative:
  assumes "e \<in> printable_exprs V" and "readable_names names V" and "v < 0" and "closed_by r"
  shows "theta_text names e @ r \<noteq> int_text v @ CHR '')'' # x"
proof
  assume eq: "theta_text names e @ r = int_text v @ CHR '')'' # x"
  have m: "hd (int_text v) = CHR ''-''" "int_text v \<noteq> []" using assms(3) by (simp_all add: int_text_def)
  show False using assms(1)
  proof (cases rule: printable_cases)
    case token
    then have t: "list_all is_token_char (theta_text names e)"
        "hd (theta_text names e) = CHR ''-'' \<longrightarrow> CHR ''%'' \<in> set (theta_text names e)"
      using token_text [of e names V] assms(1,2) by (simp_all add: printable_exprs_def)
    have "theta_text names e = int_text v" using token_end [OF t(1) _ eq assms(4)] int_text_tokens [of v] by (simp add: closed_by_def)
    then show False using t(2) m int_text_tokens [of v] by simp
  next
    case (negative w)
    then have "''('' @ int_text w @ '')'' @ r = int_text v @ CHR '')'' # x" using eq by simp
    then show False using m by (cases "int_text v") auto
  next
    case (compound k y ys)
    then show False using eq m by (cases "int_text v") auto
  qed
qed

lemma lead_unique:
  assumes "e \<in> printable_exprs V" "e' \<in> printable_exprs V" and "readable_names names V" and "closed_by r" "closed_by r'"
    and "lead_text k @ theta_text names e @ r = lead_text k' @ theta_text names e' @ r'"
  shows "lead_text k = lead_text k'"
proof -
  have "''not '' = ''not'' @ CHR '' '' # []" "''if '' = ''if'' @ CHR '' '' # []" by simp_all
  then show ?thesis
    using lead_cases [of k] lead_cases [of k'] assms(6)
      text_not_lead [OF assms(1,3) _ assms(4), of "''not''"] text_not_lead [OF assms(1,3) _ assms(4), of "''if''"]
      text_not_lead [OF assms(2,3) _ assms(5), of "''not''"] text_not_lead [OF assms(2,3) _ assms(5), of "''if''"]
    by (elim disjE) (simp_all, metis+)
qed

lemma text_head:
  assumes "e \<in> printable_exprs V" and "readable_names names V"
  shows "is_token e \<Longrightarrow> theta_text names e @ r \<noteq> CHR ''('' # x" and "\<not> is_token e \<Longrightarrow> hd (theta_text names e) = CHR ''(''"
proof -
  show "theta_text names e @ r \<noteq> CHR ''('' # x" if "is_token e"
    using token_text [of e names V] that assms by (cases "theta_text names e") (auto simp: printable_exprs_def)
  show "hd (theta_text names e) = CHR ''(''" if "\<not> is_token e"
    using assms(1) by (cases rule: printable_cases) (use that in simp_all)
qed

lemma compound_unambiguous:
  assumes IH: "\<And>y. y \<in> set (x # xs) \<Longrightarrow> unambiguous (theta_text names) y (printable_exprs V)"
    and P: "set (x # xs) \<subseteq> printable_exprs V" "set (x' # xs') \<subseteq> printable_exprs V" and names: "readable_names names V"
    and c: "compound k (length (x # xs))" "compound k' (length (x' # xs'))" and r: "closed_by r" "closed_by r'"
    and eq: "lead_text k @ theta_text names x @ rest_text (separators k (length (x # xs))) (map (theta_text names) xs) @ ending k @ r
       = lead_text k' @ theta_text names x' @ rest_text (separators k' (length (x' # xs'))) (map (theta_text names) xs') @ ending k' @ r'"
  shows "k = k' \<and> x # xs = x' # xs' \<and> r = r'"
proof -
  let ?s = "separators k (length (x # xs))" and ?s' = "separators k' (length (x' # xs'))"
  have len: "length ?s = length xs" "length ?s' = length xs'" using compound_length [OF c(1)] compound_length [OF c(2)] by simp_all
  note seps = compound_separators [OF c(1)] compound_separators [OF c(2)]
  let ?R = "rest_text ?s (map (theta_text names) xs) @ ending k @ r"
  let ?R' = "rest_text ?s' (map (theta_text names) xs') @ ending k' @ r'"
  have cl: "closed_by ?R" "closed_by ?R'" using len seps by (intro rest_closes; simp)+
  have x: "x \<in> printable_exprs V" "x' \<in> printable_exprs V" using P by simp_all
  have lead: "lead_text k = lead_text k'" by (rule lead_unique [OF x names cl]) (use eq in simp)
  then have "theta_text names x @ ?R = theta_text names x' @ ?R'" using eq by simp
  then have x': "x = x'" and R: "?R = ?R'" using IH [of x] x cl unfolding unambiguous_def by auto
  have rest: "?s = ?s' \<and> xs = xs' \<and> ending k @ r = ending k' @ r'"
    by (rule rest_unambiguous [OF len seps _ _ r R]) (use IH P in auto)
  then have "ending k = ending k'" "r = r'" by (auto simp: ending_def split: if_splits)
  moreover have "k = k'" using kind_of_compound_unique [OF c lead] rest calculation(1) by blast
  ultimately show ?thesis using x' rest by simp
qed

lemma printable_unambiguous:
  assumes "readable_names names V"
  shows "e \<in> printable_exprs V \<Longrightarrow> unambiguous (theta_text names) e (printable_exprs V)"
proof (induction e rule: measure_induct_rule [where f = size])
  case (less e)
  note names = assms
  show ?case unfolding unambiguous_def
  proof (intro allI impI)
    fix e' r r'
    assume e': "e' \<in> printable_exprs V" and r: "closed_by r" "closed_by r'" and eq: "theta_text names e @ r = theta_text names e' @ r'"
    have nonempty: "theta_text names a \<noteq> []" if "a \<in> printable_exprs V" for a
      using that
    proof (cases rule: printable_cases)
      case token
      then show ?thesis using token_text [of a names V] that names by (simp add: printable_exprs_def)
    qed simp_all
    have same: "is_token e \<longleftrightarrow> is_token e'"
      using text_head [OF less.prems names] text_head [OF e' names] eq nonempty [OF less.prems] nonempty [OF e']
      by (metis append_Cons list.collapse)
    show "e = e' \<and> r = r'" using less.prems
    proof (cases rule: printable_cases)
      case token
      then have "is_token e'" using same by simp
      with token have "theta_text names e = theta_text names e' \<and> r = r'"
        using token_end [OF _ _ eq r] token_text [of e names V] token_text [of e' names V] less.prems e' names
        by (simp add: printable_exprs_def)
      then show ?thesis using token_text_inj [of e e' names V] token \<open>is_token e'\<close> less.prems e' names by (simp add: printable_exprs_def)
    next
      case (negative v)
      note n = this
      show ?thesis using e'
      proof (cases rule: printable_cases)
        case token
        then show ?thesis using same n by simp
      next
        case (negative w)
        then have "int_text v @ ('')'' @ r) = int_text w @ ('')'' @ r')" using eq n by simp
        then have "int_text v = int_text w \<and> '')'' @ r = '')'' @ r'"
          using token_end [of "int_text v" "int_text w" "'')'' @ r" "'')'' @ r'"] int_text_tokens by (simp add: closed_by_def)
        then show ?thesis using int_text_inj n negative by simp
      next
        case (compound k x xs)
        then have "set (x # xs) \<subseteq> printable_exprs V" using printable_operands e' by blast
        then have x: "x \<in> printable_exprs V" by simp
        let ?R = "rest_text (separators k (length (x # xs))) (map (theta_text names) xs) @ ending k @ r'"
        have cl: "closed_by ?R" using compound_length [OF compound(2)] compound_separators [OF compound(2)] by (intro rest_closes) simp_all
        have "lead_text k @ theta_text names x @ ?R = int_text v @ CHR '')'' # r" using eq n compound(3) by simp
        moreover have "hd (int_text v) = CHR ''-''" "int_text v \<noteq> []" using n by (simp_all add: int_text_def)
        ultimately have "lead_text k = []" "theta_text names x @ ?R = int_text v @ CHR '')'' # r"
          using lead_cases [of k] by (cases "int_text v"; auto)+
        then show ?thesis using text_not_negative [OF x names _ cl, of v r] n by simp
      qed
    next
      case (compound k x xs)
      note c = this
      have xs: "set (x # xs) \<subseteq> printable_exprs V" using printable_operands less.prems c(1) by blast
      have IH: "unambiguous (theta_text names) y (printable_exprs V)" if "y \<in> set (x # xs)" for y
      proof (rule less.IH)
        show "size y < size e" using that size_list_estimation' [of y "x # xs" "size y" size] c(1) by auto
        show "y \<in> printable_exprs V" using that xs by blast
      qed
      show ?thesis using e'
      proof (cases rule: printable_cases)
        case token
        then show ?thesis using same c by simp
      next
        case (negative v)
        let ?R = "rest_text (separators k (length (x # xs))) (map (theta_text names) xs) @ ending k @ r"
        have cl: "closed_by ?R" using compound_length [OF c(2)] compound_separators [OF c(2)] by (intro rest_closes) simp_all
        have "lead_text k @ theta_text names x @ ?R = int_text v @ CHR '')'' # r'" using eq negative c(3) by simp
        moreover have "hd (int_text v) = CHR ''-''" "int_text v \<noteq> []" using negative by (simp_all add: int_text_def)
        ultimately have "lead_text k = []" "theta_text names x @ ?R = int_text v @ CHR '')'' # r'"
          using lead_cases [of k] by (cases "int_text v"; auto)+
        then show ?thesis using text_not_negative [OF _ names _ cl, of x v r'] negative xs by simp
      next
        case (compound k' x' xs')
        have "set (x' # xs') \<subseteq> printable_exprs V" using printable_operands e' compound(1) by blast
        from compound_unambiguous [OF IH xs this names c(2) compound(2) r] show ?thesis
          using eq c(1,3) compound(1,3) by simp
      qed
    qed
  qed
qed

text \<open>
  C18: the text of an expression can be read in one way only. For names as the generator makes them, readable and
  different for different variables, two supported expressions with the same text are the same expression; and whatever the names are, the
  printer ends without failure on every well-typed expression. Connectives of a single operand are not supported: the text of both
  is the operand in parentheses.
\<close>

theorem theta_text_unambiguous:
  assumes "readable_names names V" and "e \<in> printable_exprs V" and "e' \<in> printable_exprs V"
  shows "(\<exists>s s'. printThetaExpr names e = Some (Inr s) \<and> printThetaExpr names e' = Some (Inr s') \<and> (s = s' \<longleftrightarrow> e = e'))
    \<and> (\<forall>x ns. well_typed x \<longrightarrow> (\<exists>s. printThetaExpr ns x = Some (Inr s)))"
proof -
  have wt: "well_typed e" "well_typed e'" using assms(2,3) by (simp_all add: printable_exprs_def)
  have "e = e'" if "theta_text names e = theta_text names e'"
    using printable_unambiguous [OF assms(1,2)] assms(3) that unfolding unambiguous_def by (metis append_Nil2 closed_by_def)
  then have "\<exists>s s'. printThetaExpr names e = Some (Inr s) \<and> printThetaExpr names e' = Some (Inr s') \<and> (s = s' \<longleftrightarrow> e = e')"
    using printThetaExpr_text [OF wt(1)] printThetaExpr_text [OF wt(2)] by auto
  then show ?thesis using printThetaExpr_text by blast
qed

lemma theta_text_unambiguous_witness:
  "\<exists>s s'. printThetaExpr var_name (node Sub IntType [IntLit 0, IntLit 5]) = Some (Inr s) \<and>
     printThetaExpr var_name (IntLit (- 5)) = Some (Inr s') \<and> s \<noteq> s'"
proof -
  have "well_typed (node Sub IntType [IntLit 0, IntLit 5])" by (intro wt_arith) (auto simp: arith_kinds_def in_int64_def)
  then have "node Sub IntType [IntLit 0, IntLit 5] \<in> printable_exprs {}" by (simp add: printable_exprs_def)
  moreover have "IntLit (- 5) \<in> printable_exprs {}" by (simp add: printable_exprs_def in_int64_def)
  moreover have "readable_names var_name {}" by (simp add: readable_names_def)
  ultimately show ?thesis
    using theta_text_unambiguous [of var_name "{}" "node Sub IntType [IntLit 0, IntLit 5]" "IntLit (- 5)"] by simp
qed

end
