(* ===== verification/GazerThetaSim.thy ===== *)
theory GazerThetaSim
  imports GazerThetaText
begin

text \<open>
  The process that the generator makes of an automaton. Its names are valid, different from each other, and lead back to
  the variables and locations they stand for; its runs are the runs of the automaton, step by step.
\<close>

section \<open>Names\<close>

lemma unreserved_not_keyword: "unreserved n \<notin> set ThetaKeywords"
proof (cases "n \<in> set ThetaKeywords")
  case True
  have "\<forall>k \<in> set ThetaKeywords. CHR ''_'' \<notin> set k" by (simp add: ThetaKeywords_def)
  moreover have "CHR ''_'' \<in> set (unreserved n)" using True by (simp add: unreserved_def)
  ultimately show ?thesis by blast
qed (simp add: unreserved_def)

lemma sanitize_word: "list_all is_word_char (sanitize n)"
  by (auto simp: sanitize_def list_all_iff is_word_char_def)

lemma unreserved_word: "list_all is_word_char n \<Longrightarrow> list_all is_word_char (unreserved n)"
  by (auto simp: unreserved_def is_word_char_def)

text \<open>A valid name: the sanitised name of the variable, and digits.\<close>

definition valid_for :: "string \<Rightarrow> string \<Rightarrow> bool" where
  "valid_for n m \<longleftrightarrow> (\<exists>s. m = unreserved (sanitize n) @ s \<and> list_all is_digit s)"

lemma valid_for_word:
  assumes "valid_for n m"
  shows "list_all is_word_char m" and "m \<notin> set ThetaKeywords"
proof -
  obtain s where s: "m = unreserved (sanitize n) @ s" "list_all is_digit s" using assms by (auto simp: valid_for_def)
  have "list_all is_word_char s" using s(2) by (auto simp: list_all_iff is_digit_def is_word_char_def)
  then show "list_all is_word_char m" using s(1) unreserved_word [OF sanitize_word] by simp
  have k: "\<forall>k \<in> set ThetaKeywords. \<forall>c \<in> set k. \<not> is_digit c" by (simp add: ThetaKeywords_def is_digit_def)
  show "m \<notin> set ThetaKeywords"
  proof (cases s)
    case Nil
    then show ?thesis using s(1) unreserved_not_keyword by simp
  next
    case (Cons c cs)
    then have "is_digit c" "c \<in> set m" using s by simp_all
    then show ?thesis using k by blast
  qed
qed

lemma valid_for_readable:
  assumes "valid_for n m" and "n \<noteq> []" and "\<not> is_digit (hd n)"
  shows "readable m"
proof -
  obtain s where s: "m = unreserved (sanitize n) @ s" using assms(1) by (auto simp: valid_for_def)
  obtain c cs where n: "n = c # cs" using assms(2) by (cases n) auto
  have "\<exists>cs'. unreserved (sanitize n) = (if is_word_char c then c else CHR ''_'') # cs'" by (simp add: n unreserved_def sanitize_def)
  then have "m \<noteq> []" "\<not> is_digit (hd m)" using s assms(3) n by (auto simp: is_digit_def split: if_splits)
  then show ?thesis using valid_for_word [OF assms(1)] by (simp add: readable_def)
qed

lemma validName_total:
  assumes "finite U"
  shows "\<exists>m k. validName n (\<lambda>x. x \<notin> U) tmp = Some (m, k) \<and> m \<notin> U \<and> valid_for n m"
proof -
  let ?b = "\<lambda>(m :: string, k :: nat). \<not> (m \<notin> U)" and ?c = "\<lambda>(m :: string, k). (m @ dec_digits k, u32 (Suc k))"
  let ?s = "(unreserved (sanitize n), tmp)" and ?L = "Max (length ` U)"
  have grow: "Suc (length m) \<le> length (m @ dec_digits k)" for m k using dec_digits_digits [of k] by (cases "dec_digits k") auto
  have keep: "valid_for n (fst (?c s))" if "valid_for n (fst s)" for s
    using that dec_digits_digits [of "snd s"] by (cases s) (auto simp: valid_for_def)
  have "\<exists>t. while_option ?b ?c ?s = Some t"
  proof (rule measure_while_option_Some [where P = "\<lambda>_. True" and f = "\<lambda>s. Suc ?L - length (fst s)"])
    fix s assume "?b s"
    then have "length (fst s) \<le> ?L" using assms by (cases s) (auto intro: Max_ge)
    then show "True \<and> Suc ?L - length (fst (?c s)) < Suc ?L - length (fst s)"
      using grow [of "fst s" "snd s"] by (cases s) auto
  qed simp
  then obtain t where t: "while_option ?b ?c ?s = Some t" by blast
  have "\<not> ?b t" by (rule while_option_stop [OF t])
  moreover have "valid_for n (fst ?s)" by (simp add: valid_for_def)
  then have "valid_for n (fst t)" using while_option_rule [where P = "\<lambda>s. valid_for n (fst s)", OF _ t] keep by blast
  ultimately show ?thesis using t by (cases t) (auto simp: validName_def)
qed

section \<open>Declarations\<close>

text \<open>The names of the variables \<open>V\<close> and the way back.\<close>

definition names_ok :: "variable set \<Rightarrow> generator \<Rightarrow> bool" where
  "names_ok V g \<longleftrightarrow> dom (gVars g) = V \<and> (\<forall>n v. gNames g n = Some v \<longleftrightarrow> (\<exists>t. gVars g v = Some (n, t)))
     \<and> (\<forall>v n t. gVars g v = Some (n, t) \<longrightarrow> valid_for (var_name v) n \<and> typeName (var_type v) = Inr t)"

lemma names_okD:
  assumes "names_ok V g"
  shows "dom (gVars g) = V" and "gVars g v = Some (n, t) \<Longrightarrow> gNames g n = Some v"
    and "gVars g v = Some (n, t) \<Longrightarrow> valid_for (var_name v) n" and "gVars g v = Some (n, t) \<Longrightarrow> typeName (var_type v) = Inr t"
  using assms unfolding names_ok_def by blast+

lemma add_variable_ok:
  assumes "names_ok V g" and "finite V" and "v \<notin> V"
  shows "(\<exists>t. typeName (var_type v) = Inr t) \<Longrightarrow> \<exists>g'. add_variable v g = Inr g'"
    and "add_variable v g = Inr g' \<Longrightarrow> names_ok (insert v V) g'"
proof -
  let ?U = "fst ` ran (gVars g)"
  have none: "gVars g v = None" using assms(1,3) by (auto simp: names_ok_def)
  have "finite ?U" using assms(1,2) by (auto simp: names_ok_def finite_ran)
  then obtain m k where m: "validName (var_name v) (isValidVarName g) (mTmpCount g) = Some (m, k)" "m \<notin> ?U" "valid_for (var_name v) m"
    using validName_total [of ?U "var_name v" "mTmpCount g"] unfolding isValidVarName_def by blast
  have run: "add_variable v g = rbind (typeName (var_type v)) (\<lambda>t. Inr (g\<lparr>gVars := (gVars g)(v \<mapsto> (m, t)),
       gNames := (gNames g)(m \<mapsto> v), mTmpCount := k\<rparr>))" by (simp add: add_variable_def m(1) none returned_def)
  show "\<exists>g'. add_variable v g = Inr g'" if "\<exists>t. typeName (var_type v) = Inr t" using that run by auto
  assume "add_variable v g = Inr g'"
  then obtain t where t: "typeName (var_type v) = Inr t" "g' = g\<lparr>gVars := (gVars g)(v \<mapsto> (m, t)), gNames := (gNames g)(m \<mapsto> v), mTmpCount := k\<rparr>"
    using run by (auto simp: rbind_eq_Inr)
  have unused: "\<nexists>w s. gVars g w = Some (m, s)" using m(2) by (force simp: ran_def)
  then have fresh: "gNames g m = None" using assms(1) unfolding names_ok_def by (metis not_None_eq)
  show "names_ok (insert v V) g'" unfolding names_ok_def
  proof (intro conjI allI)
    show "dom (gVars g') = insert v V" using assms(1) by (simp add: names_ok_def t(2))
    show "gNames g' n = Some w \<longleftrightarrow> (\<exists>t. gVars g' w = Some (n, t))" for n w
      using assms(1) none fresh unused unfolding names_ok_def t(2) by (cases "n = m"; cases "w = v") auto
    show "gVars g' w = Some (n, s) \<longrightarrow> valid_for (var_name w) n \<and> typeName (var_type w) = Inr s" for w n s
      using assms(1) m(3) t(1) unfolding names_ok_def t(2) by auto
  qed
qed

lemma add_variables_ok:
  assumes "names_ok V g" and "finite V" and "distinct vs" and "set vs \<inter> V = {}"
  shows "(\<forall>v \<in> set vs. \<exists>t. typeName (var_type v) = Inr t) \<Longrightarrow> \<exists>g'. for_each add_variable vs g = Inr g'"
    and "for_each add_variable vs g = Inr g' \<Longrightarrow> names_ok (V \<union> set vs) g'"
proof -
  show "\<exists>g'. for_each add_variable vs g = Inr g'" if "\<forall>v \<in> set vs. \<exists>t. typeName (var_type v) = Inr t"
    using assms that
  proof (induction vs arbitrary: V g)
    case (Cons v vs)
    then obtain g1 where g1: "add_variable v g = Inr g1" using add_variable_ok(1) [OF Cons.prems(1,2), of v] by auto
    then have "names_ok (insert v V) g1" using add_variable_ok(2) [OF Cons.prems(1,2)] Cons.prems by auto
    then have "\<exists>g'. for_each add_variable vs g1 = Inr g'" by (rule Cons.IH) (use Cons.prems in auto)
    then show ?case using g1 by simp
  qed simp
  show "names_ok (V \<union> set vs) g'" if "for_each add_variable vs g = Inr g'"
    using assms that
  proof (induction vs arbitrary: V g)
    case (Cons v vs)
    then obtain g1 where g1: "add_variable v g = Inr g1" "for_each add_variable vs g1 = Inr g'" by (auto simp: rbind_eq_Inr)
    then have "names_ok (insert v V) g1" using add_variable_ok(2) [OF Cons.prems(1,2)] Cons.prems by auto
    then have "names_ok (insert v V \<union> set vs) g'" by (rule Cons.IH) (use Cons.prems g1 in auto)
    then show ?case by simp
  qed simp
qed

lemma names_ok_start: "names_ok {} \<lparr>gVars = Map.empty, gNames = Map.empty, mTmpCount = tmp\<rparr>"
  by (simp add: names_ok_def)

lemma canonizeName_inj:
  assumes "names_ok V g"
  shows "inj_on (canonizeName g) V" and "v \<in> V \<Longrightarrow> gNames g (canonizeName g v) = Some v"
    and "v \<in> V \<Longrightarrow> gVars g v = Some (canonizeName g v, t) \<longleftrightarrow> typeName (var_type v) = Inr t"
    and "v \<in> V \<Longrightarrow> valid_for (var_name v) (canonizeName g v)"
proof -
  have v: "\<exists>n t. gVars g v = Some (n, t) \<and> canonizeName g v = n \<and> gNames g n = Some v \<and> typeName (var_type v) = Inr t
      \<and> valid_for (var_name v) n" if "v \<in> V" for v
  proof -
    have "gVars g v \<noteq> None" using that names_okD(1) [OF assms] by (metis domIff)
    then obtain n t where nt: "gVars g v = Some (n, t)" by (cases "gVars g v") auto
    moreover note names_okD(2-4) [OF assms nt]
    ultimately show ?thesis by (simp add: canonizeName_def)
  qed
  have inverse: "gNames g (canonizeName g v) = Some v" if "v \<in> V" for v using v [OF that] by auto
  then show "gNames g (canonizeName g v) = Some v" if "v \<in> V" using that by blast
  show "inj_on (canonizeName g) V"
  proof (rule inj_onI)
    fix x y assume "x \<in> V" "y \<in> V" "canonizeName g x = canonizeName g y"
    then show "x = y" using inverse by (metis option.inject)
  qed
  show "gVars g v = Some (canonizeName g v, t) \<longleftrightarrow> typeName (var_type v) = Inr t" if "v \<in> V" using v [OF that] by auto
  show "valid_for (var_name v) (canonizeName g v)" if "v \<in> V" using v [OF that] by auto
qed

section \<open>The whole translation\<close>

text \<open>A closed automaton uses its own variables only.\<close>

definition own_variables :: "cfa \<Rightarrow> variable set" where
  "own_variables c = set (mInputs c) \<union> set (mLocals c)"

definition closed_cfa :: "cfa \<Rightarrow> bool" where
  "closed_cfa c \<longleftrightarrow> (\<forall>e \<in> set (mEdges c). vars (mGuard (mTransition c e)) \<subseteq> own_variables c
     \<and> (\<forall>a \<in> set (mAssignments (mTransition c e)). va_variable a \<in> own_variables c \<and> vars (va_value a) \<subseteq> own_variables c))"

definition all_live :: "cfa \<Rightarrow> bool" where
  "all_live c \<longleftrightarrow> (\<forall>e \<in> set (mEdges c). live c e)"

definition theta_types :: "cfa \<Rightarrow> bool" where
  "theta_types c \<longleftrightarrow> (\<forall>v \<in> own_variables c. \<exists>t. typeName (var_type v) = Inr t)"

definition no_calls :: "cfa \<Rightarrow> bool" where
  "no_calls c \<longleftrightarrow> (\<forall>e \<in> set (mEdges c). isAssign (mTransition c e))"

lemma own_names:
  assumes "cfa_ok c tbl" and "for_each add_variable (mLocals c @ mInputs c) \<lparr>gVars = Map.empty, gNames = Map.empty, mTmpCount = tmp\<rparr> = Inr g"
  shows "names_ok (own_variables c) g"
proof -
  have "distinct (mLocals c @ mInputs c)" using assms(1) by (auto simp: cfa_ok_def variables_ok_def)
  then have "names_ok ({} \<union> set (mLocals c @ mInputs c)) g"
    using add_variables_ok(2) [OF names_ok_start _ _ _ assms(2)] by simp
  then show ?thesis by (simp add: own_variables_def Un_commute)
qed

lemma declared_name_own: "names_ok V g \<Longrightarrow> v \<in> V \<Longrightarrow> declared_name g v = Inr (canonizeName g v)"
  by (auto simp: names_ok_def declared_name_def canonizeName_def split: option.splits)

text \<open>The statements of a transition.\<close>

definition stmt_of :: "generator \<Rightarrow> variable_assignment \<Rightarrow> theta_stmt" where
  "stmt_of g a = (if isUndef (va_value a) then Havoc (canonizeName g (va_variable a)) else Assign (canonizeName g (va_variable a)) (va_value a))"

lemma stmt_of_simps:
  "stmt_of g (VarAssign v x) = (if isUndef x then Havoc (canonizeName g v) else Assign (canonizeName g v) x)"
  by (simp add: stmt_of_def)

definition stmts_of :: "generator \<Rightarrow> transition \<Rightarrow> theta_stmt list" where
  "stmts_of g tr = (if mGuard tr \<noteq> True_lit then [Assume (mGuard tr)] else []) @ map (stmt_of g) (mAssignments tr)"

lemma edge_stmts_own:
  assumes "names_ok V g" and "isAssign tr" and "\<And>a. a \<in> set (mAssignments tr) \<Longrightarrow> va_variable a \<in> V" and "getType (mGuard tr) = BoolType"
  shows "edge_stmts g tr = Inr (stmts_of g tr)"
proof -
  obtain b as where tr: "tr = AssignTransition b as" using assms(2) by (cases tr) (auto simp: isAssign_def)
  have "res_map (assignment_stmt g) as = Inr (map (stmt_of g) as)"
    using assms(3) declared_name_own [OF assms(1)]
    by (auto simp: tr res_map_eq_Inr list_all2_map2 list_all2_same assignment_stmt_def stmt_of_def)
  then show ?thesis using assms(4) by (simp add: edge_stmts_def stmts_of_def tr)
qed

definition edge_of :: "cfa \<Rightarrow> generator \<Rightarrow> nat \<Rightarrow> theta_edge" where
  "edge_of c g e = \<lparr>teSource = loc_name c (the (mSource c e)), teTarget = loc_name c (the (mTarget c e)),
     teStmts = stmts_of g (mTransition c e)\<rparr>"

lemma edge_decl_own:
  assumes "cfa_ok c tbl" and "closed_cfa c" and "names_ok (own_variables c) g" and "e \<in> set (mEdges c)" and "live c e" and "isAssign (mTransition c e)"
  shows "edge_decl c g e = Inr (edge_of c g e)"
proof -
  obtain u v where uv: "mSource c e = Some u" "mTarget c e = Some v" using assms(5) by (auto simp: live_def)
  have "u \<in> set (mNodes c)" "v \<in> set (mNodes c)"
    using assms(1,5) uv unfolding cfa_ok_def graph_ok_def by blast+
  moreover have "getType (mGuard (mTransition c e)) = BoolType" using assms(1,5) by (simp add: cfa_ok_def guards_ok_def)
  then have "edge_stmts g (mTransition c e) = Inr (stmts_of g (mTransition c e))"
    using assms(2,4) by (intro edge_stmts_own [OF assms(3,6)]) (auto simp: closed_cfa_def)
  ultimately show ?thesis by (simp add: edge_decl_def declared_loc_def uv edge_of_def)
qed

text \<open>A translation that succeeds has met no call and no transition without ends.\<close>

lemma edge_decl_Inr: "edge_decl c g e = Inr d \<Longrightarrow> isAssign (mTransition c e) \<and> mSource c e \<noteq> None \<and> mTarget c e \<noteq> None"
  by (auto simp: edge_decl_def declared_loc_def edge_stmts_def rbind_eq_Inr isAssign_def split: option.splits transition.splits)

definition process_of :: "cfa \<Rightarrow> nat \<Rightarrow> generator \<Rightarrow> theta_process" where
  "process_of c err g = \<lparr>pVars = map (\<lambda>v. the (gVars g v)) (mInputs c @ mLocals c), pLocs = map (loc_decl c err) (mNodes c),
     pEdges = map (edge_of c g) (mEdges c)\<rparr>"

lemma generate_Inr:
  assumes "cfa_ok c tbl" and "closed_cfa c" and "generate c err tmp = Inr (p, g, locs)"
  shows "names_ok (own_variables c) g" "p = process_of c err g" "no_calls c" "all_live c"
    "locs = foldl (\<lambda>m l. m(loc_name c l \<mapsto> l)) Map.empty (mNodes c)"
proof -
  obtain edges where gen: "for_each add_variable (mLocals c @ mInputs c) \<lparr>gVars = Map.empty, gNames = Map.empty, mTmpCount = tmp\<rparr> = Inr g"
    "res_map (edge_decl c g) (mEdges c) = Inr edges"
    "p = \<lparr>pVars = map (\<lambda>v. the (gVars g v)) (mInputs c @ mLocals c), pLocs = map (loc_decl c err) (mNodes c), pEdges = edges\<rparr>"
    "locs = foldl (\<lambda>m l. m(loc_name c l \<mapsto> l)) Map.empty (mNodes c)"
    using assms(3) by (auto simp: generate_def rbind_eq_Inr)
  show names: "names_ok (own_variables c) g" by (rule own_names [OF assms(1) gen(1)])
  have e: "isAssign (mTransition c e) \<and> live c e" if "e \<in> set (mEdges c)" for e
    using gen(2) that edge_decl_Inr by (fastforce simp: res_map_eq_Inr list_all2_conv_all_nth in_set_conv_nth live_def)
  then show "no_calls c" "all_live c" by (simp_all add: no_calls_def all_live_def)
  have "res_map (edge_decl c g) (mEdges c) = Inr (map (edge_of c g) (mEdges c))"
    using edge_decl_own [OF assms(1,2) names] e by (simp add: res_map_eq_Inr list_all2_map2 list_all2_same)
  then show "p = process_of c err g" using gen(2,3) by (simp add: process_of_def)
  show "locs = foldl (\<lambda>m l. m(loc_name c l \<mapsto> l)) Map.empty (mNodes c)" by (rule gen(4))
qed

lemma generate_total:
  assumes "cfa_ok c tbl" and "closed_cfa c" and "all_live c" and "theta_types c" and "no_calls c"
  shows "\<exists>p g locs. generate c err tmp = Inr (p, g, locs)"
proof -
  let ?g = "\<lparr>gVars = Map.empty, gNames = Map.empty, mTmpCount = tmp\<rparr>"
  have "distinct (mLocals c @ mInputs c)" using assms(1) by (auto simp: cfa_ok_def variables_ok_def)
  then have "\<exists>g. for_each add_variable (mLocals c @ mInputs c) ?g = Inr g"
    using assms(4) by (intro add_variables_ok(1) [OF names_ok_start]) (auto simp: theta_types_def own_variables_def)
  then obtain g where g: "for_each add_variable (mLocals c @ mInputs c) ?g = Inr g" by blast
  have "res_map (edge_decl c g) (mEdges c) = Inr (map (edge_of c g) (mEdges c))"
    using edge_decl_own [OF assms(1,2) own_names [OF assms(1) g]] assms(3,5)
    by (simp add: res_map_eq_Inr list_all2_map2 list_all2_same all_live_def no_calls_def)
  then show ?thesis using g by (simp add: generate_def)
qed

text \<open>The locations have different names.\<close>

lemma loc_name_inj:
  assumes "cfa_ok c tbl"
  shows "inj_on (loc_name c) (set (mNodes c))"
proof (rule inj_onI)
  fix x y assume "x \<in> set (mNodes c)" "y \<in> set (mNodes c)" "loc_name c x = loc_name c y"
  then have "mID c x = mID c y" by (simp add: loc_name_def)
  have "\<forall>i l. mLocationNumbers c i = Some l \<longleftrightarrow> l \<in> set (mNodes c) \<and> mID c l = i"
    using assms unfolding cfa_ok_def locations_ok_def by (elim conjE)
  then have "mLocationNumbers c (mID c x) = Some x" "mLocationNumbers c (mID c y) = Some y"
    using \<open>x \<in> _\<close> \<open>y \<in> _\<close> by simp_all
  with \<open>mID c x = mID c y\<close> show "x = y" by (metis option.inject)
qed

lemma foldl_locations:
  assumes "inj_on f (set ls)" and "l \<in> set ls"
  shows "foldl (\<lambda>m l. m(f l \<mapsto> l)) m ls (f l) = Some l"
  using assms
proof (induction ls rule: rev_induct)
  case (snoc x xs)
  show ?case
  proof (cases "f l = f x")
    case True
    then have "l = x" using snoc.prems by (auto simp: inj_on_def)
    then show ?thesis by simp
  next
    case False
    then show ?thesis using snoc by (auto simp: inj_on_def)
  qed
qed simp

text \<open>The names that the generator has made have types of Theta.\<close>

lemma generated_types:
  assumes "names_ok (own_variables c) g"
  shows "theta_types c"
  unfolding theta_types_def
proof
  fix v assume "v \<in> own_variables c"
  then have "gVars g v \<noteq> None" using names_okD(1) [OF assms] by (metis domIff)
  then show "\<exists>t. typeName (var_type v) = Inr t" using names_okD(4) [OF assms] by (metis option.exhaust prod.exhaust)
qed

text \<open>The names of the locations lead back to them, and the names of the variables to the variables.\<close>

lemma generated_names:
  assumes "cfa_ok c tbl" and "closed_cfa c" and "generate c err tmp = Inr (p, g, locs)"
  shows "distinct (map fst (pVars p)) \<and> distinct (map tlName (pLocs p))
      \<and> (\<forall>n \<in> set (map fst (pVars p)). list_all is_word_char n \<and> n \<notin> set ThetaKeywords)
      \<and> (\<forall>v \<in> own_variables c. canonizeName g v \<in> set (map fst (pVars p)) \<and> gNames g (canonizeName g v) = Some v)
      \<and> (\<forall>l \<in> set (mNodes c). locs (loc_name c l) = Some l)"
proof -
  note gen = generate_Inr [OF assms]
  note names = canonizeName_inj [OF gen(1)]
  have "fst (the (gVars g v)) = canonizeName g v" if "v \<in> own_variables c" for v
  proof -
    have "gVars g v \<noteq> None" using that names_okD(1) [OF gen(1)] by (metis domIff)
    then show ?thesis by (auto simp: canonizeName_def)
  qed
  then have vars: "map fst (pVars p) = map (canonizeName g) (mInputs c @ mLocals c)"
    by (auto simp: gen(2) process_of_def own_variables_def)
  have set: "set (mInputs c @ mLocals c) = own_variables c" by (auto simp: own_variables_def)
  have "distinct (mInputs c @ mLocals c)" using assms(1) unfolding cfa_ok_def variables_ok_def by (elim conjE)
  then have "distinct (map fst (pVars p))" unfolding vars distinct_map set using names(1) by blast
  moreover have locs: "map tlName (pLocs p) = map (loc_name c) (mNodes c)" by (simp add: gen(2) process_of_def loc_decl_def)
  have "distinct (mNodes c)" using assms(1) unfolding cfa_ok_def graph_ok_def by (elim conjE)
  then have "distinct (map tlName (pLocs p))" unfolding locs distinct_map using loc_name_inj [OF assms(1)] by blast
  moreover have n: "set (map fst (pVars p)) = canonizeName g ` own_variables c" unfolding vars set_map set by (rule refl)
  have "\<forall>n \<in> set (map fst (pVars p)). list_all is_word_char n \<and> n \<notin> set ThetaKeywords"
    unfolding n using valid_for_word [OF names(4)] by blast
  moreover have "\<forall>v \<in> own_variables c. canonizeName g v \<in> set (map fst (pVars p)) \<and> gNames g (canonizeName g v) = Some v"
    unfolding n using names(2) by blast
  moreover have "\<forall>l \<in> set (mNodes c). locs (loc_name c l) = Some l"
    unfolding gen(5) using foldl_locations [OF loc_name_inj [OF assms(1)]] by blast
  ultimately show ?thesis by blast
qed

text \<open>
  C17: the translation into a process of Theta of a consistent automaton whose transitions use only its own inputs and locals. It succeeds
  exactly if the automaton has no calls, its transitions have both ends and its variables have a type of Theta. The names of
  the variables consist of letters, digits and underscores, none is a keyword and no two of them are the same; no two names of
  locations are the same (a variable and a location may have the same name); the tables of names, with which a
  counterexample is read, lead back from every name to the variable or location that it was made for.
\<close>

theorem theta_names:
  assumes "cfa_ok c tbl" and "closed_cfa c"
  shows "((\<exists>p g locs. generate c err tmp = Inr (p, g, locs)) \<longleftrightarrow> all_live c \<and> theta_types c \<and> no_calls c)
    \<and> (\<forall>p g locs. generate c err tmp = Inr (p, g, locs) \<longrightarrow>
      distinct (map fst (pVars p)) \<and> distinct (map tlName (pLocs p))
      \<and> (\<forall>n \<in> set (map fst (pVars p)). list_all is_word_char n \<and> n \<notin> set ThetaKeywords)
      \<and> (\<forall>v \<in> own_variables c. canonizeName g v \<in> set (map fst (pVars p)) \<and> gNames g (canonizeName g v) = Some v)
      \<and> (\<forall>l \<in> set (mNodes c). locs (loc_name c l) = Some l))"
proof (rule conjI)
  show "(\<exists>p g locs. generate c err tmp = Inr (p, g, locs)) \<longleftrightarrow> all_live c \<and> theta_types c \<and> no_calls c"
  proof
    assume "\<exists>p g locs. generate c err tmp = Inr (p, g, locs)"
    then obtain p g locs where gen: "generate c err tmp = Inr (p, g, locs)" by blast
    then show "all_live c \<and> theta_types c \<and> no_calls c"
      using generate_Inr(3,4) [OF assms gen] generated_types [OF generate_Inr(1) [OF assms gen]] by blast
  next
    assume "all_live c \<and> theta_types c \<and> no_calls c"
    then show "\<exists>p g locs. generate c err tmp = Inr (p, g, locs)" using generate_total [OF assms] by blast
  qed
qed (use generated_names [OF assms] in blast)

section \<open>Runs\<close>

text \<open>A state of the process gives values to names; the statements of a transition are executed in order. \<open>Havoc\<close> chooses any
  value of the declared type. An expression whose evaluation fails has no step.\<close>

type_synonym theta_state = "string \<rightharpoonup> literal"

inductive theta_exec :: "llvm_api \<Rightarrow> theta_process \<Rightarrow> (variable \<Rightarrow> string) \<Rightarrow> theta_stmt list \<Rightarrow> theta_state \<Rightarrow> theta_state \<Rightarrow> bool"
  for L p names where
  finished: "theta_exec L p names [] s s"
| assume_true: "eval L (\<lambda>v. s (names v)) e = Inr (ALit (BoolLiteral True)) \<Longrightarrow> theta_exec L p names ss s s' \<Longrightarrow>
    theta_exec L p names (Assume e # ss) s s'"
| assign: "eval L (\<lambda>v. s (names v)) e = Inr (ALit l) \<Longrightarrow> theta_exec L p names ss (s(x \<mapsto> l)) s' \<Longrightarrow>
    theta_exec L p names (Assign x e # ss) s s'"
| havoc: "(x, t) \<in> set (pVars p) \<Longrightarrow> lit_ok l \<Longrightarrow> typeName (lit_type l) = Inr t \<Longrightarrow> theta_exec L p names ss (s(x \<mapsto> l)) s' \<Longrightarrow>
    theta_exec L p names (Havoc x # ss) s s'"

inductive theta_run :: "llvm_api \<Rightarrow> theta_process \<Rightarrow> (variable \<Rightarrow> string) \<Rightarrow> string \<times> theta_state \<Rightarrow> string \<times> theta_state \<Rightarrow> bool"
  for L p names where
  start: "theta_run L p names c c"
| step: "theta_run L p names c (teSource ed, s) \<Longrightarrow> ed \<in> set (pEdges p) \<Longrightarrow> theta_exec L p names (teStmts ed) s s' \<Longrightarrow>
    theta_run L p names c (teTarget ed, s')"

text \<open>The automaton: the assignments of a transition are executed in order, and an undefined value is any value of the type of the
  variable.\<close>

inductive assign_run :: "llvm_api \<Rightarrow> variable_assignment list \<Rightarrow> valuation \<Rightarrow> valuation \<Rightarrow> bool" for L where
  none: "assign_run L [] \<sigma> \<sigma>"
| defined: "\<not> isUndef x \<Longrightarrow> eval L \<sigma> x = Inr (ALit l) \<Longrightarrow> assign_run L as (\<sigma>(v \<mapsto> l)) \<sigma>' \<Longrightarrow> assign_run L (VarAssign v x # as) \<sigma> \<sigma>'"
| undefined: "isUndef x \<Longrightarrow> lit_ok l \<Longrightarrow> lit_type l = var_type v \<Longrightarrow> assign_run L as (\<sigma>(v \<mapsto> l)) \<sigma>' \<Longrightarrow>
    assign_run L (VarAssign v x # as) \<sigma> \<sigma>'"

inductive cfa_run :: "llvm_api \<Rightarrow> cfa \<Rightarrow> nat \<times> valuation \<Rightarrow> nat \<times> valuation \<Rightarrow> bool" for L c where
  start: "cfa_run L c x x"
| step: "cfa_run L c x (u, \<sigma>) \<Longrightarrow> e \<in> set (mEdges c) \<Longrightarrow> mSource c e = Some u \<Longrightarrow> mTarget c e = Some v \<Longrightarrow>
    mTransition c e = AssignTransition b as \<Longrightarrow> eval L \<sigma> b = Inr (ALit (BoolLiteral True)) \<Longrightarrow> assign_run L as \<sigma> \<sigma>' \<Longrightarrow>
    cfa_run L c x (v, \<sigma>')"

inductive_cases theta_exec_nil: "theta_exec L p names [] s s'"
inductive_cases theta_exec_assume: "theta_exec L p names (Assume e # ss) s s'"
inductive_cases theta_exec_assign: "theta_exec L p names (Assign x e # ss) s s'"
inductive_cases theta_exec_havoc: "theta_exec L p names (Havoc x # ss) s s'"

text \<open>The type of a name determines the type of its values.\<close>

lemma typeName_unique:
  "typeName s = Inr a \<Longrightarrow> typeName t = Inr b \<Longrightarrow> a @ x = b @ y \<Longrightarrow> x = [] \<or> hd x = CHR '']'' \<Longrightarrow> y = [] \<or> hd y = CHR '']'' \<Longrightarrow> s = t \<and> x = y"
proof (induction s arbitrary: t a b x y)
  case (ArrayType i e)
  from ArrayType.prems(1) obtain c d where a: "typeName i = Inr c" "typeName e = Inr d" "a = ''['' @ c @ ''] -> '' @ d" by (auto simp: rbind_eq_Inr)
  show ?case
  proof (cases t)
    case t: (ArrayType j f)
    then obtain c' d' where b: "typeName j = Inr c'" "typeName f = Inr d'" "b = ''['' @ c' @ ''] -> '' @ d'"
      using ArrayType.prems(2) by (auto simp: rbind_eq_Inr)
    have "c @ (''] -> '' @ d @ x) = c' @ (''] -> '' @ d' @ y)" using ArrayType.prems(3) a(3) b(3) by simp
    then have "i = j \<and> ''] -> '' @ d @ x = ''] -> '' @ d' @ y" using ArrayType.IH(1) [OF a(1) b(1), of "''] -> '' @ d @ x" "''] -> '' @ d' @ y"] by simp
    moreover from this have "e = f \<and> x = y" using ArrayType.IH(2) [OF a(2) b(2), of x y] ArrayType.prems(4,5) by simp
    ultimately show ?thesis by (simp add: t)
  qed (use ArrayType.prems a in auto)
next
  case BoolType
  then show ?case by (cases t) (auto simp: rbind_eq_Inr)
next
  case IntType
  then show ?case by (cases t) (auto simp: rbind_eq_Inr)
next
  case RealType
  then show ?case by (cases t) (auto simp: rbind_eq_Inr)
qed simp_all

lemma typeName_inj: "typeName s = Inr a \<Longrightarrow> typeName t = Inr a \<Longrightarrow> s = t"
  using typeName_unique [of s a t a "[]" "[]"] by simp

text \<open>The evaluation of an expression depends on its variables only.\<close>

lemma subst_empty: "subst Map.empty e = e"
  by (induction e) (simp_all add: map_idI)

lemma eval_agree: "\<forall>v \<in> vars e. \<sigma> v = \<sigma>' v \<Longrightarrow> eval L \<sigma> e = eval L \<sigma>' e"
  using eval_subst [of e L \<sigma> Map.empty \<sigma>'] by (simp add: subst_empty getVariableValue_def)

text \<open>The relation between the states.\<close>

definition same_values :: "variable set \<Rightarrow> (variable \<Rightarrow> string) \<Rightarrow> valuation \<Rightarrow> theta_state \<Rightarrow> bool" where
  "same_values V names \<sigma> s \<longleftrightarrow> (\<forall>v \<in> V. s (names v) = \<sigma> v)"

lemma same_values_eval: "same_values V names \<sigma> s \<Longrightarrow> vars e \<subseteq> V \<Longrightarrow> eval L (\<lambda>v. s (names v)) e = eval L \<sigma> e"
  by (rule eval_agree) (auto simp: same_values_def)

lemma same_values_update:
  "same_values V names \<sigma> s \<Longrightarrow> inj_on names V \<Longrightarrow> v \<in> V \<Longrightarrow> same_values V names (\<sigma>(v \<mapsto> l)) (s(names v \<mapsto> l))"
  by (auto simp: same_values_def inj_on_def)

lemma declared_type:
  assumes "names_ok (own_variables c) g" and "v \<in> own_variables c"
  shows "(canonizeName g v, t) \<in> set (pVars (process_of c err g)) \<longleftrightarrow> typeName (var_type v) = Inr t"
proof -
  note n = canonizeName_inj [OF assms(1)]
  have v: "gVars g w \<noteq> None" if "w \<in> own_variables c" for w using that names_okD(1) [OF assms(1)] by (metis domIff)
  have S: "set (pVars (process_of c err g)) = (\<lambda>w. the (gVars g w)) ` own_variables c"
    by (auto simp: process_of_def own_variables_def)
  have E: "the (gVars g w) = (canonizeName g v, t) \<longleftrightarrow> w = v \<and> gVars g v = Some (canonizeName g v, t)"
    if w: "w \<in> own_variables c" for w
  proof -
    obtain m s where m: "gVars g w = Some (m, s)" using v [OF w] by auto
    then have "canonizeName g w = m" by (simp add: canonizeName_def)
    then show ?thesis using m n(1) assms(2) w by (auto simp: inj_on_def)
  qed
  have "(canonizeName g v, t) \<in> set (pVars (process_of c err g)) \<longleftrightarrow> (\<exists>w \<in> own_variables c. the (gVars g w) = (canonizeName g v, t))"
    by (simp only: S image_iff eq_commute [of "(canonizeName g v, t)"])
  also have "\<dots> \<longleftrightarrow> gVars g v = Some (canonizeName g v, t)" using E assms(2) by blast
  finally show ?thesis using n(3) [OF assms(2)] by simp
qed

lemma assigns_simulated:
  assumes "names_ok (own_variables c) g" and "\<And>a. a \<in> set as \<Longrightarrow> va_variable a \<in> own_variables c \<and> vars (va_value a) \<subseteq> own_variables c"
    and "same_values (own_variables c) (canonizeName g) \<sigma> s"
  shows "assign_run L as \<sigma> \<sigma>' \<Longrightarrow> \<exists>s'. theta_exec L (process_of c err g) (canonizeName g) (map (stmt_of g) as) s s'
      \<and> same_values (own_variables c) (canonizeName g) \<sigma>' s'"
    and "theta_exec L (process_of c err g) (canonizeName g) (map (stmt_of g) as) s s' \<Longrightarrow> \<exists>\<sigma>'. assign_run L as \<sigma> \<sigma>'
      \<and> same_values (own_variables c) (canonizeName g) \<sigma>' s'"
proof -
  note n = canonizeName_inj [OF assms(1)]
  show "\<exists>s'. theta_exec L (process_of c err g) (canonizeName g) (map (stmt_of g) as) s s' \<and> same_values (own_variables c) (canonizeName g) \<sigma>' s'"
    if "assign_run L as \<sigma> \<sigma>'" using that assms(2,3)
  proof (induction arbitrary: s)
    case (none \<sigma>)
    then show ?case by (intro exI [of _ s]) (simp add: theta_exec.finished)
  next
    case (defined x \<sigma> l as v \<sigma>')
    have v: "v \<in> own_variables c" "vars x \<subseteq> own_variables c" using defined.prems(1) [of "VarAssign v x"] by simp_all
    obtain s' where "theta_exec L (process_of c err g) (canonizeName g) (map (stmt_of g) as) (s(canonizeName g v \<mapsto> l)) s'"
      "same_values (own_variables c) (canonizeName g) \<sigma>' s'"
      using defined.IH [OF _ same_values_update [OF defined.prems(2) n(1) v(1)]] defined.prems(1) by (auto simp: fun_upd_def)
    then show ?case using defined.hyps(1,2) same_values_eval [OF defined.prems(2) v(2), of L]
      by (auto simp: stmt_of_simps intro!: exI [of _ s'] theta_exec.assign)
  next
    case (undefined x l v as \<sigma> \<sigma>')
    have v: "v \<in> own_variables c" using undefined.prems(1) [of "VarAssign v x"] by simp
    obtain s' where "theta_exec L (process_of c err g) (canonizeName g) (map (stmt_of g) as) (s(canonizeName g v \<mapsto> l)) s'"
      "same_values (own_variables c) (canonizeName g) \<sigma>' s'"
      using undefined.IH [OF _ same_values_update [OF undefined.prems(2) n(1) v]] undefined.prems(1) by (auto simp: fun_upd_def)
    moreover obtain t where "typeName (var_type v) = Inr t"
      using generated_types [OF assms(1)] v by (auto simp: theta_types_def)
    ultimately show ?case using undefined.hyps(1-3) declared_type [OF assms(1) v]
      by (auto simp: stmt_of_simps intro!: exI [of _ s'] theta_exec.havoc)
  qed
  show "\<exists>\<sigma>'. assign_run L as \<sigma> \<sigma>' \<and> same_values (own_variables c) (canonizeName g) \<sigma>' s'"
    if "theta_exec L (process_of c err g) (canonizeName g) (map (stmt_of g) as) s s'" using that assms(2,3)
  proof (induction as arbitrary: s \<sigma>)
    case Nil
    then show ?case using assign_run.none by (auto elim: theta_exec_nil)
  next
    case (Cons a as)
    obtain v x where a: "a = VarAssign v x" by (cases a)
    have v: "v \<in> own_variables c" "vars x \<subseteq> own_variables c" using Cons.prems(2) [of a] by (simp_all add: a)
    show ?case
    proof (cases "isUndef x")
      case True
      then have "theta_exec L (process_of c err g) (canonizeName g) (Havoc (canonizeName g v) # map (stmt_of g) as) s s'"
        using Cons.prems(1) by (simp add: stmt_of_simps a)
      then obtain t l where l: "(canonizeName g v, t) \<in> set (pVars (process_of c err g))" "lit_ok l" "typeName (lit_type l) = Inr t"
        "theta_exec L (process_of c err g) (canonizeName g) (map (stmt_of g) as) (s(canonizeName g v \<mapsto> l)) s'"
        by (auto elim: theta_exec_havoc)
      have "lit_type l = var_type v" using l(1,3) declared_type [OF assms(1) v(1)] typeName_inj by blast
      moreover obtain \<sigma>' where "assign_run L as (\<sigma>(v \<mapsto> l)) \<sigma>'" "same_values (own_variables c) (canonizeName g) \<sigma>' s'"
        using Cons.IH [OF l(4) _ same_values_update [OF Cons.prems(3) n(1) v(1)]] Cons.prems(2) by (auto simp: fun_upd_def)
      ultimately show ?thesis using True l(2) by (auto simp: a intro: assign_run.undefined)
    next
      case False
      then have "theta_exec L (process_of c err g) (canonizeName g) (Assign (canonizeName g v) x # map (stmt_of g) as) s s'"
        using Cons.prems(1) by (simp add: stmt_of_simps a)
      then obtain l where l: "eval L (\<lambda>v. s (canonizeName g v)) x = Inr (ALit l)"
        "theta_exec L (process_of c err g) (canonizeName g) (map (stmt_of g) as) (s(canonizeName g v \<mapsto> l)) s'"
        by (auto elim: theta_exec_assign)
      moreover obtain \<sigma>' where "assign_run L as (\<sigma>(v \<mapsto> l)) \<sigma>'" "same_values (own_variables c) (canonizeName g) \<sigma>' s'"
        using Cons.IH [OF l(2) _ same_values_update [OF Cons.prems(3) n(1) v(1)]] Cons.prems(2) by (auto simp: fun_upd_def)
      ultimately show ?thesis using False same_values_eval [OF Cons.prems(3) v(2), of L] by (auto simp: a intro: assign_run.defined)
    qed
  qed
qed

text \<open>One transition.\<close>

lemma edge_simulated:
  assumes "names_ok (own_variables c) g" and "closed_cfa c" and "e \<in> set (mEdges c)" and "mTransition c e = AssignTransition b as"
    and "same_values (own_variables c) (canonizeName g) \<sigma> s"
  shows "eval L \<sigma> b = Inr (ALit (BoolLiteral True)) \<Longrightarrow> assign_run L as \<sigma> \<sigma>' \<Longrightarrow>
      \<exists>s'. theta_exec L (process_of c err g) (canonizeName g) (stmts_of g (mTransition c e)) s s' \<and> same_values (own_variables c) (canonizeName g) \<sigma>' s'"
    and "theta_exec L (process_of c err g) (canonizeName g) (stmts_of g (mTransition c e)) s s' \<Longrightarrow>
      \<exists>\<sigma>'. eval L \<sigma> b = Inr (ALit (BoolLiteral True)) \<and> assign_run L as \<sigma> \<sigma>' \<and> same_values (own_variables c) (canonizeName g) \<sigma>' s'"
proof -
  have cl: "vars b \<subseteq> own_variables c" "\<And>a. a \<in> set as \<Longrightarrow> va_variable a \<in> own_variables c \<and> vars (va_value a) \<subseteq> own_variables c"
    using assms(2-4) unfolding closed_cfa_def by fastforce+
  note guard = same_values_eval [OF assms(5) cl(1), of L]
  note assigns = assigns_simulated [OF assms(1) cl(2) assms(5), where L = L]
  show "\<exists>s'. theta_exec L (process_of c err g) (canonizeName g) (stmts_of g (mTransition c e)) s s' \<and> same_values (own_variables c) (canonizeName g) \<sigma>' s'"
    if "eval L \<sigma> b = Inr (ALit (BoolLiteral True))" "assign_run L as \<sigma> \<sigma>'"
    using assigns(1) [OF _ that(2)] that(1) guard by (auto simp: stmts_of_def assms(4) intro: theta_exec.assume_true)
  show "\<exists>\<sigma>'. eval L \<sigma> b = Inr (ALit (BoolLiteral True)) \<and> assign_run L as \<sigma> \<sigma>' \<and> same_values (own_variables c) (canonizeName g) \<sigma>' s'"
    if run: "theta_exec L (process_of c err g) (canonizeName g) (stmts_of g (mTransition c e)) s s'"
  proof (cases "b = True_lit")
    case True
    then show ?thesis using assigns(2) run by (simp add: stmts_of_def assms(4))
  next
    case False
    then have "eval L (\<lambda>v. s (canonizeName g v)) b = Inr (ALit (BoolLiteral True))"
      "theta_exec L (process_of c err g) (canonizeName g) (map (stmt_of g) as) s s'"
      using run by (auto simp: stmts_of_def assms(4) elim: theta_exec_assume)
    then show ?thesis using assigns(2) guard by simp
  qed
qed

lemma runs_simulated:
  assumes "cfa_ok c tbl" and "closed_cfa c" and "generate c err tmp = Inr (p, g, locs)"
    and "same_values (own_variables c) (canonizeName g) \<sigma> s" and "u \<in> set (mNodes c)"
  shows "cfa_run L c (u, \<sigma>) x \<Longrightarrow> fst x \<in> set (mNodes c) \<and> (\<exists>s'. theta_run L p (canonizeName g) (loc_name c u, s) (loc_name c (fst x), s')
      \<and> same_values (own_variables c) (canonizeName g) (snd x) s')"
    and "theta_run L p (canonizeName g) (loc_name c u, s) y \<Longrightarrow> \<exists>l \<sigma>'. fst y = loc_name c l \<and> l \<in> set (mNodes c)
      \<and> cfa_run L c (u, \<sigma>) (l, \<sigma>') \<and> same_values (own_variables c) (canonizeName g) \<sigma>' (snd y)"
proof -
  note gen = generate_Inr [OF assms(1-3)]
  have ends: "\<forall>e n. live c e \<longrightarrow> mSource c e = Some n \<or> mTarget c e = Some n \<longrightarrow> n \<in> set (mNodes c)"
    using assms(1) unfolding cfa_ok_def graph_ok_def by (elim conjE)
  show "fst x \<in> set (mNodes c) \<and> (\<exists>s'. theta_run L p (canonizeName g) (loc_name c u, s) (loc_name c (fst x), s')
      \<and> same_values (own_variables c) (canonizeName g) (snd x) s')" if "cfa_run L c (u, \<sigma>) x"
    using that
  proof (induction "(u, \<sigma>)" x rule: cfa_run.induct)
    case start
    show ?case using assms(4,5) by (auto intro!: exI [of _ s] theta_run.start)
  next
    case (step v \<rho> e w b as \<rho>')
    then obtain s1 where s1: "theta_run L p (canonizeName g) (loc_name c u, s) (loc_name c v, s1)"
      "same_values (own_variables c) (canonizeName g) \<rho> s1" by auto
    obtain s2 where s2: "theta_exec L p (canonizeName g) (stmts_of g (mTransition c e)) s1 s2"
      "same_values (own_variables c) (canonizeName g) \<rho>' s2"
      using edge_simulated(1) [OF gen(1) assms(2) step.hyps(3,6) s1(2) step.hyps(7,8)] gen(2) by blast
    have "edge_of c g e \<in> set (pEdges p)" using step.hyps(3) by (simp add: gen(2) process_of_def)
    moreover have "teSource (edge_of c g e) = loc_name c v" "teTarget (edge_of c g e) = loc_name c w"
      "teStmts (edge_of c g e) = stmts_of g (mTransition c e)"
      using step.hyps(4,5) by (simp_all add: gen(2) edge_of_def)
    ultimately have "theta_run L p (canonizeName g) (loc_name c u, s) (loc_name c w, s2)"
      using theta_run.step [of L p "canonizeName g" "(loc_name c u, s)" "edge_of c g e" s1 s2] s1(1) s2(1) by simp
    moreover have "w \<in> set (mNodes c)" using ends gen(4) step.hyps(3,5) by (auto simp: all_live_def)
    ultimately show ?case using s2(2) by auto
  qed
  show "\<exists>l \<sigma>'. fst y = loc_name c l \<and> l \<in> set (mNodes c) \<and> cfa_run L c (u, \<sigma>) (l, \<sigma>')
      \<and> same_values (own_variables c) (canonizeName g) \<sigma>' (snd y)" if "theta_run L p (canonizeName g) (loc_name c u, s) y"
    using that
  proof (induction "(loc_name c u, s)" y rule: theta_run.induct)
    case start
    have "cfa_run L c (u, \<sigma>) (u, \<sigma>)" by (rule cfa_run.start)
    then show ?case using assms(4,5) by (intro exI [of _ u] exI [of _ \<sigma>]) simp
  next
    case (step ed s1 s2)
    then obtain l \<rho> where l: "teSource ed = loc_name c l" "l \<in> set (mNodes c)" "cfa_run L c (u, \<sigma>) (l, \<rho>)"
      "same_values (own_variables c) (canonizeName g) \<rho> s1" by auto
    obtain e where e: "e \<in> set (mEdges c)" "ed = edge_of c g e" using step.hyps(3) by (auto simp: gen(2) process_of_def)
    then have live: "live c e" using gen(4) by (simp add: all_live_def)
    then obtain v w where vw: "mSource c e = Some v" "mTarget c e = Some w" by (auto simp: live_def)
    then have nodes: "v \<in> set (mNodes c)" "w \<in> set (mNodes c)" using ends live by blast+
    have "loc_name c v = loc_name c l" using l(1) by (simp add: e(2) edge_of_def vw)
    then have v: "v = l" using loc_name_inj [OF assms(1)] nodes(1) l(2) by (simp add: inj_on_def)
    obtain b as where tr: "mTransition c e = AssignTransition b as"
      using gen(3) e(1) by (cases "mTransition c e") (auto simp: no_calls_def isAssign_def)
    have "theta_exec L (process_of c err g) (canonizeName g) (stmts_of g (mTransition c e)) s1 s2"
      using step.hyps(4) by (simp add: e(2) edge_of_def gen(2))
    then obtain \<rho>' where \<rho>': "eval L \<rho> b = Inr (ALit (BoolLiteral True))" "assign_run L as \<rho> \<rho>'"
      "same_values (own_variables c) (canonizeName g) \<rho>' s2"
      using edge_simulated(2) [OF gen(1) assms(2) e(1) tr l(4)] by blast
    have "cfa_run L c (u, \<sigma>) (w, \<rho>')" by (rule cfa_run.step [OF l(3) e(1) _ vw(2) tr \<rho>'(1,2)]) (simp add: vw v)
    moreover have "teTarget ed = loc_name c w" by (simp add: e(2) edge_of_def vw)
    ultimately show ?case using nodes(2) \<rho>'(3) by auto
  qed
qed

text \<open>
  C7: the process of Theta refines the automaton and the other way round: from states that give the variables and their
  names the same values, the process can reach exactly the locations that the automaton can reach, with the same values; the
  location that is declared as the error location is reached by the process exactly if it is reached by the automaton.
\<close>

theorem theta_process_bisimilar:
  assumes "cfa_ok c tbl" and "closed_cfa c" and "generate c err tmp = Inr (p, g, locs)"
    and "\<forall>v \<in> own_variables c. s (canonizeName g v) = \<sigma> v" and "u \<in> set (mNodes c)" and "err \<in> set (mNodes c)"
  shows "(\<forall>l \<rho>. cfa_run L c (u, \<sigma>) (l, \<rho>) \<longrightarrow> (\<exists>s'. theta_run L p (canonizeName g) (loc_name c u, s) (loc_name c l, s')
        \<and> (\<forall>v \<in> own_variables c. s' (canonizeName g v) = \<rho> v)))
    \<and> (\<forall>n s'. theta_run L p (canonizeName g) (loc_name c u, s) (n, s') \<longrightarrow> (\<exists>l \<rho>. n = loc_name c l \<and> cfa_run L c (u, \<sigma>) (l, \<rho>)
        \<and> (\<forall>v \<in> own_variables c. s' (canonizeName g v) = \<rho> v)))
    \<and> ((\<exists>d s'. d \<in> set (pLocs p) \<and> tlFlag d = Loc_Error \<and> theta_run L p (canonizeName g) (loc_name c u, s) (tlName d, s'))
       \<longleftrightarrow> (\<exists>\<rho>. cfa_run L c (u, \<sigma>) (err, \<rho>)))"
proof -
  have "same_values (own_variables c) (canonizeName g) \<sigma> s" using assms(4) by (simp add: same_values_def)
  note sim = runs_simulated [OF assms(1-3) this assms(5), of L, unfolded same_values_def]
  have E: "d \<in> set (pLocs p) \<and> tlFlag d = Loc_Error \<longleftrightarrow> d = loc_decl c err err" for d
    using assms(6) by (auto simp: generate_Inr(2) [OF assms(1-3)] process_of_def loc_decl_def split: if_splits)
  have "(\<exists>d s'. d \<in> set (pLocs p) \<and> tlFlag d = Loc_Error \<and> theta_run L p (canonizeName g) (loc_name c u, s) (tlName d, s'))
      \<longleftrightarrow> (\<exists>s'. theta_run L p (canonizeName g) (loc_name c u, s) (loc_name c err, s'))"
    unfolding conj_assoc [symmetric] E by (simp add: loc_decl_def)
  also have "\<dots> \<longleftrightarrow> (\<exists>\<rho>. cfa_run L c (u, \<sigma>) (err, \<rho>))"
  proof
    assume "\<exists>s'. theta_run L p (canonizeName g) (loc_name c u, s) (loc_name c err, s')"
    then obtain l \<rho> where "loc_name c err = loc_name c l" "l \<in> set (mNodes c)" "cfa_run L c (u, \<sigma>) (l, \<rho>)" using sim(2) by fastforce
    then show "\<exists>\<rho>. cfa_run L c (u, \<sigma>) (err, \<rho>)" using loc_name_inj [OF assms(1)] assms(6) by (metis inj_onD)
  next
    assume "\<exists>\<rho>. cfa_run L c (u, \<sigma>) (err, \<rho>)"
    then show "\<exists>s'. theta_run L p (canonizeName g) (loc_name c u, s) (loc_name c err, s')" using sim(1) by fastforce
  qed
  finally show ?thesis using sim by fastforce
qed

section \<open>An automaton\<close>

text \<open>An automaton with two variables whose sanitised names are the same: a loop chooses a value of the first, and the
  error location is reached when it is true.\<close>

definition dot_var :: variable where "dot_var = Variable ''main/x.y'' BoolType"

definition bar_var :: variable where "bar_var = Variable ''main/x_y'' BoolType"

definition choice_base :: cfa where "choice_base = createErrorLocation 5 (Cfa_new ''main'' 3 4)"

definition choice_cfa :: cfa where
  "choice_cfa = addTransition 11 3 3 (AssignTransition True_lit [VarAssign dot_var (UndefExpr BoolType)])
     (addTransition 10 3 5 (AssignTransition (VarRefExpr dot_var) [])
       (choice_base\<lparr>mSymbolNames := [dot_var \<mapsto> ''x.y'', bar_var \<mapsto> ''x_y''], mLocals := [dot_var, bar_var]\<rparr>))"

lemmas choice_defs = choice_cfa_def choice_base_def dot_var_def bar_var_def addTransition_def createEdge_def Cfa_new_def createErrorLocation_def
  createLocation_def createNode_def empty_cfa_def Let_def

lemma choice_simps:
  "mNodes choice_cfa = [3, 4, 5]" "mEdges choice_cfa = [10, 11]" "mLocals choice_cfa = [dot_var, bar_var]" "mInputs choice_cfa = []"
  "mSource choice_cfa 10 = Some 3" "mTarget choice_cfa 10 = Some 5" "mSource choice_cfa 11 = Some 3" "mTarget choice_cfa 11 = Some 3"
  "mTransition choice_cfa 10 = AssignTransition (VarRefExpr dot_var) []"
  "mTransition choice_cfa 11 = AssignTransition True_lit [VarAssign dot_var (UndefExpr BoolType)]"
  by (simp_all add: choice_defs)

lemma choice_ok: "cfa_ok choice_cfa [''main/x.y'' \<mapsto> dot_var, ''main/x_y'' \<mapsto> bar_var]"
proof -
  let ?tbl = "[''main/x.y'' \<mapsto> dot_var, ''main/x_y'' \<mapsto> bar_var]" and ?c = "choice_base\<lparr>mSymbolNames := [dot_var \<mapsto> ''x.y'', bar_var \<mapsto> ''x_y''], mLocals := [dot_var, bar_var]\<rparr>"
  have "table_ok ?tbl" by (simp add: table_ok_def dot_var_def bar_var_def)
  then have "cfa_ok (Cfa_new ''main'' 3 4) ?tbl" using Cfa_new_ok [of 3 4] by simp
  then have "cfa_ok choice_base ?tbl"
    unfolding choice_base_def by (intro createLocation_ok) (simp_all add: Cfa_new_def createLocation_def createNode_def empty_cfa_def Let_def u32_def)
  moreover have "variables_ok ?c ?tbl"
    using \<open>table_ok ?tbl\<close> by (auto simp: variables_ok_def choice_defs)
  ultimately have "cfa_ok ?c ?tbl"
    using cfa_ok_variables [where c = choice_base and tmp = "mTmp choice_base" and ins = "mInputs choice_base" and outs = "mOutputs choice_base" and tbl = ?tbl and tbl' = ?tbl
      and locs = "[dot_var, bar_var]" and names = "[dot_var \<mapsto> ''x.y'', bar_var \<mapsto> ''x_y'']"] by simp
  then show ?thesis
    unfolding choice_cfa_def by (intro addTransition_ok) (simp_all add: choice_defs)
qed

lemma choice_closed: "closed_cfa choice_cfa" "all_live choice_cfa" "theta_types choice_cfa" "no_calls choice_cfa" "own_variables choice_cfa = {dot_var, bar_var}"
  by (simp_all add: closed_cfa_def all_live_def theta_types_def no_calls_def own_variables_def choice_simps live_def isAssign_def dot_var_def bar_var_def)

theorem theta_names_witness:
  "\<exists>p g locs. generate choice_cfa 5 0 = Inr (p, g, locs) \<and> canonizeName g dot_var \<noteq> canonizeName g bar_var
    \<and> gNames g (canonizeName g dot_var) = Some dot_var \<and> gNames g (canonizeName g bar_var) = Some bar_var
    \<and> locs (loc_name choice_cfa 5) = Some 5"
proof -
  have neq: "dot_var \<noteq> bar_var" by (simp add: dot_var_def bar_var_def)
  obtain p g locs where g: "generate choice_cfa 5 0 = Inr (p, g, locs)"
    using theta_names [OF choice_ok choice_closed(1), of 5 0] choice_closed(2-4) by blast
  with theta_names [OF choice_ok choice_closed(1), of 5 0]
  have "gNames g (canonizeName g dot_var) = Some dot_var" "gNames g (canonizeName g bar_var) = Some bar_var" "locs (loc_name choice_cfa 5) = Some 5"
    by (auto simp: choice_closed(5) choice_simps(1))
  then show ?thesis using g neq by (metis option.inject)
qed

lemma choice_error_run: "cfa_run doc_llvm choice_cfa (3, [dot_var \<mapsto> BoolLiteral False, bar_var \<mapsto> BoolLiteral False])
    (5, [dot_var \<mapsto> BoolLiteral True, bar_var \<mapsto> BoolLiteral False])"
proof -
  let ?s = "[dot_var \<mapsto> BoolLiteral False, bar_var \<mapsto> BoolLiteral False]" and ?t = "[dot_var \<mapsto> BoolLiteral True, bar_var \<mapsto> BoolLiteral False]"
  have neq: "bar_var \<noteq> dot_var" "var_type dot_var = BoolType" by (simp_all add: dot_var_def bar_var_def)
  from neq(1) have upd: "?s(dot_var \<mapsto> BoolLiteral True) = ?t" by auto
  have "assign_run doc_llvm [VarAssign dot_var (UndefExpr BoolType)] ?s ?t"
    by (rule assign_run.undefined [where l = "BoolLiteral True"]) (simp_all add: upd assign_run.none neq(2) isUndef_def)
  then have "cfa_run doc_llvm choice_cfa (3, ?s) (3, ?t)"
    by (intro cfa_run.step [OF cfa_run.start, where e = 11 and b = True_lit and as = "[VarAssign dot_var (UndefExpr BoolType)]"]) (simp_all add: choice_simps)
  moreover have "eval doc_llvm ?t (VarRefExpr dot_var) = Inr (ALit (BoolLiteral True))"
    using neq(1) by (simp add: getVariableValue_def)
  ultimately show ?thesis
    by (intro cfa_run.step [where e = 10 and u = 3 and v = 5 and b = "VarRefExpr dot_var" and as = "[]" and \<sigma> = ?t]) (simp_all add: choice_simps assign_run.none)
qed

theorem theta_process_bisimilar_witness:
  "\<exists>p g locs d s'. generate choice_cfa 5 0 = Inr (p, g, locs) \<and> d \<in> set (pLocs p) \<and> tlFlag d = Loc_Error
    \<and> theta_run doc_llvm p (canonizeName g) (loc_name choice_cfa 3, \<lambda>n. Some (BoolLiteral False)) (tlName d, s')"
proof -
  obtain p g locs where g: "generate choice_cfa 5 0 = Inr (p, g, locs)"
    using generate_total [OF choice_ok choice_closed(1-4)] by blast
  from theta_process_bisimilar [OF choice_ok choice_closed(1) g, of "\<lambda>n. Some (BoolLiteral False)"
      "[dot_var \<mapsto> BoolLiteral False, bar_var \<mapsto> BoolLiteral False]" 3 doc_llvm] choice_error_run
  show ?thesis using g by (auto simp: choice_closed(5) choice_simps)
qed

end
