(* ===== verification/Spec2Isabelle.thy ===== *)
theory Spec2Isabelle
  imports GazerBmcSafe GazerBmcUnroll GazerBmcCex GazerRecursive GazerStorage GazerSExpr GazerThetaSim
begin

text \<open>
  \<^bold>\<open>Gazer\<close>, a front end for software model checking: C programs are compiled to LLVM, translated into
  control flow automata over typed expressions, and handed to a bounded model checker or to the
  external checker Theta. This development models the core of it, the expression language and the
  automata, in the order in which the sources build on each other. Paths below are under \<^verbatim>\<open>src/\<close>.

  \<^bold>\<open>Conventions.\<close> A C++ function that can fail (assertion, \<open>llvm_unreachable\<close>, bad cast, null pointer,
  undefined arithmetic) returns \<open>'a res\<close>, with the failure as \<open>Inl\<close> (theory GazerPrelude); assertions
  are modelled as enabled. Expressions, types and variables are interned by the context, so that
  pointer equality is equality of the modelled trees; for expressions GazerStorage proves it. Objects that are mutated (locations, transitions)
  are natural numbers, with one map per field.

  \<^bold>\<open>Theories.\<close>
  \<^item> GazerTypes (\<^verbatim>\<open>include/gazer/Core/Type.h\<close>, \<^verbatim>\<open>src/Core/Type.cpp\<close>): types, their equality and names.
  \<^item> GazerLlvm: the routines of \<open>llvm::APInt\<close> and \<open>llvm::APFloat\<close> that the sources call, as the record
    parameter \<open>llvm_api\<close> with the documented behaviour \<open>llvm_laws\<close>, and the concrete record \<open>doc_llvm\<close>
    that satisfies it.
  \<^item> GazerExpr and GazerTyping (\<^verbatim>\<open>include/gazer/Core/Expr.h\<close>, \<^verbatim>\<open>ExprTypes.h\<close>, \<^verbatim>\<open>src/Core/Expr.cpp\<close>,
    \<^verbatim>\<open>LiteralExpr.cpp\<close>): kinds, literals, expressions and the factories with their assertions; the typing
    relation that the factories establish.
  \<^item> GazerStorage (\<^verbatim>\<open>src/Core/GazerContextImpl.h\<close>, \<^verbatim>\<open>src/Core/GazerContext.cpp\<close>): the hash table that keeps one object per
    expression, the reference counts and the iterative deletion; every state that clients can reach is
    consistent, so that addresses are trees and no object leaks.
  \<^item> GazerWalker (\<^verbatim>\<open>ExprWalker.h\<close>): the traversal with an explicit stack, for any derived class; the
    locale \<open>walker_client\<close> proves that it ends and equals the recursive traversal.
  \<^item> GazerEval and GazerEvalSafe (\<^verbatim>\<open>ExprEvaluator.h\<close>, \<^verbatim>\<open>ExprEvaluator.cpp\<close>, \<^verbatim>\<open>Valuation.h\<close>): the evaluator,
    its type safety and the meaning of its arithmetic.
  \<^item> GazerBuilder (\<^verbatim>\<open>ExprBuilder.h\<close>, \<^verbatim>\<open>ExprBuilder.cpp\<close>, \<^verbatim>\<open>FoldingExprBuilder.cpp\<close>, \<^verbatim>\<open>Matcher.h\<close>): the plain and
    the folding builder, as records of their virtual methods.
  \<^item> GazerFoldSound, GazerFoldArith, GazerFoldCompare, GazerFolding: the folding builder refines the
    plain one, family by family, with the inputs on which it does not; the locale \<open>formula_builder\<close> is
    the contract that formula-building clients use, interpreted for both builders.
  \<^item> GazerRewrite (\<^verbatim>\<open>ExprRewrite.h\<close>, \<^verbatim>\<open>ExprRewrite.cpp\<close>, \<^verbatim>\<open>ExprUtils.cpp\<close>): the variable rewriter equals
    substitution.
  \<^item> GazerGraph (\<^verbatim>\<open>include/gazer/ADT/Graph.h\<close>): the pointer graph, its invariant and the closed form of the
    removal operations.
  \<^item> GazerContext (\<^verbatim>\<open>src/Core/GazerContext.cpp\<close>): the variable table and the search for unused names.
  \<^item> GazerCfa (\<^verbatim>\<open>Automaton/Cfa.h\<close>, \<^verbatim>\<open>Automaton/Cfa.cpp\<close>): automata and automata systems; the invariant of all
    building operations by rule induction, and the removal of unreachable locations.
  \<^item> GazerPathCond (\<^verbatim>\<open>Automaton/CfaUtils.cpp\<close>): path conditions; they are true exactly on the paths of the
    automaton, with either builder and with or without predecessor tracking.
  \<^item> GazerDominators (\<^verbatim>\<open>Automaton/CfaUtils.cpp\<close>): the bit-set computation of common dominators and
    post-dominators gives the lowest and the highest one.
  \<^item> GazerInline: the loops that copy a called automaton into another one, for the two clients that do so;
    the locale \<open>rewriter\<close> of GazerRewrite is what they need of the expression rewriter.
  \<^item> GazerBmc, GazerBmcInline, GazerBmcGoal, GazerBmcCex (\<^verbatim>\<open>tools/gazer-bmc/Verifier\<close>, \<^verbatim>\<open>ADT/ScopedCache.h\<close>): the
    operations of the bounded model checker; inlining keeps the root consistent and topologically ordered and adds
    exactly the renamed copy; the goal and the removal of irrelevant locations; a model of a path
    condition yields a counterexample.
  \<^item> GazerBmcCheck (\<^verbatim>\<open>BoundedModelChecker.cpp\<close>, \<^verbatim>\<open>BmcTrace.cpp\<close>): the whole run of \<open>check()\<close>, with the solver, LLVM's
    iterators and the order of hash sets in the record \<open>bmc_env\<close>. GazerBmcUnroll: the loop that inlines
    the open calls ends although the automata may be recursive. GazerBmcSafe: the verdict of a run on
    a program without calls is right, from the input automaton to the reported error code.
  \<^item> GazerRecursive (\<^verbatim>\<open>Automaton/CallGraph.cpp\<close>, \<^verbatim>\<open>Automaton/RecursiveToCyclicCfa.cpp\<close>): the call graph and the
    transformation of tail recursion into loops; it ends unless tail-recursive automata call each other
    in a cycle.
  \<^item> GazerSExpr (\<^verbatim>\<open>src/Support/SExpr.cpp\<close>): the reader and printer of S-expressions, their round trip and the inputs
    on which they go wrong.
  \<^item> GazerTheta (\<^verbatim>\<open>tools/gazer-theta/lib\<close>): the printer of expressions and the generator that writes an automaton as a
    process of Theta. GazerThetaText: different expressions have different texts. GazerThetaSim: the names
    are valid and lead back to what they stand for, and the process and the automaton simulate each other.

  \<^bold>\<open>Loops and fuel.\<close> The walker, the name search, the inlining loops and the deletion of expressions are partial
  (\<open>partial_function\<close>, \<open>while_option\<close>) and proved to return, or shown not to where the code does not. The operand swap of \<open>foldBinaryExpr\<close> is given fuel \<open>3\<close>: after one swap the
  right operand is a literal, and a second swap happens only for two literals that are neither
  integers nor bit-vectors, for which the code recurses without end. Every other loop is structural.

  \<^bold>\<open>Not modelled.\<close> The interning of types, and array literals in the storage of expressions, which own other
  literals (the equality of pointers is assumed for both); the Z3 back end and the LLVM passes, which work on the data structures of
  third-party libraries; printing, command-line handling and I/O.
\<close>

end
